(* ===== verification/Prelude.thy ===== *)
theory Prelude
  imports Main "HOL-Library.Word" "HOL-Library.Monad_Syntax" "HOL-Library.Multiset"
begin

text \<open>
  Shared vocabulary of the development: addresses with a null pointer, the option monad as
  the model of code that may fault, C integers of a fixed width written as integers with
  an explicit wrap-around, and the stable insertion into a list kept in descending key
  order, which the task lists of the scheduler and the message queues share.
\<close>

named_theorems frame_simps \<open>what an operation leaves unchanged\<close>

named_theorems spec_simps \<open>list-level behaviour of the pointer operations\<close>

section \<open>Addresses\<close>

type_synonym addr = nat

abbreviation NULL :: addr where
  "NULL \<equiv> 0"

text \<open>A pointer is compared with \<open>NULL\<close>, never ordered against it.\<close>

declare neq0_conv [simp del]

text \<open>The first and the last element of a linked list, as the head and tail pointers see them.\<close>

definition first_ptr :: "addr list \<Rightarrow> addr" where
  "first_ptr xs = (case xs of [] \<Rightarrow> NULL | x # _ \<Rightarrow> x)"

definition last_ptr :: "addr list \<Rightarrow> addr" where
  "last_ptr xs = (if xs = [] then NULL else last xs)"

section \<open>Fixed-width signed integers\<close>

text \<open>Conversion to \<^verbatim>\<open>int16_t\<close> and \<^verbatim>\<open>int32_t\<close>: two's complement wrap-around.\<close>

definition s16 :: "int \<Rightarrow> int" where
  "s16 x = (x + 2 ^ 15) mod 2 ^ 16 - 2 ^ 15"

definition s32 :: "int \<Rightarrow> int" where
  "s32 x = (x + 2 ^ 31) mod 2 ^ 32 - 2 ^ 31"

section \<open>Insertion into a list in descending key order\<close>

text \<open>
  The place every prioritized list of the system puts a new element: behind all elements
  whose key is at least its own, before the first element with a smaller key.
\<close>

definition insert_desc :: "('a \<Rightarrow> 'k::linorder) \<Rightarrow> 'a \<Rightarrow> 'a list \<Rightarrow> 'a list" where
  "insert_desc key x xs =
     takeWhile (\<lambda>y. key x \<le> key y) xs @ x # dropWhile (\<lambda>y. key x \<le> key y) xs"

definition desc :: "('a \<Rightarrow> 'k::linorder) \<Rightarrow> 'a list \<Rightarrow> bool" where
  "desc key xs = sorted_wrt (\<lambda>x y. key y \<le> key x) xs"

section \<open>Lemmas on lists\<close>

lemma first_ptr_simps [simp]:
  "first_ptr [] = NULL" "first_ptr (x # xs) = x"
  by (simp_all add: first_ptr_def)

lemma last_ptr_simps [simp]:
  "last_ptr [] = NULL" "last_ptr (xs @ [x]) = x" "last_ptr [x] = x"
  "ys \<noteq> [] \<Longrightarrow> last_ptr (xs @ ys) = last_ptr ys"
  "ys \<noteq> [] \<Longrightarrow> last_ptr (x # ys) = last_ptr ys"
  by (simp_all add: last_ptr_def)

lemma first_ptr_append: "first_ptr (xs @ ys) = (if xs = [] then first_ptr ys else first_ptr xs)"
  by (cases xs) auto

lemma first_ptr_in: "xs \<noteq> [] \<Longrightarrow> first_ptr xs \<in> set xs"
  by (cases xs) auto

lemma last_ptr_in: "xs \<noteq> [] \<Longrightarrow> last_ptr xs \<in> set xs"
  by (simp add: last_ptr_def)

lemma first_ptr_NULL: "NULL \<notin> set xs \<Longrightarrow> first_ptr xs = NULL \<longleftrightarrow> xs = []"
  by (cases xs) auto

lemma last_ptr_NULL: "NULL \<notin> set xs \<Longrightarrow> last_ptr xs = NULL \<longleftrightarrow> xs = []"
  using last_ptr_in by (fastforce simp: last_ptr_def)

lemma last_ptr_butlast: "xs \<noteq> [] \<Longrightarrow> xs = butlast xs @ [last_ptr xs]"
  by (simp add: last_ptr_def)

lemma distinct_remove1_split:
  "distinct (xs @ x # ys) \<Longrightarrow> remove1 x (xs @ x # ys) = xs @ ys"
  by (simp add: remove1_append)

subsection \<open>Descending lists\<close>

lemma desc_simps [simp]:
  "desc key []"
  "desc key (x # xs) \<longleftrightarrow> (\<forall>y \<in> set xs. key y \<le> key x) \<and> desc key xs"
  by (simp_all add: desc_def)

lemma desc_append:
  "desc key (xs @ ys) \<longleftrightarrow>
     desc key xs \<and> desc key ys \<and> (\<forall>x \<in> set xs. \<forall>y \<in> set ys. key y \<le> key x)"
  by (induction xs) auto

lemma desc_take_drop:
  "desc key xs \<Longrightarrow> u \<in> set (take n xs) \<Longrightarrow> v \<in> set (drop n xs) \<Longrightarrow> key v \<le> key u"
  using desc_append [of key "take n xs" "drop n xs"] by simp

lemma in_set_take_distinct: "distinct xs \<Longrightarrow> u \<in> set (take n xs) \<longleftrightarrow> u \<in> set xs \<and> u \<notin> set (drop n xs)"
  using set_take_disj_set_drop_if_distinct [of xs n n] set_append [of "take n xs" "drop n xs"] by auto

lemma desc_cong: "(\<And>x. x \<in> set xs \<Longrightarrow> key x = key' x) \<Longrightarrow> desc key xs = desc key' xs"
  by (induction xs) auto

lemma desc_remove1: "desc key xs \<Longrightarrow> desc key (remove1 x xs)"
  by (induction xs) (auto dest: notin_set_remove1)

lemma desc_filter: "desc key xs \<Longrightarrow> desc key (filter P xs)"
  by (induction xs) auto

lemma desc_hd: "desc key (x # xs) \<Longrightarrow> y \<in> set (x # xs) \<Longrightarrow> key y \<le> key x"
  by auto

text \<open>Two elements in opposite order under two keys: one of the keys is not descending.\<close>

lemma desc_conflict:
  "desc k xs \<Longrightarrow> desc l xs \<Longrightarrow> t \<in> set xs \<Longrightarrow> u \<in> set xs \<Longrightarrow> k t < k u \<Longrightarrow> \<not> l u < l t"
  by (induction xs) (auto simp: not_less dest: leD)

lemma insert_desc_simps [simp]:
  "insert_desc key x [] = [x]"
  "insert_desc key x (y # ys) =
     (if key x \<le> key y then y # insert_desc key x ys else x # y # ys)"
  by (auto simp: insert_desc_def)

lemma set_insert_desc [simp]: "set (insert_desc key x xs) = insert x (set xs)"
  by (induction xs) auto

lemma mset_insert_desc [simp]: "mset (insert_desc key x xs) = add_mset x (mset xs)"
  by (induction xs) auto

lemma length_insert_desc [simp]: "length (insert_desc key x xs) = Suc (length xs)"
  by (induction xs) auto

lemma distinct_insert_desc [simp]:
  "distinct (insert_desc key x xs) \<longleftrightarrow> x \<notin> set xs \<and> distinct xs"
  by (induction xs) auto

lemma insert_desc_not_Nil [simp]: "insert_desc key x xs \<noteq> []"
  by (cases xs) auto

lemma desc_insert_desc: "desc key xs \<Longrightarrow> desc key (insert_desc key x xs)"
  by (induction xs) (auto intro: order_trans)

lemma insert_desc_cong:
  "(\<And>y. y \<in> insert x (set xs) \<Longrightarrow> key y = key' y) \<Longrightarrow> insert_desc key x xs = insert_desc key' x xs"
  by (induction xs) auto

lemma filter_insert_desc:
  "\<not> P x \<Longrightarrow> filter P (insert_desc key x xs) = filter P xs"
  by (induction xs) auto

lemma length_filter_insert_desc:
  "length (filter P (insert_desc key x xs)) = length (filter P xs) + (if P x then 1 else 0)"
  by (induction xs) auto

lemma length_filter_remove1:
  "x \<in> set xs \<Longrightarrow> length (filter P xs) = length (filter P (remove1 x xs)) + (if P x then 1 else 0)"
  by (induction xs) auto

text \<open>Among elements of equal key the new one comes last: the order is first in, first out.\<close>

lemma insert_desc_fifo:
  "desc key xs \<Longrightarrow>
   filter (\<lambda>y. key y = key x) (insert_desc key x xs) = filter (\<lambda>y. key y = key x) xs @ [x]"
proof (induction xs)
  case Nil
  then show ?case by simp
next
  case (Cons y ys)
  show ?case
  proof (cases "key x \<le> key y")
    case True
    with Cons show ?thesis by auto
  next
    case False
    with Cons.prems have "\<forall>z \<in> set (y # ys). key z \<noteq> key x" by auto
    then have "filter (\<lambda>z. key z = key x) (y # ys) = []"
      by (auto simp: filter_empty_conv)
    with False show ?thesis by auto
  qed
qed

lemma insert_desc_last:
  "desc key xs \<Longrightarrow> xs \<noteq> [] \<Longrightarrow> key (last xs) < key x \<Longrightarrow> last (insert_desc key x xs) = last xs"
  by (induction xs) (auto split: if_splits)

lemma insert_desc_hd:
  "hd (insert_desc key x xs) =
     (if xs = [] then x else if key x \<le> key (hd xs) then hd xs else x)"
  by (cases xs) auto

section \<open>Wrap-around\<close>

lemma s16_id: "- (2 ^ 15) \<le> x \<Longrightarrow> x < 2 ^ 15 \<Longrightarrow> s16 x = x"
  by (simp add: s16_def)

lemma s16_bounds: "- (2 ^ 15) \<le> s16 x \<and> s16 x < 2 ^ 15"
  using pos_mod_bound [of "2 ^ 16" "x + 2 ^ 15"] by (simp add: s16_def)

lemma s32_id: "- (2 ^ 31) \<le> x \<Longrightarrow> x < 2 ^ 31 \<Longrightarrow> s32 x = x"
  by (simp add: s32_def)

lemma s32_bounds: "- (2 ^ 31) \<le> s32 x \<and> s32 x < 2 ^ 31"
  using pos_mod_bound [of "2 ^ 32" "x + 2 ^ 31"] by (simp add: s32_def)

end
