(* ===== verification/Queues.thy ===== *)
theory Queues
  imports Prelude
begin

text \<open>
  The singly and doubly linked queues of \<^verbatim>\<open>nuttx/libs/libc/queue\<close> at the level of their
  pointers. A queue is its head and tail pointer; the link fields of the entries live in a
  memory from addresses to entries. An operation returns \<open>None\<close> where the code would read
  or write through a null or dangling pointer. Each operation is shown to implement the
  list operation it is named after and to touch only the entries of its own queue; the
  contract of a first-in first-out queue is a locale that both implementations satisfy.
\<close>

section \<open>Doubly linked queues\<close>

record dq_entry =
  flink :: addr
  blink :: addr

record dq_queue =
  dq_head :: addr
  dq_tail :: addr

type_synonym dqmem = "addr \<rightharpoonup> dq_entry"

text \<open>Reads and writes of the link fields through a pointer.\<close>

definition upd_flink :: "dqmem \<Rightarrow> addr \<Rightarrow> addr \<Rightarrow> dqmem" where
  "upd_flink m p v = m(p := map_option (\<lambda>e. e\<lparr>flink := v\<rparr>) (m p))"

definition upd_blink :: "dqmem \<Rightarrow> addr \<Rightarrow> addr \<Rightarrow> dqmem" where
  "upd_blink m p v = m(p := map_option (\<lambda>e. e\<lparr>blink := v\<rparr>) (m p))"

definition dq_valid :: "dqmem \<Rightarrow> addr \<Rightarrow> bool" where
  "dq_valid m p = (p \<noteq> NULL \<and> m p \<noteq> None)"

definition get_flink :: "dqmem \<Rightarrow> addr \<Rightarrow> addr option" where
  "get_flink m p = (if p = NULL then None else map_option flink (m p))"

definition get_blink :: "dqmem \<Rightarrow> addr \<Rightarrow> addr option" where
  "get_blink m p = (if p = NULL then None else map_option blink (m p))"

definition set_flink :: "dqmem \<Rightarrow> addr \<Rightarrow> addr \<Rightarrow> dqmem option" where
  "set_flink m p v = (if dq_valid m p then Some (upd_flink m p v) else None)"

definition set_blink :: "dqmem \<Rightarrow> addr \<Rightarrow> addr \<Rightarrow> dqmem option" where
  "set_blink m p v = (if dq_valid m p then Some (upd_blink m p v) else None)"

definition dq_init :: dq_queue where
  "dq_init = \<lparr>dq_head = NULL, dq_tail = NULL\<rparr>"

definition dq_empty :: "dq_queue \<Rightarrow> bool" where
  "dq_empty q = (dq_head q = NULL)"

definition dq_addfirst :: "addr \<Rightarrow> dq_queue \<Rightarrow> dqmem \<Rightarrow> (dq_queue \<times> dqmem) option" where
  "dq_addfirst node q m = do {
     m \<leftarrow> set_blink m node NULL;
     m \<leftarrow> set_flink m node (dq_head q);
     if dq_head q = NULL
     then Some (\<lparr>dq_head = node, dq_tail = node\<rparr>, m)
     else do {
       m \<leftarrow> set_blink m (dq_head q) node;
       Some (q\<lparr>dq_head := node\<rparr>, m)
     }
   }"

definition dq_addlast :: "addr \<Rightarrow> dq_queue \<Rightarrow> dqmem \<Rightarrow> (dq_queue \<times> dqmem) option" where
  "dq_addlast node q m = do {
     m \<leftarrow> set_flink m node NULL;
     m \<leftarrow> set_blink m node (dq_tail q);
     if dq_head q = NULL
     then Some (\<lparr>dq_head = node, dq_tail = node\<rparr>, m)
     else do {
       m \<leftarrow> set_flink m (dq_tail q) node;
       Some (q\<lparr>dq_tail := node\<rparr>, m)
     }
   }"

definition dq_addafter ::
  "addr \<Rightarrow> addr \<Rightarrow> dq_queue \<Rightarrow> dqmem \<Rightarrow> (dq_queue \<times> dqmem) option" where
  "dq_addafter prev node q m =
     (if dq_head q = NULL \<or> prev = dq_tail q
      then dq_addlast node q m
      else do {
        next \<leftarrow> get_flink m prev;
        m \<leftarrow> set_blink m node prev;
        m \<leftarrow> set_flink m node next;
        m \<leftarrow> set_blink m next node;
        m \<leftarrow> set_flink m prev node;
        Some (q, m)
      })"

definition dq_addbefore ::
  "addr \<Rightarrow> addr \<Rightarrow> dq_queue \<Rightarrow> dqmem \<Rightarrow> (dq_queue \<times> dqmem) option" where
  "dq_addbefore next node q m =
     (if dq_head q = NULL \<or> next = dq_head q
      then dq_addfirst node q m
      else do {
        prev \<leftarrow> get_blink m next;
        m \<leftarrow> set_flink m node next;
        m \<leftarrow> set_blink m node prev;
        m \<leftarrow> set_flink m prev node;
        m \<leftarrow> set_blink m next node;
        Some (q, m)
      })"

text \<open>\<^verbatim>\<open>dq_move\<close> and \<^verbatim>\<open>dq_cat\<close> return the new first and second queue.\<close>

definition dq_move :: "dq_queue \<Rightarrow> dq_queue \<Rightarrow> dq_queue \<times> dq_queue" where
  "dq_move q1 q2 = (dq_init, q2\<lparr>dq_head := dq_head q1, dq_tail := dq_tail q1\<rparr>)"

definition dq_cat ::
  "dq_queue \<Rightarrow> dq_queue \<Rightarrow> dqmem \<Rightarrow> (dq_queue \<times> dq_queue \<times> dqmem) option" where
  "dq_cat q1 q2 m =
     (if dq_empty q2 then (case dq_move q1 q2 of (q1, q2) \<Rightarrow> Some (q1, q2, m))
      else if \<not> dq_empty q1 then do {
        m \<leftarrow> set_flink m (dq_tail q2) (dq_head q1);
        m \<leftarrow> set_blink m (dq_head q1) (dq_tail q2);
        Some (dq_init, q2\<lparr>dq_tail := dq_tail q1\<rparr>, m)
      }
      else Some (q1, q2, m))"

definition dq_rem :: "addr \<Rightarrow> dq_queue \<Rightarrow> dqmem \<Rightarrow> (dq_queue \<times> dqmem) option" where
  "dq_rem node q m = do {
     prev \<leftarrow> get_blink m node;
     next \<leftarrow> get_flink m node;
     (q, m) \<leftarrow> (if prev = NULL then Some (q\<lparr>dq_head := next\<rparr>, m)
                else do { m \<leftarrow> set_flink m prev next; Some (q, m) });
     (q, m) \<leftarrow> (if next = NULL then Some (q\<lparr>dq_tail := prev\<rparr>, m)
                else do { m \<leftarrow> set_blink m next prev; Some (q, m) });
     m \<leftarrow> set_flink m node NULL;
     m \<leftarrow> set_blink m node NULL;
     Some (q, m)
   }"

definition dq_remfirst :: "dq_queue \<Rightarrow> dqmem \<Rightarrow> (addr \<times> dq_queue \<times> dqmem) option" where
  "dq_remfirst q m =
     (let ret = dq_head q in
      if ret = NULL then Some (ret, q, m)
      else do {
        next \<leftarrow> get_flink m ret;
        (q, m) \<leftarrow> (if next = NULL then Some (\<lparr>dq_head = NULL, dq_tail = NULL\<rparr>, m)
                   else do { m \<leftarrow> set_blink m next NULL; Some (q\<lparr>dq_head := next\<rparr>, m) });
        m \<leftarrow> set_flink m ret NULL;
        m \<leftarrow> set_blink m ret NULL;
        Some (ret, q, m)
      })"

definition dq_remlast :: "dq_queue \<Rightarrow> dqmem \<Rightarrow> (addr \<times> dq_queue \<times> dqmem) option" where
  "dq_remlast q m =
     (let ret = dq_tail q in
      if ret = NULL then Some (ret, q, m)
      else do {
        prev \<leftarrow> get_blink m ret;
        (q, m) \<leftarrow> (if prev = NULL then Some (\<lparr>dq_head = NULL, dq_tail = NULL\<rparr>, m)
                   else do { m \<leftarrow> set_flink m prev NULL; Some (q\<lparr>dq_tail := prev\<rparr>, m) });
        m \<leftarrow> set_flink m ret NULL;
        m \<leftarrow> set_blink m ret NULL;
        Some (ret, q, m)
      })"

text \<open>
  The counting loop. It does not end on a cyclic chain, so it is a partial function; the
  refinement theorem shows that it returns on every well-formed queue.
\<close>

partial_function (option) dq_count_from :: "dqmem \<Rightarrow> addr \<Rightarrow> nat \<Rightarrow> nat option" where
  "dq_count_from m node n =
     (if node = NULL then Some n
      else Option.bind (get_flink m node) (\<lambda>next. dq_count_from m next (Suc n)))"

declare dq_count_from.simps [code]

definition dq_count :: "dq_queue \<Rightarrow> dqmem \<Rightarrow> nat option" where
  "dq_count q m = dq_count_from m (dq_head q) 0"

section \<open>Singly linked queues\<close>

text \<open>An entry of a singly linked queue is its forward link.\<close>

type_synonym sqmem = "addr \<rightharpoonup> addr"

record sq_queue =
  sq_head :: addr
  sq_tail :: addr

definition sq_valid :: "sqmem \<Rightarrow> addr \<Rightarrow> bool" where
  "sq_valid m p = (p \<noteq> NULL \<and> m p \<noteq> None)"

definition sq_get :: "sqmem \<Rightarrow> addr \<Rightarrow> addr option" where
  "sq_get m p = (if p = NULL then None else m p)"

definition sq_set :: "sqmem \<Rightarrow> addr \<Rightarrow> addr \<Rightarrow> sqmem option" where
  "sq_set m p v = (if sq_valid m p then Some (m(p \<mapsto> v)) else None)"

definition sq_init :: sq_queue where
  "sq_init = \<lparr>sq_head = NULL, sq_tail = NULL\<rparr>"

definition sq_empty :: "sq_queue \<Rightarrow> bool" where
  "sq_empty q = (sq_head q = NULL)"

definition sq_addfirst :: "addr \<Rightarrow> sq_queue \<Rightarrow> sqmem \<Rightarrow> (sq_queue \<times> sqmem) option" where
  "sq_addfirst node q m = do {
     m \<leftarrow> sq_set m node (sq_head q);
     let q = (if sq_head q = NULL then q\<lparr>sq_tail := node\<rparr> else q);
     Some (q\<lparr>sq_head := node\<rparr>, m)
   }"

definition sq_addlast :: "addr \<Rightarrow> sq_queue \<Rightarrow> sqmem \<Rightarrow> (sq_queue \<times> sqmem) option" where
  "sq_addlast node q m = do {
     m \<leftarrow> sq_set m node NULL;
     if sq_head q = NULL
     then Some (\<lparr>sq_head = node, sq_tail = node\<rparr>, m)
     else do {
       m \<leftarrow> sq_set m (sq_tail q) node;
       Some (q\<lparr>sq_tail := node\<rparr>, m)
     }
   }"

definition sq_addafter ::
  "addr \<Rightarrow> addr \<Rightarrow> sq_queue \<Rightarrow> sqmem \<Rightarrow> (sq_queue \<times> sqmem) option" where
  "sq_addafter prev node q m =
     (if sq_head q = NULL \<or> prev = sq_tail q
      then sq_addlast node q m
      else do {
        next \<leftarrow> sq_get m prev;
        m \<leftarrow> sq_set m node next;
        m \<leftarrow> sq_set m prev node;
        Some (q, m)
      })"

definition sq_move :: "sq_queue \<Rightarrow> sq_queue \<Rightarrow> sq_queue \<times> sq_queue" where
  "sq_move q1 q2 = (sq_init, q2\<lparr>sq_head := sq_head q1, sq_tail := sq_tail q1\<rparr>)"

definition sq_cat ::
  "sq_queue \<Rightarrow> sq_queue \<Rightarrow> sqmem \<Rightarrow> (sq_queue \<times> sq_queue \<times> sqmem) option" where
  "sq_cat q1 q2 m =
     (if sq_empty q2 then (case sq_move q1 q2 of (q1, q2) \<Rightarrow> Some (q1, q2, m))
      else if \<not> sq_empty q1 then do {
        m \<leftarrow> sq_set m (sq_tail q2) (sq_head q1);
        Some (sq_init, q2\<lparr>sq_tail := sq_tail q1\<rparr>, m)
      }
      else Some (q1, q2, m))"

definition sq_remafter ::
  "addr \<Rightarrow> sq_queue \<Rightarrow> sqmem \<Rightarrow> (addr \<times> sq_queue \<times> sqmem) option" where
  "sq_remafter node q m = do {
     ret \<leftarrow> sq_get m node;
     if sq_head q \<noteq> NULL \<and> ret \<noteq> NULL then do {
       (q, m) \<leftarrow> (if sq_tail q = ret
                  then do { m \<leftarrow> sq_set m node NULL; Some (q\<lparr>sq_tail := node\<rparr>, m) }
                  else do { f \<leftarrow> sq_get m ret; m \<leftarrow> sq_set m node f; Some (q, m) });
       m \<leftarrow> sq_set m ret NULL;
       Some (ret, q, m)
     }
     else Some (ret, q, m)
   }"

text \<open>The search for the predecessor of an entry, shared by \<^verbatim>\<open>sq_rem\<close> and \<^verbatim>\<open>sq_remlast\<close>.\<close>

partial_function (option) sq_find_prev :: "sqmem \<Rightarrow> addr \<Rightarrow> addr \<Rightarrow> addr option" where
  "sq_find_prev m prev node =
     (if prev = NULL then Some NULL
      else Option.bind (sq_get m prev)
        (\<lambda>f. if f \<noteq> node then sq_find_prev m f node else Some prev))"

declare sq_find_prev.simps [code]

definition sq_rem :: "addr \<Rightarrow> sq_queue \<Rightarrow> sqmem \<Rightarrow> (sq_queue \<times> sqmem) option" where
  "sq_rem node q m =
     (if sq_head q \<noteq> NULL \<and> node \<noteq> NULL then
        (if node = sq_head q then do {
           f \<leftarrow> sq_get m node;
           let q = q\<lparr>sq_head := f\<rparr>;
           Some (if node = sq_tail q then q\<lparr>sq_tail := NULL\<rparr> else q, m)
         }
         else do {
           prev \<leftarrow> sq_find_prev m (sq_head q) node;
           if prev \<noteq> NULL then do { (_, q, m) \<leftarrow> sq_remafter prev q m; Some (q, m) }
           else Some (q, m)
         })
      else Some (q, m))"

definition sq_remfirst :: "sq_queue \<Rightarrow> sqmem \<Rightarrow> (addr \<times> sq_queue \<times> sqmem) option" where
  "sq_remfirst q m =
     (let ret = sq_head q in
      if ret = NULL then Some (ret, q, m)
      else do {
        f \<leftarrow> sq_get m ret;
        let q = q\<lparr>sq_head := f\<rparr>;
        let q = (if sq_head q = NULL then q\<lparr>sq_tail := NULL\<rparr> else q);
        m \<leftarrow> sq_set m ret NULL;
        Some (ret, q, m)
      })"

definition sq_remlast :: "sq_queue \<Rightarrow> sqmem \<Rightarrow> (addr \<times> sq_queue \<times> sqmem) option" where
  "sq_remlast q m =
     (let ret = sq_tail q in
      if ret = NULL then Some (ret, q, m)
      else do {
        (q, m) \<leftarrow> (if sq_head q = sq_tail q
                   then Some (\<lparr>sq_head = NULL, sq_tail = NULL\<rparr>, m)
                   else do {
                     prev \<leftarrow> sq_find_prev m (sq_head q) ret;
                     if prev \<noteq> NULL
                     then do { m \<leftarrow> sq_set m prev NULL; Some (q\<lparr>sq_tail := prev\<rparr>, m) }
                     else Some (q, m)
                   });
        m \<leftarrow> sq_set m ret NULL;
        Some (ret, q, m)
      })"

partial_function (option) sq_count_from :: "sqmem \<Rightarrow> addr \<Rightarrow> nat \<Rightarrow> nat option" where
  "sq_count_from m node n =
     (if node = NULL then Some n
      else Option.bind (sq_get m node) (\<lambda>next. sq_count_from m next (Suc n)))"

declare sq_count_from.simps [code]

definition sq_count :: "sq_queue \<Rightarrow> sqmem \<Rightarrow> nat option" where
  "sq_count q m = sq_count_from m (sq_head q) 0"

section \<open>Representation\<close>

text \<open>
  \<open>dq_seg m b p xs l n\<close>: from pointer \<open>p\<close>, whose predecessor is \<open>b\<close>, the entries \<open>xs\<close>
  are linked one behind the other, the last one is \<open>l\<close> (or \<open>b\<close> if there is none) and its
  successor is \<open>n\<close>.
\<close>

fun dq_seg :: "dqmem \<Rightarrow> addr \<Rightarrow> addr \<Rightarrow> addr list \<Rightarrow> addr \<Rightarrow> addr \<Rightarrow> bool" where
  "dq_seg m b p [] l n \<longleftrightarrow> p = n \<and> l = b"
| "dq_seg m b p (x # xs) l n \<longleftrightarrow>
     p = x \<and> x \<noteq> NULL \<and> (\<exists>e. m x = Some e \<and> blink e = b \<and> dq_seg m x (flink e) xs l n)"

lemma dq_seg_code [code]:
  "dq_seg m b p [] l n \<longleftrightarrow> p = n \<and> l = b"
  "dq_seg m b p (x # xs) l n \<longleftrightarrow>
     p = x \<and> x \<noteq> NULL \<and> (case m x of None \<Rightarrow> False | Some e \<Rightarrow> blink e = b \<and> dq_seg m x (flink e) xs l n)"
  by (auto split: option.split)

definition dq_rep :: "dqmem \<Rightarrow> dq_queue \<Rightarrow> addr list \<Rightarrow> bool" where
  "dq_rep m q xs \<longleftrightarrow> distinct xs \<and> dq_seg m NULL (dq_head q) xs (dq_tail q) NULL"

fun sq_path :: "sqmem \<Rightarrow> addr \<Rightarrow> addr list \<Rightarrow> addr \<Rightarrow> bool" where
  "sq_path m p [] n \<longleftrightarrow> p = n"
| "sq_path m p (x # xs) n \<longleftrightarrow> p = x \<and> x \<noteq> NULL \<and> (\<exists>f. m x = Some f \<and> sq_path m f xs n)"

definition sq_rep :: "sqmem \<Rightarrow> sq_queue \<Rightarrow> addr list \<Rightarrow> bool" where
  "sq_rep m q xs \<longleftrightarrow> distinct xs \<and> sq_path m (sq_head q) xs NULL \<and> sq_tail q = last_ptr xs"

text \<open>Two memories that agree on which addresses hold entries and, outside \<open>S\<close>, on the entries.\<close>

definition dq_frame :: "addr set \<Rightarrow> (addr \<rightharpoonup> 'e) \<Rightarrow> (addr \<rightharpoonup> 'e) \<Rightarrow> bool" where
  "dq_frame S m m' \<longleftrightarrow> dom m' = dom m \<and> (\<forall>y. y \<notin> S \<longrightarrow> m' y = m y)"

section \<open>Lemmas on link updates and segments\<close>

lemma upd_flink_simps [simp]:
  "upd_flink m p v y = (if y = p then map_option (\<lambda>e. e\<lparr>flink := v\<rparr>) (m p) else m y)"
  "dom (upd_flink m p v) = dom m"
  by (auto simp: upd_flink_def dom_def)

lemma upd_blink_simps [simp]:
  "upd_blink m p v y = (if y = p then map_option (\<lambda>e. e\<lparr>blink := v\<rparr>) (m p) else m y)"
  "dom (upd_blink m p v) = dom m"
  by (auto simp: upd_blink_def dom_def)

lemma dq_valid_upd [simp]:
  "dq_valid (upd_flink m p v) x = dq_valid m x"
  "dq_valid (upd_blink m p v) x = dq_valid m x"
  by (auto simp: dq_valid_def)

lemma dq_seg_append [simp]:
  "dq_seg m b p (xs @ ys) l n \<longleftrightarrow> (\<exists>k q. dq_seg m b p xs k q \<and> dq_seg m k q ys l n)"
  by (induction xs arbitrary: b p) auto

lemma dq_seg_frame:
  "(\<And>x. x \<in> set xs \<Longrightarrow> m' x = m x) \<Longrightarrow> dq_seg m' b p xs l n = dq_seg m b p xs l n"
  by (induction xs arbitrary: b p) auto

lemma dq_seg_upd_flink [simp]:
  "z \<notin> set xs \<Longrightarrow> dq_seg (upd_flink m z v) b p xs l n = dq_seg m b p xs l n"
  by (rule dq_seg_frame) auto

lemma dq_seg_upd_blink [simp]:
  "z \<notin> set xs \<Longrightarrow> dq_seg (upd_blink m z v) b p xs l n = dq_seg m b p xs l n"
  by (rule dq_seg_frame) auto

lemma dq_seg_ends:
  assumes "dq_seg m b p xs l n" "xs \<noteq> []"
  shows "p = first_ptr xs" "l = last_ptr xs"
proof -
  show "p = first_ptr xs" using assms by (cases xs) auto
  show "l = last_ptr xs" using assms
  proof (induction xs arbitrary: b p)
    case Nil
    then show ?case by simp
  next
    case (Cons x xs)
    then show ?case by (cases xs) auto
  qed
qed

lemma dq_seg_valid: "dq_seg m b p xs l n \<Longrightarrow> x \<in> set xs \<Longrightarrow> dq_valid m x"
  by (induction xs arbitrary: b p) (auto simp: dq_valid_def)

lemma dq_seg_NULL: "dq_seg m b p xs l n \<Longrightarrow> NULL \<notin> set xs"
  by (induction xs arbitrary: b p) auto

text \<open>Redirecting the successor of the last entry and the predecessor of the first one.\<close>

lemma dq_seg_set_next:
  assumes "dq_seg m b p xs l n" "xs \<noteq> []" "distinct xs"
  shows "dq_seg (upd_flink m l n') b p xs l n'"
proof -
  obtain ys where ys: "xs = ys @ [l]"
    using assms(1,2) dq_seg_ends(2) last_ptr_butlast by metis
  with assms(3) have "l \<notin> set ys" by simp
  with assms(1) show ?thesis unfolding ys by auto
qed

lemma dq_seg_set_prev:
  assumes "dq_seg m b p xs l n" "xs \<noteq> []" "distinct xs"
  shows "dq_seg (upd_blink m p b') b' p xs l n"
  using assms by (cases xs) auto

lemma dq_rep_distinct: "dq_rep m q xs \<Longrightarrow> distinct xs"
  by (simp add: dq_rep_def)

lemma dq_rep_NULL: "dq_rep m q xs \<Longrightarrow> NULL \<notin> set xs"
  by (auto simp: dq_rep_def dest: dq_seg_NULL)

lemma dq_rep_valid: "dq_rep m q xs \<Longrightarrow> x \<in> set xs \<Longrightarrow> dq_valid m x"
  by (auto simp: dq_rep_def dest: dq_seg_valid)

lemma dq_rep_head: "dq_rep m q xs \<Longrightarrow> dq_head q = first_ptr xs"
  by (cases xs) (auto simp: dq_rep_def)

lemma dq_rep_tail: "dq_rep m q xs \<Longrightarrow> dq_tail q = last_ptr xs"
  by (cases "xs = []") (auto simp: dq_rep_def dest: dq_seg_ends)

lemma dq_rep_head_NULL: "dq_rep m q xs \<Longrightarrow> dq_head q = NULL \<longleftrightarrow> xs = []"
  by (simp add: dq_rep_head first_ptr_NULL dq_rep_NULL)

lemma dq_rep_tail_NULL: "dq_rep m q xs \<Longrightarrow> dq_tail q = NULL \<longleftrightarrow> xs = []"
  by (simp add: dq_rep_tail last_ptr_NULL dq_rep_NULL)

lemma dq_rep_unique: "dq_rep m q xs \<Longrightarrow> dq_rep m q ys \<Longrightarrow> xs = ys"
proof -
  have "dq_seg m b p xs l NULL \<Longrightarrow> dq_seg m b p ys l' NULL \<Longrightarrow> xs = ys" for b p l l'
  proof (induction xs arbitrary: ys b p)
    case Nil
    then show ?case by (cases ys) auto
  next
    case (Cons x xs)
    then show ?case by (cases ys) auto
  qed
  then show "dq_rep m q xs \<Longrightarrow> dq_rep m q ys \<Longrightarrow> xs = ys" by (auto simp: dq_rep_def)
qed

lemma dq_rep_frame:
  "dq_frame S m m' \<Longrightarrow> set xs \<inter> S = {} \<Longrightarrow> dq_rep m' q xs = dq_rep m q xs"
  by (auto simp: dq_rep_def dq_frame_def intro!: dq_seg_frame arg_cong2 [where f = "(\<and>)"])

lemma dq_rep_Nil [simp]: "dq_rep m q [] \<longleftrightarrow> q = dq_init"
  by (cases q) (auto simp: dq_rep_def dq_init_def)

lemma dq_frame_refl [simp]: "dq_frame S m m"
  by (simp add: dq_frame_def)

lemma dq_frame_mono: "dq_frame S m m' \<Longrightarrow> S \<subseteq> T \<Longrightarrow> dq_frame T m m'"
  by (auto simp: dq_frame_def)

lemma dq_frame_trans: "dq_frame S m m' \<Longrightarrow> dq_frame S m' m'' \<Longrightarrow> dq_frame S m m''"
  by (auto simp: dq_frame_def)

lemma dq_frame_valid: "dq_frame S m m' \<Longrightarrow> dq_valid m' x = dq_valid m x"
  by (auto simp: dq_frame_def dq_valid_def dom_def)

lemma dq_frame_upd [simp]:
  "p \<in> S \<Longrightarrow> dq_frame S m (upd_flink m' p v) \<longleftrightarrow> dq_frame S m m'"
  "p \<in> S \<Longrightarrow> dq_frame S m (upd_blink m' p v) \<longleftrightarrow> dq_frame S m m'"
  by (auto simp: dq_frame_def)

text \<open>The neighbours of an entry inside a queue, as its link fields give them.\<close>

lemma dq_rep_split:
  assumes "dq_rep m q (as @ x # bs)"
  shows "get_flink m x = Some (first_ptr bs)" "get_blink m x = Some (last_ptr as)"
proof -
  obtain e l where e: "m x = Some e" "x \<noteq> NULL" "blink e = l"
    and as: "dq_seg m NULL (dq_head q) as l x"
    and bs: "dq_seg m x (flink e) bs (dq_tail q) NULL"
    using assms by (auto simp: dq_rep_def)
  have "l = last_ptr as" using as by (cases "as = []") (auto dest: dq_seg_ends)
  moreover have "flink e = first_ptr bs" using bs by (cases bs) auto
  ultimately show "get_flink m x = Some (first_ptr bs)" "get_blink m x = Some (last_ptr as)"
    using e by (auto simp: get_flink_def get_blink_def)
qed

text \<open>Linking a fresh entry between two halves of a queue.\<close>

lemma dq_seg_link:
  assumes "dq_seg m NULL h as l p" "dq_seg m l p bs t NULL"
    and "distinct (as @ bs)" "x \<notin> set (as @ bs)" "dq_valid m x"
    and m1: "m1 = upd_blink (upd_flink m x p) x l"
    and m2: "m2 = (if as = [] then m1 else upd_flink m1 l x)"
    and m3: "m3 = (if bs = [] then m2 else upd_blink m2 p x)"
  shows "dq_seg m3 NULL (if as = [] then x else h) (as @ x # bs) (if bs = [] then x else t) NULL"
proof -
  have l: "as \<noteq> [] \<Longrightarrow> l \<in> set as" and p: "bs \<noteq> [] \<Longrightarrow> p \<in> set bs"
    using assms(1,2) dq_seg_ends last_ptr_in first_ptr_in by metis+
  have np: "bs = [] \<Longrightarrow> p = NULL" and nl: "as = [] \<Longrightarrow> l = NULL"
    using assms(1,2) by auto
  have px: "p \<noteq> x" and lx: "l \<noteq> x"
    using l p np nl assms(4,5) by (auto simp: dq_valid_def)
  have "dq_seg m1 NULL h as l p" using assms(1,4) m1 by simp
  then have a2: "dq_seg m2 NULL (if as = [] then x else h) as l x"
    using dq_seg_set_next [of m1 NULL h as l p x] assms(3) m2 nl by auto
  have pas: "bs \<noteq> [] \<Longrightarrow> p \<notin> set as" and lbs: "as \<noteq> [] \<Longrightarrow> l \<notin> set bs"
    using p l assms(3) by (auto simp: disjoint_iff)
  have a3: "dq_seg m3 NULL (if as = [] then x else h) as l x"
    using a2 pas m3 by (cases "bs = []") simp_all
  have "dq_seg m1 l p bs t NULL" using assms(2,4) m1 by simp
  then have "dq_seg m2 l p bs t NULL" using lbs m2 by (cases "as = []") simp_all
  then have b3: "dq_seg m3 x p bs (if bs = [] then x else t) NULL"
    using dq_seg_set_prev [of m2 l p bs t NULL x] assms(3) m3 np by auto
  obtain e where "m x = Some e" using assms(5) by (auto simp: dq_valid_def)
  then have "m3 x = Some \<lparr>flink = p, blink = l\<rparr>"
    using m1 m2 m3 px lx by (cases e) auto
  with a3 b3 assms(5) show ?thesis by (auto simp: dq_valid_def)
qed

text \<open>Writes of the two link fields commute, which gives the link updates a normal form.\<close>

lemma upd_commute [simp]:
  "upd_flink (upd_blink m p v) r w = upd_blink (upd_flink m r w) p v"
  by (rule ext) (auto simp: option.map_comp comp_def intro!: map_option_cong)

lemma dq_rep_link:
  assumes rep: "dq_rep m q (as @ bs)" and x: "x \<notin> set (as @ bs)" "dq_valid m x"
    and m1: "m1 = upd_blink (upd_flink m x (first_ptr bs)) x (last_ptr as)"
    and m2: "m2 = (if as = [] then m1 else upd_flink m1 (last_ptr as) x)"
    and m3: "m3 = (if bs = [] then m2 else upd_blink m2 (first_ptr bs) x)"
    and q': "q' = \<lparr>dq_head = (if as = [] then x else dq_head q),
                   dq_tail = (if bs = [] then x else dq_tail q)\<rparr>"
  shows "dq_rep m3 q' (as @ x # bs) \<and> dq_frame (insert x (set (as @ bs))) m m3"
proof
  obtain l p where as: "dq_seg m NULL (dq_head q) as l p"
    and bs: "dq_seg m l p bs (dq_tail q) NULL" and d: "distinct (as @ bs)"
    using rep by (auto simp: dq_rep_def)
  have l: "l = last_ptr as" using as by (cases "as = []") (auto dest: dq_seg_ends)
  have p: "p = first_ptr bs" using bs by (cases "bs = []") (auto dest: dq_seg_ends)
  have "dq_seg m3 NULL (dq_head q') (as @ x # bs) (dq_tail q') NULL"
    using dq_seg_link [OF as bs d x m1 [folded l p] m2 [folded l] m3 [folded p]]
    by (simp only: q' dq_queue.simps)
  then show "dq_rep m3 q' (as @ x # bs)"
    using x d by (simp add: dq_rep_def)
  show "dq_frame (insert x (set (as @ bs))) m m3"
    using first_ptr_in [of bs] last_ptr_in [of as] by (auto simp: m1 m2 m3)
qed

text \<open>Unlinking an entry: its neighbours are joined and its own links cleared.\<close>

lemma dq_rep_unlink:
  assumes rep: "dq_rep m q (as @ x # bs)"
    and m1: "m1 = (if as = [] then m else upd_flink m (last_ptr as) (first_ptr bs))"
    and m2: "m2 = (if bs = [] then m1 else upd_blink m1 (first_ptr bs) (last_ptr as))"
    and m3: "m3 = upd_blink (upd_flink m2 x NULL) x NULL"
    and q': "q' = \<lparr>dq_head = (if as = [] then first_ptr bs else dq_head q),
                   dq_tail = (if bs = [] then last_ptr as else dq_tail q)\<rparr>"
  shows "dq_rep m3 q' (as @ bs) \<and> dq_frame (set (as @ x # bs)) m m3"
proof
  obtain l e where as: "dq_seg m NULL (dq_head q) as l x" and e: "m x = Some e"
    and bs: "dq_seg m x (flink e) bs (dq_tail q) NULL" and d: "distinct (as @ x # bs)"
    using rep by (auto simp: dq_rep_def)
  have l: "l = last_ptr as" using as by (cases "as = []") (auto dest: dq_seg_ends)
  have f: "flink e = first_ptr bs" using bs by (cases "bs = []") (auto dest: dq_seg_ends)
  have la: "as \<noteq> [] \<Longrightarrow> last_ptr as \<in> set as" and fb: "bs \<noteq> [] \<Longrightarrow> first_ptr bs \<in> set bs"
    by (simp_all add: last_ptr_in first_ptr_in)
  have nfb: "bs \<noteq> [] \<Longrightarrow> first_ptr bs \<notin> set as" and nla: "as \<noteq> [] \<Longrightarrow> last_ptr as \<notin> set bs"
    using d la fb by (auto simp: disjoint_iff)
  let ?h = "if as = [] then first_ptr bs else dq_head q"
  have "dq_seg m1 NULL ?h as (last_ptr as) (first_ptr bs)"
    using as d dq_seg_set_next [of m NULL "dq_head q" as l x "first_ptr bs"]
    by (cases "as = []") (simp_all add: m1 l)
  then have A: "dq_seg m3 NULL ?h as (last_ptr as) (first_ptr bs)"
    using nfb d by (cases "bs = []") (simp_all add: m3 m2)
  have "dq_seg m1 x (first_ptr bs) bs (dq_tail q) NULL"
    using bs nla by (cases "as = []") (simp_all add: m1 f)
  then have "dq_seg m2 (last_ptr as) (first_ptr bs) bs (dq_tail q') NULL"
    using d dq_seg_set_prev [of m1 x "first_ptr bs" bs "dq_tail q" NULL "last_ptr as"]
    by (cases "bs = []") (simp_all add: m2 q')
  then have "dq_seg m3 (last_ptr as) (first_ptr bs) bs (dq_tail q') NULL"
    using d by (simp add: m3)
  with A d show "dq_rep m3 q' (as @ bs)" by (auto simp: dq_rep_def q')
  show "dq_frame (set (as @ x # bs)) m m3" using la fb by (auto simp: m1 m2 m3)
qed

section \<open>The operations implement the list operations\<close>

lemma dq_queue_upd:
  "q\<lparr>dq_tail := v\<rparr> = \<lparr>dq_head = dq_head q, dq_tail = v\<rparr>"
  "q\<lparr>dq_head := v\<rparr> = \<lparr>dq_head = v, dq_tail = dq_tail q\<rparr>"
  by (cases q, simp)+

lemma dq_queue_eta [simp]: "\<lparr>dq_head = dq_head q, dq_tail = dq_tail q\<rparr> = q"
  by (cases q) simp

lemma dq_init_sel [simp]: "dq_head dq_init = NULL" "dq_tail dq_init = NULL"
  by (simp_all add: dq_init_def)

lemmas dq_op_simps = set_flink_def set_blink_def dq_queue_upd

lemma dq_addlast_spec:
  assumes "dq_rep m q xs" "node \<notin> set xs" "dq_valid m node"
  shows "\<exists>q' m'. dq_addlast node q m = Some (q', m') \<and> dq_rep m' q' (xs @ [node]) \<and>
           dq_frame (insert node (set xs)) m m'"
proof (cases "xs = []")
  case True
  with assms dq_rep_link [of m q "[]" "[]" node, OF _ _ assms(3) refl refl refl refl]
  show ?thesis by (simp add: dq_addlast_def dq_op_simps)
next
  case False
  then have "dq_valid m (last_ptr xs)" using dq_rep_valid [OF assms(1)] last_ptr_in by blast
  with False assms dq_rep_link [of m q xs "[]" node, OF _ _ assms(3) refl refl refl refl]
  show ?thesis
    by (simp add: dq_addlast_def dq_op_simps dq_rep_head_NULL dq_rep_tail)
qed

lemma dq_addfirst_spec:
  assumes "dq_rep m q xs" "node \<notin> set xs" "dq_valid m node"
  shows "\<exists>q' m'. dq_addfirst node q m = Some (q', m') \<and> dq_rep m' q' (node # xs) \<and>
           dq_frame (insert node (set xs)) m m'"
proof (cases "xs = []")
  case True
  with assms dq_rep_link [of m q "[]" "[]" node, OF _ _ assms(3) refl refl refl refl]
  show ?thesis by (simp add: dq_addfirst_def dq_op_simps)
next
  case False
  then have "dq_valid m (first_ptr xs)" using dq_rep_valid [OF assms(1)] first_ptr_in by blast
  with False assms dq_rep_link [of m q "[]" xs node, OF _ _ assms(3) refl refl refl refl]
  show ?thesis
    by (simp add: dq_addfirst_def dq_op_simps dq_rep_head_NULL flip: dq_rep_head)
qed

lemma dq_addafter_spec:
  assumes rep: "dq_rep m q (as @ prev # bs)" and x: "node \<notin> set (as @ prev # bs)" "dq_valid m node"
  shows "\<exists>q' m'. dq_addafter prev node q m = Some (q', m') \<and>
           dq_rep m' q' (as @ prev # node # bs) \<and>
           dq_frame (insert node (set (as @ prev # bs))) m m'"
proof (cases "bs = []")
  case True
  with rep have "prev = dq_tail q" by (simp add: dq_rep_tail)
  with True dq_addlast_spec [OF rep x] show ?thesis by (simp add: dq_addafter_def)
next
  case False
  have nt: "prev \<noteq> dq_tail q"
    using dq_rep_distinct [OF rep] last_ptr_in [OF False] False
    by (auto simp: dq_rep_tail [OF rep])
  have v: "dq_valid m prev" "dq_valid m (first_ptr bs)"
    using dq_rep_valid [OF rep] first_ptr_in [OF False] by auto
  have "dq_rep m q ((as @ [prev]) @ bs)" using rep by simp
  from dq_rep_link [OF this _ x(2) refl refl refl refl] x False nt v
  show ?thesis
    by (simp add: dq_addafter_def dq_op_simps dq_rep_head_NULL [OF rep] dq_rep_split [OF rep])
qed

lemma dq_addbefore_spec:
  assumes rep: "dq_rep m q (as @ next # bs)" and x: "node \<notin> set (as @ next # bs)" "dq_valid m node"
  shows "\<exists>q' m'. dq_addbefore next node q m = Some (q', m') \<and>
           dq_rep m' q' (as @ node # next # bs) \<and>
           dq_frame (insert node (set (as @ next # bs))) m m'"
proof (cases "as = []")
  case True
  with rep have "next = dq_head q" by (simp add: dq_rep_head)
  with True dq_addfirst_spec [OF rep x] show ?thesis by (simp add: dq_addbefore_def)
next
  case False
  have nh: "next \<noteq> dq_head q"
    using dq_rep_distinct [OF rep] first_ptr_in [OF False] False
    by (auto simp: dq_rep_head [OF rep] first_ptr_append)
  have v: "dq_valid m next" "dq_valid m (last_ptr as)"
    using dq_rep_valid [OF rep] last_ptr_in [OF False] by auto
  from dq_rep_link [OF rep _ x(2) refl refl refl refl] x False nh v
  show ?thesis
    by (simp add: dq_addbefore_def dq_op_simps dq_rep_head_NULL [OF rep] dq_rep_split [OF rep])
qed

lemma dq_rem_spec:
  assumes rep: "dq_rep m q (as @ node # bs)"
  shows "\<exists>q' m'. dq_rem node q m = Some (q', m') \<and> dq_rep m' q' (as @ bs) \<and>
           dq_frame (set (as @ node # bs)) m m' \<and> m' node = Some \<lparr>flink = NULL, blink = NULL\<rparr>"
proof -
  have n: "first_ptr bs = NULL \<longleftrightarrow> bs = []" "last_ptr as = NULL \<longleftrightarrow> as = []"
    using dq_rep_NULL [OF rep] by (simp_all add: first_ptr_NULL last_ptr_NULL)
  have v: "dq_valid m node" "as \<noteq> [] \<Longrightarrow> dq_valid m (last_ptr as)"
    "bs \<noteq> [] \<Longrightarrow> dq_valid m (first_ptr bs)"
    using dq_rep_valid [OF rep] first_ptr_in [of bs] last_ptr_in [of as] by auto
  have d: "bs \<noteq> [] \<Longrightarrow> first_ptr bs \<noteq> node" "as \<noteq> [] \<Longrightarrow> last_ptr as \<noteq> node"
    using dq_rep_distinct [OF rep] first_ptr_in [of bs] last_ptr_in [of as] by auto
  obtain e where e: "m node = Some e" using v(1) by (auto simp: dq_valid_def)
  note u = dq_rep_unlink [OF rep refl refl refl refl]
  show ?thesis
    using n v d e u
    by (cases "as = []"; cases "bs = []"; cases e)
      (simp_all add: dq_rem_def dq_op_simps dq_rep_split [OF rep])
qed

lemma dq_remfirst_spec:
  assumes rep: "dq_rep m q (node # bs)"
  shows "\<exists>q' m'. dq_remfirst q m = Some (node, q', m') \<and> dq_rep m' q' bs \<and>
           dq_frame (set (node # bs)) m m' \<and> m' node = Some \<lparr>flink = NULL, blink = NULL\<rparr>"
proof -
  have rep': "dq_rep m q ([] @ node # bs)" using rep by simp
  have n: "node \<noteq> NULL" "first_ptr bs = NULL \<longleftrightarrow> bs = []" "dq_head q = node"
    using dq_rep_NULL [OF rep] by (auto simp: first_ptr_NULL dq_rep_head [OF rep])
  have v: "dq_valid m node" "bs \<noteq> [] \<Longrightarrow> dq_valid m (first_ptr bs)"
    using dq_rep_valid [OF rep] first_ptr_in [of bs] by auto
  have d: "bs \<noteq> [] \<Longrightarrow> first_ptr bs \<noteq> node"
    using dq_rep_distinct [OF rep] first_ptr_in [of bs] by auto
  obtain e where e: "m node = Some e" using v(1) by (auto simp: dq_valid_def)
  show ?thesis
    using n v d e dq_rep_unlink [OF rep' refl refl refl refl]
    by (cases "bs = []"; cases e)
      (simp_all add: dq_remfirst_def dq_op_simps dq_rep_split [OF rep'])
qed

lemma dq_remlast_spec:
  assumes rep: "dq_rep m q (as @ [node])"
  shows "\<exists>q' m'. dq_remlast q m = Some (node, q', m') \<and> dq_rep m' q' as \<and>
           dq_frame (set (as @ [node])) m m' \<and> m' node = Some \<lparr>flink = NULL, blink = NULL\<rparr>"
proof -
  have n: "node \<noteq> NULL" "last_ptr as = NULL \<longleftrightarrow> as = []" "dq_tail q = node"
    using dq_rep_NULL [OF rep] by (auto simp: last_ptr_NULL dq_rep_tail [OF rep])
  have v: "dq_valid m node" "as \<noteq> [] \<Longrightarrow> dq_valid m (last_ptr as)"
    using dq_rep_valid [OF rep] last_ptr_in [of as] by auto
  have d: "as \<noteq> [] \<Longrightarrow> last_ptr as \<noteq> node"
    using dq_rep_distinct [OF rep] last_ptr_in [of as] by auto
  obtain e where e: "m node = Some e" using v(1) by (auto simp: dq_valid_def)
  show ?thesis
    using n v d e dq_rep_unlink [OF rep refl refl refl refl]
    by (cases "as = []"; cases e)
      (simp_all add: dq_remlast_def dq_op_simps dq_rep_split [OF rep])
qed

lemma dq_remfirst_empty: "dq_rep m q [] \<Longrightarrow> dq_remfirst q m = Some (NULL, q, m)"
  by (simp add: dq_remfirst_def)

lemma dq_remlast_empty: "dq_rep m q [] \<Longrightarrow> dq_remlast q m = Some (NULL, q, m)"
  by (simp add: dq_remlast_def)

lemma dq_cat_spec:
  assumes r1: "dq_rep m q1 xs" and r2: "dq_rep m q2 ys" and d: "set xs \<inter> set ys = {}"
  shows "\<exists>q1' q2' m'. dq_cat q1 q2 m = Some (q1', q2', m') \<and> dq_rep m' q1' [] \<and>
           dq_rep m' q2' (ys @ xs) \<and> dq_frame (set xs \<union> set ys) m m'"
proof -
  consider "ys = []" | "ys \<noteq> []" "xs = []" | "ys \<noteq> []" "xs \<noteq> []" by blast
  then show ?thesis
  proof cases
    case 1
    with r1 r2 show ?thesis
      by (simp add: dq_cat_def dq_move_def dq_empty_def dq_queue_upd)
  next
    case 2
    with r1 r2 show ?thesis
      by (simp add: dq_cat_def dq_empty_def dq_rep_head_NULL [OF r2])
  next
    case 3
    let ?m = "upd_blink (upd_flink m (last_ptr ys) (first_ptr xs)) (first_ptr xs) (last_ptr ys)"
    have i: "first_ptr xs \<in> set xs" "last_ptr ys \<in> set ys"
      using 3 by (simp_all add: first_ptr_in last_ptr_in)
    then have ni: "first_ptr xs \<notin> set ys" "last_ptr ys \<notin> set xs" using d by auto
    have v: "dq_valid m (first_ptr xs)" "dq_valid m (last_ptr ys)"
      using i dq_rep_valid r1 r2 by blast+
    have "dq_seg ?m NULL (dq_head q2) ys (last_ptr ys) (first_ptr xs)"
      using r2 3 dq_seg_set_next [of m NULL "dq_head q2" ys "dq_tail q2" NULL "first_ptr xs"]
      by (simp add: dq_rep_def ni dq_rep_tail [OF r2])
    moreover have "dq_seg ?m (last_ptr ys) (first_ptr xs) xs (dq_tail q1) NULL"
      using r1 3 ni dq_rep_head [OF r1]
      by (auto simp: dq_rep_def intro!: dq_seg_set_prev)
    ultimately have "dq_rep ?m \<lparr>dq_head = dq_head q2, dq_tail = dq_tail q1\<rparr> (ys @ xs)"
      using d dq_rep_distinct [OF r1] dq_rep_distinct [OF r2]
      by (auto simp: dq_rep_def)
    moreover have "first_ptr xs \<noteq> NULL" using i dq_rep_NULL [OF r1] by metis
    ultimately show ?thesis using 3 v i
      by (simp add: dq_cat_def dq_empty_def dq_op_simps dq_rep_head_NULL [OF r1]
          dq_rep_head_NULL [OF r2] dq_rep_head [OF r1] dq_rep_tail [OF r2])
  qed
qed

lemma dq_count_seg: "dq_seg m b p xs l NULL \<Longrightarrow> dq_count_from m p n = Some (n + length xs)"
proof (induction xs arbitrary: b p n)
  case Nil
  then show ?case by (simp add: dq_count_from.simps)
next
  case (Cons x xs)
  then show ?case
    by (subst dq_count_from.simps) (auto simp: get_flink_def)
qed

lemma dq_count_spec: "dq_rep m q xs \<Longrightarrow> dq_count q m = Some (length xs)"
  by (auto simp: dq_rep_def dq_count_def dest: dq_count_seg [where n = 0])

section \<open>The singly linked operations implement the list operations\<close>

lemma sq_path_append [simp]:
  "sq_path m p (xs @ ys) n \<longleftrightarrow> (\<exists>q. sq_path m p xs q \<and> sq_path m q ys n)"
  by (induction xs arbitrary: p) auto

lemma sq_path_frame:
  "(\<And>x. x \<in> set xs \<Longrightarrow> m' x = m x) \<Longrightarrow> sq_path m' p xs n = sq_path m p xs n"
  by (induction xs arbitrary: p) auto

lemma sq_path_upd [simp]: "z \<notin> set xs \<Longrightarrow> sq_path (m(z := v)) p xs n = sq_path m p xs n"
  by (rule sq_path_frame) auto

lemma sq_path_first: "sq_path m p xs NULL \<Longrightarrow> p = first_ptr xs"
  by (cases xs) auto

lemma sq_path_valid: "sq_path m p xs n \<Longrightarrow> x \<in> set xs \<Longrightarrow> sq_valid m x"
  by (induction xs arbitrary: p) (auto simp: sq_valid_def)

lemma sq_rep_distinct: "sq_rep m q xs \<Longrightarrow> distinct xs"
  by (simp add: sq_rep_def)

lemma sq_rep_valid: "sq_rep m q xs \<Longrightarrow> x \<in> set xs \<Longrightarrow> sq_valid m x"
  by (auto simp: sq_rep_def dest: sq_path_valid)

lemma sq_rep_NULL: "sq_rep m q xs \<Longrightarrow> NULL \<notin> set xs"
  by (auto dest: sq_rep_valid simp: sq_valid_def)

lemma sq_rep_head: "sq_rep m q xs \<Longrightarrow> sq_head q = first_ptr xs"
  by (auto simp: sq_rep_def dest: sq_path_first)

lemma sq_rep_tail: "sq_rep m q xs \<Longrightarrow> sq_tail q = last_ptr xs"
  by (simp add: sq_rep_def)

lemma sq_rep_head_NULL: "sq_rep m q xs \<Longrightarrow> sq_head q = NULL \<longleftrightarrow> xs = []"
  by (simp add: sq_rep_head first_ptr_NULL sq_rep_NULL)

lemma sq_rep_Nil [simp]: "sq_rep m q [] \<longleftrightarrow> q = sq_init"
  by (cases q) (auto simp: sq_rep_def sq_init_def)

lemma sq_rep_frame:
  "dq_frame S m m' \<Longrightarrow> set xs \<inter> S = {} \<Longrightarrow> sq_rep m' q xs = sq_rep m q xs"
  by (auto simp: sq_rep_def dq_frame_def intro!: sq_path_frame arg_cong2 [where f = "(\<and>)"])

lemma sq_rep_split:
  "sq_rep m q (as @ x # bs) \<Longrightarrow> m x = Some (first_ptr bs) \<and> x \<noteq> NULL"
  by (auto simp: sq_rep_def dest: sq_path_first)

lemma sq_path_set_next:
  assumes "sq_path m p (ys @ [l]) n" "distinct (ys @ [l])"
  shows "sq_path (m(l \<mapsto> n')) p (ys @ [l]) n'"
  using assms by auto

lemma sq_frame_upd [simp]:
  "p \<in> S \<Longrightarrow> m' p \<noteq> None \<Longrightarrow> dq_frame S m (m'(p \<mapsto> v)) \<longleftrightarrow> dq_frame S m m'"
  by (auto simp: dq_frame_def)

lemma sq_rep_link:
  assumes rep: "sq_rep m q (as @ bs)" and x: "x \<notin> set (as @ bs)" "sq_valid m x"
    and m1: "m1 = m(x \<mapsto> first_ptr bs)"
    and m2: "m2 = (if as = [] then m1 else m1(last_ptr as \<mapsto> x))"
    and q': "q' = \<lparr>sq_head = (if as = [] then x else sq_head q),
                   sq_tail = (if bs = [] then x else sq_tail q)\<rparr>"
  shows "sq_rep m2 q' (as @ x # bs) \<and> dq_frame (insert x (set (as @ bs))) m m2"
proof
  obtain p where as: "sq_path m (sq_head q) as p" and bs: "sq_path m p bs NULL"
    and d: "distinct (as @ bs)" and t: "sq_tail q = last_ptr (as @ bs)"
    using rep by (auto simp: sq_rep_def)
  have p: "p = first_ptr bs" using bs by (rule sq_path_first)
  have tl: "sq_tail q' = last_ptr (as @ x # bs)" using t by (simp add: q')
  have "sq_path m2 (sq_head q') as x \<and> sq_path m2 x (x # bs) NULL"
  proof (cases "as = []")
    case True
    then show ?thesis using bs x p by (auto simp: q' m2 m1 sq_valid_def)
  next
    case False
    then obtain ys l where ys: "as = ys @ [l]" by (metis rev_exhaust)
    with d x have "l \<notin> set bs" "l \<noteq> x" by auto
    then show ?thesis
      using as bs x p d sq_path_set_next [of m1 "sq_head q" ys l p x]
      by (auto simp: q' m2 m1 ys sq_valid_def)
  qed
  with d x tl show "sq_rep m2 q' (as @ x # bs)" by (auto simp: sq_rep_def)
  have "as \<noteq> [] \<Longrightarrow> last_ptr as \<in> set as \<and> m (last_ptr as) \<noteq> None"
    using sq_rep_valid [OF rep] last_ptr_in [of as] by (auto simp: sq_valid_def)
  with x show "dq_frame (insert x (set (as @ bs))) m m2"
    by (auto simp: m1 m2 dq_frame_def sq_valid_def)
qed

lemma sq_queue_upd:
  "q\<lparr>sq_tail := v\<rparr> = \<lparr>sq_head = sq_head q, sq_tail = v\<rparr>"
  "q\<lparr>sq_head := v\<rparr> = \<lparr>sq_head = v, sq_tail = sq_tail q\<rparr>"
  by (cases q, simp)+

lemma sq_queue_eta [simp]: "\<lparr>sq_head = sq_head q, sq_tail = sq_tail q\<rparr> = q"
  by (cases q) simp

lemma sq_init_sel [simp]: "sq_head sq_init = NULL" "sq_tail sq_init = NULL"
  by (simp_all add: sq_init_def)

lemma sq_valid_upd [simp]: "sq_valid (m(p \<mapsto> v)) x = (sq_valid m x \<or> (x = p \<and> p \<noteq> NULL))"
  by (auto simp: sq_valid_def)

lemmas sq_op_simps = sq_set_def sq_get_def sq_queue_upd

lemma sq_addfirst_spec:
  assumes rep: "sq_rep m q xs" and x: "node \<notin> set xs" "sq_valid m node"
  shows "\<exists>q' m'. sq_addfirst node q m = Some (q', m') \<and> sq_rep m' q' (node # xs) \<and>
           dq_frame (insert node (set xs)) m m'"
  using sq_rep_link [of m q "[]" xs node, OF _ _ x(2) refl refl refl] rep x
    sq_rep_head_NULL [OF rep]
  by (cases "xs = []") (simp_all add: sq_addfirst_def sq_op_simps flip: sq_rep_head)

lemma sq_addlast_spec:
  assumes rep: "sq_rep m q xs" and x: "node \<notin> set xs" "sq_valid m node"
  shows "\<exists>q' m'. sq_addlast node q m = Some (q', m') \<and> sq_rep m' q' (xs @ [node]) \<and>
           dq_frame (insert node (set xs)) m m'"
  using sq_rep_link [of m q xs "[]" node, OF _ _ x(2) refl refl refl] rep x
    sq_rep_head_NULL [OF rep] sq_rep_valid [OF rep last_ptr_in]
  by (cases "xs = []") (simp_all add: sq_addlast_def sq_op_simps sq_rep_tail)

lemma sq_addafter_spec:
  assumes rep: "sq_rep m q (as @ prev # bs)" and x: "node \<notin> set (as @ prev # bs)" "sq_valid m node"
  shows "\<exists>q' m'. sq_addafter prev node q m = Some (q', m') \<and>
           sq_rep m' q' (as @ prev # node # bs) \<and>
           dq_frame (insert node (set (as @ prev # bs))) m m'"
proof (cases "bs = []")
  case True
  with rep have "prev = sq_tail q" by (simp add: sq_rep_tail)
  with True sq_addlast_spec [OF rep x] show ?thesis by (simp add: sq_addafter_def)
next
  case False
  have nt: "prev \<noteq> sq_tail q"
    using sq_rep_distinct [OF rep] last_ptr_in [OF False] False
    by (auto simp: sq_rep_tail [OF rep])
  have rep': "sq_rep m q ((as @ [prev]) @ bs)" using rep by simp
  show ?thesis
    using sq_rep_link [OF rep' _ x(2) refl refl refl] x False nt
      sq_rep_split [OF rep] sq_rep_valid [OF rep, of prev]
    by (simp add: sq_addafter_def sq_op_simps sq_rep_head_NULL [OF rep])
qed

lemma sq_remfirst_spec:
  assumes rep: "sq_rep m q (node # bs)"
  shows "\<exists>q' m'. sq_remfirst q m = Some (node, q', m') \<and> sq_rep m' q' bs \<and>
           dq_frame (set (node # bs)) m m' \<and> m' node = Some NULL"
proof -
  have h: "sq_head q = node" "m node = Some (first_ptr bs)" "node \<noteq> NULL"
    using sq_rep_head [OF rep] sq_rep_split [of m q "[]" node bs] rep by auto
  have n: "first_ptr bs = NULL \<longleftrightarrow> bs = []"
    using sq_rep_NULL [OF rep] by (simp add: first_ptr_NULL)
  let ?q = "\<lparr>sq_head = first_ptr bs, sq_tail = last_ptr bs\<rparr>"
  have "sq_rep (m(node \<mapsto> NULL)) ?q bs"
    using rep h by (auto simp: sq_rep_def)
  with h n sq_rep_tail [OF rep] show ?thesis
    by (cases "bs = []") (simp_all add: sq_remfirst_def sq_op_simps sq_valid_def)
qed

lemma sq_remfirst_empty: "sq_rep m q [] \<Longrightarrow> sq_remfirst q m = Some (NULL, q, m)"
  by (simp add: sq_remfirst_def)

lemma sq_remafter_spec:
  assumes rep: "sq_rep m q (as @ node # x # bs)"
  shows "\<exists>q' m'. sq_remafter node q m = Some (x, q', m') \<and> sq_rep m' q' (as @ node # bs) \<and>
           dq_frame (set (as @ node # x # bs)) m m' \<and> m' x = Some NULL"
proof -
  have h: "m node = Some x" "node \<noteq> NULL" "m x = Some (first_ptr bs)" "x \<noteq> NULL"
    using sq_rep_split [OF rep] sq_rep_split [of m q "as @ [node]" x bs] rep by auto
  have d: "distinct (as @ node # x # bs)" using rep by (rule sq_rep_distinct)
  have t: "sq_tail q = x \<longleftrightarrow> bs = []"
    using d last_ptr_in [of bs] by (cases "bs = []") (auto simp: sq_rep_tail [OF rep])
  let ?q = "\<lparr>sq_head = sq_head q, sq_tail = last_ptr (node # bs)\<rparr>"
  have "sq_rep (m(node \<mapsto> first_ptr bs, x \<mapsto> NULL)) ?q (as @ node # bs)"
    using rep h d by (auto simp: sq_rep_def dest: sq_path_first)
  moreover have "bs \<noteq> [] \<Longrightarrow> ?q = q" using sq_rep_tail [OF rep] by (cases q) simp
  ultimately show ?thesis using h t d sq_rep_head_NULL [OF rep]
    by (cases "bs = []") (simp_all add: sq_remafter_def sq_op_simps sq_valid_def)
qed

lemma sq_find_prev_path:
  "sq_path m p (as @ x # node # bs) n \<Longrightarrow> node \<notin> set as \<Longrightarrow> node \<noteq> x \<Longrightarrow>
   sq_find_prev m p node = Some x"
proof (induction as arbitrary: p)
  case Nil
  then show ?case by (auto simp: sq_find_prev.simps sq_get_def)
next
  case (Cons a as)
  then obtain f where f: "p = a" "a \<noteq> NULL" "m a = Some f" "sq_path m f (as @ x # node # bs) n"
    by auto
  then have "f \<noteq> node" using Cons.prems by (cases as) auto
  with f Cons show ?case by (subst sq_find_prev.simps) (simp add: sq_get_def)
qed

lemma sq_rem_spec:
  assumes rep: "sq_rep m q (as @ node # bs)"
  shows "\<exists>q' m'. sq_rem node q m = Some (q', m') \<and> sq_rep m' q' (as @ bs) \<and>
           dq_frame (set (as @ node # bs)) m m'"
proof (cases "as = []")
  case True
  then have h: "sq_head q = node" "m node = Some (first_ptr bs)" "node \<noteq> NULL"
    using sq_rep_head [OF rep] sq_rep_split [OF rep] by auto
  have t: "sq_tail q = node \<longleftrightarrow> bs = []"
    using sq_rep_distinct [OF rep] last_ptr_in [of bs] True
    by (cases "bs = []") (auto simp: sq_rep_tail [OF rep])
  have "sq_rep m \<lparr>sq_head = first_ptr bs, sq_tail = last_ptr bs\<rparr> bs"
    using rep h True by (auto simp: sq_rep_def)
  with True h t sq_rep_tail [OF rep] show ?thesis
    by (cases "bs = []") (simp_all add: sq_rem_def sq_op_simps)
next
  case False
  then obtain ys x where ys: "as = ys @ [x]" by (metis rev_exhaust)
  have rep': "sq_rep m q (ys @ x # node # bs)" using rep ys by simp
  have d: "distinct (ys @ x # node # bs)" using rep' by (rule sq_rep_distinct)
  have "sq_find_prev m (sq_head q) node = Some x"
    using rep' d by (intro sq_find_prev_path [where as = ys]) (auto simp: sq_rep_def)
  moreover have "sq_head q \<noteq> NULL" "sq_head q \<noteq> node" "node \<noteq> NULL" "x \<noteq> NULL"
    using d sq_rep_NULL [OF rep'] sq_rep_head [OF rep']
    by (cases ys; auto)+
  ultimately show ?thesis
    using sq_remafter_spec [OF rep'] by (auto simp: sq_rem_def ys)
qed

lemma sq_remlast_spec:
  assumes rep: "sq_rep m q (as @ [node])"
  shows "\<exists>q' m'. sq_remlast q m = Some (node, q', m') \<and> sq_rep m' q' as \<and>
           dq_frame (set (as @ [node])) m m' \<and> m' node = Some NULL"
proof (cases "as = []")
  case True
  then show ?thesis
    using rep sq_rep_split [OF rep] sq_rep_head [OF rep] sq_rep_tail [OF rep]
    by (simp add: sq_remlast_def sq_op_simps sq_valid_def sq_init_def)
next
  case False
  then obtain ys x where ys: "as = ys @ [x]" by (metis rev_exhaust)
  have rep': "sq_rep m q (ys @ x # [node])" using rep ys by simp
  have d: "distinct (ys @ x # [node])" using rep' by (rule sq_rep_distinct)
  have f: "sq_find_prev m (sq_head q) node = Some x"
    using rep' d by (intro sq_find_prev_path [where as = ys and bs = "[]"]) (auto simp: sq_rep_def)
  have n: "sq_head q \<noteq> node" "node \<noteq> NULL" "x \<noteq> NULL"
    using d sq_rep_NULL [OF rep'] sq_rep_head [OF rep'] by (cases ys; auto)+
  have "sq_rep (m(x \<mapsto> NULL, node \<mapsto> NULL)) \<lparr>sq_head = sq_head q, sq_tail = x\<rparr> as"
    using rep' d ys by (auto simp: sq_rep_def)
  then show ?thesis
    using f n ys sq_rep_tail [OF rep] sq_rep_valid [OF rep', of x] sq_rep_valid [OF rep', of node]
    by (simp add: sq_remlast_def sq_op_simps sq_valid_def)
qed

lemma sq_remlast_empty: "sq_rep m q [] \<Longrightarrow> sq_remlast q m = Some (NULL, q, m)"
  by (simp add: sq_remlast_def)

lemma sq_cat_spec:
  assumes r1: "sq_rep m q1 xs" and r2: "sq_rep m q2 ys" and d: "set xs \<inter> set ys = {}"
  shows "\<exists>q1' q2' m'. sq_cat q1 q2 m = Some (q1', q2', m') \<and> sq_rep m' q1' [] \<and>
           sq_rep m' q2' (ys @ xs) \<and> dq_frame (set xs \<union> set ys) m m'"
proof -
  consider "ys = []" | "ys \<noteq> []" "xs = []" | "ys \<noteq> []" "xs \<noteq> []" by blast
  then show ?thesis
  proof cases
    case 1
    with r1 r2 show ?thesis by (simp add: sq_cat_def sq_move_def sq_empty_def sq_queue_upd)
  next
    case 2
    with r1 r2 show ?thesis by (simp add: sq_cat_def sq_empty_def sq_rep_head_NULL [OF r2])
  next
    case 3
    then obtain zs l where l: "ys = zs @ [l]" by (metis rev_exhaust)
    have v: "sq_valid m l" "l \<notin> set xs" using sq_rep_valid [OF r2] d l by auto
    have "sq_path (m(l \<mapsto> first_ptr xs)) (sq_head q2) (zs @ [l]) (first_ptr xs)"
      using r2 unfolding l by (intro sq_path_set_next [where n = NULL]) (auto simp: sq_rep_def)
    then have "sq_rep (m(l \<mapsto> first_ptr xs)) \<lparr>sq_head = sq_head q2, sq_tail = sq_tail q1\<rparr> (ys @ xs)"
      using r1 r2 d v 3 l sq_rep_head [OF r1] by (auto simp: sq_rep_def)
    moreover have "dq_frame (set xs \<union> set ys) m (m(l \<mapsto> first_ptr xs))"
      using v l by (simp add: sq_valid_def)
    moreover have "sq_tail q2 = l" using sq_rep_tail [OF r2] l by simp
    ultimately show ?thesis
      using 3 v sq_rep_head_NULL [OF r1] sq_rep_head_NULL [OF r2] sq_rep_head [OF r1]
      by (simp add: sq_cat_def sq_empty_def sq_op_simps)
  qed
qed

lemma sq_count_path: "sq_path m p xs NULL \<Longrightarrow> sq_count_from m p n = Some (n + length xs)"
proof (induction xs arbitrary: p n)
  case Nil
  then show ?case by (simp add: sq_count_from.simps)
next
  case (Cons x xs)
  then show ?case by (subst sq_count_from.simps) (auto simp: sq_get_def)
qed

lemma sq_count_spec: "sq_rep m q xs \<Longrightarrow> sq_count q m = Some (length xs)"
  by (auto simp: sq_rep_def sq_count_def dest: sq_count_path [where n = 0])

section \<open>The contract of a first-in first-out queue\<close>

text \<open>Adding a sequence of entries at the tail, and taking a number of entries from the head.\<close>

fun add_all :: "(addr \<Rightarrow> 'q \<Rightarrow> 'm \<Rightarrow> ('q \<times> 'm) option) \<Rightarrow> addr list \<Rightarrow> 'q \<Rightarrow> 'm \<Rightarrow> ('q \<times> 'm) option" where
  "add_all add [] q m = Some (q, m)"
| "add_all add (x # xs) q m = do { (q, m) \<leftarrow> add x q m; add_all add xs q m }"

fun take_n :: "('q \<Rightarrow> 'm \<Rightarrow> (addr \<times> 'q \<times> 'm) option) \<Rightarrow> nat \<Rightarrow> 'q \<Rightarrow> 'm \<Rightarrow>
    (addr list \<times> 'q \<times> 'm) option" where
  "take_n rem 0 q m = Some ([], q, m)"
| "take_n rem (Suc n) q m = do {
     (x, q, m) \<leftarrow> rem q m;
     (xs, q, m) \<leftarrow> take_n rem n q m;
     Some (x # xs, q, m)
   }"

text \<open>
  What a client of either queue relies on: adding at the tail and removing at the head
  succeed on a well-formed queue, act on the represented list, leave every other entry
  alone and keep the entries valid.
\<close>

locale linked_queue =
  fixes rep :: "'m \<Rightarrow> 'q \<Rightarrow> addr list \<Rightarrow> bool"
    and valid :: "'m \<Rightarrow> addr \<Rightarrow> bool"
    and addlast :: "addr \<Rightarrow> 'q \<Rightarrow> 'm \<Rightarrow> ('q \<times> 'm) option"
    and remfirst :: "'q \<Rightarrow> 'm \<Rightarrow> (addr \<times> 'q \<times> 'm) option"
  assumes addlast_rep: "rep m q xs \<Longrightarrow> node \<notin> set xs \<Longrightarrow> valid m node \<Longrightarrow>
      \<exists>q' m'. addlast node q m = Some (q', m') \<and> rep m' q' (xs @ [node]) \<and>
        (\<forall>x. valid m' x = valid m x)"
    and remfirst_rep: "rep m q (node # xs) \<Longrightarrow>
      \<exists>q' m'. remfirst q m = Some (node, q', m') \<and> rep m' q' xs \<and>
        (\<forall>x. valid m' x = valid m x)"
    and remfirst_nil: "rep m q [] \<Longrightarrow> remfirst q m = Some (NULL, q, m)"
begin

lemma addlast_all_rep:
  "rep m q xs \<Longrightarrow> distinct (xs @ ys) \<Longrightarrow> \<forall>y \<in> set ys. valid m y \<Longrightarrow>
   \<exists>q' m'. add_all addlast ys q m = Some (q', m') \<and> rep m' q' (xs @ ys)"
proof (induction ys arbitrary: xs q m)
  case Nil
  then show ?case by simp
next
  case (Cons y ys)
  then obtain q1 m1 where "addlast y q m = Some (q1, m1)" "rep m1 q1 (xs @ [y])"
    "\<forall>x. valid m1 x = valid m x"
    using addlast_rep [of m q xs y] by auto
  with Cons.IH [of m1 q1 "xs @ [y]"] Cons.prems show ?case by auto
qed

lemma remfirst_n_rep:
  "rep m q (xs @ ys) \<Longrightarrow> \<exists>q' m'. take_n remfirst (length xs) q m = Some (xs, q', m') \<and> rep m' q' ys"
proof (induction xs arbitrary: q m)
  case Nil
  then show ?case by simp
next
  case (Cons x xs)
  then obtain q1 m1 where r: "remfirst q m = Some (x, q1, m1)" "rep m1 q1 (xs @ ys)"
    using remfirst_rep [of m q x "xs @ ys"] by auto
  from Cons.IH [OF r(2)] r(1) show ?case by auto
qed

theorem fifo:
  assumes "rep m q []" "distinct ys" "\<forall>y \<in> set ys. valid m y"
  shows "\<exists>q1 m1 q2 m2. add_all addlast ys q m = Some (q1, m1) \<and>
           take_n remfirst (length ys) q1 m1 = Some (ys, q2, m2) \<and> rep m2 q2 []"
  using addlast_all_rep [of m q "[]" ys] remfirst_n_rep [of _ _ ys "[]"] assms by fastforce

end

interpretation dq: linked_queue dq_rep dq_valid dq_addlast dq_remfirst
proof unfold_locales
  fix m q xs node
  assume "dq_rep m q xs" "node \<notin> set xs" "dq_valid m node"
  then show "\<exists>q' m'. dq_addlast node q m = Some (q', m') \<and> dq_rep m' q' (xs @ [node]) \<and>
      (\<forall>x. dq_valid m' x = dq_valid m x)"
    using dq_addlast_spec dq_frame_valid by blast
next
  fix m q xs node
  assume "dq_rep m q (node # xs)"
  then show "\<exists>q' m'. dq_remfirst q m = Some (node, q', m') \<and> dq_rep m' q' xs \<and>
      (\<forall>x. dq_valid m' x = dq_valid m x)"
    using dq_remfirst_spec dq_frame_valid by blast
qed (rule dq_remfirst_empty)

lemma sq_frame_valid: "dq_frame S m m' \<Longrightarrow> sq_valid m' x = sq_valid m x"
  by (auto simp: dq_frame_def sq_valid_def dom_def)

interpretation sq: linked_queue sq_rep sq_valid sq_addlast sq_remfirst
proof unfold_locales
  fix m q xs node
  assume "sq_rep m q xs" "node \<notin> set xs" "sq_valid m node"
  then show "\<exists>q' m'. sq_addlast node q m = Some (q', m') \<and> sq_rep m' q' (xs @ [node]) \<and>
      (\<forall>x. sq_valid m' x = sq_valid m x)"
    using sq_addlast_spec sq_frame_valid by blast
next
  fix m q xs node
  assume "sq_rep m q (node # xs)"
  then show "\<exists>q' m'. sq_remfirst q m = Some (node, q', m') \<and> sq_rep m' q' xs \<and>
      (\<forall>x. sq_valid m' x = sq_valid m x)"
    using sq_remfirst_spec sq_frame_valid by blast
qed (rule sq_remfirst_empty)

section \<open>Properties\<close>

text \<open>
  C30. Both kinds of queue are first-in first-out: entries added at the tail of an empty queue
  are all accepted, come out at the head in the order in which they were added, and leave the
  queue empty.
\<close>

theorem queue_fifo:
  assumes "distinct ys" "dq_rep m q []" "\<forall>y \<in> set ys. dq_valid m y"
    and "sq_rep n p []" "\<forall>y \<in> set ys. sq_valid n y"
  shows "(\<exists>q1 m1 q2 m2. add_all dq_addlast ys q m = Some (q1, m1) \<and>
       take_n dq_remfirst (length ys) q1 m1 = Some (ys, q2, m2) \<and> dq_rep m2 q2 []) \<and>
     (\<exists>p1 n1 p2 n2. add_all sq_addlast ys p n = Some (p1, n1) \<and>
       take_n sq_remfirst (length ys) p1 n1 = Some (ys, p2, n2) \<and> sq_rep n2 p2 [])"
  using dq.fifo [OF assms(2,1,3)] sq.fifo [OF assms(4,1,5)] by blast

theorem queue_fifo_witness:
  "\<exists>q1 m1 q2 m2. add_all dq_addlast [7, 3 :: addr] dq_init
       [3 \<mapsto> \<lparr>flink = 0, blink = 0\<rparr>, 7 \<mapsto> \<lparr>flink = 0, blink = 0\<rparr>] = Some (q1, m1) \<and>
     take_n dq_remfirst 2 q1 m1 = Some ([7, 3], q2, m2) \<and> dq_rep m2 q2 []"
  using queue_fifo [of "[7, 3]" "[3 \<mapsto> \<lparr>flink = 0, blink = 0\<rparr>, 7 \<mapsto> \<lparr>flink = 0, blink = 0\<rparr>]" dq_init
      "[3 \<mapsto> 0, 7 \<mapsto> 0]" sq_init]
  by (auto simp: dq_init_def dq_rep_def dq_valid_def sq_init_def sq_rep_def sq_valid_def numeral_2_eq_2)

end
