(* ===== verification/Sched.thy ===== *)
theory Sched
  imports Queues
begin

text \<open>
  The scheduler of \<^verbatim>\<open>nuttx/sched/sched\<close> and the context switching of
  \<^verbatim>\<open>nuttx/arch/arm/src/armv7-m\<close> in the single-CPU configuration of
  \<^verbatim>\<open>nuttx/configs/stm32f103rc/nsh/defconfig\<close>: the task control blocks, the task lists that
  mirror the task states, insertion and removal, the pending list of tasks held back while
  pre-emption is locked, changes of priority, and the round-robin time slice.

  The link fields \<^verbatim>\<open>flink\<close> and \<^verbatim>\<open>blink\<close>, with which every TCB starts, are kept in the
  memory of doubly linked queue entries; the other fields are a record. An operation
  returns \<open>None\<close> where the code would dereference a null or dangling pointer or panic.
\<close>

section \<open>State\<close>

datatype tstate =
    TSTATE_TASK_INVALID
  | TSTATE_TASK_PENDING
  | TSTATE_TASK_READYTORUN
  | TSTATE_TASK_RUNNING
  | TSTATE_TASK_INACTIVE
  | TSTATE_WAIT_SEM
  | TSTATE_WAIT_SIG
  | TSTATE_WAIT_MQNOTEMPTY
  | TSTATE_WAIT_MQNOTFULL

text \<open>The position of a state in the enumeration, which the range checks compare.\<close>

definition tstate_num :: "tstate \<Rightarrow> nat" where
  "tstate_num st = (case st of
      TSTATE_TASK_INVALID \<Rightarrow> 0 | TSTATE_TASK_PENDING \<Rightarrow> 1 | TSTATE_TASK_READYTORUN \<Rightarrow> 2
    | TSTATE_TASK_RUNNING \<Rightarrow> 3 | TSTATE_TASK_INACTIVE \<Rightarrow> 4 | TSTATE_WAIT_SEM \<Rightarrow> 5
    | TSTATE_WAIT_SIG \<Rightarrow> 6 | TSTATE_WAIT_MQNOTEMPTY \<Rightarrow> 7 | TSTATE_WAIT_MQNOTFULL \<Rightarrow> 8)"

text \<open>\<^verbatim>\<open>FIRST_BLOCKED_STATE\<close> to \<^verbatim>\<open>LAST_BLOCKED_STATE\<close>, and the ready-to-run states.\<close>

definition is_blocked_state :: "tstate \<Rightarrow> bool" where
  "is_blocked_state st \<longleftrightarrow>
     tstate_num TSTATE_TASK_INACTIVE \<le> tstate_num st \<and> tstate_num st \<le> 8"

definition is_ready_state :: "tstate \<Rightarrow> bool" where
  "is_ready_state st \<longleftrightarrow>
     tstate_num TSTATE_TASK_READYTORUN \<le> tstate_num st \<and>
     tstate_num st \<le> tstate_num TSTATE_TASK_RUNNING"

text \<open>The task lists that \<^verbatim>\<open>os_start.c\<close> declares, named by what a pointer to one denotes.\<close>

datatype tasklist =
    g_readytorun
  | g_pendingtasks
  | g_waitingforsemaphore
  | g_waitingforsignal
  | g_waitingformqnotempty
  | g_waitingformqnotfull
  | g_inactivetasks

record tcb =
  pid :: int
  sched_priority :: "8 word"
  task_state :: tstate
  tcb_flags :: "16 word"
  lockcount :: int
  timeslice :: int
  waitdog :: addr
  waitsem :: addr
  msgwaitq :: addr
  pterrno :: int
  xcp_regs :: nat

record kstate =
  dqm :: dqmem
  tcbs :: "addr \<rightharpoonup> tcb"
  tasklists :: "tasklist \<Rightarrow> dq_queue"
  current_regs :: bool \<comment> \<open>\<^verbatim>\<open>CURRENT_REGS != NULL\<close>: an interrupt is being handled\<close>
  cpu_regs :: nat \<comment> \<open>the register context that executes or was interrupted\<close>
  debug_assertions :: bool \<comment> \<open>\<^verbatim>\<open>CONFIG_DEBUG_ASSERTIONS\<close>\<close>

text \<open>A computation over the kernel state; \<open>None\<close> is a fault or a panic.\<close>

type_synonym ('a, 'r) kop = "'a kstate_scheme \<Rightarrow> ('r \<times> 'a kstate_scheme) option"
type_synonym 'a kproc = "'a kstate_scheme \<Rightarrow> 'a kstate_scheme option"

section \<open>Access to the state\<close>

definition debugassert :: "'a kstate_scheme \<Rightarrow> bool \<Rightarrow> unit option" where
  "debugassert s P = (if debug_assertions s \<and> \<not> P then None else Some ())"

definition get_tcb :: "'a kstate_scheme \<Rightarrow> addr \<Rightarrow> tcb option" where
  "get_tcb s p = (if p = NULL then None else tcbs s p)"

definition upd_tcb :: "addr \<Rightarrow> (tcb \<Rightarrow> tcb) \<Rightarrow> 'a kproc" where
  "upd_tcb p f s = do { t \<leftarrow> get_tcb s p; Some (s\<lparr>tcbs := (tcbs s)(p \<mapsto> f t)\<rparr>) }"

definition set_task_state :: "addr \<Rightarrow> tstate \<Rightarrow> 'a kproc" where
  "set_task_state p st = upd_tcb p (\<lambda>t. t\<lparr>task_state := st\<rparr>)"

definition k_set_flink :: "addr \<Rightarrow> addr \<Rightarrow> 'a kproc" where
  "k_set_flink p v s = do { m \<leftarrow> set_flink (dqm s) p v; Some (s\<lparr>dqm := m\<rparr>) }"

definition k_set_blink :: "addr \<Rightarrow> addr \<Rightarrow> 'a kproc" where
  "k_set_blink p v s = do { m \<leftarrow> set_blink (dqm s) p v; Some (s\<lparr>dqm := m\<rparr>) }"

definition k_set_list :: "tasklist \<Rightarrow> dq_queue \<Rightarrow> 'a kstate_scheme \<Rightarrow> 'a kstate_scheme" where
  "k_set_list L q s = s\<lparr>tasklists := (tasklists s)(L := q)\<rparr>"

definition k_dq_rem :: "addr \<Rightarrow> tasklist \<Rightarrow> 'a kproc" where
  "k_dq_rem p L s = do { (q, m) \<leftarrow> dq_rem p (tasklists s L) (dqm s); Some (k_set_list L q (s\<lparr>dqm := m\<rparr>)) }"

definition k_dq_addlast :: "addr \<Rightarrow> tasklist \<Rightarrow> 'a kproc" where
  "k_dq_addlast p L s =
     do { (q, m) \<leftarrow> dq_addlast p (tasklists s L) (dqm s); Some (k_set_list L q (s\<lparr>dqm := m\<rparr>)) }"

definition this_task :: "'a kstate_scheme \<Rightarrow> addr" where
  "this_task s = dq_head (tasklists s g_readytorun)"

definition up_interrupt_context :: "'a kstate_scheme \<Rightarrow> bool" where
  "up_interrupt_context s = current_regs s"

text \<open>The attributes and the list of each task state.\<close>

definition TLIST_ATTR_PRIORITIZED :: "8 word" where
  "TLIST_ATTR_PRIORITIZED = 1"

definition TLIST_ATTR_RUNNABLE :: "8 word" where
  "TLIST_ATTR_RUNNABLE = 4"

definition g_tasklisttable :: "tstate \<Rightarrow> tasklist option \<times> 8 word" where
  "g_tasklisttable st = (case st of
      TSTATE_TASK_INVALID \<Rightarrow> (None, 0)
    | TSTATE_TASK_PENDING \<Rightarrow> (Some g_pendingtasks, TLIST_ATTR_PRIORITIZED)
    | TSTATE_TASK_READYTORUN \<Rightarrow>
        (Some g_readytorun, or TLIST_ATTR_PRIORITIZED TLIST_ATTR_RUNNABLE)
    | TSTATE_TASK_RUNNING \<Rightarrow>
        (Some g_readytorun, or TLIST_ATTR_PRIORITIZED TLIST_ATTR_RUNNABLE)
    | TSTATE_TASK_INACTIVE \<Rightarrow> (Some g_inactivetasks, 0)
    | TSTATE_WAIT_SEM \<Rightarrow> (Some g_waitingforsemaphore, TLIST_ATTR_PRIORITIZED)
    | TSTATE_WAIT_SIG \<Rightarrow> (Some g_waitingforsignal, 0)
    | TSTATE_WAIT_MQNOTEMPTY \<Rightarrow> (Some g_waitingformqnotempty, TLIST_ATTR_PRIORITIZED)
    | TSTATE_WAIT_MQNOTFULL \<Rightarrow> (Some g_waitingformqnotfull, TLIST_ATTR_PRIORITIZED))"

definition TLIST_BLOCKED :: "tstate \<Rightarrow> tasklist option" where
  "TLIST_BLOCKED st = fst (g_tasklisttable st)"

definition TLIST_ISPRIORITIZED :: "tstate \<Rightarrow> bool" where
  "TLIST_ISPRIORITIZED st = (and (snd (g_tasklisttable st)) TLIST_ATTR_PRIORITIZED \<noteq> 0)"

section \<open>Insertion into and removal from the task lists\<close>

text \<open>
  The search loop of \<^verbatim>\<open>sched_addprioritized\<close> and \<^verbatim>\<open>sched_mergepending\<close>: the first task from
  \<open>next\<close> on whose priority is below \<open>prio\<close>.
\<close>

partial_function (option) sched_search ::
  "'a kstate_scheme \<Rightarrow> addr \<Rightarrow> 8 word \<Rightarrow> addr option" where
  "sched_search s next prio =
     (if next = NULL then Some NULL
      else Option.bind (get_tcb s next) (\<lambda>t.
        if prio \<le> sched_priority t
        then Option.bind (get_flink (dqm s) next) (\<lambda>f. sched_search s f prio)
        else Some next))"

declare sched_search.simps [code]

definition sched_addprioritized :: "addr \<Rightarrow> tasklist \<Rightarrow> ('a, bool) kop" where
  "sched_addprioritized tcb L s = do {
     t \<leftarrow> get_tcb s tcb;
     debugassert s (1 \<le> sched_priority t);
     next \<leftarrow> sched_search s (dq_head (tasklists s L)) (sched_priority t);
     if next = NULL then do {
       let prev = dq_tail (tasklists s L);
       if prev = NULL then do {
         s \<leftarrow> k_set_flink tcb NULL s;
         s \<leftarrow> k_set_blink tcb NULL s;
         Some (True, k_set_list L \<lparr>dq_head = tcb, dq_tail = tcb\<rparr> s)
       }
       else do {
         s \<leftarrow> k_set_flink tcb NULL s;
         s \<leftarrow> k_set_blink tcb prev s;
         s \<leftarrow> k_set_flink prev tcb s;
         Some (False, k_set_list L ((tasklists s L)\<lparr>dq_tail := tcb\<rparr>) s)
       }
     }
     else do {
       prev \<leftarrow> get_blink (dqm s) next;
       if prev = NULL then do {
         s \<leftarrow> k_set_flink tcb next s;
         s \<leftarrow> k_set_blink tcb NULL s;
         s \<leftarrow> k_set_blink next tcb s;
         Some (True, k_set_list L ((tasklists s L)\<lparr>dq_head := tcb\<rparr>) s)
       }
       else do {
         s \<leftarrow> k_set_flink tcb next s;
         s \<leftarrow> k_set_blink tcb prev s;
         s \<leftarrow> k_set_flink prev tcb s;
         s \<leftarrow> k_set_blink next tcb s;
         Some (False, s)
       }
     }
   }"

definition sched_addreadytorun :: "addr \<Rightarrow> ('a, bool) kop" where
  "sched_addreadytorun btcb s = do {
     let rtcb = this_task s;
     r \<leftarrow> get_tcb s rtcb;
     b \<leftarrow> get_tcb s btcb;
     if lockcount r > 0 \<and> sched_priority r < sched_priority b then do {
       (_, s) \<leftarrow> sched_addprioritized btcb g_pendingtasks s;
       s \<leftarrow> set_task_state btcb TSTATE_TASK_PENDING s;
       Some (False, s)
     }
     else do {
       (head_changed, s) \<leftarrow> sched_addprioritized btcb g_readytorun s;
       if head_changed then do {
         next \<leftarrow> get_flink (dqm s) btcb;
         debugassert s (lockcount r = 0 \<and> next \<noteq> NULL);
         s \<leftarrow> set_task_state btcb TSTATE_TASK_RUNNING s;
         s \<leftarrow> set_task_state next TSTATE_TASK_READYTORUN s;
         Some (True, s)
       }
       else do {
         s \<leftarrow> set_task_state btcb TSTATE_TASK_READYTORUN s;
         Some (False, s)
       }
     }
   }"

definition sched_removereadytorun :: "addr \<Rightarrow> ('a, bool) kop" where
  "sched_removereadytorun rtcb s = do {
     b \<leftarrow> get_blink (dqm s) rtcb;
     (doswitch, s) \<leftarrow>
       (if b = NULL then do {
          nxttcb \<leftarrow> get_flink (dqm s) rtcb;
          debugassert s (nxttcb \<noteq> NULL);
          s \<leftarrow> set_task_state nxttcb TSTATE_TASK_RUNNING s;
          Some (True, s)
        }
        else Some (False, s));
     s \<leftarrow> k_dq_rem rtcb g_readytorun s;
     s \<leftarrow> set_task_state rtcb TSTATE_TASK_INVALID s;
     Some (doswitch, s)
   }"

definition sched_addblocked :: "addr \<Rightarrow> tstate \<Rightarrow> 'a kproc" where
  "sched_addblocked btcb st s = do {
     debugassert s (is_blocked_state st);
     L \<leftarrow> TLIST_BLOCKED st;
     s \<leftarrow> (if TLIST_ISPRIORITIZED st
           then do { (_, s) \<leftarrow> sched_addprioritized btcb L s; Some s }
           else k_dq_addlast btcb L s);
     set_task_state btcb st s
   }"

definition sched_removeblocked :: "addr \<Rightarrow> 'a kproc" where
  "sched_removeblocked btcb s = do {
     t \<leftarrow> get_tcb s btcb;
     debugassert s (is_blocked_state (task_state t));
     L \<leftarrow> TLIST_BLOCKED (task_state t);
     s \<leftarrow> k_dq_rem btcb L s;
     set_task_state btcb TSTATE_TASK_INVALID s
   }"

text \<open>
  \<^verbatim>\<open>sched_mergepending\<close>: every task of the pending list is linked into the ready-to-run
  list. Its search resumes from the task merged last.
\<close>

partial_function (option) sched_mergepending_loop ::
  "addr \<Rightarrow> addr \<Rightarrow> bool \<Rightarrow> ('a, bool) kop" where
  "sched_mergepending_loop ptcb rtcb ret s =
     (if ptcb = NULL then Some (ret, s)
      else do {
        pnext \<leftarrow> get_flink (dqm s) ptcb;
        p \<leftarrow> get_tcb s ptcb;
        rtcb \<leftarrow> sched_search s rtcb (sched_priority p);
        debugassert s (rtcb \<noteq> NULL);
        rprev \<leftarrow> get_blink (dqm s) rtcb;
        if rprev = NULL then do {
          s \<leftarrow> k_set_flink ptcb rtcb s;
          s \<leftarrow> k_set_blink ptcb NULL s;
          s \<leftarrow> k_set_blink rtcb ptcb s;
          let s = k_set_list g_readytorun ((tasklists s g_readytorun)\<lparr>dq_head := ptcb\<rparr>) s;
          s \<leftarrow> set_task_state rtcb TSTATE_TASK_READYTORUN s;
          s \<leftarrow> set_task_state ptcb TSTATE_TASK_RUNNING s;
          sched_mergepending_loop pnext ptcb True s
        }
        else do {
          s \<leftarrow> k_set_flink ptcb rtcb s;
          s \<leftarrow> k_set_blink ptcb rprev s;
          s \<leftarrow> k_set_flink rprev ptcb s;
          s \<leftarrow> k_set_blink rtcb ptcb s;
          s \<leftarrow> set_task_state ptcb TSTATE_TASK_READYTORUN s;
          sched_mergepending_loop pnext ptcb ret s
        }
      })"

declare sched_mergepending_loop.simps [code]

definition sched_mergepending :: "('a, bool) kop" where
  "sched_mergepending s = do {
     (ret, s) \<leftarrow> sched_mergepending_loop (dq_head (tasklists s g_pendingtasks)) (this_task s) False s;
     Some (ret, k_set_list g_pendingtasks \<lparr>dq_head = NULL, dq_tail = NULL\<rparr> s)
   }"

section \<open>Context switches\<close>

text \<open>\<^verbatim>\<open>MSEC2TICK(CONFIG_RR_INTERVAL)\<close> with a tick of 10 ms and an interval of 200 ms.\<close>

definition RR_TICKS :: int where
  "RR_TICKS = (200 + 10 div 2) div 10"

text \<open>
  \<^verbatim>\<open>sched_resume_scheduler\<close>: the task that is about to be restarted gets a new time slice. Without
  sporadic scheduling it does so whatever the policy of the task is. Its counterpart
  \<^verbatim>\<open>sched_suspend_scheduler\<close> does nothing in the configuration.
\<close>

definition sched_resume_scheduler :: "addr \<Rightarrow> 'a kproc" where
  "sched_resume_scheduler tcb = upd_tcb tcb (\<lambda>t. t\<lparr>timeslice := RR_TICKS\<rparr>)"

definition up_savestate :: "addr \<Rightarrow> 'a kproc" where
  "up_savestate p s = upd_tcb p (\<lambda>t. t\<lparr>xcp_regs := cpu_regs s\<rparr>) s"

definition up_restorestate :: "addr \<Rightarrow> 'a kproc" where
  "up_restorestate p s = do { t \<leftarrow> get_tcb s p; Some (s\<lparr>cpu_regs := xcp_regs t\<rparr>) }"

definition up_switchcontext :: "addr \<Rightarrow> addr \<Rightarrow> 'a kproc" where
  "up_switchcontext rtcb nexttcb s = do { s \<leftarrow> up_savestate rtcb s; up_restorestate nexttcb s }"

text \<open>
  The switch at the end of the operations below: in an interrupt handler the interrupted
  context is exchanged, otherwise the running context is. In thread context the code
  behind the switch runs when \<open>rtcb\<close> is resumed.
\<close>

definition perform_switch :: "addr \<Rightarrow> 'a kproc" where
  "perform_switch rtcb s =
     (if current_regs s then do {
        s \<leftarrow> up_savestate rtcb s;
        let rtcb = this_task s;
        s \<leftarrow> sched_resume_scheduler rtcb s;
        up_restorestate rtcb s
      }
      else do {
        let nexttcb = this_task s;
        s \<leftarrow> sched_resume_scheduler nexttcb s;
        up_switchcontext rtcb nexttcb s
      })"

text \<open>Each operation returns whether it switched contexts.\<close>

definition up_block_task :: "addr \<Rightarrow> tstate \<Rightarrow> ('a, bool) kop" where
  "up_block_task tcb st s = do {
     let rtcb = this_task s;
     t \<leftarrow> get_tcb s tcb;
     debugassert s (is_ready_state (task_state t));
     (switch_needed, s) \<leftarrow> sched_removereadytorun tcb s;
     s \<leftarrow> sched_addblocked tcb st s;
     (switch_needed, s) \<leftarrow>
       (if dq_head (tasklists s g_pendingtasks) \<noteq> NULL
        then do { (merged, s) \<leftarrow> sched_mergepending s; Some (switch_needed \<or> merged, s) }
        else Some (switch_needed, s));
     if switch_needed
     then do { s \<leftarrow> perform_switch rtcb s; Some (True, s) }
     else Some (False, s)
   }"

definition up_unblock_task :: "addr \<Rightarrow> ('a, bool) kop" where
  "up_unblock_task tcb s = do {
     let rtcb = this_task s;
     t \<leftarrow> get_tcb s tcb;
     debugassert s (is_blocked_state (task_state t));
     s \<leftarrow> sched_removeblocked tcb s;
     (switch_needed, s) \<leftarrow> sched_addreadytorun tcb s;
     if switch_needed
     then do { s \<leftarrow> perform_switch rtcb s; Some (True, s) }
     else Some (False, s)
   }"

definition up_release_pending :: "('a, bool) kop" where
  "up_release_pending s = do {
     let rtcb = this_task s;
     (switch_needed, s) \<leftarrow> sched_mergepending s;
     if switch_needed
     then do { s \<leftarrow> perform_switch rtcb s; Some (True, s) }
     else Some (False, s)
   }"

text \<open>
  \<^verbatim>\<open>up_reprioritize_rtr\<close>. A caller that is not sane panics under debug assertions and is
  ignored without them; the upper bound of the priority is the width of its type.
\<close>

definition up_reprioritize_rtr :: "addr \<Rightarrow> 8 word \<Rightarrow> ('a, bool) kop" where
  "up_reprioritize_rtr tcb priority s = do {
     t \<leftarrow> get_tcb s tcb;
     if \<not> is_ready_state (task_state t) \<or> priority < 1
     then do { debugassert s False; Some (False, s) }
     else do {
       let rtcb = this_task s;
       (removed, s) \<leftarrow> sched_removereadytorun tcb s;
       s \<leftarrow> upd_tcb tcb (\<lambda>t. t\<lparr>sched_priority := priority\<rparr>) s;
       (added, s) \<leftarrow> sched_addreadytorun tcb s;
       let switch_needed = (removed \<noteq> added);
       if switch_needed then do {
         s \<leftarrow> (if dq_head (tasklists s g_pendingtasks) \<noteq> NULL
               then do { (_, s) \<leftarrow> sched_mergepending s; Some s }
               else Some s);
         s \<leftarrow> perform_switch rtcb s;
         Some (True, s)
       }
       else Some (False, s)
     }
   }"

section \<open>Priorities\<close>

definition sched_running_setpriority :: "addr \<Rightarrow> int \<Rightarrow> 'a kproc" where
  "sched_running_setpriority tcb prio s = do {
     nxttcb \<leftarrow> get_flink (dqm s) tcb;
     debugassert s (nxttcb \<noteq> NULL);
     nxt \<leftarrow> get_tcb s nxttcb;
     if prio \<le> uint (sched_priority nxt)
     then do { (_, s) \<leftarrow> up_reprioritize_rtr tcb (word_of_int prio) s; Some s }
     else upd_tcb tcb (\<lambda>t. t\<lparr>sched_priority := word_of_int prio\<rparr>) s
   }"

text \<open>
  The removal and the re-insertion stand inside \<^verbatim>\<open>DEBUGASSERT\<close>: they are executed, and
  must return false, only when debug assertions are compiled in.
\<close>

definition sched_readytorun_setpriority :: "addr \<Rightarrow> int \<Rightarrow> 'a kproc" where
  "sched_readytorun_setpriority tcb prio s = do {
     let rtcb = this_task s;
     r \<leftarrow> get_tcb s rtcb;
     if uint (sched_priority r) < prio
     then do { (_, s) \<leftarrow> up_reprioritize_rtr tcb (word_of_int prio) s; Some s }
     else do {
       s \<leftarrow> (if debug_assertions s
             then do { (r, s) \<leftarrow> sched_removereadytorun tcb s; debugassert s (\<not> r); Some s }
             else Some s);
       s \<leftarrow> upd_tcb tcb (\<lambda>t. t\<lparr>sched_priority := word_of_int prio\<rparr>) s;
       if debug_assertions s
       then do { (r, s) \<leftarrow> sched_addreadytorun tcb s; debugassert s (\<not> r); Some s }
       else Some s
     }
   }"

definition sched_blocked_setpriority :: "addr \<Rightarrow> int \<Rightarrow> 'a kproc" where
  "sched_blocked_setpriority tcb prio s = do {
     t \<leftarrow> get_tcb s tcb;
     let st = task_state t;
     if TLIST_ISPRIORITIZED st then do {
       L \<leftarrow> TLIST_BLOCKED st;
       s \<leftarrow> k_dq_rem tcb L s;
       s \<leftarrow> upd_tcb tcb (\<lambda>t. t\<lparr>sched_priority := word_of_int prio\<rparr>) s;
       (_, s) \<leftarrow> sched_addprioritized tcb L s;
       Some s
     }
     else upd_tcb tcb (\<lambda>t. t\<lparr>sched_priority := word_of_int prio\<rparr>) s
   }"

definition EINVAL :: int where "EINVAL = 22"

definition SCHED_PRIORITY_MIN :: int where "SCHED_PRIORITY_MIN = 1"

definition SCHED_PRIORITY_MAX :: int where "SCHED_PRIORITY_MAX = 255"

definition nxsched_setpriority :: "addr \<Rightarrow> int \<Rightarrow> ('a, int) kop" where
  "nxsched_setpriority tcb prio s =
     (if prio < SCHED_PRIORITY_MIN \<or> SCHED_PRIORITY_MAX < prio then Some (- EINVAL, s)
      else do {
        t \<leftarrow> get_tcb s tcb;
        s \<leftarrow> (case task_state t of
               TSTATE_TASK_RUNNING \<Rightarrow> sched_running_setpriority tcb prio s
             | TSTATE_TASK_READYTORUN \<Rightarrow> sched_readytorun_setpriority tcb prio s
             | _ \<Rightarrow> sched_blocked_setpriority tcb prio s);
        Some (0, s)
      })"

definition sched_yield :: "('a, int) kop" where
  "sched_yield s = do {
     let rtcb = this_task s;
     r \<leftarrow> get_tcb s rtcb;
     (ret, s) \<leftarrow> nxsched_setpriority rtcb (uint (sched_priority r)) s;
     Some (if ret < 0 then -1 else 0, s)
   }"

section \<open>Locking pre-emption\<close>

definition MAX_LOCK_COUNT :: int where "MAX_LOCK_COUNT = 127"

definition sched_lock :: "'a kproc" where
  "sched_lock s =
     (let rtcb = this_task s in
      if rtcb \<noteq> NULL \<and> \<not> up_interrupt_context s then do {
        r \<leftarrow> get_tcb s rtcb;
        debugassert s (lockcount r < MAX_LOCK_COUNT);
        upd_tcb rtcb (\<lambda>t. t\<lparr>lockcount := s16 (lockcount t + 1)\<rparr>) s
      }
      else Some s)"

definition TCB_FLAG_POLICY_MASK :: "16 word" where
  "TCB_FLAG_POLICY_MASK = push_bit 5 3"

definition TCB_FLAG_SCHED_RR :: "16 word" where
  "TCB_FLAG_SCHED_RR = push_bit 5 1"

text \<open>
  The part of \<^verbatim>\<open>sched_unlock\<close> behind the release of the pending tasks. If that release
  switched contexts, it runs when \<open>rtcb\<close> is resumed.
\<close>

definition sched_unlock_tail :: "addr \<Rightarrow> 'a kproc" where
  "sched_unlock_tail rtcb s = do {
     r \<leftarrow> get_tcb s rtcb;
     if and (tcb_flags r) TCB_FLAG_POLICY_MASK = TCB_FLAG_SCHED_RR \<and> timeslice r = 0 \<and>
        rtcb \<noteq> this_task s
     then upd_tcb rtcb (\<lambda>t. t\<lparr>timeslice := RR_TICKS\<rparr>) s
     else Some s
   }"

text \<open>Returns whether the caller was switched out before the tail was reached.\<close>

definition sched_unlock :: "('a, bool) kop" where
  "sched_unlock s =
     (let rtcb = this_task s in
      if rtcb \<noteq> NULL \<and> \<not> up_interrupt_context s then do {
        r \<leftarrow> get_tcb s rtcb;
        s \<leftarrow> (if lockcount r > 0
              then upd_tcb rtcb (\<lambda>t. t\<lparr>lockcount := s16 (lockcount t - 1)\<rparr>) s
              else Some s);
        r \<leftarrow> get_tcb s rtcb;
        if lockcount r \<le> 0 then do {
          s \<leftarrow> upd_tcb rtcb (\<lambda>t. t\<lparr>lockcount := 0\<rparr>) s;
          (switched, s) \<leftarrow> (if dq_head (tasklists s g_pendingtasks) \<noteq> NULL
                            then up_release_pending s else Some (False, s));
          if switched then Some (True, s)
          else do { s \<leftarrow> sched_unlock_tail rtcb s; Some (False, s) }
        }
        else Some (False, s)
      }
      else Some (False, s))"

section \<open>Round robin\<close>

text \<open>
  \<^verbatim>\<open>MIN(tcb->timeslice, ticks)\<close> compares a signed with an unsigned 32-bit value: both are
  converted to unsigned. The result is stored in an \<^verbatim>\<open>int\<close> and returned as \<^verbatim>\<open>uint32_t\<close>.
\<close>

definition u32 :: "int \<Rightarrow> int" where
  "u32 x = x mod 2 ^ 32"

definition rr_charge :: "int \<Rightarrow> int \<Rightarrow> int" where
  "rr_charge ts ticks =
     (let decr = s32 (if u32 ts < u32 ticks then u32 ts else u32 ticks) in s32 (ts - decr))"

definition sched_roundrobin_process :: "addr \<Rightarrow> int \<Rightarrow> bool \<Rightarrow> ('a, int) kop" where
  "sched_roundrobin_process tcb ticks noswitches s = do {
     debugassert s (tcb \<noteq> NULL);
     s \<leftarrow> upd_tcb tcb (\<lambda>t. t\<lparr>timeslice := rr_charge (timeslice t) ticks\<rparr>) s;
     t \<leftarrow> get_tcb s tcb;
     if timeslice t \<le> 0 \<and> \<not> lockcount t > 0 then
       (if noswitches then Some (1, s)
        else do {
          s \<leftarrow> upd_tcb tcb (\<lambda>t. t\<lparr>timeslice := RR_TICKS\<rparr>) s;
          next \<leftarrow> get_flink (dqm s) tcb;
          s \<leftarrow> (if next \<noteq> NULL then do {
                  n \<leftarrow> get_tcb s next;
                  if sched_priority t \<le> sched_priority n
                  then do { (_, s) \<leftarrow> up_reprioritize_rtr tcb (sched_priority t) s; Some s }
                  else Some s
                }
                else Some s);
          Some (u32 RR_TICKS, s)
        })
     else Some (u32 (timeslice t), s)
   }"

definition sched_cpu_scheduler :: "'a kproc" where
  "sched_cpu_scheduler s = do {
     let rtcb = this_task s;
     r \<leftarrow> get_tcb s rtcb;
     if and (tcb_flags r) TCB_FLAG_POLICY_MASK = TCB_FLAG_SCHED_RR
     then do { (_, s) \<leftarrow> sched_roundrobin_process rtcb 1 False s; Some s }
     else Some s
   }"

end
