(* ===== verification/SchedSpec.thy ===== *)
theory SchedSpec
  imports Sched
begin

text \<open>
  The abstract scheduler: the task control blocks and, for every task list, the tasks it
  holds, in order. \<open>refines s a\<close> says that the pointer structure of the kernel state \<open>s\<close>
  represents the abstract state \<open>a\<close>. Each operation of the scheduler is shown to succeed
  on a represented state and to implement its abstract counterpart.
\<close>

section \<open>Abstract state and operations\<close>

record asched =
  a_tcbs :: "addr \<rightharpoonup> tcb"
  a_list :: "tasklist \<Rightarrow> addr list"
  a_cpu :: nat

definition a_tcb :: "asched \<Rightarrow> addr \<Rightarrow> tcb" where
  "a_tcb a t = the (a_tcbs a t)"

definition a_prio :: "asched \<Rightarrow> addr \<Rightarrow> 8 word" where
  "a_prio a t = sched_priority (a_tcb a t)"

definition a_upd :: "addr \<Rightarrow> (tcb \<Rightarrow> tcb) \<Rightarrow> asched \<Rightarrow> asched" where
  "a_upd t f a = a\<lparr>a_tcbs := (a_tcbs a)(t := map_option f (a_tcbs a t))\<rparr>"

definition a_state :: "addr \<Rightarrow> tstate \<Rightarrow> asched \<Rightarrow> asched" where
  "a_state t st = a_upd t (\<lambda>x. x\<lparr>task_state := st\<rparr>)"

definition a_set_list :: "tasklist \<Rightarrow> addr list \<Rightarrow> asched \<Rightarrow> asched" where
  "a_set_list L xs a = a\<lparr>a_list := (a_list a)(L := xs)\<rparr>"

definition a_insert :: "tasklist \<Rightarrow> addr \<Rightarrow> asched \<Rightarrow> asched" where
  "a_insert L t a = a_set_list L (insert_desc (a_prio a) t (a_list a L)) a"

definition a_remove :: "tasklist \<Rightarrow> addr \<Rightarrow> asched \<Rightarrow> asched" where
  "a_remove L t a = a_set_list L (remove1 t (a_list a L)) a"

text \<open>The running task: the head of the ready-to-run list.\<close>

definition a_running :: "asched \<Rightarrow> addr" where
  "a_running a = first_ptr (a_list a g_readytorun)"

definition a_unlisted :: "asched \<Rightarrow> addr \<Rightarrow> bool" where
  "a_unlisted a t \<longleftrightarrow> (\<forall>L. t \<notin> set (a_list a L))"

definition a_live :: "asched \<Rightarrow> addr \<Rightarrow> bool" where
  "a_live a t \<longleftrightarrow> t \<noteq> NULL \<and> a_tcbs a t \<noteq> None"

text \<open>Making a task ready when pre-emption is not locked; also one step of the merge.\<close>

definition a_ready :: "addr \<Rightarrow> asched \<Rightarrow> bool \<times> asched" where
  "a_ready t a =
     (if a_prio a (a_running a) < a_prio a t
      then (True, a_state (a_running a) TSTATE_TASK_READYTORUN
                    (a_state t TSTATE_TASK_RUNNING (a_insert g_readytorun t a)))
      else (False, a_state t TSTATE_TASK_READYTORUN (a_insert g_readytorun t a)))"

definition a_addreadytorun :: "addr \<Rightarrow> asched \<Rightarrow> bool \<times> asched" where
  "a_addreadytorun t a =
     (if lockcount (a_tcb a (a_running a)) > 0 \<and> a_prio a (a_running a) < a_prio a t
      then (False, a_state t TSTATE_TASK_PENDING (a_insert g_pendingtasks t a))
      else a_ready t a)"

definition a_removereadytorun :: "addr \<Rightarrow> asched \<Rightarrow> bool \<times> asched" where
  "a_removereadytorun t a =
     (let a' = a_remove g_readytorun t a in
      if a_running a = t
      then (True, a_state t TSTATE_TASK_INVALID (a_state (a_running a') TSTATE_TASK_RUNNING a'))
      else (False, a_state t TSTATE_TASK_INVALID a'))"

definition a_addblocked :: "addr \<Rightarrow> tstate \<Rightarrow> asched \<Rightarrow> asched" where
  "a_addblocked t st a =
     (case TLIST_BLOCKED st of None \<Rightarrow> a
      | Some L \<Rightarrow> a_state t st
          (if TLIST_ISPRIORITIZED st then a_insert L t a
           else a_set_list L (a_list a L @ [t]) a))"

definition a_removeblocked :: "addr \<Rightarrow> asched \<Rightarrow> asched" where
  "a_removeblocked t a =
     (case TLIST_BLOCKED (task_state (a_tcb a t)) of None \<Rightarrow> a
      | Some L \<Rightarrow> a_state t TSTATE_TASK_INVALID (a_remove L t a))"

text \<open>Merging: the pending tasks become ready one by one, in their order.\<close>

fun a_ready_all :: "addr list \<Rightarrow> bool \<Rightarrow> asched \<Rightarrow> bool \<times> asched" where
  "a_ready_all [] ret a = (ret, a)"
| "a_ready_all (p # ps) ret a = (case a_ready p a of (r, a') \<Rightarrow> a_ready_all ps (ret \<or> r) a')"

definition a_mergepending :: "asched \<Rightarrow> bool \<times> asched" where
  "a_mergepending a = a_ready_all (a_list a g_pendingtasks) False (a_set_list g_pendingtasks [] a)"

section \<open>Refinement\<close>

definition refines :: "'a kstate_scheme \<Rightarrow> asched \<Rightarrow> bool" where
  "refines s a \<longleftrightarrow>
     a_tcbs a = tcbs s \<and> a_cpu a = cpu_regs s \<and> dom (dqm s) = dom (tcbs s) \<and>
     (\<forall>L. dq_rep (dqm s) (tasklists s L) (a_list a L)) \<and>
     (\<forall>L M. L \<noteq> M \<longrightarrow> set (a_list a L) \<inter> set (a_list a M) = {})"

text \<open>What no operation of the scheduler changes: configuration, interrupt level, other components.\<close>

definition kframe :: "'a kstate_scheme \<Rightarrow> 'a kstate_scheme \<Rightarrow> bool" where
  "kframe s s' \<longleftrightarrow>
     current_regs s' = current_regs s \<and>
     debug_assertions s' = debug_assertions s \<and> kstate.more s' = kstate.more s"

subsection \<open>Projections of the abstract operations\<close>

lemma a_upd_simps [simp]:
  "a_list (a_upd t f a) = a_list a"
  "a_cpu (a_upd t f a) = a_cpu a"
  "a_cpu (a_state t st a) = a_cpu a"
  "a_tcbs (a_upd t f a) = (a_tcbs a)(t := map_option f (a_tcbs a t))"
  "a_list (a_state t st a) = a_list a"
  "a_tcbs (a_state t st a) = (a_tcbs a)(t := map_option (\<lambda>x. x\<lparr>task_state := st\<rparr>) (a_tcbs a t))"
  by (simp_all add: a_upd_def a_state_def)

lemma a_set_list_simps [simp]:
  "a_tcbs (a_set_list L xs a) = a_tcbs a"
  "a_cpu (a_set_list L xs a) = a_cpu a"
  "a_cpu (a_insert L t a) = a_cpu a"
  "a_cpu (a_remove L t a) = a_cpu a"
  "a_list (a_set_list L xs a) = (a_list a)(L := xs)"
  "a_tcbs (a_insert L t a) = a_tcbs a"
  "a_list (a_insert L t a) = (a_list a)(L := insert_desc (a_prio a) t (a_list a L))"
  "a_tcbs (a_remove L t a) = a_tcbs a"
  "a_list (a_remove L t a) = (a_list a)(L := remove1 t (a_list a L))"
  by (simp_all add: a_set_list_def a_insert_def a_remove_def)

lemma a_tcb_simps [simp]:
  "a_tcb (a_set_list L xs a) = a_tcb a"
  "a_tcb (a_insert L t a) = a_tcb a"
  "a_tcb (a_remove L t a) = a_tcb a"
  "a_prio (a_set_list L xs a) = a_prio a"
  "a_prio (a_insert L t a) = a_prio a"
  "a_prio (a_remove L t a) = a_prio a"
  by (simp_all add: a_tcb_def a_prio_def fun_eq_iff)

lemma a_tcb_upd [simp]:
  "a_live a t \<Longrightarrow> a_tcb (a_upd t f a) = (a_tcb a)(t := f (a_tcb a t))"
  "a_live a t \<Longrightarrow> a_tcb (a_state t st a) = (a_tcb a)(t := (a_tcb a t)\<lparr>task_state := st\<rparr>)"
  by (auto simp: a_tcb_def a_live_def fun_eq_iff)

lemma a_prio_state [simp]: "a_live a t \<Longrightarrow> a_prio (a_state t st a) = a_prio a"
  by (auto simp: a_prio_def a_tcb_def a_live_def fun_eq_iff)

lemma a_commute [simp]:
  "a_set_list L xs (a_upd t f a) = a_upd t f (a_set_list L xs a)"
  "a_remove L x (a_upd t f a) = a_upd t f (a_remove L x a)"
  "a_remove L x (a_state t st a) = a_state t st (a_remove L x a)"
  by (simp_all add: a_remove_def a_state_def a_upd_def a_set_list_def)

lemma a_live_simps [simp]:
  "a_live (a_upd t f a) x = a_live a x"
  "a_live (a_state t st a) x = a_live a x"
  "a_live (a_set_list L xs a) x = a_live a x"
  "a_live (a_insert L t a) x = a_live a x"
  "a_live (a_remove L t a) x = a_live a x"
  by (auto simp: a_live_def)

lemma kframe_refl [simp]: "kframe s s"
  by (simp add: kframe_def)

lemma kframe_trans: "kframe s s' \<Longrightarrow> kframe s' s'' \<Longrightarrow> kframe s s''"
  by (simp add: kframe_def)

lemma kframe_upd [simp]:
  "kframe s (s'\<lparr>dqm := m\<rparr>) = kframe s s'"
  "kframe s (s'\<lparr>tcbs := t\<rparr>) = kframe s s'"
  "kframe s (k_set_list L q s') = kframe s s'"
  "kframe s (s'\<lparr>cpu_regs := c\<rparr>) = kframe s s'"
  by (simp_all add: kframe_def k_set_list_def)

lemma k_set_list_simps [simp]:
  "dqm (k_set_list L q s) = dqm s" "tcbs (k_set_list L q s) = tcbs s"
  "tasklists (k_set_list L q s) = (tasklists s)(L := q)"
  "debug_assertions (k_set_list L q s) = debug_assertions s"
  "cpu_regs (k_set_list L q s) = cpu_regs s"
  by (simp_all add: k_set_list_def)

lemma kframe_debugassert: "kframe s s' \<Longrightarrow> debugassert s' P = debugassert s P"
  by (simp add: kframe_def debugassert_def)

lemma debugassert_True [simp]: "debugassert s True = Some ()"
  by (simp add: debugassert_def)

subsection \<open>Consequences of refinement\<close>

lemma refines_tcbs: "refines s a \<Longrightarrow> tcbs s = a_tcbs a"
  by (simp add: refines_def)

lemma refines_rep: "refines s a \<Longrightarrow> dq_rep (dqm s) (tasklists s L) (a_list a L)"
  by (simp add: refines_def)

lemma refines_disjoint:
  "refines s a \<Longrightarrow> t \<in> set (a_list a L) \<Longrightarrow> t \<in> set (a_list a M) \<Longrightarrow> L = M"
  by (fastforce simp: refines_def)

lemma refines_live_valid: "refines s a \<Longrightarrow> a_live a t = dq_valid (dqm s) t"
  by (auto simp: refines_def a_live_def dq_valid_def dom_def)

lemma refines_listed: "refines s a \<Longrightarrow> t \<in> set (a_list a L) \<Longrightarrow> a_live a t"
  by (simp add: refines_live_valid dq_rep_valid [OF refines_rep])

lemma refines_distinct: "refines s a \<Longrightarrow> distinct (a_list a L)"
  by (rule dq_rep_distinct [OF refines_rep])

lemma refines_NULL: "refines s a \<Longrightarrow> NULL \<notin> set (a_list a L)"
  by (rule dq_rep_NULL [OF refines_rep])

lemma refines_get_tcb: "refines s a \<Longrightarrow> a_live a t \<Longrightarrow> get_tcb s t = Some (a_tcb a t)"
  by (auto simp: refines_def a_live_def get_tcb_def a_tcb_def)

lemma refines_running: "refines s a \<Longrightarrow> this_task s = a_running a"
  by (simp add: this_task_def a_running_def dq_rep_head [OF refines_rep])

lemma refines_head: "refines s a \<Longrightarrow> dq_head (tasklists s L) = first_ptr (a_list a L)"
  by (rule dq_rep_head [OF refines_rep])

lemma refines_head_NULL: "refines s a \<Longrightarrow> dq_head (tasklists s L) = NULL \<longleftrightarrow> a_list a L = []"
  by (rule dq_rep_head_NULL [OF refines_rep])

lemma a_running_in: "a_list a g_readytorun \<noteq> [] \<Longrightarrow> a_running a \<in> set (a_list a g_readytorun)"
  by (simp add: a_running_def first_ptr_in)

lemma refines_upd_tcb:
  "refines s a \<Longrightarrow> a_live a t \<Longrightarrow>
   \<exists>s'. upd_tcb t f s = Some s' \<and> refines s' (a_upd t f a) \<and> kframe s s'"
  by (auto simp: refines_def a_live_def upd_tcb_def get_tcb_def a_upd_def fun_eq_iff)

lemma refines_set_state:
  "refines s a \<Longrightarrow> a_live a t \<Longrightarrow>
   \<exists>s'. set_task_state t st s = Some s' \<and> refines s' (a_state t st a) \<and> kframe s s'"
  unfolding set_task_state_def a_state_def by (rule refines_upd_tcb)

text \<open>A queue operation on one list, seen from the whole state.\<close>

lemma refines_relink:
  assumes r: "refines s a" and q: "dq_rep m' q' xs'" "dq_frame S (dqm s) m'"
    and S: "\<And>M. M \<noteq> L \<Longrightarrow> S \<inter> set (a_list a M) = {}" and xs: "set xs' \<subseteq> S"
  shows "refines (k_set_list L q' (s\<lparr>dqm := m'\<rparr>)) (a_set_list L xs' a)"
proof -
  have "dq_rep m' (tasklists s M) (a_list a M)" if "M \<noteq> L" for M
    using dq_rep_frame [OF q(2)] S [OF that] refines_rep [OF r] by (simp add: Int_commute)
  with r q S xs show ?thesis
    by (fastforce simp: refines_def dq_frame_def)
qed

subsection \<open>Insertion by priority\<close>

lemma sched_search_seg:
  assumes "\<And>x. x \<in> set xs \<Longrightarrow> get_tcb s x = Some (T x)"
  shows "dq_seg (dqm s) b p xs l NULL \<Longrightarrow>
    sched_search s p prio = Some (first_ptr (dropWhile (\<lambda>y. prio \<le> sched_priority (T y)) xs))"
  using assms
proof (induction xs arbitrary: b p)
  case Nil
  then show ?case by (simp add: sched_search.simps)
next
  case (Cons x xs)
  then obtain e where e: "p = x" "x \<noteq> NULL" "dqm s x = Some e" "dq_seg (dqm s) x (flink e) xs l NULL"
    by auto
  with Cons.IH [OF e(4)] Cons.prems(2) show ?case
    by (subst sched_search.simps) (simp add: get_flink_def)
qed

lemma sched_search_refines:
  assumes r: "refines s a" and L: "a_list a L = as @ bs"
  shows "sched_search s (first_ptr bs) prio =
    Some (first_ptr (dropWhile (\<lambda>y. prio \<le> a_prio a y) bs))"
proof -
  obtain k q where "dq_seg (dqm s) k q bs (dq_tail (tasklists s L)) NULL"
    using refines_rep [OF r, of L] by (auto simp: L dq_rep_def)
  moreover from this have "q = first_ptr bs" by (cases "bs = []") (auto dest: dq_seg_ends)
  ultimately show ?thesis
    using sched_search_seg [of bs s "a_tcb a"] refines_get_tcb [OF r] refines_listed [OF r, of _ L]
    by (simp add: L a_prio_def)
qed

lemma dropWhile_hd_split:
  "dropWhile P xs \<noteq> [] \<Longrightarrow> \<exists>y ys. dropWhile P xs = y # ys \<and> xs = takeWhile P xs @ y # ys"
  by (metis neq_Nil_conv takeWhile_dropWhile_id)

lemma sched_addprioritized_refines:
  assumes r: "refines s a" and t: "a_live a t" "a_unlisted a t" and p: "1 \<le> a_prio a t"
  shows "\<exists>s'. sched_addprioritized t L s =
              Some (a_list a L = [] \<or> a_prio a (first_ptr (a_list a L)) < a_prio a t, s') \<and>
           refines s' (a_insert L t a) \<and> kframe s s'"
proof -
  let ?P = "\<lambda>y. a_prio a t \<le> a_prio a y"
  define as where "as = takeWhile ?P (a_list a L)"
  define bs where "bs = dropWhile ?P (a_list a L)"
  have L: "a_list a L = as @ bs" by (simp add: as_def bs_def)
  have rep: "dq_rep (dqm s) (tasklists s L) (as @ bs)" using refines_rep [OF r, of L] L by simp
  have nin: "t \<notin> set (as @ bs)" using t(2) L unfolding a_unlisted_def by metis
  have v: "dq_valid (dqm s) t" using t(1) refines_live_valid [OF r] by simp
  note link = dq_rep_link [OF rep nin v refl refl refl refl]
  have ins: "insert_desc (a_prio a) t (a_list a L) = as @ t # bs"
    by (simp add: insert_desc_def as_def bs_def)
  have "set (as @ t # bs) \<inter> set (a_list a M) = {}" if "M \<noteq> L" for M
  proof -
    have "set (a_list a L) \<inter> set (a_list a M) = {}" using r that unfolding refines_def by metis
    then show ?thesis using t(2) L by (simp add: a_unlisted_def)
  qed
  then have ref: "refines (k_set_list L q (s\<lparr>dqm := m\<rparr>)) (a_insert L t a)"
    if "dq_rep m q (as @ t # bs) \<and> dq_frame (insert t (set (as @ bs))) (dqm s) m" for m q
    unfolding a_insert_def ins using that
    by (intro refines_relink [OF r, where S = "insert t (set (as @ bs))"]) auto
  have se: "sched_search s (dq_head (tasklists s L)) (a_prio a t) = Some (first_ptr bs)"
    using sched_search_refines [OF r, of L "[]"] refines_head [OF r, of L] by (simp add: bs_def)
  have n: "first_ptr bs = NULL \<longleftrightarrow> bs = []" "last_ptr as = NULL \<longleftrightarrow> as = []"
    using dq_rep_NULL [OF rep] by (simp_all add: first_ptr_NULL last_ptr_NULL)
  have vl: "as \<noteq> [] \<Longrightarrow> dq_valid (dqm s) (last_ptr as)"
    "bs \<noteq> [] \<Longrightarrow> dq_valid (dqm s) (first_ptr bs)"
    using dq_rep_valid [OF rep] last_ptr_in [of as] first_ptr_in [of bs] by auto
  have tl: "bs = [] \<Longrightarrow> dq_tail (tasklists s L) = last_ptr as"
    using dq_rep_tail [OF rep] by simp
  have bl: "bs \<noteq> [] \<Longrightarrow> get_blink (dqm s) (first_ptr bs) = Some (last_ptr as)"
    using dq_rep_split(2) [of "dqm s" "tasklists s L" as] rep by (cases bs) auto
  have hd: "as = [] \<longleftrightarrow> a_list a L = [] \<or> a_prio a (first_ptr (a_list a L)) < a_prio a t"
    by (cases "a_list a L") (auto simp: as_def)
  have gt: "get_tcb s t = Some (a_tcb a t)" using refines_get_tcb [OF r t(1)] .
  have ref2: "refines (s\<lparr>dqm := m\<rparr>) (a_insert L t a)"
    if "dq_rep m (tasklists s L) (as @ t # bs) \<and> dq_frame (insert t (set (as @ bs))) (dqm s) m" for m
    using ref [OF that] by (simp add: k_set_list_def)
  show ?thesis
    using link ref ref2 v gt se n vl tl bl p unfolding hd [symmetric]
    by (cases "as = []"; cases "bs = []")
      (simp_all add: sched_addprioritized_def k_set_flink_def k_set_blink_def dq_op_simps Let_def
        flip: a_prio_def)
qed

subsection \<open>The other list operations\<close>

lemma refines_links:
  assumes "refines s a" "a_list a L = as @ x # bs"
  shows "get_flink (dqm s) x = Some (first_ptr bs)" "get_blink (dqm s) x = Some (last_ptr as)"
  using dq_rep_split [of "dqm s" "tasklists s L" as x bs] refines_rep [OF assms(1), of L] assms(2)
  by simp_all

lemma sched_addreadytorun_refines:
  assumes r: "refines s a" and t: "a_live a t" "a_unlisted a t" and p: "1 \<le> a_prio a t"
    and ne: "a_list a g_readytorun \<noteq> []" and lc: "0 \<le> lockcount (a_tcb a (a_running a))"
  shows "\<exists>s'. sched_addreadytorun t s = Some (fst (a_addreadytorun t a), s') \<and>
           refines s' (snd (a_addreadytorun t a)) \<and> kframe s s'"
proof -
  let ?r = "a_running a"
  have rl: "a_live a ?r" using refines_listed [OF r a_running_in [OF ne]] .
  have gets: "get_tcb s (this_task s) = Some (a_tcb a ?r)" "get_tcb s t = Some (a_tcb a t)"
    using refines_get_tcb [OF r] rl t refines_running [OF r] by simp_all
  have pr: "sched_priority (a_tcb a x) = a_prio a x" for x by (simp add: a_prio_def)
  consider (pend) "lockcount (a_tcb a ?r) > 0" "a_prio a ?r < a_prio a t"
    | (head) "\<not> lockcount (a_tcb a ?r) > 0" "a_prio a ?r < a_prio a t"
    | (mid) "\<not> a_prio a ?r < a_prio a t" by blast
  then show ?thesis
  proof cases
    case pend
    obtain s1 where s1: "sched_addprioritized t g_pendingtasks s =
        Some (a_list a g_pendingtasks = [] \<or> a_prio a (first_ptr (a_list a g_pendingtasks)) < a_prio a t, s1)"
      "refines s1 (a_insert g_pendingtasks t a)" "kframe s s1"
      using sched_addprioritized_refines [OF r t p] by blast
    obtain s2 where "set_task_state t TSTATE_TASK_PENDING s1 = Some s2"
      "refines s2 (a_state t TSTATE_TASK_PENDING (a_insert g_pendingtasks t a))" "kframe s1 s2"
      using refines_set_state [OF s1(2)] t(1) by fastforce
    with pend s1 gets pr show ?thesis
      by (auto simp: sched_addreadytorun_def a_addreadytorun_def Let_def intro: kframe_trans)
  next
    case head
    then have ins: "insert_desc (a_prio a) t (a_list a g_readytorun) = t # a_list a g_readytorun"
      using ne by (cases "a_list a g_readytorun") (auto simp: a_running_def)
    obtain s1 where s1: "sched_addprioritized t g_readytorun s = Some (True, s1)"
      "refines s1 (a_insert g_readytorun t a)" "kframe s s1"
      using sched_addprioritized_refines [OF r t p, of g_readytorun] head by (auto simp: a_running_def)
    have fl: "get_flink (dqm s1) t = Some ?r"
      using refines_links(1) [OF s1(2), of g_readytorun "[]" t "a_list a g_readytorun"]
      by (simp add: ins a_running_def)
    obtain s2 where s2: "set_task_state t TSTATE_TASK_RUNNING s1 = Some s2"
      "refines s2 (a_state t TSTATE_TASK_RUNNING (a_insert g_readytorun t a))" "kframe s1 s2"
      using refines_set_state [OF s1(2)] t(1) by fastforce
    obtain s3 where s3: "set_task_state ?r TSTATE_TASK_READYTORUN s2 = Some s3"
      "refines s3 (a_state ?r TSTATE_TASK_READYTORUN
         (a_state t TSTATE_TASK_RUNNING (a_insert g_readytorun t a)))" "kframe s2 s3"
      using refines_set_state [OF s2(2)] rl by fastforce
    have "?r \<noteq> NULL" "lockcount (a_tcb a ?r) = 0" using rl head lc by (auto simp: a_live_def)
    with head s1 s2 s3 gets pr fl show ?thesis
      by (auto simp: sched_addreadytorun_def a_addreadytorun_def a_ready_def Let_def intro: kframe_trans)
  next
    case mid
    obtain s1 where s1: "sched_addprioritized t g_readytorun s = Some (False, s1)"
      "refines s1 (a_insert g_readytorun t a)" "kframe s s1"
      using sched_addprioritized_refines [OF r t p, of g_readytorun] mid ne by (auto simp: a_running_def)
    obtain s2 where "set_task_state t TSTATE_TASK_READYTORUN s1 = Some s2"
      "refines s2 (a_state t TSTATE_TASK_READYTORUN (a_insert g_readytorun t a))" "kframe s1 s2"
      using refines_set_state [OF s1(2)] t(1) by fastforce
    with mid s1 gets pr show ?thesis
      by (auto simp: sched_addreadytorun_def a_addreadytorun_def a_ready_def Let_def intro: kframe_trans)
  qed
qed

lemma k_dq_rem_refines:
  assumes r: "refines s a" and t: "t \<in> set (a_list a L)"
  shows "\<exists>s'. k_dq_rem t L s = Some s' \<and> refines s' (a_remove L t a) \<and> kframe s s'"
proof -
  obtain as bs where L: "a_list a L = as @ t # bs" using split_list [OF t] by blast
  have rep: "dq_rep (dqm s) (tasklists s L) (as @ t # bs)" using refines_rep [OF r, of L] L by simp
  obtain q' m' where q: "dq_rem t (tasklists s L) (dqm s) = Some (q', m')"
    "dq_rep m' q' (as @ bs)" "dq_frame (set (as @ t # bs)) (dqm s) m'"
    using dq_rem_spec [OF rep] by blast
  have "set (as @ t # bs) \<inter> set (a_list a M) = {}" if "M \<noteq> L" for M
    using r that L unfolding refines_def by metis
  then have "refines (k_set_list L q' (s\<lparr>dqm := m'\<rparr>)) (a_set_list L (as @ bs) a)"
    using refines_relink [OF r q(2,3)] by auto
  moreover have "remove1 t (a_list a L) = as @ bs"
    using distinct_remove1_split dq_rep_distinct [OF rep] L by metis
  ultimately show ?thesis using q by (simp add: k_dq_rem_def a_remove_def)
qed

lemma k_dq_addlast_refines:
  assumes r: "refines s a" and t: "a_live a t" "a_unlisted a t"
  shows "\<exists>s'. k_dq_addlast t L s = Some s' \<and> refines s' (a_set_list L (a_list a L @ [t]) a) \<and>
           kframe s s'"
proof -
  obtain q' m' where q: "dq_addlast t (tasklists s L) (dqm s) = Some (q', m')"
    "dq_rep m' q' (a_list a L @ [t])" "dq_frame (insert t (set (a_list a L))) (dqm s) m'"
    using dq_addlast_spec [OF refines_rep [OF r], of t L] t refines_live_valid [OF r]
    by (auto simp: a_unlisted_def)
  have "insert t (set (a_list a L)) \<inter> set (a_list a M) = {}" if "M \<noteq> L" for M
    using r that t(2) by (auto simp: refines_def a_unlisted_def)
  then have "refines (k_set_list L q' (s\<lparr>dqm := m'\<rparr>)) (a_set_list L (a_list a L @ [t]) a)"
    using refines_relink [OF r q(2,3)] by auto
  with q show ?thesis by (simp add: k_dq_addlast_def)
qed

lemma sched_removereadytorun_refines:
  assumes r: "refines s a" and t: "t \<in> set (a_list a g_readytorun)"
    and two: "a_running a = t \<Longrightarrow> remove1 t (a_list a g_readytorun) \<noteq> []"
  shows "\<exists>s'. sched_removereadytorun t s = Some (fst (a_removereadytorun t a), s') \<and>
           refines s' (snd (a_removereadytorun t a)) \<and> kframe s s'"
proof -
  obtain as bs where L: "a_list a g_readytorun = as @ t # bs" using split_list [OF t] by blast
  have d: "distinct (as @ t # bs)" using refines_distinct [OF r, of g_readytorun] L by simp
  note lk = refines_links [OF r L]
  have tl: "a_live a t" using refines_listed [OF r t] .
  have las: "last_ptr as = NULL \<longleftrightarrow> as = []" and run: "a_running a = t \<longleftrightarrow> as = []"
    using refines_NULL [OF r, of g_readytorun] L d
    by (auto simp: last_ptr_NULL a_running_def first_ptr_append dest: first_ptr_in)
  show ?thesis
  proof (cases "as = []")
    case True
    with two run L have bs: "bs \<noteq> []" by simp
    let ?n = "first_ptr bs"
    have n: "a_live a ?n" "?n \<noteq> t"
      using refines_listed [OF r, of ?n g_readytorun] first_ptr_in [OF bs] L d by auto
    obtain s1 where s1: "set_task_state ?n TSTATE_TASK_RUNNING s = Some s1"
      "refines s1 (a_state ?n TSTATE_TASK_RUNNING a)" "kframe s s1"
      using refines_set_state [OF r n(1)] by blast
    obtain s2 where s2: "k_dq_rem t g_readytorun s1 = Some s2"
      "refines s2 (a_remove g_readytorun t (a_state ?n TSTATE_TASK_RUNNING a))" "kframe s1 s2"
      using k_dq_rem_refines [OF s1(2)] t by fastforce
    obtain s3 where s3: "set_task_state t TSTATE_TASK_INVALID s2 = Some s3"
      "refines s3 (a_state t TSTATE_TASK_INVALID
         (a_remove g_readytorun t (a_state ?n TSTATE_TASK_RUNNING a)))" "kframe s2 s3"
      using refines_set_state [OF s2(2)] tl by fastforce
    have "a_running (a_remove g_readytorun t a) = ?n"
      using True L by (simp add: a_running_def)
    then show ?thesis
      using True s1 s2 s3 lk n run
      by (auto simp: sched_removereadytorun_def a_removereadytorun_def a_live_def Let_def
          intro: kframe_trans)
  next
    case False
    obtain s2 where s2: "k_dq_rem t g_readytorun s = Some s2"
      "refines s2 (a_remove g_readytorun t a)" "kframe s s2"
      using k_dq_rem_refines [OF r t] by blast
    obtain s3 where s3: "set_task_state t TSTATE_TASK_INVALID s2 = Some s3"
      "refines s3 (a_state t TSTATE_TASK_INVALID (a_remove g_readytorun t a))" "kframe s2 s3"
      using refines_set_state [OF s2(2)] tl by fastforce
    show ?thesis
      using False las run s2 s3 lk
      by (auto simp: sched_removereadytorun_def a_removereadytorun_def Let_def intro: kframe_trans)
  qed
qed

lemma sched_addblocked_refines:
  assumes r: "refines s a" and t: "a_live a t" "a_unlisted a t" and p: "1 \<le> a_prio a t"
    and st: "is_blocked_state st"
  shows "\<exists>s'. sched_addblocked t st s = Some s' \<and> refines s' (a_addblocked t st a) \<and> kframe s s'"
proof -
  obtain L where L: "TLIST_BLOCKED st = Some L"
    using st by (cases st) (auto simp: TLIST_BLOCKED_def g_tasklisttable_def is_blocked_state_def tstate_num_def)
  obtain s1 where s1: "(if TLIST_ISPRIORITIZED st
           then do { (_, s) \<leftarrow> sched_addprioritized t L s; Some s }
           else k_dq_addlast t L s) = Some s1"
    "refines s1 (if TLIST_ISPRIORITIZED st then a_insert L t a else a_set_list L (a_list a L @ [t]) a)"
    "kframe s s1"
    using sched_addprioritized_refines [OF r t p, of L] k_dq_addlast_refines [OF r t, of L]
    by (cases "TLIST_ISPRIORITIZED st") auto
  obtain s2 where "set_task_state t st s1 = Some s2" "kframe s1 s2"
    "refines s2 (a_state t st (if TLIST_ISPRIORITIZED st then a_insert L t a
                               else a_set_list L (a_list a L @ [t]) a))"
    using refines_set_state [OF s1(2), of t st] t(1) by (cases "TLIST_ISPRIORITIZED st") auto
  with s1 L st show ?thesis
    by (auto simp: sched_addblocked_def a_addblocked_def intro: kframe_trans)
qed

lemma sched_removeblocked_refines:
  assumes r: "refines s a" and L: "TLIST_BLOCKED (task_state (a_tcb a t)) = Some L"
    and t: "t \<in> set (a_list a L)" and st: "is_blocked_state (task_state (a_tcb a t))"
  shows "\<exists>s'. sched_removeblocked t s = Some s' \<and> refines s' (a_removeblocked t a) \<and> kframe s s'"
proof -
  have tl: "a_live a t" using refines_listed [OF r t] .
  obtain s1 where s1: "k_dq_rem t L s = Some s1" "refines s1 (a_remove L t a)" "kframe s s1"
    using k_dq_rem_refines [OF r t] by blast
  obtain s2 where "set_task_state t TSTATE_TASK_INVALID s1 = Some s2" "kframe s1 s2"
    "refines s2 (a_state t TSTATE_TASK_INVALID (a_remove L t a))"
    using refines_set_state [OF s1(2)] tl by fastforce
  with s1 L st refines_get_tcb [OF r tl] show ?thesis
    by (auto simp: sched_removeblocked_def a_removeblocked_def intro: kframe_trans)
qed

subsection \<open>Merging the pending tasks\<close>

lemma insert_desc_prefix:
  "\<forall>y \<in> set as. key x \<le> key y \<Longrightarrow> insert_desc key x (as @ bs) = as @ insert_desc key x bs"
  by (induction as) auto

text \<open>
  The state during the merge: \<open>a\<close> has an empty pending list, the tasks \<open>ps\<close> still to be
  merged are in no list of \<open>a\<close> but linked to each other in memory.
\<close>

definition seg_from :: "dqmem \<Rightarrow> addr \<Rightarrow> addr list \<Rightarrow> bool" where
  "seg_from m p ps \<longleftrightarrow> (\<exists>b l. dq_seg m b p ps l NULL)"

definition merging :: "'a kstate_scheme \<Rightarrow> asched \<Rightarrow> addr \<Rightarrow> addr list \<Rightarrow> bool" where
  "merging s a p ps \<longleftrightarrow>
     a_tcbs a = tcbs s \<and> a_cpu a = cpu_regs s \<and> dom (dqm s) = dom (tcbs s) \<and> a_list a g_pendingtasks = [] \<and>
     (\<forall>L. L \<noteq> g_pendingtasks \<longrightarrow> dq_rep (dqm s) (tasklists s L) (a_list a L)) \<and>
     (\<forall>L M. L \<noteq> M \<longrightarrow> set (a_list a L) \<inter> set (a_list a M) = {}) \<and>
     seg_from (dqm s) p ps \<and> distinct ps \<and>
     (\<forall>x \<in> set ps. a_unlisted a x)"

lemma merging_init:
  assumes r: "refines s a"
  shows "merging s (a_set_list g_pendingtasks [] a) (dq_head (tasklists s g_pendingtasks))
           (a_list a g_pendingtasks)"
proof -
  have "dq_rep (dqm s) (tasklists s g_pendingtasks) (a_list a g_pendingtasks)"
    by (rule refines_rep [OF r])
  moreover have "a_unlisted (a_set_list g_pendingtasks [] a) x"
    if "x \<in> set (a_list a g_pendingtasks)" for x
    using refines_disjoint [OF r that] by (auto simp: a_unlisted_def)
  ultimately have "seg_from (dqm s) (dq_head (tasklists s g_pendingtasks)) (a_list a g_pendingtasks)"
    "distinct (a_list a g_pendingtasks)"
    "\<forall>x \<in> set (a_list a g_pendingtasks). a_unlisted (a_set_list g_pendingtasks [] a) x"
    by (auto simp: dq_rep_def seg_from_def)
  with r show ?thesis by (simp add: merging_def refines_def)
qed

lemma merging_done:
  assumes "merging s a p []"
  shows "refines (k_set_list g_pendingtasks \<lparr>dq_head = NULL, dq_tail = NULL\<rparr> s) a"
  using assms by (auto simp: merging_def refines_def dq_init_def)

text \<open>One round: linking a pending task in front of the ready task the search found.\<close>

lemma merging_live:
  assumes "merging s a p ps" "x \<in> set ps"
  shows "a_live a x"
proof -
  have "dq_valid (dqm s) x" "a_tcbs a = tcbs s" "dom (dqm s) = dom (tcbs s)"
    using assms by (auto simp: merging_def seg_from_def dest: dq_seg_valid)
  then show ?thesis by (auto simp: a_live_def dq_valid_def)
qed

lemma merging_upd:
  "merging s a p ps \<Longrightarrow> a_live a t \<Longrightarrow>
   \<exists>s'. set_task_state t st s = Some s' \<and> merging s' (a_state t st a) p ps \<and> kframe s s'"
  by (auto simp: merging_def a_live_def set_task_state_def upd_tcb_def get_tcb_def a_state_def
      a_upd_def fun_eq_iff a_unlisted_def)

lemma merging_link:
  assumes g: "merging s a p (p # ps)" and L: "a_list a g_readytorun = as @ bs" and bs: "bs \<noteq> []"
    and m: "m = upd_blink (upd_blink (if as = [] then upd_flink (dqm s) p (first_ptr bs)
                  else upd_flink (upd_flink (dqm s) p (first_ptr bs)) (last_ptr as) p)
                  p (last_ptr as)) (first_ptr bs) p"
    and q: "q = (if as = [] then (tasklists s g_readytorun)\<lparr>dq_head := p\<rparr>
                 else tasklists s g_readytorun)"
    and n: "get_flink (dqm s) p = Some n"
  shows "merging (k_set_list g_readytorun q (s\<lparr>dqm := m\<rparr>))
           (a_set_list g_readytorun (as @ p # bs) a) n ps"
proof -
  let ?q = "tasklists s g_readytorun"
  have rep: "dq_rep (dqm s) ?q (as @ bs)" using g L unfolding merging_def by (metis tasklist.distinct(1))
  have pu: "a_unlisted a p" using g by (simp add: merging_def)
  then have pn: "p \<notin> set (as @ bs)" using L unfolding a_unlisted_def by metis
  obtain b l where seg: "dq_seg (dqm s) b p (p # ps) l NULL" "distinct (p # ps)"
    using g unfolding merging_def seg_from_def by blast
  have pv: "dq_valid (dqm s) p" using dq_seg_valid [OF seg(1)] by simp
  have new: "dq_rep m q (as @ p # bs)" and fr: "dq_frame (insert p (set (as @ bs))) (dqm s) m"
    using dq_rep_link [OF rep pn pv refl refl refl refl] bs m q
    by (cases "as = []"; simp add: dq_queue_upd)+
  have pb: "set ps \<inter> insert p (set (as @ bs)) = {}"
    using g seg(2) unfolding merging_def a_unlisted_def L [symmetric] by (simp add: disjoint_iff)
  have "dq_seg (dqm s) p n ps l NULL" using seg(1) n by (auto simp: get_flink_def)
  moreover have "m x = dqm s x" if "x \<in> set ps" for x
  proof -
    have "x \<notin> insert p (set (as @ bs))" using that pb by blast
    with fr show ?thesis unfolding dq_frame_def by blast
  qed
  ultimately have sg: "dq_seg m p n ps l NULL" using dq_seg_frame [of ps m "dqm s" p n l NULL] by blast
  have oth: "dq_rep m (tasklists s M) (a_list a M)" if "M \<noteq> g_readytorun" "M \<noteq> g_pendingtasks" for M
  proof -
    have "set (as @ bs) \<inter> set (a_list a M) = {}" using g that(1) L unfolding merging_def by metis
    with pu have "set (a_list a M) \<inter> insert p (set (as @ bs)) = {}" by (auto simp: a_unlisted_def)
    with dq_rep_frame [OF fr] g that(2) show ?thesis by (simp add: merging_def)
  qed
  have dis: "insert p (set (as @ bs)) \<inter> set (a_list a M) = {}" if "M \<noteq> g_readytorun" for M
  proof -
    have "set (as @ bs) \<inter> set (a_list a M) = {}" using g that L unfolding merging_def by metis
    with pu show ?thesis by (simp add: a_unlisted_def)
  qed
  have "\<forall>x \<in> set ps. a_unlisted (a_set_list g_readytorun (as @ p # bs) a) x"
    using g pb seg(2) by (simp add: merging_def a_unlisted_def disjoint_iff) blast
  moreover have "dom m = dom (dqm s)" using fr by (simp add: dq_frame_def)
  moreover have "seg_from m n ps" using sg by (auto simp: seg_from_def)
  moreover have "set (((a_list a)(g_readytorun := as @ p # bs)) N) \<inter>
      set (((a_list a)(g_readytorun := as @ p # bs)) M) = {}" if "N \<noteq> M" for N M
    using g that dis [of N] dis [of M]
    by (cases "N = g_readytorun"; cases "M = g_readytorun") (simp_all add: merging_def Int_commute)
  ultimately show ?thesis
    using g new oth seg(2) by (simp add: merging_def)
qed

lemma a_state_swap:
  "t \<noteq> u \<Longrightarrow> a_state t x (a_state u y a) = a_state u y (a_state t x a)"
  by (simp add: a_state_def a_upd_def fun_upd_twist)

lemma merging_ready:
  assumes g: "merging s a p (p # ps)" and L: "a_list a g_readytorun = as @ bs"
    and as: "\<forall>x \<in> set as. a_prio a p \<le> a_prio a x"
    and low: "\<exists>x \<in> set bs. a_prio a x < a_prio a p"
  defines "cs \<equiv> takeWhile (\<lambda>y. a_prio a p \<le> a_prio a y) bs"
    and "ds \<equiv> dropWhile (\<lambda>y. a_prio a p \<le> a_prio a y) bs"
  shows "\<exists>n s'. sched_mergepending_loop p (first_ptr bs) ret s =
                sched_mergepending_loop n p (ret \<or> fst (a_ready p a)) s' \<and>
           merging s' (snd (a_ready p a)) n ps \<and> kframe s s' \<and>
           a_list (snd (a_ready p a)) g_readytorun = (as @ cs) @ p # ds"
proof -
  have ds: "ds \<noteq> []" using low unfolding ds_def by (auto simp: dropWhile_eq_Nil_conv not_le)
  have L': "a_list a g_readytorun = (as @ cs) @ ds" by (simp add: L cs_def ds_def)
  have rep: "dq_rep (dqm s) (tasklists s g_readytorun) ((as @ cs) @ ds)"
    using g L' unfolding merging_def by (metis tasklist.distinct(1))
  have pl: "a_live a p" using merging_live [OF g] by simp
  obtain n where n: "get_flink (dqm s) p = Some n" and pv: "dq_valid (dqm s) p"
    using g by (auto simp: merging_def seg_from_def get_flink_def dq_valid_def)
  have tc: "get_tcb s x = Some (a_tcb a x)" if "a_live a x" for x
    using g that by (auto simp: merging_def a_live_def get_tcb_def a_tcb_def)
  have rl: "a_live a x" if "x \<in> set ((as @ cs) @ ds)" for x
    using dq_rep_valid [OF rep that] g by (auto simp: merging_def a_live_def dq_valid_def)
  have se: "sched_search s (first_ptr bs) (a_prio a p) = Some (first_ptr ds)"
  proof -
    obtain k q where sg: "dq_seg (dqm s) k q bs (dq_tail (tasklists s g_readytorun)) NULL"
      using rep unfolding L' [symmetric] L dq_rep_def dq_seg_append by blast
    moreover have "q = first_ptr bs" using sg by (cases "bs = []") (auto dest: dq_seg_ends)
    moreover have "\<And>x. x \<in> set bs \<Longrightarrow> get_tcb s x = Some (a_tcb a x)"
      using tc rl L L' by (metis Un_iff set_append)
    ultimately show ?thesis
      using sched_search_seg [of bs s "a_tcb a"] by (simp add: ds_def a_prio_def)
  qed
  obtain r ds' where r: "ds = r # ds'" using ds by (cases ds) auto
  have rv: "dq_valid (dqm s) r" "r \<noteq> NULL" "a_live a r"
    using dq_rep_valid [OF rep] rl r by (auto simp: dq_valid_def)
  have bl: "get_blink (dqm s) r = Some (last_ptr (as @ cs))"
    using dq_rep_split(2) [of _ _ "as @ cs" r ds'] rep r by simp
  have nl: "last_ptr (as @ cs) = NULL \<longleftrightarrow> as @ cs = []"
    using dq_rep_NULL [OF rep] by (simp add: last_ptr_NULL)
  have lv: "as @ cs \<noteq> [] \<Longrightarrow> dq_valid (dqm s) (last_ptr (as @ cs))"
    using dq_rep_valid [OF rep, of "last_ptr (as @ cs)"] last_ptr_in [of "as @ cs"] by auto
  have ins: "a_insert g_readytorun p a = a_set_list g_readytorun ((as @ cs) @ p # ds) a"
    using as by (simp add: a_insert_def L insert_desc_prefix) (simp add: insert_desc_def cs_def ds_def)
  have cond: "a_prio a (a_running a) < a_prio a p \<longleftrightarrow> as @ cs = []"
  proof
    assume *: "a_prio a (a_running a) < a_prio a p"
    show "as @ cs = []"
    proof (rule ccontr)
      assume "as @ cs \<noteq> []"
      then have "a_running a \<in> set (as @ cs)"
        using L' first_ptr_in by (simp add: a_running_def first_ptr_append)
      with as have "a_prio a p \<le> a_prio a (a_running a)"
        by (auto simp: cs_def dest: set_takeWhileD)
      with * show False by simp
    qed
  next
    assume "as @ cs = []"
    then have "a_running a = r" using L' r by (simp add: a_running_def)
    moreover have "\<not> a_prio a p \<le> a_prio a r"
      using hd_dropWhile [of "\<lambda>y. a_prio a p \<le> a_prio a y" bs] ds r by (simp add: ds_def)
    ultimately show "a_prio a (a_running a) < a_prio a p" by simp
  qed
  have pne: "p \<noteq> NULL" "p \<noteq> r"
  proof -
    show "p \<noteq> NULL" using pl by (simp add: a_live_def)
    have "p \<notin> set (a_list a g_readytorun)" using g by (simp add: merging_def a_unlisted_def)
    then show "p \<noteq> r" using L' r by auto
  qed
  note lnk = merging_link [OF g L' ds refl refl n]
  show ?thesis
  proof (cases "as @ cs = []")
    case True
    then have run: "a_running a = r" using L' r by (simp add: a_running_def)
    let ?s1 = "k_set_list g_readytorun ((tasklists s g_readytorun)\<lparr>dq_head := p\<rparr>)
        (s\<lparr>dqm := upd_blink (upd_blink (upd_flink (dqm s) p r) p NULL) r p\<rparr>)"
    have "merging ?s1 (a_insert g_readytorun p a) n ps"
      using lnk True r by (simp add: ins)
    then obtain s2 where s2: "set_task_state r TSTATE_TASK_READYTORUN ?s1 = Some s2"
      "merging s2 (a_state r TSTATE_TASK_READYTORUN (a_insert g_readytorun p a)) n ps" "kframe ?s1 s2"
      using merging_upd rv(3) a_live_simps(4) by blast
    then obtain s3 where s3: "set_task_state p TSTATE_TASK_RUNNING s2 = Some s3"
      "merging s3 (a_state p TSTATE_TASK_RUNNING
         (a_state r TSTATE_TASK_READYTORUN (a_insert g_readytorun p a))) n ps" "kframe s2 s3"
      using merging_upd [of s2 _ n ps p] pl by fastforce
    have ar: "a_ready p a = (True, a_state p TSTATE_TASK_RUNNING
         (a_state r TSTATE_TASK_READYTORUN (a_insert g_readytorun p a)))"
      using cond True run a_state_swap [OF pne(2)] by (simp add: a_ready_def)
    have "sched_mergepending_loop p (first_ptr bs) ret s = sched_mergepending_loop n p True s3"
      using n tc [OF pl] se pne rv bl True s2(1) s3(1) pv r
      by (subst sched_mergepending_loop.simps)
        (simp add: k_set_flink_def k_set_blink_def dq_op_simps Let_def flip: a_prio_def)
    moreover have "kframe s s3" using s2(3) s3(3) by (auto simp: kframe_def k_set_list_def)
    moreover have "a_list (snd (a_ready p a)) g_readytorun = (as @ cs) @ p # ds"
      by (simp add: ar ins)
    ultimately show ?thesis using s3(2) ar by auto
  next
    case False
    let ?l = "last_ptr (as @ cs)"
    let ?s1 = "s\<lparr>dqm := upd_blink (upd_blink (upd_flink (upd_flink (dqm s) p r) ?l p) p ?l) r p\<rparr>"
    have "merging ?s1 (a_insert g_readytorun p a) n ps"
      using lnk [unfolded if_not_P [OF False]] r unfolding ins by (simp add: k_set_list_def)
    then obtain s2 where s2: "set_task_state p TSTATE_TASK_READYTORUN ?s1 = Some s2"
      "merging s2 (a_state p TSTATE_TASK_READYTORUN (a_insert g_readytorun p a)) n ps" "kframe ?s1 s2"
      using merging_upd pl a_live_simps(4) by blast
    have ar: "a_ready p a = (False, a_state p TSTATE_TASK_READYTORUN (a_insert g_readytorun p a))"
      using cond False by (simp add: a_ready_def)
    have nn: "?l \<noteq> NULL" using nl False by simp
    have "sched_mergepending_loop p (first_ptr bs) ret s = sched_mergepending_loop n p ret s2"
      using n tc [OF pl] se pne rv bl nn lv [OF False] s2(1) pv r
      by (subst sched_mergepending_loop.simps)
        (simp add: k_set_flink_def k_set_blink_def dq_op_simps flip: a_prio_def)
    moreover have "kframe s s2" using s2(3) by (auto simp: kframe_def)
    moreover have "a_list (snd (a_ready p a)) g_readytorun = (as @ cs) @ p # ds"
      by (simp add: ar ins)
    ultimately show ?thesis using s2(2) ar by auto
  qed
qed

lemma a_ready_prio:
  "a_live a p \<Longrightarrow> a_live a (a_running a) \<Longrightarrow> a_prio (snd (a_ready p a)) = a_prio a"
  by (simp add: a_ready_def)

lemma sched_mergepending_loop_refines:
  assumes "merging s a p ps" "a_list a g_readytorun = as @ bs" "bs \<noteq> []"
    "\<forall>x \<in> set as. \<forall>y \<in> set ps. a_prio a y \<le> a_prio a x" "desc (a_prio a) ps"
    "\<forall>y \<in> set ps. a_prio a (last bs) < a_prio a y"
  shows "\<exists>s'. sched_mergepending_loop p (first_ptr bs) ret s = Some (fst (a_ready_all ps ret a), s') \<and>
           merging s' (snd (a_ready_all ps ret a)) NULL [] \<and> kframe s s'"
  using assms
proof (induction ps arbitrary: s a p as bs ret)
  case Nil
  then have "p = NULL" by (simp add: merging_def seg_from_def)
  with Nil show ?case by (simp add: sched_mergepending_loop.simps)
next
  case (Cons y ps)
  have py: "p = y" using Cons.prems(1) by (auto simp: merging_def seg_from_def)
  let ?a = "snd (a_ready p a)"
  let ?cs = "takeWhile (\<lambda>y. a_prio a p \<le> a_prio a y) bs"
  let ?ds = "dropWhile (\<lambda>y. a_prio a p \<le> a_prio a y) bs"
  have low: "\<exists>x \<in> set bs. a_prio a x < a_prio a p"
    using Cons.prems(3,6) py by (intro bexI [of _ "last bs"]) auto
  have as: "\<forall>x \<in> set as. a_prio a p \<le> a_prio a x" using Cons.prems(4) py by simp
  obtain n s1 where s1: "sched_mergepending_loop p (first_ptr bs) ret s =
        sched_mergepending_loop n p (ret \<or> fst (a_ready p a)) s1"
    "merging s1 ?a n ps" "kframe s s1" "a_list ?a g_readytorun = (as @ ?cs) @ p # ?ds"
    using merging_ready [OF Cons.prems(1) [folded py] Cons.prems(2) as low] py by blast
  have "a_live a p" using merging_live [OF Cons.prems(1)] py by simp
  moreover have "a_live a (a_running a)"
  proof -
    have "dq_rep (dqm s) (tasklists s g_readytorun) (a_list a g_readytorun)"
      using Cons.prems(1) unfolding merging_def by (metis tasklist.distinct(1))
    moreover have "a_running a \<in> set (a_list a g_readytorun)"
      by (rule a_running_in) (simp add: Cons.prems(2,3))
    ultimately have "dq_valid (dqm s) (a_running a)" by (rule dq_rep_valid)
    with Cons.prems(1) show ?thesis by (auto simp: merging_def a_live_def dq_valid_def)
  qed
  ultimately have pr: "a_prio ?a = a_prio a" by (rule a_ready_prio)
  have ds: "?ds \<noteq> []" using low by (auto simp: dropWhile_eq_Nil_conv not_le)
  have lst: "last (p # ?ds) = last bs"
  proof -
    have "last (p # ?ds) = last ?ds" using ds by (rule last_ConsR)
    also have "\<dots> = last (?cs @ ?ds)" using ds by (simp only: last_append if_False)
    finally show ?thesis by simp
  qed
  have "\<exists>s'. sched_mergepending_loop n (first_ptr (p # ?ds)) (ret \<or> fst (a_ready p a)) s1 =
      Some (fst (a_ready_all ps (ret \<or> fst (a_ready p a)) ?a), s') \<and>
      merging s' (snd (a_ready_all ps (ret \<or> fst (a_ready p a)) ?a)) NULL [] \<and> kframe s1 s'"
  proof (rule Cons.IH [OF s1(2,4)])
    show "p # ?ds \<noteq> []" by simp
    show "\<forall>x \<in> set (as @ ?cs). \<forall>y \<in> set ps. a_prio ?a y \<le> a_prio ?a x"
      unfolding pr using Cons.prems(4,5) py
      by (auto dest!: set_takeWhileD intro: order_trans)
    show "desc (a_prio ?a) ps" using Cons.prems(5) pr by simp
    show "\<forall>y \<in> set ps. a_prio ?a (last (p # ?ds)) < a_prio ?a y"
      unfolding lst pr using Cons.prems(6) by simp
  qed
  then obtain s' where "sched_mergepending_loop n p (ret \<or> fst (a_ready p a)) s1 =
      Some (fst (a_ready_all ps (ret \<or> fst (a_ready p a)) ?a), s')"
      "merging s' (snd (a_ready_all ps (ret \<or> fst (a_ready p a)) ?a)) NULL []" "kframe s1 s'"
    by auto
  moreover have "a_ready_all (y # ps) ret a = a_ready_all ps (ret \<or> fst (a_ready p a)) ?a"
    by (simp add: py split: prod.split)
  ultimately show ?case using s1(1,3) kframe_trans by auto
qed

text \<open>
  What the merge needs of the abstract state: a non-empty ready-to-run list whose last task,
  the idle task, has a priority below that of every pending task.
\<close>

lemma sched_mergepending_refines:
  assumes r: "refines s a" and ne: "a_list a g_readytorun \<noteq> []"
    and d: "desc (a_prio a) (a_list a g_pendingtasks)"
    and idle: "\<forall>y \<in> set (a_list a g_pendingtasks).
                 a_prio a (last (a_list a g_readytorun)) < a_prio a y"
  shows "\<exists>s'. sched_mergepending s = Some (fst (a_mergepending a), s') \<and>
           refines s' (snd (a_mergepending a)) \<and> kframe s s'"
proof -
  let ?a = "a_set_list g_pendingtasks [] a"
  have "\<exists>s'. sched_mergepending_loop (dq_head (tasklists s g_pendingtasks))
               (first_ptr (a_list a g_readytorun)) False s =
      Some (fst (a_ready_all (a_list a g_pendingtasks) False ?a), s') \<and>
      merging s' (snd (a_ready_all (a_list a g_pendingtasks) False ?a)) NULL [] \<and> kframe s s'"
    by (rule sched_mergepending_loop_refines [OF merging_init [OF r], of "[]"])
      (use ne d idle in auto)
  then show ?thesis
    using refines_running [OF r] merging_done
    by (fastforce simp: sched_mergepending_def a_mergepending_def a_running_def)
qed

end
