(* ===== verification/SchedInv.thy ===== *)
theory SchedInv
  imports SchedSpec
begin

text \<open>
  The invariant of the scheduler and its preservation. The invariant is stated on the
  abstract state: every listed task is in exactly one list, the one its \<^verbatim>\<open>task_state\<close> names;
  the prioritized lists are in descending order; the head of the ready-to-run list is the
  only running task and its tail the idle task; tasks are held in the pending list only
  while the running task has pre-emption locked.
\<close>

section \<open>Abstract context switching operations\<close>

definition a_switch :: "addr \<Rightarrow> asched \<Rightarrow> asched" where
  "a_switch r a =
     (let a1 = a_upd (a_running a) (\<lambda>t. t\<lparr>timeslice := RR_TICKS\<rparr>) (a_upd r (\<lambda>t. t\<lparr>xcp_regs := a_cpu a\<rparr>) a)
      in a1\<lparr>a_cpu := xcp_regs (a_tcb a1 (a_running a1))\<rparr>)"

definition a_switch_if :: "addr \<Rightarrow> bool \<times> asched \<Rightarrow> bool \<times> asched" where
  "a_switch_if r ba = (fst ba, if fst ba then a_switch r (snd ba) else snd ba)"

definition a_block :: "addr \<Rightarrow> tstate \<Rightarrow> asched \<Rightarrow> bool \<times> asched" where
  "a_block t st a =
     (let (sw, a1) = a_removereadytorun t a;
          (sw', a2) = a_mergepending (a_addblocked t st a1)
      in a_switch_if (a_running a) (sw \<or> sw', a2))"

definition a_unblock :: "addr \<Rightarrow> asched \<Rightarrow> bool \<times> asched" where
  "a_unblock t a = a_switch_if (a_running a) (a_addreadytorun t (a_removeblocked t a))"

definition a_release_pending :: "asched \<Rightarrow> bool \<times> asched" where
  "a_release_pending a = a_switch_if (a_running a) (a_mergepending a)"

definition a_set_prio :: "addr \<Rightarrow> 8 word \<Rightarrow> asched \<Rightarrow> asched" where
  "a_set_prio t p = a_upd t (\<lambda>x. x\<lparr>sched_priority := p\<rparr>)"

definition a_reprioritize :: "addr \<Rightarrow> 8 word \<Rightarrow> asched \<Rightarrow> bool \<times> asched" where
  "a_reprioritize t p a =
     (let (sw, a1) = a_removereadytorun t a;
          (sw', a2) = a_addreadytorun t (a_set_prio t p a1)
      in a_switch_if (a_running a)
           (sw \<noteq> sw', if sw \<noteq> sw' then snd (a_mergepending a2) else a2))"

section \<open>The invariant\<close>

definition prioritized_list :: "tasklist \<Rightarrow> bool" where
  "prioritized_list L \<longleftrightarrow> L \<noteq> g_waitingforsignal \<and> L \<noteq> g_inactivetasks"

definition a_idle :: "asched \<Rightarrow> addr" where
  "a_idle a = last (a_list a g_readytorun)"

text \<open>The nesting of \<^verbatim>\<open>sched_lock\<close> that the code allows for.\<close>

definition lock_ok :: "int \<Rightarrow> bool" where
  "lock_ok n \<longleftrightarrow> 0 \<le> n \<and> n \<le> MAX_LOCK_COUNT"

text \<open>What a task must satisfy to be a member of list \<open>L\<close>.\<close>

definition task_ok :: "asched \<Rightarrow> tasklist \<Rightarrow> addr \<Rightarrow> bool" where
  "task_ok a L t \<longleftrightarrow>
     a_live a t \<and> TLIST_BLOCKED (task_state (a_tcb a t)) = Some L \<and>
     lock_ok (lockcount (a_tcb a t)) \<and>
     (task_state (a_tcb a t) = TSTATE_TASK_RUNNING \<longleftrightarrow> t = a_running a) \<and>
     (t = a_idle a \<longrightarrow> a_prio a t = 0) \<and> (t \<noteq> a_idle a \<longrightarrow> 1 \<le> a_prio a t)"

definition a_core :: "asched \<Rightarrow> bool" where
  "a_core a \<longleftrightarrow>
     (\<forall>L. distinct (a_list a L)) \<and>
     (\<forall>L. \<forall>t \<in> set (a_list a L). task_ok a L t) \<and>
     (\<forall>L. prioritized_list L \<longrightarrow> desc (a_prio a) (a_list a L)) \<and>
     a_list a g_readytorun \<noteq> []"

text \<open>Pending tasks wait for the running task to unlock pre-emption.\<close>

definition a_inv :: "asched \<Rightarrow> bool" where
  "a_inv a \<longleftrightarrow> a_core a \<and>
     (a_list a g_pendingtasks \<noteq> [] \<longrightarrow> lockcount (a_tcb a (a_running a)) > 0)"

section \<open>Lemmas on the core invariant\<close>

lemma a_running_simps [simp]:
  "a_running (a_upd t f a) = a_running a"
  "a_running (a_state t st a) = a_running a"
  "a_running (a_set_prio t p a) = a_running a"
  "a_idle (a_upd t f a) = a_idle a"
  "a_idle (a_state t st a) = a_idle a"
  "a_idle (a_set_prio t p a) = a_idle a"
  by (simp_all add: a_running_def a_idle_def a_set_prio_def)

lemma a_core_task: "a_core a \<Longrightarrow> t \<in> set (a_list a L) \<Longrightarrow> task_ok a L t"
  by (simp add: a_core_def)

lemma a_core_live: "a_core a \<Longrightarrow> t \<in> set (a_list a L) \<Longrightarrow> a_live a t"
  by (simp add: a_core_def task_ok_def)

lemma a_core_disjoint:
  "a_core a \<Longrightarrow> t \<in> set (a_list a L) \<Longrightarrow> t \<in> set (a_list a M) \<Longrightarrow> L = M"
  by (metis a_core_task task_ok_def option.inject)

lemma a_core_running: "a_core a \<Longrightarrow> a_running a \<in> set (a_list a g_readytorun)"
  by (simp add: a_core_def a_running_in)

lemma a_core_idle: "a_core a \<Longrightarrow> a_idle a \<in> set (a_list a g_readytorun)"
  by (simp add: a_core_def a_idle_def)

lemma a_core_prio_ge1:
  "a_core a \<Longrightarrow> t \<in> set (a_list a L) \<Longrightarrow> t \<noteq> a_idle a \<Longrightarrow> 1 \<le> a_prio a t"
  by (auto dest!: a_core_task simp: task_ok_def)

lemma a_core_prio_idle: "a_core a \<Longrightarrow> a_prio a (a_idle a) = 0"
  using a_core_task [OF _ a_core_idle] by (auto simp: task_ok_def)

lemma a_core_desc: "a_core a \<Longrightarrow> prioritized_list L \<Longrightarrow> desc (a_prio a) (a_list a L)"
  by (simp add: a_core_def)

text \<open>The running task has the highest priority of all ready-to-run tasks.\<close>

lemma a_core_running_max:
  "a_core a \<Longrightarrow> t \<in> set (a_list a g_readytorun) \<Longrightarrow> a_prio a t \<le> a_prio a (a_running a)"
  using a_core_desc [of a g_readytorun]
  by (cases "a_list a g_readytorun") (auto simp: prioritized_list_def a_running_def)

lemma TLIST_BLOCKED_simps [simp]:
  "TLIST_BLOCKED TSTATE_TASK_INVALID = None"
  "TLIST_BLOCKED TSTATE_TASK_PENDING = Some g_pendingtasks"
  "TLIST_BLOCKED TSTATE_TASK_READYTORUN = Some g_readytorun"
  "TLIST_BLOCKED TSTATE_TASK_RUNNING = Some g_readytorun"
  "TLIST_BLOCKED TSTATE_TASK_INACTIVE = Some g_inactivetasks"
  "TLIST_BLOCKED TSTATE_WAIT_SEM = Some g_waitingforsemaphore"
  "TLIST_BLOCKED TSTATE_WAIT_SIG = Some g_waitingforsignal"
  "TLIST_BLOCKED TSTATE_WAIT_MQNOTEMPTY = Some g_waitingformqnotempty"
  "TLIST_BLOCKED TSTATE_WAIT_MQNOTFULL = Some g_waitingformqnotfull"
  by (simp_all add: TLIST_BLOCKED_def g_tasklisttable_def)

lemma TLIST_ISPRIORITIZED_iff:
  "TLIST_BLOCKED st = Some L \<Longrightarrow> TLIST_ISPRIORITIZED st \<longleftrightarrow> prioritized_list L"
  by (cases st) (auto simp: TLIST_ISPRIORITIZED_def g_tasklisttable_def prioritized_list_def
      TLIST_ATTR_PRIORITIZED_def TLIST_ATTR_RUNNABLE_def)

lemma blocked_state_list:
  "is_blocked_state st \<longleftrightarrow>
     (\<exists>L. TLIST_BLOCKED st = Some L \<and> L \<noteq> g_readytorun \<and> L \<noteq> g_pendingtasks)"
  by (cases st) (auto simp: is_blocked_state_def tstate_num_def)

lemma ready_state_list: "is_ready_state st \<longleftrightarrow> TLIST_BLOCKED st = Some g_readytorun"
  by (cases st) (auto simp: is_ready_state_def tstate_num_def)

text \<open>A state in which the invariant holds and a task \<open>t\<close> in no list is about to be listed.\<close>

definition a_core1 :: "asched \<Rightarrow> addr \<Rightarrow> bool" where
  "a_core1 a t \<longleftrightarrow> a_core a \<and> a_unlisted a t \<and> a_live a t \<and>
     1 \<le> a_prio a t \<and> lock_ok (lockcount (a_tcb a t))"

lemma a_core1D:
  assumes "a_core1 a t"
  shows "a_core a" "a_unlisted a t" "a_live a t" "1 \<le> a_prio a t" "lock_ok (lockcount (a_tcb a t))"
  using assms by (simp_all add: a_core1_def)

lemma a_core_insert_other:
  assumes c: "a_core1 a t" and L: "TLIST_BLOCKED st = Some L" "L \<noteq> g_readytorun"
    and xs: "set xs = insert t (set (a_list a L))" "distinct xs"
    and d: "prioritized_list L \<Longrightarrow> desc (a_prio a) xs"
  shows "a_core (a_state t st (a_set_list L xs a))"
proof -
  note c = a_core1D [OF c]
  have run: "a_running (a_set_list L xs a) = a_running a" and idle: "a_idle (a_set_list L xs a) = a_idle a"
    using L(2) by (simp_all add: a_running_def a_idle_def)
  have ni: "t \<noteq> a_running a" "t \<noteq> a_idle a"
    using c(2) a_core_running [OF c(1)] a_core_idle [OF c(1)] by (auto simp: a_unlisted_def)
  have st: "st \<noteq> TSTATE_TASK_RUNNING" using L by auto
  have "task_ok (a_state t st (a_set_list L xs a)) M x"
    if "x \<in> set (a_list (a_set_list L xs a) M)" for M x
  proof (cases "x = t")
    case True
    with that have "M = L" using c(2) by (auto simp: a_unlisted_def split: if_splits)
    with True c ni L st run idle show ?thesis by (simp add: task_ok_def)
  next
    case False
    with that have "x \<in> set (a_list a M)" using xs by (auto split: if_splits)
    from a_core_task [OF c(1) this] False c(3) run idle show ?thesis by (simp add: task_ok_def)
  qed
  with c L xs d show ?thesis by (auto simp: a_core_def)
qed

lemma a_core_addblocked:
  assumes c: "a_core1 a t" and st: "is_blocked_state st"
  shows "a_core (a_addblocked t st a)"
proof -
  obtain L where L: "TLIST_BLOCKED st = Some L" "L \<noteq> g_readytorun"
    using st by (auto simp: blocked_state_list)
  have nin: "t \<notin> set (a_list a L)" and dist: "distinct (a_list a L)"
    using a_core1D [OF c] by (auto simp: a_unlisted_def a_core_def)
  show ?thesis
  proof (cases "TLIST_ISPRIORITIZED st")
    case True
    then have "desc (a_prio a) (a_list a L)"
      using TLIST_ISPRIORITIZED_iff [OF L(1)] a_core_desc [OF a_core1D(1) [OF c]] by simp
    then have "a_core (a_state t st (a_set_list L (insert_desc (a_prio a) t (a_list a L)) a))"
      using nin dist by (intro a_core_insert_other [OF c L]) (auto intro: desc_insert_desc)
    with True L show ?thesis by (simp add: a_addblocked_def a_insert_def)
  next
    case False
    then have "a_core (a_state t st (a_set_list L (a_list a L @ [t]) a))"
      using nin dist TLIST_ISPRIORITIZED_iff [OF L(1)]
      by (intro a_core_insert_other [OF c L]) auto
    with False L show ?thesis by (simp add: a_addblocked_def)
  qed
qed

lemma a_core_addpending:
  assumes c: "a_core1 a t"
  shows "a_core (a_state t TSTATE_TASK_PENDING (a_insert g_pendingtasks t a))"
  unfolding a_insert_def
  using a_core1D [OF c] a_core_desc [of a g_pendingtasks]
  by (intro a_core_insert_other [OF c])
    (auto simp: a_unlisted_def a_core_def prioritized_list_def intro: desc_insert_desc)

lemma a_core_ready:
  assumes c1: "a_core1 a t"
  shows "a_core (snd (a_ready t a))" "a_idle (snd (a_ready t a)) = a_idle a"
    "a_running (snd (a_ready t a)) = (if fst (a_ready t a) then t else a_running a)"
proof -
  note c = a_core1D [OF c1]
  let ?L = "a_list a g_readytorun"
  let ?i = "a_insert g_readytorun t a"
  have ne: "?L \<noteq> []" and d: "desc (a_prio a) ?L"
    using c(1) by (auto simp: a_core_def prioritized_list_def)
  have r: "a_live a (a_running a)" "a_running a \<in> set ?L"
    using a_core_live a_core_running c(1) by blast+
  have ni: "t \<noteq> a_running a" "t \<noteq> a_idle a"
    using c(2) a_core_running [OF c(1)] a_core_idle [OF c(1)] by (auto simp: a_unlisted_def)
  have idle: "a_idle ?i = a_idle a"
  proof -
    have "a_prio a (last ?L) < a_prio a t"
      using a_core_prio_idle [OF c(1)] c(4) by (simp add: a_idle_def word_le_nat_alt word_less_nat_alt)
    with ne d show ?thesis by (simp add: a_idle_def insert_desc_last)
  qed
  have run: "a_running ?i = (if a_prio a (a_running a) < a_prio a t then t else a_running a)"
    using ne by (cases ?L) (auto simp: a_running_def)
  then show "a_idle (snd (a_ready t a)) = a_idle a"
    "a_running (snd (a_ready t a)) = (if fst (a_ready t a) then t else a_running a)"
    using idle by (simp_all add: a_ready_def)
  have pr: "a_prio (snd (a_ready t a)) = a_prio a" using a_ready_prio [OF c(3) r(1)] .
  have ls: "a_list (snd (a_ready t a)) = a_list ?i" by (simp add: a_ready_def)
  have "task_ok (snd (a_ready t a)) M x" if x: "x \<in> set (a_list ?i M)" for M x
  proof (cases "x = t")
    case True
    with x have "M = g_readytorun" using c(2) by (auto simp: a_unlisted_def split: if_splits)
    with True c ni r run idle pr show ?thesis by (auto simp: task_ok_def a_ready_def)
  next
    case False
    with x have "x \<in> set (a_list a M)" by (auto split: if_splits)
    from a_core_task [OF c(1) this] False c(3) r ni run idle pr show ?thesis
      by (auto simp: task_ok_def a_ready_def)
  qed
  moreover have "\<forall>L. distinct (a_list ?i L)"
    using c by (auto simp: a_core_def a_unlisted_def)
  moreover have "\<forall>L. prioritized_list L \<longrightarrow> desc (a_prio a) (a_list ?i L)"
    using c(1) d by (auto simp: a_core_def intro: desc_insert_desc)
  ultimately show "a_core (snd (a_ready t a))" by (simp add: a_core_def ls pr)
qed

lemma last_remove1: "xs \<noteq> [] \<Longrightarrow> last xs \<noteq> t \<Longrightarrow> last (remove1 t xs) = last xs"
  by (induction xs) (auto split: if_splits simp: neq_Nil_conv)

lemma a_core_removeready:
  assumes c: "a_core a" and t: "t \<in> set (a_list a g_readytorun)" and ni: "t \<noteq> a_idle a"
  shows "a_core1 (snd (a_removereadytorun t a)) t" "a_idle (snd (a_removereadytorun t a)) = a_idle a"
    "a_running a \<noteq> t \<Longrightarrow> a_running (snd (a_removereadytorun t a)) = a_running a"
    "a_list (snd (a_removereadytorun t a)) =
       (a_list a)(g_readytorun := remove1 t (a_list a g_readytorun))"
proof -
  let ?L = "a_list a g_readytorun"
  let ?i = "a_remove g_readytorun t a"
  have d: "distinct ?L" and ne: "?L \<noteq> []" using c by (auto simp: a_core_def)
  have tl: "a_live a t" using a_core_live [OF c t] .
  have iin: "a_idle a \<in> set (remove1 t ?L)" using a_core_idle [OF c] ni d by simp
  then have ne': "remove1 t ?L \<noteq> []" by auto
  have idle: "a_idle ?i = a_idle a" using last_remove1 [OF ne, of t] ni by (simp add: a_idle_def)
  have run: "a_running ?i = a_running a" if "a_running a \<noteq> t"
    using that ne by (cases ?L) (auto simp: a_running_def)
  have rin: "a_running ?i \<in> set ?L" "a_running ?i \<noteq> t"
    using first_ptr_in [OF ne'] d by (simp_all add: a_running_def)
  have rl: "a_live a (a_running ?i)" using a_core_live [OF c rin(1)] .
  have ls: "a_list (snd (a_removereadytorun t a)) = a_list ?i"
    by (simp add: a_removereadytorun_def Let_def)
  then show "a_list (snd (a_removereadytorun t a)) = (a_list a)(g_readytorun := remove1 t ?L)" by simp
  show "a_idle (snd (a_removereadytorun t a)) = a_idle a"
    "a_running a \<noteq> t \<Longrightarrow> a_running (snd (a_removereadytorun t a)) = a_running a"
    using idle run by (simp_all add: a_removereadytorun_def Let_def)
  have pr: "a_prio (snd (a_removereadytorun t a)) = a_prio a"
    using tl rl by (simp add: a_removereadytorun_def Let_def)
  have ok: "task_ok (snd (a_removereadytorun t a)) M x" if x: "x \<in> set (a_list ?i M)" for M x
  proof -
    have "x \<noteq> t" and xa: "x \<in> set (a_list a M)"
      using x d a_core_disjoint [OF c t] by (auto split: if_splits)
    moreover have "x = a_running ?i \<Longrightarrow> M = g_readytorun" using a_core_disjoint [OF c xa] rin by simp
    moreover have "a_running a \<noteq> t \<Longrightarrow> a_running ?i = a_running a" by (rule run)
    ultimately show ?thesis
      using a_core_task [OF c xa] tl rl idle pr rin
      by (auto simp: task_ok_def a_removereadytorun_def Let_def)
  qed
  have un: "a_unlisted (snd (a_removereadytorun t a)) t"
    using d a_core_disjoint [OF c t] by (auto simp: a_unlisted_def ls)
  have "a_core (snd (a_removereadytorun t a))"
    using c ok d ne' unfolding a_core_def ls pr by (auto intro: desc_remove1)
  moreover have "a_live (snd (a_removereadytorun t a)) t" "lock_ok (lockcount (a_tcb (snd (a_removereadytorun t a)) t))"
    using tl a_core_task [OF c t] rl rin by (auto simp: a_removereadytorun_def Let_def task_ok_def)
  ultimately show "a_core1 (snd (a_removereadytorun t a)) t"
    using un pr a_core_prio_ge1 [OF c t ni] by (simp add: a_core1_def)
qed

lemma a_core_removeother:
  assumes c: "a_core a" and t: "t \<in> set (a_list a L)" and L: "L \<noteq> g_readytorun"
  shows "a_core1 (a_state t TSTATE_TASK_INVALID (a_remove L t a)) t"
proof -
  let ?a = "a_state t TSTATE_TASK_INVALID (a_remove L t a)"
  have d: "distinct (a_list a L)" using c by (simp add: a_core_def)
  have tl: "a_live a t" using a_core_live [OF c t] .
  have run: "a_running ?a = a_running a" "a_idle ?a = a_idle a"
    using L by (simp_all add: a_running_def a_idle_def)
  have pr: "a_prio ?a = a_prio a" using tl by simp
  have ni: "t \<noteq> a_idle a" using a_core_disjoint [OF c t] a_core_idle [OF c] L by blast
  have "task_ok ?a M x" if x: "x \<in> set (a_list ?a M)" for x M
  proof -
    have "x \<noteq> t" and xa: "x \<in> set (a_list a M)"
      using x d a_core_disjoint [OF c t] by (auto split: if_splits)
    then show ?thesis using a_core_task [OF c xa] tl run pr by (simp add: task_ok_def)
  qed
  then have "a_core ?a" using c d L unfolding a_core_def pr by (auto intro: desc_remove1)
  moreover have "a_unlisted ?a t" using d a_core_disjoint [OF c t] by (auto simp: a_unlisted_def)
  ultimately show ?thesis
    using tl pr a_core_prio_ge1 [OF c t ni] a_core_task [OF c t] by (simp add: a_core1_def task_ok_def)
qed

lemma a_core_removeblocked:
  assumes c: "a_core a" and t: "t \<in> set (a_list a L)" and L: "L \<noteq> g_readytorun"
  shows "a_core1 (a_removeblocked t a) t"
  using a_core_removeother [OF assms] a_core_task [OF c t] by (simp add: a_removeblocked_def task_ok_def)

text \<open>Updates of a task that the invariant does not see.\<close>

lemma a_core_upd:
  assumes c: "a_core a"
    and f: "\<And>x. sched_priority (f x) = sched_priority x" "\<And>x. task_state (f x) = task_state x"
      "a_live a t \<Longrightarrow> lock_ok (lockcount (a_tcb a t)) \<Longrightarrow> lock_ok (lockcount (f (a_tcb a t)))"
  shows "a_core (a_upd t f a)"
proof -
  have pr: "a_prio (a_upd t f a) = a_prio a"
    using f(1) by (auto simp: a_prio_def a_tcb_def fun_eq_iff option.map_sel map_option_case split: option.split)
  have "task_ok (a_upd t f a) M x" if "task_ok a M x" for M x
    using that f pr by (cases "x = t") (auto simp: task_ok_def a_tcb_def a_live_def)
  then show ?thesis using c unfolding a_core_def pr by simp
qed

lemma a_core_upd_unlisted:
  assumes c: "a_core a" and u: "a_unlisted a t"
  shows "a_core (a_upd t f a)"
proof -
  have tcb: "a_tcb (a_upd t f a) x = a_tcb a x" if "x \<in> set (a_list a L)" for x L
    using u that by (auto simp: a_tcb_def a_unlisted_def)
  then have pr: "a_prio (a_upd t f a) x = a_prio a x" if "x \<in> set (a_list a L)" for x L
    using that by (simp add: a_prio_def)
  have "desc (a_prio (a_upd t f a)) (a_list a L) = desc (a_prio a) (a_list a L)" for L
    using pr by (intro desc_cong)
  moreover have "task_ok (a_upd t f a) L x" if "x \<in> set (a_list a L)" for x L
    using a_core_task [OF c that] tcb [OF that] pr [OF that] by (auto simp: task_ok_def)
  ultimately show ?thesis using c by (simp add: a_core_def)
qed

lemma a_core1_set_prio:
  assumes "a_core1 a t" "1 \<le> p"
  shows "a_core1 (a_set_prio t p a) t"
  using assms a_core_upd_unlisted [of a t]
  by (simp add: a_core1_def a_set_prio_def a_unlisted_def a_prio_def)

lemma a_cpu_simps [simp]:
  "a_tcb (a\<lparr>a_cpu := c\<rparr>) = a_tcb a" "a_prio (a\<lparr>a_cpu := c\<rparr>) = a_prio a"
  "a_live (a\<lparr>a_cpu := c\<rparr>) = a_live a" "a_running (a\<lparr>a_cpu := c\<rparr>) = a_running a"
  "a_idle (a\<lparr>a_cpu := c\<rparr>) = a_idle a"
  by (simp_all add: a_tcb_def a_prio_def a_live_def a_running_def a_idle_def fun_eq_iff)

lemma a_core_cpu [simp]: "a_core (a\<lparr>a_cpu := c\<rparr>) = a_core a"
  by (simp add: a_core_def task_ok_def)

lemma a_core_switch: "a_core a \<Longrightarrow> a_core (a_switch r a)"
  by (simp add: a_switch_def Let_def a_core_upd)

lemma a_ready_frame:
  "M \<noteq> g_readytorun \<Longrightarrow> a_list (snd (a_ready t a)) M = a_list a M"
  "a_live (snd (a_ready t a)) x = a_live a x"
  "a_cpu (snd (a_ready t a)) = a_cpu a"
  by (simp_all add: a_ready_def)

lemma a_tcb_ready:
  assumes "a_live a t" "a_live a (a_running a)"
  shows "\<exists>st. a_tcb (snd (a_ready t a)) x = (a_tcb a x)\<lparr>task_state := st\<rparr>"
  using assms by (intro exI [of _ "task_state (a_tcb (snd (a_ready t a)) x)"]) (simp add: a_ready_def)

text \<open>The merge, on the invariant.\<close>

lemma a_ready_all_ret: "fst (a_ready_all ps True a)"
  by (induction ps arbitrary: a) (simp_all split: prod.split)

lemma a_core1_ready:
  assumes p: "a_core1 a p" and q: "a_core1 a q" "q \<noteq> p"
  shows "a_core1 (snd (a_ready p a)) q"
proof -
  have ls: "a_list (snd (a_ready p a)) = (a_list a)(g_readytorun := insert_desc (a_prio a) p (a_list a g_readytorun))"
    by (simp add: a_ready_def)
  have lv: "a_live a p" "a_live a (a_running a)"
    using a_core1D [OF p] a_core_live a_core_running by blast+
  obtain st where "a_tcb (snd (a_ready p a)) q = (a_tcb a q)\<lparr>task_state := st\<rparr>" using a_tcb_ready [OF lv] by blast
  with q a_core_ready(1) [OF p] a_core1D [OF q(1)] show ?thesis
    using a_ready_prio [OF lv] by (auto simp: a_core1_def a_unlisted_def ls a_ready_frame)
qed

lemma a_ready_all_switch:
  assumes "a_core a" "distinct ps" "\<forall>p \<in> set ps. a_core1 a p"
  shows "fst (a_ready_all ps ret a) \<longleftrightarrow> ret \<or> (\<exists>p \<in> set ps. a_prio a (a_running a) < a_prio a p)"
  using assms
proof (induction ps arbitrary: a ret)
  case (Cons p ps)
  let ?a = "snd (a_ready p a)"
  have p: "a_core1 a p" and q: "\<forall>q \<in> set ps. a_core1 ?a q" using Cons.prems a_core1_ready by auto
  note c = a_core_ready [OF p]
  have lv: "a_live a p" "a_live a (a_running a)"
    using a_core1D [OF p] a_core_live a_core_running by blast+
  have pr: "a_prio ?a x = a_prio a x" for x using a_ready_prio [OF lv] by simp
  have IH: "fst (a_ready_all (p # ps) ret a) \<longleftrightarrow>
      (ret \<or> fst (a_ready p a)) \<or> (\<exists>q \<in> set ps. a_prio ?a (a_running ?a) < a_prio ?a q)"
    using Cons.IH [OF c(1) _ q, of "ret \<or> fst (a_ready p a)"] Cons.prems by (simp add: case_prod_beta)
  have f: "fst (a_ready p a) \<longleftrightarrow> a_prio a (a_running a) < a_prio a p" by (simp add: a_ready_def)
  show ?case unfolding IH pr c(3) f by auto
qed simp

lemma a_core_ready_all:
  assumes "a_core a" "distinct ps" "\<forall>p \<in> set ps. a_core1 a p"
  shows "a_core (snd (a_ready_all ps ret a)) \<and>
         a_idle (snd (a_ready_all ps ret a)) = a_idle a \<and>
         (\<forall>M. M \<noteq> g_readytorun \<longrightarrow> a_list (snd (a_ready_all ps ret a)) M = a_list a M) \<and>
         set (a_list (snd (a_ready_all ps ret a)) g_readytorun) =
           set ps \<union> set (a_list a g_readytorun) \<and>
         (\<not> fst (a_ready_all ps ret a) \<longrightarrow> a_running (snd (a_ready_all ps ret a)) = a_running a)"
  using assms
proof (induction ps arbitrary: a ret)
  case (Cons p ps)
  let ?a = "snd (a_ready p a)"
  have p: "a_core1 a p" using Cons.prems by simp
  note c = a_core_ready [OF p]
  have ls: "a_list ?a = (a_list a)(g_readytorun := insert_desc (a_prio a) p (a_list a g_readytorun))"
    by (simp add: a_ready_def)
  have "a_core1 ?a q" if "q \<in> set ps" for q
    using a_core1_ready [OF p, of q] that Cons.prems by auto
  with Cons.IH [of ?a "ret \<or> fst (a_ready p a)"] Cons.prems c
  have IH: "a_core (snd (a_ready_all ps (ret \<or> fst (a_ready p a)) ?a)) \<and>
    a_idle (snd (a_ready_all ps (ret \<or> fst (a_ready p a)) ?a)) = a_idle a \<and>
    (\<forall>M. M \<noteq> g_readytorun \<longrightarrow> a_list (snd (a_ready_all ps (ret \<or> fst (a_ready p a)) ?a)) M = a_list ?a M) \<and>
    set (a_list (snd (a_ready_all ps (ret \<or> fst (a_ready p a)) ?a)) g_readytorun) =
      set ps \<union> set (a_list ?a g_readytorun) \<and>
    (\<not> fst (a_ready_all ps (ret \<or> fst (a_ready p a)) ?a) \<longrightarrow>
      a_running (snd (a_ready_all ps (ret \<or> fst (a_ready p a)) ?a)) = a_running ?a)"
    by simp
  have step: "a_ready_all (p # ps) ret a = a_ready_all ps (ret \<or> fst (a_ready p a)) ?a"
    by (simp split: prod.split)
  define b where "b = a_ready_all ps (ret \<or> fst (a_ready p a)) ?a"
  note IH' = IH [folded b_def]
  have "fst (a_ready p a) \<Longrightarrow> fst b" using a_ready_all_ret by (simp add: b_def)
  then have "\<not> fst b \<longrightarrow> a_running (snd b) = a_running a" using IH' c(3) by presburger
  moreover have "set (a_list (snd b) g_readytorun) = set (p # ps) \<union> set (a_list a g_readytorun)"
    using IH' by (simp add: ls)
  moreover have "\<forall>M. M \<noteq> g_readytorun \<longrightarrow> a_list (snd b) M = a_list a M" using IH' by (simp add: ls)
  ultimately show ?case using IH' unfolding step b_def [symmetric] by blast
next
  case Nil
  then show ?case by simp
qed

end
