(* ===== verification/SchedOps.thy ===== *)
theory SchedOps
  imports SchedInv
begin

text \<open>
  The operations that switch contexts (\<^verbatim>\<open>up_blocktask.c\<close>, \<^verbatim>\<open>up_unblocktask.c\<close>,
  \<^verbatim>\<open>up_releasepending.c\<close>, \<^verbatim>\<open>up_reprioritizertr.c\<close>): each succeeds on a well-formed
  state, implements its abstract counterpart, keeps the invariant of the scheduler, and
  loses the register context of no task.
\<close>

section \<open>Operations that only move tasks\<close>

text \<open>\<open>moved a b\<close>: from \<open>a\<close> to \<open>b\<close> only list membership and task states have changed.\<close>

definition moved :: "asched \<Rightarrow> asched \<Rightarrow> bool" where
  "moved a b \<longleftrightarrow> a_cpu b = a_cpu a \<and>
     (\<forall>x. \<exists>st. a_tcbs b x = map_option (\<lambda>t. t\<lparr>task_state := st\<rparr>) (a_tcbs a x))"

lemma moved_refl [simp]: "moved a a"
proof -
  have "\<exists>st. a_tcbs a x = map_option (\<lambda>t. t\<lparr>task_state := st\<rparr>) (a_tcbs a x)" for x
    by (intro exI [of _ "task_state (a_tcb a x)"]) (cases "a_tcbs a x", simp_all add: a_tcb_def)
  then show ?thesis by (simp add: moved_def)
qed

lemma moved_trans:
  assumes ab: "moved a b" and bc: "moved b c"
  shows "moved a c"
proof -
  have "\<exists>st. a_tcbs c x = map_option (\<lambda>t. t\<lparr>task_state := st\<rparr>) (a_tcbs a x)" for x
  proof -
    obtain st st' where "a_tcbs b x = map_option (\<lambda>t. t\<lparr>task_state := st\<rparr>) (a_tcbs a x)"
      "a_tcbs c x = map_option (\<lambda>t. t\<lparr>task_state := st'\<rparr>) (a_tcbs b x)"
      using ab bc unfolding moved_def by blast
    then show ?thesis by (auto simp: option.map_comp comp_def)
  qed
  with ab bc show ?thesis by (simp add: moved_def)
qed

lemma moved_state [simp]:
  assumes "moved a b"
  shows "moved a (a_state t st b)"
  unfolding moved_def
proof (intro conjI allI)
  fix x
  obtain st' where "a_tcbs b x = map_option (\<lambda>t. t\<lparr>task_state := st'\<rparr>) (a_tcbs a x)"
    using assms unfolding moved_def by blast
  then show "\<exists>st'. a_tcbs (a_state t st b) x = map_option (\<lambda>t. t\<lparr>task_state := st'\<rparr>) (a_tcbs a x)"
    by (cases "x = t") (auto simp: option.map_comp comp_def)
qed (use assms in \<open>simp add: moved_def\<close>)

lemma moved_lists [simp]:
  "moved a (a_set_list L xs b) = moved a b" "moved a (a_insert L t b) = moved a b"
  "moved a (a_remove L t b) = moved a b"
  by (simp_all add: moved_def)

lemma moved_fields:
  assumes "moved a b"
  shows "a_live b x = a_live a x" "a_cpu b = a_cpu a"
    and "a_live a x \<Longrightarrow> a_prio b x = a_prio a x"
    and "a_live a x \<Longrightarrow> lockcount (a_tcb b x) = lockcount (a_tcb a x)"
    and "a_live a x \<Longrightarrow> xcp_regs (a_tcb b x) = xcp_regs (a_tcb a x)"
    and "a_live a x \<Longrightarrow> timeslice (a_tcb b x) = timeslice (a_tcb a x)"
proof -
  obtain st where "a_tcbs b x = map_option (\<lambda>t. t\<lparr>task_state := st\<rparr>) (a_tcbs a x)"
    using assms unfolding moved_def by blast
  then show "a_live b x = a_live a x" "a_live a x \<Longrightarrow> a_prio b x = a_prio a x"
    "a_live a x \<Longrightarrow> lockcount (a_tcb b x) = lockcount (a_tcb a x)"
    "a_live a x \<Longrightarrow> xcp_regs (a_tcb b x) = xcp_regs (a_tcb a x)"
    "a_live a x \<Longrightarrow> timeslice (a_tcb b x) = timeslice (a_tcb a x)"
    by (auto simp: a_live_def a_prio_def a_tcb_def)
  show "a_cpu b = a_cpu a" using assms by (simp add: moved_def)
qed

lemma moved_ready: "moved a (snd (a_ready t a))"
  by (auto simp: a_ready_def)

lemma moved_addreadytorun: "moved a (snd (a_addreadytorun t a))"
  using moved_ready by (auto simp: a_addreadytorun_def)

lemma moved_removereadytorun: "moved a (snd (a_removereadytorun t a))"
  by (auto simp: a_removereadytorun_def Let_def)

lemma moved_addblocked: "moved a (a_addblocked t st a)"
  by (auto simp: a_addblocked_def split: option.split)

lemma moved_removeblocked: "moved a (a_removeblocked t a)"
  by (auto simp: a_removeblocked_def split: option.split)

lemma moved_ready_all: "moved a b \<Longrightarrow> moved a (snd (a_ready_all ps ret b))"
proof (induction ps arbitrary: b ret)
  case (Cons p ps)
  have "moved a (snd (a_ready p b))" using Cons.prems moved_ready moved_trans by blast
  then show ?case using Cons.IH by (simp split: prod.split) (metis snd_conv)
qed simp

lemma moved_mergepending: "moved a (snd (a_mergepending a))"
  unfolding a_mergepending_def by (rule moved_ready_all) simp

lemmas moved_intros =
  moved_addreadytorun moved_removereadytorun moved_addblocked moved_removeblocked moved_mergepending

section \<open>The merge and the invariant\<close>

lemma a_core1_pending:
  assumes c: "a_core a" and p: "p \<in> set (a_list a g_pendingtasks)"
  shows "a_core1 (a_set_list g_pendingtasks [] a) p" "a_prio a (a_idle a) < a_prio a p"
proof -
  have ls: "a_running (a_set_list g_pendingtasks [] a) = a_running a"
    "a_idle (a_set_list g_pendingtasks [] a) = a_idle a"
    by (simp_all add: a_running_def a_idle_def)
  have ni: "p \<noteq> a_idle a" using a_core_disjoint [OF c p] a_core_idle [OF c] by blast
  have "a_core (a_set_list g_pendingtasks [] a)"
    using c ls by (auto simp: a_core_def task_ok_def)
  moreover have "a_unlisted (a_set_list g_pendingtasks [] a) p"
    using a_core_disjoint [OF c p] by (auto simp: a_unlisted_def)
  ultimately show "a_core1 (a_set_list g_pendingtasks [] a) p"
    using a_core_task [OF c p] a_core_prio_ge1 [OF c p ni] by (simp add: a_core1_def task_ok_def)
  show "a_prio a (a_idle a) < a_prio a p"
    using a_core_prio_idle [OF c] a_core_prio_ge1 [OF c p ni]
    by (simp add: word_less_nat_alt word_le_nat_alt)
qed

lemma a_core_mergepending:
  assumes c: "a_core a"
  shows "a_core (snd (a_mergepending a))"
    and "a_idle (snd (a_mergepending a)) = a_idle a"
    and "a_list (snd (a_mergepending a)) g_pendingtasks = []"
    and "M \<noteq> g_readytorun \<Longrightarrow> M \<noteq> g_pendingtasks \<Longrightarrow> a_list (snd (a_mergepending a)) M = a_list a M"
    and "set (a_list (snd (a_mergepending a)) g_readytorun) =
           set (a_list a g_pendingtasks) \<union> set (a_list a g_readytorun)"
    and "\<not> fst (a_mergepending a) \<Longrightarrow> a_running (snd (a_mergepending a)) = a_running a"
    and "fst (a_mergepending a) \<longleftrightarrow> (\<exists>p \<in> set (a_list a g_pendingtasks). a_prio a (a_running a) < a_prio a p)"
proof -
  let ?a = "a_set_list g_pendingtasks [] a"
  have r: "a_idle ?a = a_idle a" "a_running ?a = a_running a" by (simp_all add: a_running_def a_idle_def)
  have ca: "a_core ?a" using c r by (auto simp: a_core_def task_ok_def)
  have d: "distinct (a_list a g_pendingtasks)" using c by (simp add: a_core_def)
  from ca have m: "a_core (snd (a_mergepending a)) \<and> a_idle (snd (a_mergepending a)) = a_idle ?a \<and>
         (\<forall>M. M \<noteq> g_readytorun \<longrightarrow> a_list (snd (a_mergepending a)) M = a_list ?a M) \<and>
         set (a_list (snd (a_mergepending a)) g_readytorun) =
           set (a_list a g_pendingtasks) \<union> set (a_list ?a g_readytorun) \<and>
         (\<not> fst (a_mergepending a) \<longrightarrow> a_running (snd (a_mergepending a)) = a_running ?a)"
    unfolding a_mergepending_def by (intro a_core_ready_all) (use a_core1_pending [OF c] d in auto)
  then show "a_core (snd (a_mergepending a))"
    "a_idle (snd (a_mergepending a)) = a_idle a"
    "a_list (snd (a_mergepending a)) g_pendingtasks = []"
    "M \<noteq> g_readytorun \<Longrightarrow> M \<noteq> g_pendingtasks \<Longrightarrow> a_list (snd (a_mergepending a)) M = a_list a M"
    "set (a_list (snd (a_mergepending a)) g_readytorun) =
           set (a_list a g_pendingtasks) \<union> set (a_list a g_readytorun)"
    "\<not> fst (a_mergepending a) \<Longrightarrow> a_running (snd (a_mergepending a)) = a_running a"
    using r by (simp_all only: a_set_list_simps fun_upd_apply if_True if_False tasklist.distinct refl
        simp_thms)
  have "a_prio ?a = a_prio a" by (simp add: a_prio_def a_tcb_def fun_eq_iff)
  then show "fst (a_mergepending a) \<longleftrightarrow> (\<exists>p \<in> set (a_list a g_pendingtasks). a_prio a (a_running a) < a_prio a p)"
    using a_ready_all_switch [OF ca d, of False] a_core1_pending(1) [OF c] r(2) unfolding a_mergepending_def by simp
qed

lemma a_inv_mergepending: "a_core a \<Longrightarrow> a_inv (snd (a_mergepending a))"
  by (simp add: a_inv_def a_core_mergepending)

section \<open>Register contexts\<close>

text \<open>The context with which a task executes: the registers of the CPU or the saved ones.\<close>

definition a_context :: "asched \<Rightarrow> addr \<Rightarrow> nat" where
  "a_context a t = (if t = a_running a then a_cpu a else xcp_regs (a_tcb a t))"

lemma a_switch_simps [simp]:
  "a_list (a_switch r a) = a_list a" "a_running (a_switch r a) = a_running a"
  "a_idle (a_switch r a) = a_idle a" "a_live (a_switch r a) = a_live a"
  by (simp_all add: a_switch_def Let_def fun_eq_iff)

lemma a_switch_if_simps [simp]:
  "fst (a_switch_if r ba) = fst ba" "a_list (snd (a_switch_if r ba)) = a_list (snd ba)"
  "a_running (snd (a_switch_if r ba)) = a_running (snd ba)"
  "a_idle (snd (a_switch_if r ba)) = a_idle (snd ba)"
  "a_live (snd (a_switch_if r ba)) = a_live (snd ba)"
  by (simp_all add: a_switch_if_def)

lemma a_core_switch_if: "a_core (snd ba) \<Longrightarrow> a_core (snd (a_switch_if r ba))"
  by (simp add: a_switch_if_def a_core_switch)

lemma a_switch_fields:
  assumes "a_live a r" "a_live a (a_running a)"
  shows "lockcount (a_tcb (a_switch r a) x) = lockcount (a_tcb a x)"
    "a_prio (a_switch r a) x = a_prio a x" "task_state (a_tcb (a_switch r a) x) = task_state (a_tcb a x)"
    "timeslice (a_tcb (a_switch r a) x) = (if x = a_running a then RR_TICKS else timeslice (a_tcb a x))"
  using assms by (auto simp: a_switch_def Let_def a_prio_def)

lemma a_core_running_live: "a_core a \<Longrightarrow> a_live a (a_running a)"
  using a_core_live [OF _ a_core_running] .

lemma a_inv_switch_if:
  assumes i: "a_inv (snd ba)" and r: "a_live (snd ba) r"
  shows "a_inv (snd (a_switch_if r ba))"
  using i a_core_switch_if [of ba r] a_switch_fields [OF r a_core_running_live]
  by (simp add: a_inv_def) (simp add: a_switch_if_def)

lemma a_tcb_upd_other: "x \<noteq> t \<Longrightarrow> a_tcb (a_upd t f a) x = a_tcb a x"
  by (simp add: a_tcb_def a_upd_def)

lemma a_context_switch:
  assumes r: "a_live a (a_running a)" and x: "a_live a x"
    and cpu: "a_cpu b = a_cpu a" and live: "a_live b = a_live a"
    and regs: "\<And>x. a_live a x \<Longrightarrow> xcp_regs (a_tcb b x) = xcp_regs (a_tcb a x)"
    and sw: "\<not> sw \<Longrightarrow> a_running b = a_running a"
  shows "a_context (snd (a_switch_if (a_running a) (sw, b))) x = a_context a x"
proof (cases sw)
  case True
  with r x cpu live regs [OF x] show ?thesis
    by (auto simp: a_switch_if_def a_context_def a_switch_def Let_def a_tcb_upd_other)
next
  case False
  with sw r x cpu regs [OF x] show ?thesis by (simp add: a_switch_if_def a_context_def)
qed

section \<open>The operations keep the invariant and every register context\<close>

lemma a_block_ok:
  assumes i: "a_inv a" and t: "t \<in> set (a_list a g_readytorun)" "t \<noteq> a_idle a"
    and st: "is_blocked_state st"
  defines "b \<equiv> snd (a_block t st a)"
  shows "a_inv b" "a_idle b = a_idle a" "a_list b g_pendingtasks = []"
    and "TLIST_BLOCKED st = Some L \<Longrightarrow> t \<in> set (a_list b L)"
    and "a_live a x \<Longrightarrow> a_context b x = a_context a x"
proof -
  have c: "a_core a" using i by (simp add: a_inv_def)
  let ?a1 = "snd (a_removereadytorun t a)" and ?sw = "fst (a_removereadytorun t a)"
  let ?a2 = "a_addblocked t st ?a1"
  let ?m = "a_mergepending ?a2"
  note rm = a_core_removeready [OF c t]
  have c2: "a_core ?a2" using a_core_addblocked [OF rm(1) st] .
  have b: "b = snd (a_switch_if (a_running a) (?sw \<or> fst ?m, snd ?m))"
    by (simp add: b_def a_block_def split: prod.split)
  have mv: "moved a (snd ?m)"
    using moved_trans [OF moved_trans [OF moved_removereadytorun moved_addblocked] moved_mergepending] .
  have lv: "a_live a (a_running a)" using a_core_live [OF c a_core_running [OF c]] .
  show "a_inv b" unfolding b
    by (rule a_inv_switch_if) (use a_inv_mergepending [OF c2] lv moved_fields(1) [OF mv] in simp_all)
  obtain M where M: "TLIST_BLOCKED st = Some M" "M \<noteq> g_readytorun" "M \<noteq> g_pendingtasks"
    using st by (auto simp: blocked_state_list)
  then have run2: "a_running ?a2 = a_running ?a1" "a_idle ?a2 = a_idle ?a1"
    by (simp_all add: a_addblocked_def a_running_def a_idle_def)
  then show "a_idle b = a_idle a"
    using rm(2) a_core_mergepending(2) [OF c2] by (simp add: b)
  show "a_list b g_pendingtasks = []" using a_core_mergepending(3) [OF c2] by (simp add: b)
  show "t \<in> set (a_list b L)" if "TLIST_BLOCKED st = Some L"
    using that M a_core_mergepending(4) [OF c2, of M] by (simp add: b a_addblocked_def)
  have sw: "a_running (snd ?m) = a_running a" if "\<not> (?sw \<or> fst ?m)"
    using that rm(3) run2 a_core_mergepending(6) [OF c2]
    by (simp add: a_removereadytorun_def Let_def split: if_splits)
  show "a_context b x = a_context a x" if x: "a_live a x"
    unfolding b by (rule a_context_switch [OF lv x]) (use mv moved_fields sw in \<open>auto simp: fun_eq_iff\<close>)
qed

lemma a_block_live: "a_live (snd (a_block t st a)) x = a_live a x"
proof -
  have "moved a (snd (a_mergepending (a_addblocked t st (snd (a_removereadytorun t a)))))"
    using moved_trans [OF moved_trans [OF moved_removereadytorun moved_addblocked] moved_mergepending] .
  from moved_fields(1) [OF this] show ?thesis by (simp add: a_block_def case_prod_beta Let_def)
qed

lemma a_core_addreadytorun:
  assumes c: "a_core1 a t"
  shows "a_core (snd (a_addreadytorun t a))" "a_idle (snd (a_addreadytorun t a)) = a_idle a"
    "a_running (snd (a_addreadytorun t a)) = (if fst (a_addreadytorun t a) then t else a_running a)"
    "a_list (snd (a_addreadytorun t a)) g_pendingtasks \<noteq> a_list a g_pendingtasks \<Longrightarrow>
       lockcount (a_tcb a (a_running a)) > 0 \<and> \<not> fst (a_addreadytorun t a)"
  using a_core_ready [OF c] a_core_addpending [OF c]
  by (auto simp: a_addreadytorun_def a_running_def a_idle_def a_ready_frame)

lemma a_addreadytorun_locked:
  "fst (a_addreadytorun t a) \<Longrightarrow> \<not> lockcount (a_tcb a (a_running a)) > 0"
  by (auto simp: a_addreadytorun_def a_ready_def split: if_splits)

lemma a_addreadytorun_ok:
  assumes c: "a_core1 a t"
    and i: "a_list a g_pendingtasks \<noteq> [] \<Longrightarrow> lockcount (a_tcb a (a_running a)) > 0"
  shows "a_inv (snd (a_addreadytorun t a))"
proof -
  let ?b = "snd (a_addreadytorun t a)"
  note r = a_core_addreadytorun [OF c] and d = a_core1D [OF c]
  have lv: "a_live a (a_running a)" using a_core_live [OF d(1)] a_core_running [OF d(1)] by blast
  have lk: "lockcount (a_tcb ?b (a_running a)) = lockcount (a_tcb a (a_running a))"
    using moved_fields(4) [OF moved_addreadytorun lv] .
  have "lockcount (a_tcb ?b (a_running ?b)) > 0" if "a_list ?b g_pendingtasks \<noteq> []"
    using that i r(3,4) lk a_addreadytorun_locked [of t a] by (cases "a_list ?b g_pendingtasks = a_list a g_pendingtasks") auto
  with r(1) show ?thesis by (simp add: a_inv_def)
qed

lemma a_unblock_ok:
  assumes i: "a_inv a" and t: "t \<in> set (a_list a L)" and L: "L \<noteq> g_readytorun" "L \<noteq> g_pendingtasks"
  defines "b \<equiv> snd (a_unblock t a)"
  shows "a_inv b" "a_idle b = a_idle a"
    and "a_running b = (if fst (a_unblock t a) then t else a_running a)"
    and "a_live a x \<Longrightarrow> a_context b x = a_context a x"
proof -
  have c: "a_core a" using i by (simp add: a_inv_def)
  let ?a1 = "a_removeblocked t a"
  note c1 = a_core_removeblocked [OF c t L(1)]
  have a1: "?a1 = a_state t TSTATE_TASK_INVALID (a_remove L t a)"
    using a_core_task [OF c t] by (simp add: a_removeblocked_def task_ok_def)
  have r1: "a_running ?a1 = a_running a" "a_idle ?a1 = a_idle a"
    using L by (simp_all add: a1 a_running_def a_idle_def)
  have lv: "a_live a (a_running a)" using a_core_live [OF c a_core_running [OF c]] .
  have lk: "lockcount (a_tcb ?a1 (a_running a)) = lockcount (a_tcb a (a_running a))"
    using moved_fields(4) [OF moved_removeblocked lv] .
  have "a_list ?a1 g_pendingtasks = a_list a g_pendingtasks" using L by (simp add: a1)
  then have ok: "a_inv (snd (a_addreadytorun t ?a1))" "a_idle (snd (a_addreadytorun t ?a1)) = a_idle a"
    "a_running (snd (a_addreadytorun t ?a1)) = (if fst (a_addreadytorun t ?a1) then t else a_running a)"
    using a_addreadytorun_ok [OF c1] a_core_addreadytorun [OF c1] i lk r1 by (auto simp: a_inv_def)
  have mv: "moved a (snd (a_addreadytorun t ?a1))"
    using moved_trans [OF moved_removeblocked moved_addreadytorun] .
  show "a_inv b" unfolding b_def a_unblock_def
    by (rule a_inv_switch_if) (use ok(1) lv moved_fields(1) [OF mv] in simp_all)
  show "a_idle b = a_idle a" "a_running b = (if fst (a_unblock t a) then t else a_running a)"
    using ok by (simp_all add: b_def a_unblock_def)
  have "a_context (snd (a_switch_if (a_running a)
      (fst (a_addreadytorun t ?a1), snd (a_addreadytorun t ?a1)))) x = a_context a x" if x: "a_live a x"
    by (rule a_context_switch [OF lv x]) (use mv moved_fields ok(3) in \<open>auto simp: fun_eq_iff\<close>)
  then show "a_context b x = a_context a x" if "a_live a x"
    using that by (simp add: b_def a_unblock_def)
qed

lemma a_unblock_live: "a_live (snd (a_unblock t a)) x = a_live a x"
  using moved_fields(1) [OF moved_trans [OF moved_removeblocked moved_addreadytorun]]
  by (simp add: a_unblock_def)

text \<open>Where an unblocked task goes.\<close>

lemma a_unblock_dest:
  assumes c: "a_core a" and t: "t \<in> set (a_list a L)" and L: "L \<noteq> g_readytorun"
  defines "r \<equiv> a_running a"
  shows "fst (a_unblock t a) \<longleftrightarrow> \<not> lockcount (a_tcb a r) > 0 \<and> a_prio a r < a_prio a t"
    "t \<in> set (a_list (snd (a_unblock t a))
       (if lockcount (a_tcb a r) > 0 \<and> a_prio a r < a_prio a t then g_pendingtasks else g_readytorun))"
proof -
  let ?a1 = "a_removeblocked t a"
  have "TLIST_BLOCKED (task_state (a_tcb a t)) = Some L" using a_core_task [OF c t] by (simp add: task_ok_def)
  then have run: "a_running ?a1 = r" using L by (simp add: a_removeblocked_def a_running_def r_def)
  have lv: "a_live a r" "a_live a t"
    using a_core_running [OF c] a_core_live [OF c] t unfolding r_def by blast+
  note mv = moved_fields [OF moved_removeblocked [of a t]]
  have "lockcount (a_tcb ?a1 r) = lockcount (a_tcb a r)" "a_prio ?a1 r = a_prio a r" "a_prio ?a1 t = a_prio a t"
    using mv(3,4) lv by auto
  then show "fst (a_unblock t a) \<longleftrightarrow> \<not> lockcount (a_tcb a r) > 0 \<and> a_prio a r < a_prio a t"
    "t \<in> set (a_list (snd (a_unblock t a))
       (if lockcount (a_tcb a r) > 0 \<and> a_prio a r < a_prio a t then g_pendingtasks else g_readytorun))"
    by (auto simp: a_unblock_def a_addreadytorun_def a_ready_def run)
qed

lemma a_release_pending_ok:
  assumes c: "a_core a"
  shows "a_inv (snd (a_release_pending a))" "a_idle (snd (a_release_pending a)) = a_idle a"
    and "a_list (snd (a_release_pending a)) g_pendingtasks = []"
    and "a_live a x \<Longrightarrow> a_context (snd (a_release_pending a)) x = a_context a x"
proof -
  note m = a_core_mergepending [OF c] and mv = moved_mergepending [of a]
  have lv: "a_live a (a_running a)" using a_core_live [OF c a_core_running [OF c]] .
  show "a_inv (snd (a_release_pending a))" unfolding a_release_pending_def
    by (rule a_inv_switch_if) (use a_inv_mergepending [OF c] lv moved_fields(1) [OF mv] in simp_all)
  show "a_idle (snd (a_release_pending a)) = a_idle a"
    "a_list (snd (a_release_pending a)) g_pendingtasks = []"
    using m by (simp_all add: a_release_pending_def)
  have "a_context (snd (a_switch_if (a_running a)
      (fst (a_mergepending a), snd (a_mergepending a)))) x = a_context a x" if x: "a_live a x"
    by (rule a_context_switch [OF lv x]) (use mv moved_fields m(6) in \<open>auto simp: fun_eq_iff\<close>)
  then show "a_context (snd (a_release_pending a)) x = a_context a x" if "a_live a x"
    using that by (simp add: a_release_pending_def)
qed

lemma a_set_prio_fields:
  assumes "a_live a t"
  shows "lockcount (a_tcb (a_set_prio t p a) x) = lockcount (a_tcb a x)"
    "xcp_regs (a_tcb (a_set_prio t p a) x) = xcp_regs (a_tcb a x)"
    "timeslice (a_tcb (a_set_prio t p a) x) = timeslice (a_tcb a x)"
    "task_state (a_tcb (a_set_prio t p a) x) = task_state (a_tcb a x)"
    "a_prio (a_set_prio t p a) x = (if x = t then p else a_prio a x)"
  using assms by (simp_all add: a_set_prio_def a_prio_def)

lemma a_set_prio_simps [simp]:
  "a_list (a_set_prio t p a) = a_list a" "a_live (a_set_prio t p a) = a_live a"
  "a_cpu (a_set_prio t p a) = a_cpu a"
  by (simp_all add: a_set_prio_def fun_eq_iff)

lemma a_reprioritize_eq:
  "a_reprioritize t p a =
     (let x = a_removereadytorun t a; y = a_addreadytorun t (a_set_prio t p (snd x))
      in a_switch_if (a_running a)
           (fst x \<noteq> fst y, if fst x \<noteq> fst y then snd (a_mergepending (snd y)) else snd y))"
  by (simp add: a_reprioritize_def Let_def split: prod.split)

lemma a_reprioritize_live: "a_live (snd (a_reprioritize t p a)) x = a_live a x"
  using moved_fields(1) [OF moved_removereadytorun] moved_fields(1) [OF moved_addreadytorun]
    moved_fields(1) [OF moved_mergepending]
  by (simp add: a_reprioritize_eq Let_def)

text \<open>The state of a task whose priority is changed, before any context switch.\<close>

lemma a_reprioritize_core:
  assumes i: "a_inv a" and t: "t \<in> set (a_list a g_readytorun)" "t \<noteq> a_idle a" and p: "1 \<le> p"
  defines "x \<equiv> a_removereadytorun t a"
  defines "y \<equiv> a_addreadytorun t (a_set_prio t p (snd x))"
  shows "a_core1 (a_set_prio t p (snd x)) t" "a_core (snd y)" "a_idle (snd y) = a_idle a"
    and "fst x = fst y \<Longrightarrow> a_running (snd y) = a_running a" "fst x = fst y \<Longrightarrow> a_inv (snd y)"
    and "a_cpu (snd y) = a_cpu a" "a_live (snd y) = a_live a"
    and "a_live a z \<Longrightarrow> xcp_regs (a_tcb (snd y) z) = xcp_regs (a_tcb a z)"
    and "a_live a z \<Longrightarrow> lockcount (a_tcb (snd y) z) = lockcount (a_tcb a z)"
proof -
  have c: "a_core a" using i by (simp add: a_inv_def)
  note rm = a_core_removeready [OF c t, folded x_def]
  have mx: "moved a (snd x)" unfolding x_def by (rule moved_removereadytorun)
  have my: "moved (a_set_prio t p (snd x)) (snd y)" unfolding y_def by (rule moved_addreadytorun)
  have lt: "a_live (snd x) t" using a_core1D(3) [OF rm(1)] .
  have lv: "a_live a (a_running a)" using a_core_live [OF c a_core_running [OF c]] .
  show c1: "a_core1 (a_set_prio t p (snd x)) t" using a_core1_set_prio [OF rm(1) p] .
  note ad = a_core_addreadytorun [OF c1, folded y_def]
  show "a_core (snd y)" "a_idle (snd y) = a_idle a" using ad rm(2) by simp_all
  show "a_cpu (snd y) = a_cpu a" "a_live (snd y) = a_live a"
    using moved_fields(1,2) [OF my] moved_fields(1,2) [OF mx] by (auto simp: fun_eq_iff)
  show "a_live a z \<Longrightarrow> xcp_regs (a_tcb (snd y) z) = xcp_regs (a_tcb a z)"
    and lk: "a_live a z \<Longrightarrow> lockcount (a_tcb (snd y) z) = lockcount (a_tcb a z)" for z
    using moved_fields(1,4,5) [OF mx, of z] moved_fields(1,4,5) [OF my, of z] a_set_prio_fields [OF lt] by simp_all
  have sx: "fst x \<longleftrightarrow> a_running a = t" by (simp add: x_def a_removereadytorun_def Let_def)
  show run: "a_running (snd y) = a_running a" if "fst x = fst y"
    using that ad(3) rm(3) sx by (cases "fst x") simp_all
  show "a_inv (snd y)" if e: "fst x = fst y"
  proof -
    have "lockcount (a_tcb (snd y) (a_running (snd y))) > 0" if pe: "a_list (snd y) g_pendingtasks \<noteq> []"
    proof (cases "a_list (snd y) g_pendingtasks = a_list a g_pendingtasks")
      case True
      then show ?thesis using pe i lk [OF lv] run [OF e] by (simp add: a_inv_def)
    next
      case False
      then have "lockcount (a_tcb (a_set_prio t p (snd x)) (a_running (snd x))) > 0" "\<not> fst y"
        using ad(4) rm(4) by auto
      then show ?thesis using e sx rm(3) run [OF e] lk [OF lv] a_set_prio_fields(1) [OF lt]
          moved_fields(4) [OF mx lv] by simp
    qed
    with ad(1) show ?thesis by (simp add: a_inv_def)
  qed
qed

lemma a_reprioritize_ok:
  assumes i: "a_inv a" and t: "t \<in> set (a_list a g_readytorun)" "t \<noteq> a_idle a" and p: "1 \<le> p"
  defines "b \<equiv> snd (a_reprioritize t p a)"
  shows "a_inv b" "a_idle b = a_idle a" "a_live a x \<Longrightarrow> a_context b x = a_context a x"
proof -
  define u where "u = a_removereadytorun t a"
  define y where "y = a_addreadytorun t (a_set_prio t p (snd u))"
  define z where "z = (if fst u \<noteq> fst y then snd (a_mergepending (snd y)) else snd y)"
  have b: "b = snd (a_switch_if (a_running a) (fst u \<noteq> fst y, z))"
    by (simp add: b_def a_reprioritize_eq Let_def u_def y_def z_def)
  have c: "a_core a" using i by (simp add: a_inv_def)
  have lv: "a_live a (a_running a)" using a_core_live [OF c a_core_running [OF c]] .
  note core = a_reprioritize_core [OF i t p, folded u_def, folded y_def]
  have mv: "moved (snd y) z" using moved_mergepending by (simp add: z_def)
  have iz: "a_inv z" "a_idle z = a_idle a" "a_live z = a_live a" "a_cpu z = a_cpu a"
    using a_inv_mergepending [OF core(2)] a_core_mergepending(2) [OF core(2)] core(3,5,6,7)
      moved_fields(1,2) [OF mv] by (auto simp: z_def fun_eq_iff)
  show "a_inv b" unfolding b by (rule a_inv_switch_if) (use iz lv in simp_all)
  show "a_idle b = a_idle a" unfolding b using iz by simp
  have regs: "xcp_regs (a_tcb z w) = xcp_regs (a_tcb a w)" if "a_live a w" for w
    using core(7) core(8) [OF that] moved_fields(5) [OF mv, of w] that by simp
  have run: "a_running z = a_running a" if "\<not> fst u \<noteq> fst y" using that core(4) by (simp add: z_def)
  show "a_context b x = a_context a x" if x: "a_live a x"
    unfolding b by (rule a_context_switch [OF lv x iz(4,3) regs run])
qed

section \<open>The code implements the abstract operations\<close>

lemma refines_cpu: "refines s a \<Longrightarrow> refines (s\<lparr>cpu_regs := c\<rparr>) (a\<lparr>a_cpu := c\<rparr>)"
  by (simp add: refines_def)

lemma up_savestate_refines:
  "refines s a \<Longrightarrow> a_live a t \<Longrightarrow>
     \<exists>s'. up_savestate t s = Some s' \<and> refines s' (a_upd t (\<lambda>x. x\<lparr>xcp_regs := a_cpu a\<rparr>) a) \<and> kframe s s'"
  using refines_upd_tcb [of s a t "\<lambda>x. x\<lparr>xcp_regs := a_cpu a\<rparr>"] by (simp add: up_savestate_def refines_def)

lemma perform_switch_refines:
  assumes r: "refines s a" and t: "a_live a t" and run: "a_live a (a_running a)"
  shows "\<exists>s'. perform_switch t s = Some s' \<and> refines s' (a_switch t a) \<and> kframe s s'"
proof -
  let ?f = "\<lambda>x :: tcb. x\<lparr>xcp_regs := a_cpu a\<rparr>" and ?g = "\<lambda>x :: tcb. x\<lparr>timeslice := RR_TICKS\<rparr>" and ?r = "a_running a"
  let ?b = "a_upd ?r ?g (a_upd t ?f a)"
  have "?f \<circ> ?g = ?g \<circ> ?f" by (rule ext) simp
  then have eq: "a_upd t ?f (a_upd ?r ?g a) = ?b"
    by (cases "t = ?r") (simp_all add: a_upd_def option.map_comp fun_upd_twist)
  obtain s1 where s1: "up_savestate t s = Some s1" "refines s1 (a_upd t ?f a)" "kframe s s1"
    using up_savestate_refines [OF r t] by blast
  obtain s2 where s2: "sched_resume_scheduler ?r s1 = Some s2" "refines s2 ?b" "kframe s1 s2"
    using refines_upd_tcb [OF s1(2), of ?r ?g] run by (auto simp: sched_resume_scheduler_def)
  obtain s3 where s3: "sched_resume_scheduler ?r s = Some s3" "refines s3 (a_upd ?r ?g a)" "kframe s s3"
    using refines_upd_tcb [OF r run, of ?g] by (auto simp: sched_resume_scheduler_def)
  obtain s4 where s4: "up_savestate t s3 = Some s4" "refines s4 ?b" "kframe s3 s4"
    using up_savestate_refines [OF s3(2), of t] t eq by auto
  have th: "this_task s1 = ?r" "this_task s = ?r" using refines_running [OF s1(2)] refines_running [OF r] by simp_all
  have fin: "up_restorestate ?r u = Some (u\<lparr>cpu_regs := xcp_regs (a_tcb ?b ?r)\<rparr>)"
    "refines (u\<lparr>cpu_regs := xcp_regs (a_tcb ?b ?r)\<rparr>) (a_switch t a)" if u: "refines u ?b" for u :: "'a kstate_scheme"
    using refines_get_tcb [OF u, of ?r] refines_cpu [OF u, of "xcp_regs (a_tcb ?b ?r)"] run
    by (simp_all add: up_restorestate_def a_switch_def Let_def)
  show ?thesis
    using s1 s2(1,3) s3(1,3) s4(1,3) th fin [OF s2(2)] fin [OF s4(2)]
    by (auto simp: perform_switch_def up_switchcontext_def Let_def kframe_def)
qed

lemma switch_if_refines:
  assumes r: "refines s a" and t: "a_live a t" and run: "a_live a (a_running a)"
  shows "\<exists>s'. (if sw then do { s \<leftarrow> perform_switch t s; Some (True, s) } else Some (False, s)) = Some (sw, s') \<and>
           refines s' (snd (a_switch_if t (sw, a))) \<and> kframe s s'"
  using perform_switch_refines [OF assms] r by (cases sw) (auto simp: a_switch_if_def)

lemma a_core_merge_pre:
  assumes c: "a_core a"
  shows "a_list a g_readytorun \<noteq> []" "desc (a_prio a) (a_list a g_pendingtasks)"
    "\<forall>y \<in> set (a_list a g_pendingtasks). a_prio a (last (a_list a g_readytorun)) < a_prio a y"
  using c a_core1_pending(2) [OF c] a_core_desc [OF c, of g_pendingtasks]
  by (auto simp: a_core_def prioritized_list_def a_idle_def)

lemma a_mergepending_Nil: "a_list a g_pendingtasks = [] \<Longrightarrow> a_mergepending a = (False, a)"
  by (simp add: a_mergepending_def a_set_list_def fun_upd_idem)

lemma mergepending_if_refines:
  assumes r: "refines s a" and c: "a_core a"
  shows "\<exists>s'. (if dq_head (tasklists s g_pendingtasks) \<noteq> NULL then sched_mergepending s else Some (False, s)) =
             Some (fst (a_mergepending a), s') \<and> refines s' (snd (a_mergepending a)) \<and> kframe s s'"
proof (cases "a_list a g_pendingtasks = []")
  case True
  then show ?thesis using r refines_head_NULL [OF r] by (simp add: a_mergepending_Nil)
next
  case False
  then show ?thesis
    using sched_mergepending_refines [OF r a_core_merge_pre [OF c]] refines_head_NULL [OF r] by simp
qed

lemma a_core_remove_two:
  assumes c: "a_core a" and t: "t \<noteq> a_idle a"
  shows "remove1 t (a_list a g_readytorun) \<noteq> []"
proof -
  have "a_idle a \<in> set (remove1 t (a_list a g_readytorun))"
    using a_core_idle [OF c] t c by (auto simp: a_core_def)
  then show ?thesis by auto
qed


lemma up_block_task_refines:
  assumes r: "refines s a" and i: "a_inv a" and t: "t \<in> set (a_list a g_readytorun)" "t \<noteq> a_idle a"
    and st: "is_blocked_state st"
  shows "\<exists>s'. up_block_task t st s = Some (fst (a_block t st a), s') \<and>
           refines s' (snd (a_block t st a)) \<and> kframe s s'"
proof -
  have c: "a_core a" using i by (simp add: a_inv_def)
  have lv: "a_live a t" "a_live a (a_running a)"
    using a_core_live [OF c t(1)] a_core_running_live [OF c] .
  note rm = a_core_removeready [OF c t] and c1 = a_core1D [OF a_core_removeready(1) [OF c t]]
  define x where "x = a_removereadytorun t a"
  define y where "y = a_addblocked t st (snd x)"
  obtain s1 where s1: "sched_removereadytorun t s = Some (fst x, s1)" "refines s1 (snd x)" "kframe s s1"
    using sched_removereadytorun_refines [OF r t(1)] a_core_remove_two [OF c t(2)] by (auto simp: x_def)
  obtain s2 where s2: "sched_addblocked t st s1 = Some s2" "refines s2 y" "kframe s1 s2"
    using sched_addblocked_refines [OF s1(2) _ _ _ st] c1 by (auto simp: x_def y_def)
  have cy: "a_core y" using a_core_addblocked [OF rm(1) st] by (simp add: x_def y_def)
  obtain s3 where s3: "(if dq_head (tasklists s2 g_pendingtasks) \<noteq> NULL then sched_mergepending s2 else Some (False, s2)) =
      Some (fst (a_mergepending y), s3)" "refines s3 (snd (a_mergepending y))" "kframe s2 s3"
    using mergepending_if_refines [OF s2(2) cy] by blast
  have mv: "moved a (snd (a_mergepending y))" unfolding y_def x_def
    using moved_trans [OF moved_trans [OF moved_removereadytorun moved_addblocked] moved_mergepending] .
  obtain s4 where s4: "(if fst x \<or> fst (a_mergepending y)
      then do { s \<leftarrow> perform_switch (a_running a) s3; Some (True, s) } else Some (False, s3)) =
        Some (fst x \<or> fst (a_mergepending y), s4)"
      "refines s4 (snd (a_switch_if (a_running a) (fst x \<or> fst (a_mergepending y), snd (a_mergepending y))))"
      "kframe s3 s4"
    using switch_if_refines [OF s3(2), of "a_running a"] lv moved_fields(1) [OF mv]
      a_core_running_live [OF a_core_mergepending(1) [OF cy]] by blast
  have st': "is_ready_state (task_state (a_tcb a t))"
    using a_core_task [OF c t(1)] by (simp add: task_ok_def ready_state_list)
  have "a_block t st a = a_switch_if (a_running a) (fst x \<or> fst (a_mergepending y), snd (a_mergepending y))"
    by (simp add: a_block_def x_def y_def split: prod.split)
  moreover have "up_block_task t st s = Some (fst x \<or> fst (a_mergepending y), s4)"
    unfolding up_block_task_def
    using refines_get_tcb [OF r lv(1)] refines_running [OF r] st' s1(1) s2(1) s3(1) s4(1)
    by (cases "dq_head (tasklists s2 g_pendingtasks) = NULL") (auto simp: Let_def)
  ultimately show ?thesis
    using s4(2) s1(3) s2(3) s3(3) s4(3) by (simp add: kframe_def)
qed

lemma up_unblock_task_refines:
  assumes r: "refines s a" and i: "a_inv a" and t: "t \<in> set (a_list a L)"
    and L: "L \<noteq> g_readytorun" "L \<noteq> g_pendingtasks"
  shows "\<exists>s'. up_unblock_task t s = Some (fst (a_unblock t a), s') \<and>
           refines s' (snd (a_unblock t a)) \<and> kframe s s'"
proof -
  have c: "a_core a" using i by (simp add: a_inv_def)
  have tl: "a_live a t" using a_core_live [OF c t(1)] .
  have bl: "TLIST_BLOCKED (task_state (a_tcb a t)) = Some L" "is_blocked_state (task_state (a_tcb a t))"
    using a_core_task [OF c t] L by (auto simp: task_ok_def blocked_state_list)
  define x where "x = a_removeblocked t a"
  define y where "y = a_addreadytorun t x"
  note c1 = a_core_removeblocked [OF c t L(1), folded x_def]
  note cx = a_core1D [OF c1]
  have lc: "0 \<le> lockcount (a_tcb x (a_running x))"
    using a_core_task [OF cx(1) a_core_running [OF cx(1)]] by (simp add: task_ok_def lock_ok_def)
  obtain s1 where s1: "sched_removeblocked t s = Some s1" "refines s1 x" "kframe s s1"
    using sched_removeblocked_refines [OF r bl(1) t bl(2)] by (auto simp: x_def)
  obtain s2 where s2: "sched_addreadytorun t s1 = Some (fst y, s2)" "refines s2 (snd y)" "kframe s1 s2"
    using sched_addreadytorun_refines [OF s1(2) cx(3,2,4) a_core_merge_pre(1) [OF cx(1)] lc]
    by (auto simp: y_def)
  have mv: "moved a (snd y)" unfolding y_def x_def
    using moved_trans [OF moved_removeblocked moved_addreadytorun] .
  have cy: "a_core (snd y)" unfolding y_def by (rule a_core_addreadytorun(1) [OF c1])
  obtain s3 where s3: "(if fst y then do { s \<leftarrow> perform_switch (a_running a) s2; Some (True, s) }
        else Some (False, s2)) = Some (fst y, s3)"
      "refines s3 (snd (a_switch_if (a_running a) (fst y, snd y)))" "kframe s2 s3"
    using switch_if_refines [OF s2(2), of "a_running a"] a_core_running_live [OF c] moved_fields(1) [OF mv]
      a_core_running_live [OF cy] by blast
  have "a_unblock t a = a_switch_if (a_running a) (fst y, snd y)"
    by (simp add: a_unblock_def x_def y_def)
  moreover have "up_unblock_task t s = Some (fst y, s3)"
    unfolding up_unblock_task_def
    using refines_get_tcb [OF r tl] refines_running [OF r] bl(2) s1(1) s2(1) s3(1) by (simp add: Let_def)
  ultimately show ?thesis using s3(2) s1(3) s2(3) s3(3) by (simp add: kframe_def)
qed

lemma up_release_pending_refines:
  assumes r: "refines s a" and c: "a_core a"
  shows "\<exists>s'. up_release_pending s = Some (fst (a_release_pending a), s') \<and>
           refines s' (snd (a_release_pending a)) \<and> kframe s s'"
proof -
  let ?m = "a_mergepending a"
  obtain s1 where s1: "sched_mergepending s = Some (fst ?m, s1)" "refines s1 (snd ?m)" "kframe s s1"
    using sched_mergepending_refines [OF r a_core_merge_pre [OF c]] by blast
  obtain s2 where s2: "(if fst ?m then do { s \<leftarrow> perform_switch (a_running a) s1; Some (True, s) }
        else Some (False, s1)) = Some (fst ?m, s2)"
      "refines s2 (snd (a_switch_if (a_running a) (fst ?m, snd ?m)))" "kframe s1 s2"
    using switch_if_refines [OF s1(2), of "a_running a"] a_core_running_live [OF c]
      moved_fields(1) [OF moved_mergepending] a_core_running_live [OF a_core_mergepending(1) [OF c]]
    by blast
  have "up_release_pending s = Some (fst ?m, s2)"
    using refines_running [OF r] s1(1) s2(1) by (simp add: up_release_pending_def Let_def)
  then show ?thesis using s2(2) s1(3) s2(3) by (simp add: a_release_pending_def kframe_def)
qed

lemma remove_set_add_refines:
  assumes r: "refines s a" and i: "a_inv a" and t: "t \<in> set (a_list a g_readytorun)" "t \<noteq> a_idle a"
    and p: "1 \<le> p"
  defines "x \<equiv> a_removereadytorun t a"
  defines "y \<equiv> a_addreadytorun t (a_set_prio t p (snd x))"
  obtains s1 s2 s3 where
    "sched_removereadytorun t s = Some (fst x, s1)" "kframe s s1"
    "upd_tcb t (\<lambda>t. t\<lparr>sched_priority := p\<rparr>) s1 = Some s2" "kframe s s2"
    "sched_addreadytorun t s2 = Some (fst y, s3)" "refines s3 (snd y)" "kframe s s3"
proof -
  have c: "a_core a" using i by (simp add: a_inv_def)
  note core = a_reprioritize_core [OF i t p, folded x_def, folded y_def]
  obtain s1 where s1: "sched_removereadytorun t s = Some (fst x, s1)" "refines s1 (snd x)" "kframe s s1"
    using sched_removereadytorun_refines [OF r t(1)] a_core_remove_two [OF c t(2)] by (auto simp: x_def)
  have "a_live (snd x) t" using a_core1D(3) [OF core(1)] by simp
  from refines_upd_tcb [OF s1(2) this, of "\<lambda>t. t\<lparr>sched_priority := p\<rparr>"]
  obtain s2 where s2: "upd_tcb t (\<lambda>t. t\<lparr>sched_priority := p\<rparr>) s1 = Some s2"
    "refines s2 (a_set_prio t p (snd x))" "kframe s1 s2"
    unfolding a_set_prio_def by blast
  note c2 = a_core1D [OF core(1)]
  have lc: "0 \<le> lockcount (a_tcb (a_set_prio t p (snd x)) (a_running (a_set_prio t p (snd x))))"
    using a_core_task [OF c2(1) a_core_running [OF c2(1)]] by (simp add: task_ok_def lock_ok_def)
  obtain s3 where s3: "sched_addreadytorun t s2 = Some (fst y, s3)" "refines s3 (snd y)" "kframe s2 s3"
    using sched_addreadytorun_refines [OF s2(2) c2(3,2,4) a_core_merge_pre(1) [OF c2(1)] lc]
    unfolding y_def by blast
  have "kframe s s2" "kframe s s3" using s1(3) s2(3) s3(3) by (simp_all add: kframe_def)
  with s1 s2 s3 that show ?thesis by blast
qed

lemma up_reprioritize_rtr_refines:
  assumes r: "refines s a" and i: "a_inv a" and t: "t \<in> set (a_list a g_readytorun)" "t \<noteq> a_idle a"
    and p: "1 \<le> p"
  shows "\<exists>s'. up_reprioritize_rtr t p s = Some (fst (a_reprioritize t p a), s') \<and>
           refines s' (snd (a_reprioritize t p a)) \<and> kframe s s'"
proof -
  have c: "a_core a" using i by (simp add: a_inv_def)
  have tl: "a_live a t" using a_core_live [OF c t(1)] .
  define x where "x = a_removereadytorun t a"
  define y where "y = a_addreadytorun t (a_set_prio t p (snd x))"
  define z where "z = (if fst x \<noteq> fst y then snd (a_mergepending (snd y)) else snd y)"
  note core = a_reprioritize_core [OF i t p, folded x_def, folded y_def]
  obtain s1 s2 s3 where s3: "sched_removereadytorun t s = Some (fst x, s1)"
    "upd_tcb t (\<lambda>t. t\<lparr>sched_priority := p\<rparr>) s1 = Some s2"
    "sched_addreadytorun t s2 = Some (fst y, s3)" "refines s3 (snd y)" "kframe s s3"
    using remove_set_add_refines [OF r i t p] unfolding x_def [symmetric] y_def [symmetric] by blast
  obtain s4 where s4: "(if dq_head (tasklists s3 g_pendingtasks) \<noteq> NULL then sched_mergepending s3
      else Some (False, s3)) = Some (fst (a_mergepending (snd y)), s4)"
      "refines s4 (snd (a_mergepending (snd y)))" "kframe s3 s4"
    using mergepending_if_refines [OF s3(4) core(2)] by blast
  have cz: "a_core z" using core(2) a_core_mergepending(1) [OF core(2)] by (simp add: z_def)
  have lz: "a_live z (a_running a)"
    using core(7) a_core_running_live [OF c] moved_fields(1) [OF moved_mergepending] by (simp add: z_def)
  define s5 where "s5 = (if fst x \<noteq> fst y then s4 else s3)"
  have "refines s5 z" "kframe s s5"
    using s3(4,5) s4(2,3) by (auto simp: s5_def z_def kframe_def)
  then obtain s6 where s6: "(if fst x \<noteq> fst y then do { s \<leftarrow> perform_switch (a_running a) s5; Some (True, s) }
        else Some (False, s5)) = Some (fst x \<noteq> fst y, s6)"
      "refines s6 (snd (a_switch_if (a_running a) (fst x \<noteq> fst y, z)))" "kframe s s6"
    using switch_if_refines [OF _ lz a_core_running_live [OF cz]] kframe_trans by blast
  have st: "is_ready_state (task_state (a_tcb a t))" "p \<noteq> 0"
    using a_core_task [OF c t(1)] p by (auto simp: task_ok_def ready_state_list)
  have "a_reprioritize t p a = a_switch_if (a_running a) (fst x \<noteq> fst y, z)"
    by (simp add: a_reprioritize_eq Let_def x_def y_def z_def)
  moreover have "up_reprioritize_rtr t p s = Some (fst x \<noteq> fst y, s6)"
    unfolding up_reprioritize_rtr_def
    using refines_get_tcb [OF r tl] refines_running [OF r] st s3(1-3) s4(1) s6(1) s5_def
    by (cases "fst x = fst y"; cases "dq_head (tasklists s3 g_pendingtasks) = NULL") (auto simp: Let_def)
  ultimately show ?thesis using s6(2,3) by simp
qed

section \<open>Fields the scheduler does not touch\<close>

text \<open>A field of a TCB that neither moving a task nor switching contexts changes.\<close>

definition sched_field :: "(tcb \<Rightarrow> 'b) \<Rightarrow> bool" where
  "sched_field F \<longleftrightarrow> (\<forall>x st. F (x\<lparr>task_state := st\<rparr>) = F x) \<and> (\<forall>x c. F (x\<lparr>xcp_regs := c\<rparr>) = F x) \<and>
     (\<forall>x n. F (x\<lparr>timeslice := n\<rparr>) = F x)"

lemma sched_fields [simp]:
  "sched_field sched_priority" "sched_field lockcount" "sched_field waitsem"
  "sched_field msgwaitq" "sched_field pterrno" "sched_field tcb_flags" "sched_field pid" "sched_field waitdog"
  by (simp_all add: sched_field_def)

lemma moved_field:
  assumes "moved a b" "sched_field F" "a_live a x"
  shows "F (a_tcb b x) = F (a_tcb a x)"
proof -
  obtain st where "a_tcbs b x = map_option (\<lambda>t. t\<lparr>task_state := st\<rparr>) (a_tcbs a x)"
    using assms(1) unfolding moved_def by blast
  then show ?thesis using assms(2,3) by (auto simp: a_tcb_def a_live_def sched_field_def)
qed

lemma switch_if_field:
  "sched_field F \<Longrightarrow> a_live (snd ba) x \<Longrightarrow> F (a_tcb (snd (a_switch_if r ba)) x) = F (a_tcb (snd ba) x)"
  by (auto simp: sched_field_def a_switch_if_def a_switch_def Let_def a_tcb_def a_upd_def a_live_def)

lemma a_block_field:
  assumes c: "a_core a" and F: "sched_field F" and x: "a_live a x"
  shows "F (a_tcb (snd (a_block t st a)) x) = F (a_tcb a x)"
proof -
  let ?m = "a_mergepending (a_addblocked t st (snd (a_removereadytorun t a)))"
  have mv: "moved a (snd ?m)"
    using moved_trans [OF moved_trans [OF moved_removereadytorun moved_addblocked] moved_mergepending] .
  then have "a_live (snd ?m) x" using moved_fields(1) x by blast
  then have "F (a_tcb (snd (a_block t st a)) x) = F (a_tcb (snd ?m) x)"
    using switch_if_field [OF F] by (simp add: a_block_def case_prod_beta Let_def)
  then show ?thesis using moved_field [OF mv F x] by simp
qed

lemma a_unblock_field:
  assumes c: "a_core a" and F: "sched_field F" and x: "a_live a x"
  shows "F (a_tcb (snd (a_unblock t a)) x) = F (a_tcb a x)"
proof -
  have mv: "moved a (snd (a_addreadytorun t (a_removeblocked t a)))"
    using moved_trans [OF moved_removeblocked moved_addreadytorun] .
  then have "a_live (snd (a_addreadytorun t (a_removeblocked t a))) x" using moved_fields(1) x by blast
  then show ?thesis using moved_field [OF mv F x] switch_if_field [OF F] by (simp add: a_unblock_def)
qed

lemma a_reprioritize_field:
  assumes i: "a_inv a" and t: "t \<in> set (a_list a g_readytorun)" "t \<noteq> a_idle a"
    and F: "sched_field F" "\<And>x p. F (x\<lparr>sched_priority := p\<rparr>) = F x" and x: "a_live a x"
  shows "F (a_tcb (snd (a_reprioritize t p a)) x) = F (a_tcb a x)"
proof -
  have c: "a_core a" using i by (simp add: a_inv_def)
  let ?a1 = "snd (a_removereadytorun t a)"
  define y where "y = a_addreadytorun t (a_set_prio t p ?a1)"
  define z where "z = (if fst (a_removereadytorun t a) \<noteq> fst y then snd (a_mergepending (snd y)) else snd y)"
  have m1: "moved a ?a1" and m2: "moved (a_set_prio t p ?a1) (snd y)" and m3: "moved (snd y) z"
    using moved_removereadytorun moved_addreadytorun moved_mergepending by (simp_all add: y_def z_def)
  have lv: "a_live ?a1 u" "a_live (snd y) u" "a_live z u" if "a_live a u" for u
    using that moved_fields(1) [OF m1] moved_fields(1) [OF m2] moved_fields(1) [OF m3] by auto
  have "a_live a t" using a_core_live [OF c t(1)] .
  then have sp: "F (a_tcb (a_set_prio t p ?a1) x) = F (a_tcb ?a1 x)"
    using lv(1) F(2) by (simp add: a_set_prio_def)
  have "a_reprioritize t p a = a_switch_if (a_running a) (fst (a_removereadytorun t a) \<noteq> fst y, z)"
    by (simp add: a_reprioritize_eq Let_def y_def z_def)
  then have "F (a_tcb (snd (a_reprioritize t p a)) x) = F (a_tcb z x)"
    using switch_if_field [OF F(1), of "(_, z)"] lv(3) [OF x] by simp
  also have "\<dots> = F (a_tcb a x)"
    using moved_field [OF m3 F(1)] moved_field [OF m2 F(1)] moved_field [OF m1 F(1) x] lv [OF x] sp by simp
  finally show ?thesis .
qed

text \<open>
  The time slices: a switch gives a new one to the task it switches to, and nothing else
  changes the slice of a task.
\<close>

definition a_slices :: "bool \<Rightarrow> asched \<Rightarrow> asched \<Rightarrow> bool" where
  "a_slices sw a b \<longleftrightarrow> (\<forall>x. a_live a x \<longrightarrow>
     timeslice (a_tcb b x) = (if sw \<and> x = a_running b then RR_TICKS else timeslice (a_tcb a x)))"

lemma a_slices_switch_if:
  assumes s: "\<And>x. a_live a x \<Longrightarrow> timeslice (a_tcb b x) = timeslice (a_tcb a x)" and c: "a_core b" "a_live b r"
  shows "a_slices sw a (snd (a_switch_if r (sw, b)))"
  using s a_switch_fields(4) [OF c(2) a_core_running_live [OF c(1)]] by (simp add: a_slices_def) (simp add: a_switch_if_def)

lemma a_block_slices:
  assumes c: "a_core a" and t: "t \<in> set (a_list a g_readytorun)" "t \<noteq> a_idle a" and st: "is_blocked_state st"
  shows "a_slices (fst (a_block t st a)) a (snd (a_block t st a))"
proof -
  let ?a2 = "a_addblocked t st (snd (a_removereadytorun t a))"
  have "moved a (snd (a_mergepending ?a2))"
    using moved_trans [OF moved_trans [OF moved_removereadytorun moved_addblocked] moved_mergepending] .
  moreover have "a_core (snd (a_mergepending ?a2))"
    using a_core_mergepending(1) [OF a_core_addblocked [OF a_core_removeready(1) [OF c t] st]] .
  ultimately show ?thesis
    using a_slices_switch_if [of a "snd (a_mergepending ?a2)"] moved_fields(1,6) a_core_running_live [OF c]
    by (simp add: a_block_def case_prod_beta Let_def)
qed

lemma a_unblock_slices:
  assumes c: "a_core a" and t: "t \<in> set (a_list a L)" "L \<noteq> g_readytorun"
  shows "a_slices (fst (a_unblock t a)) a (snd (a_unblock t a))"
proof -
  let ?y = "a_addreadytorun t (a_removeblocked t a)"
  have "moved a (snd ?y)" using moved_trans [OF moved_removeblocked moved_addreadytorun] .
  moreover have "a_core (snd ?y)" using a_core_addreadytorun [OF a_core_removeblocked [OF c t]] by blast
  ultimately show ?thesis
    using a_slices_switch_if [of a "snd ?y" "a_running a" "fst ?y"] moved_fields(1,6) a_core_running_live [OF c] by (simp add: a_unblock_def)
qed

lemma a_release_slices:
  assumes c: "a_core a"
  shows "a_slices (fst (a_release_pending a)) a (snd (a_release_pending a))"
  using a_slices_switch_if [of a "snd (a_mergepending a)" "a_running a" "fst (a_mergepending a)"]
    a_core_mergepending(1) [OF c] moved_fields(1,6) [OF moved_mergepending] a_core_running_live [OF c] by (simp add: a_release_pending_def)

lemma a_reprioritize_slices:
  assumes i: "a_inv a" and t: "t \<in> set (a_list a g_readytorun)" "t \<noteq> a_idle a" and p: "1 \<le> p"
  shows "a_slices (fst (a_reprioritize t p a)) a (snd (a_reprioritize t p a))"
proof -
  let ?a1 = "snd (a_removereadytorun t a)"
  define y where "y = a_addreadytorun t (a_set_prio t p ?a1)"
  define z where "z = (if fst (a_removereadytorun t a) \<noteq> fst y then snd (a_mergepending (snd y)) else snd y)"
  note core = a_reprioritize_core [OF i t p, folded y_def]
  have c: "a_core z" using core(2) a_core_mergepending(1) [OF core(2)] by (simp add: z_def)
  have m1: "moved a ?a1" and m2: "moved (a_set_prio t p ?a1) (snd y)" and m3: "moved (snd y) z"
    using moved_removereadytorun moved_addreadytorun moved_mergepending by (simp_all add: y_def z_def)
  have lt: "a_live ?a1 t" using a_core1D(3) [OF core(1)] by simp
  have lr: "a_live z (a_running a)"
    using a_core_running_live i moved_fields(1) [OF m1] moved_fields(1) [OF m2] moved_fields(1) [OF m3]
    by (simp add: a_inv_def a_set_prio_def)
  have "timeslice (a_tcb z x) = timeslice (a_tcb a x)" if "a_live a x" for x
    using that moved_fields(1,6) [OF m1] moved_fields(1,6) [OF m2] moved_fields(1,6) [OF m3] lt
    by (simp add: a_set_prio_def)
  note sl = a_slices_switch_if [OF this c lr, of "fst (a_removereadytorun t a) \<noteq> fst y"]
  have "a_reprioritize t p a = a_switch_if (a_running a) (fst (a_removereadytorun t a) \<noteq> fst y, z)"
    by (simp add: a_reprioritize_eq Let_def y_def z_def)
  with sl show ?thesis by simp
qed

section \<open>Lists the scheduler does not touch\<close>

lemma a_block_lists:
  assumes c: "a_core a" and t: "t \<in> set (a_list a g_readytorun)" "t \<noteq> a_idle a"
    and L: "TLIST_BLOCKED st = Some L" "L \<noteq> g_readytorun" "L \<noteq> g_pendingtasks" "prioritized_list L"
    and M: "M \<noteq> g_readytorun" "M \<noteq> g_pendingtasks"
  shows "a_list (snd (a_block t st a)) M =
           (if M = L then insert_desc (a_prio a) t (a_list a L) else a_list a M)"
proof -
  let ?a1 = "snd (a_removereadytorun t a)"
  let ?a2 = "a_addblocked t st ?a1"
  note rm = a_core_removeready [OF c t]
  have st: "is_blocked_state st" using L by (auto simp: blocked_state_list)
  have c2: "a_core ?a2" using a_core_addblocked [OF rm(1) st] .
  have "a_prio ?a1 x = a_prio a x" if "x \<in> insert t (set (a_list a L))" for x
    using that moved_fields(3) [OF moved_removereadytorun] a_core_live [OF c] t(1) by blast
  then have ins: "insert_desc (a_prio ?a1) t (a_list a L) = insert_desc (a_prio a) t (a_list a L)"
    by (intro insert_desc_cong)
  have "a_list (snd (a_block t st a)) M = a_list ?a2 M"
    using a_core_mergepending(4) [OF c2 M] by (simp add: a_block_def case_prod_beta Let_def)
  then show ?thesis
    using L M ins rm(4) TLIST_ISPRIORITIZED_iff [OF L(1)] by (simp add: a_addblocked_def)
qed

lemma a_block_other:
  assumes c: "a_core a" and t: "t \<in> set (a_list a g_readytorun)" "t \<noteq> a_idle a" and st: "is_blocked_state st"
    and M: "M \<noteq> g_readytorun" "M \<noteq> g_pendingtasks" "TLIST_BLOCKED st \<noteq> Some M"
  shows "a_list (snd (a_block t st a)) M = a_list a M"
proof -
  let ?a2 = "a_addblocked t st (snd (a_removereadytorun t a))"
  note rm = a_core_removeready [OF c t]
  have "a_list (snd (a_block t st a)) M = a_list ?a2 M"
    using a_core_mergepending(4) [OF a_core_addblocked [OF rm(1) st] M(1,2)]
    by (simp add: a_block_def case_prod_beta Let_def)
  then show ?thesis using M rm(4) by (simp add: a_addblocked_def split: option.split)
qed

lemma a_block_ready:
  assumes c: "a_core a" and t: "t \<in> set (a_list a g_readytorun)" "t \<noteq> a_idle a" and st: "is_blocked_state st"
  shows "set (a_list (snd (a_block t st a)) g_readytorun) =
           set (a_list a g_readytorun) \<union> set (a_list a g_pendingtasks) - {t}"
    "fst (a_block t st a) \<longleftrightarrow>
       t = a_running a \<or> (\<exists>p \<in> set (a_list a g_pendingtasks). a_prio a (a_running a) < a_prio a p)"
proof -
  let ?a1 = "snd (a_removereadytorun t a)"
  let ?a2 = "a_addblocked t st ?a1"
  note rm = a_core_removeready [OF c t]
  have c2: "a_core ?a2" using a_core_addblocked [OF rm(1) st] .
  obtain M where M: "TLIST_BLOCKED st = Some M" "M \<noteq> g_readytorun" "M \<noteq> g_pendingtasks"
    using st by (auto simp: blocked_state_list)
  then have ls: "a_list ?a2 g_readytorun = remove1 t (a_list a g_readytorun)"
    "a_list ?a2 g_pendingtasks = a_list a g_pendingtasks"
    using rm(4) by (simp_all add: a_addblocked_def)
  have np: "t \<notin> set (a_list a g_pendingtasks)" using a_core_disjoint [OF c t(1)] by blast
  have d: "distinct (a_list a g_readytorun)" using c by (simp add: a_core_def)
  have bl: "a_list (snd (a_block t st a)) = a_list (snd (a_mergepending ?a2))"
    by (simp add: a_block_def case_prod_beta Let_def)
  show "set (a_list (snd (a_block t st a)) g_readytorun) =
           set (a_list a g_readytorun) \<union> set (a_list a g_pendingtasks) - {t}"
    using a_core_mergepending(5) [OF c2] ls np d unfolding bl by auto
  have fb: "fst (a_block t st a) \<longleftrightarrow> t = a_running a \<or> fst (a_mergepending ?a2)"
    by (simp add: a_block_def case_prod_beta Let_def a_removereadytorun_def)
  have "fst (a_mergepending ?a2) \<longleftrightarrow> (\<exists>p \<in> set (a_list a g_pendingtasks). a_prio a (a_running a) < a_prio a p)"
    if "t \<noteq> a_running a"
  proof -
    have run: "a_running ?a2 = a_running a"
      using that a_core_running [OF c] by (cases "a_list a g_readytorun") (auto simp: a_running_def ls)
    have mv: "moved a ?a2" using moved_trans [OF moved_removereadytorun moved_addblocked] .
    have "a_prio ?a2 x = a_prio a x" if "a_live a x" for x using moved_fields(3) [OF mv that] .
    with a_core_mergepending(7) [OF c2] run ls(2) a_core_live [OF c] a_core_running_live [OF c] show ?thesis
      by auto
  qed
  with fb show "fst (a_block t st a) \<longleftrightarrow>
       t = a_running a \<or> (\<exists>p \<in> set (a_list a g_pendingtasks). a_prio a (a_running a) < a_prio a p)" by blast
qed

lemma a_block_set:
  assumes c: "a_core a" and t: "t \<in> set (a_list a g_readytorun)" "t \<noteq> a_idle a" and st: "is_blocked_state st"
    and M: "M \<noteq> g_readytorun" "M \<noteq> g_pendingtasks"
  shows "set (a_list (snd (a_block t st a)) M) = set (a_list a M) \<union> (if TLIST_BLOCKED st = Some M then {t} else {})"
proof -
  note rm = a_core_removeready [OF c t]
  have "a_list (snd (a_block t st a)) M = a_list (a_addblocked t st (snd (a_removereadytorun t a))) M"
    using a_core_mergepending(4) [OF a_core_addblocked [OF rm(1) st] M]
    by (simp add: a_block_def case_prod_beta Let_def)
  then show ?thesis using M rm(4) by (auto simp: a_addblocked_def split: option.split)
qed

lemma a_unblock_lists:
  assumes c: "a_core a" and t: "t \<in> set (a_list a L)" and L: "L \<noteq> g_readytorun"
    and M: "M \<noteq> g_readytorun" "M \<noteq> g_pendingtasks"
  shows "a_list (snd (a_unblock t a)) M = (if M = L then remove1 t (a_list a L) else a_list a M)"
proof -
  have "TLIST_BLOCKED (task_state (a_tcb a t)) = Some L" using a_core_task [OF c t] by (simp add: task_ok_def)
  then have "a_list (a_removeblocked t a) M = (if M = L then remove1 t (a_list a L) else a_list a M)"
    by (simp add: a_removeblocked_def)
  moreover have "a_list (snd (a_addreadytorun t b)) M = a_list b M" for b
    using M by (simp add: a_addreadytorun_def a_ready_frame)
  ultimately show ?thesis by (simp add: a_unblock_def)
qed

lemma a_reprioritize_lists:
  assumes i: "a_inv a" and t: "t \<in> set (a_list a g_readytorun)" "t \<noteq> a_idle a" and p: "1 \<le> p"
    and M: "M \<noteq> g_readytorun" "M \<noteq> g_pendingtasks"
  shows "a_list (snd (a_reprioritize t p a)) M = a_list a M"
proof -
  have c: "a_core a" using i by (simp add: a_inv_def)
  define y where "y = a_addreadytorun t (a_set_prio t p (snd (a_removereadytorun t a)))"
  have "a_list (snd y) M = a_list a M"
    using M a_core_removeready(4) [OF c t] by (simp add: y_def a_addreadytorun_def a_ready_frame)
  moreover have "a_core (snd y)" unfolding y_def by (rule a_reprioritize_core(2) [OF i t p])
  ultimately show ?thesis
    using a_core_mergepending(4) [OF _ M] by (simp add: a_reprioritize_eq Let_def y_def [symmetric])
qed

end
