(* ===== verification/SchedApi.thy ===== *)
theory SchedApi
  imports SchedOps
begin

text \<open>
  The scheduler interface built on the context switching operations: changing priorities
  (\<^verbatim>\<open>sched_setpriority.c\<close>), yielding (\<^verbatim>\<open>sched_yield.c\<close>), locking and unlocking
  pre-emption (\<^verbatim>\<open>sched_lock.c\<close>, \<^verbatim>\<open>sched_unlock.c\<close>) and the round-robin time slice
  (\<^verbatim>\<open>sched_roundrobin.c\<close>).
\<close>

section \<open>Well-formed kernel states\<close>

text \<open>A kernel state whose pointer structure represents an abstract state with the invariant.\<close>

definition kinv :: "'a kstate_scheme \<Rightarrow> bool" where
  "kinv s \<longleftrightarrow> (\<exists>a. refines s a \<and> a_inv a)"

lemma kinvI: "refines s a \<Longrightarrow> a_inv a \<Longrightarrow> kinv s"
  by (auto simp: kinv_def)

lemma refines_unique:
  assumes "refines s a" "refines s b"
  shows "a = b"
proof -
  have "a_list a L = a_list b L" for L
    using dq_rep_unique [OF refines_rep [OF assms(1)] refines_rep [OF assms(2)]] .
  then show ?thesis using assms by (intro asched.equality) (auto simp: refines_def)
qed

section \<open>Changing the priority of a task in place\<close>

lemma a_core_set_prio:
  assumes c: "a_core a" and t: "t \<in> set (a_list a L)" "t \<noteq> a_idle a" and p: "1 \<le> p"
    and d: "prioritized_list L \<Longrightarrow> desc ((a_prio a)(t := p)) (a_list a L)"
  shows "a_core (a_set_prio t p a)"
proof -
  have tl: "a_live a t" using a_core_live [OF c t(1)] .
  note f = a_set_prio_fields [OF tl, of p]
  have pr: "a_prio (a_set_prio t p a) = (a_prio a)(t := p)" using f(5) by (auto simp: fun_eq_iff)
  have "desc ((a_prio a)(t := p)) (a_list a M)" if M: "prioritized_list M" for M
  proof (cases "M = L")
    case False
    then have "t \<notin> set (a_list a M)" using a_core_disjoint [OF c t(1)] by blast
    then have "desc ((a_prio a)(t := p)) (a_list a M) = desc (a_prio a) (a_list a M)"
      by (intro desc_cong) auto
    then show ?thesis using a_core_desc [OF c M] by simp
  qed (use d M in simp)
  moreover have "task_ok (a_set_prio t p a) M x" if "x \<in> set (a_list a M)" for x M
    using a_core_task [OF c that] f p t(2) by (auto simp: task_ok_def)
  ultimately show ?thesis using c unfolding a_core_def pr by simp
qed

lemma a_inv_set_prio:
  assumes "a_inv a" "t \<in> set (a_list a L)" "t \<noteq> a_idle a" "1 \<le> p"
    "prioritized_list L \<Longrightarrow> desc ((a_prio a)(t := p)) (a_list a L)"
  shows "a_inv (a_set_prio t p a)"
  using assms a_core_set_prio [of a t L p] a_set_prio_fields(1) [OF a_core_live [of a t L]]
  by (simp add: a_inv_def)

text \<open>Taking a task out of a prioritized list and back in with another priority.\<close>

definition a_requeue :: "tasklist \<Rightarrow> addr \<Rightarrow> 8 word \<Rightarrow> asched \<Rightarrow> asched" where
  "a_requeue L t p a = a_insert L t (a_set_prio t p (a_remove L t a))"

lemma a_requeue_eq:
  "a_requeue L t p a = a_state t (task_state (a_tcb a t))
     (a_insert L t (a_set_prio t p (a_state t TSTATE_TASK_INVALID (a_remove L t a))))"
proof -
  have "a_prio (a_set_prio t p (a_state t st (a_remove L t a))) = a_prio (a_set_prio t p (a_remove L t a))" for st
    by (auto simp: a_prio_def a_tcb_def a_set_prio_def fun_eq_iff option.map_comp comp_def
        option.map_sel map_option_case split: option.split)
  then have "a_list (a_requeue L t p a) = a_list (a_state t (task_state (a_tcb a t))
      (a_insert L t (a_set_prio t p (a_state t TSTATE_TASK_INVALID (a_remove L t a)))))"
    by (simp add: a_requeue_def)
  moreover have "a_tcbs (a_requeue L t p a) = a_tcbs (a_state t (task_state (a_tcb a t))
      (a_insert L t (a_set_prio t p (a_state t TSTATE_TASK_INVALID (a_remove L t a)))))"
    by (auto simp: a_requeue_def a_set_prio_def a_tcb_def map_option_case split: option.split)
  ultimately show ?thesis by (intro asched.equality) (simp_all add: a_requeue_def)
qed

lemma a_core_requeue:
  assumes c: "a_core a" and t: "t \<in> set (a_list a L)" and L: "L \<noteq> g_readytorun" "prioritized_list L"
    and p: "1 \<le> p"
  shows "a_core (a_requeue L t p a)"
proof -
  let ?b = "a_set_prio t p (a_state t TSTATE_TASK_INVALID (a_remove L t a))"
  have c1: "a_core1 ?b t" by (rule a_core1_set_prio [OF a_core_removeother [OF c t L(1)] p])
  note d = a_core1D [OF c1]
  have st: "TLIST_BLOCKED (task_state (a_tcb a t)) = Some L"
    using a_core_task [OF c t] by (simp add: task_ok_def)
  have "desc (a_prio ?b) (insert_desc (a_prio ?b) t (a_list ?b L))"
    using a_core_desc [OF d(1) L(2)] by (rule desc_insert_desc)
  moreover have "distinct (insert_desc (a_prio ?b) t (a_list ?b L))"
    using d(1,2) unfolding distinct_insert_desc a_core_def a_unlisted_def by blast
  ultimately show ?thesis
    unfolding a_requeue_eq a_insert_def
    by (intro a_core_insert_other [OF c1 st L(1)]) auto
qed

section \<open>\<^verbatim>\<open>nxsched_setpriority\<close>\<close>

definition a_running_setpriority :: "addr \<Rightarrow> 8 word \<Rightarrow> asched \<Rightarrow> asched" where
  "a_running_setpriority t p a =
     (if p \<le> a_prio a (first_ptr (tl (a_list a g_readytorun))) then snd (a_reprioritize t p a)
      else a_set_prio t p a)"

definition a_readytorun_setpriority :: "addr \<Rightarrow> 8 word \<Rightarrow> asched \<Rightarrow> asched" where
  "a_readytorun_setpriority t p a =
     (if a_prio a (a_running a) < p then snd (a_reprioritize t p a)
      else snd (a_addreadytorun t (a_set_prio t p (snd (a_removereadytorun t a)))))"

definition a_blocked_setpriority :: "addr \<Rightarrow> 8 word \<Rightarrow> asched \<Rightarrow> asched" where
  "a_blocked_setpriority t p a =
     (case TLIST_BLOCKED (task_state (a_tcb a t)) of
        None \<Rightarrow> a_set_prio t p a
      | Some L \<Rightarrow> if prioritized_list L then a_requeue L t p a else a_set_prio t p a)"

definition a_setpriority :: "addr \<Rightarrow> 8 word \<Rightarrow> asched \<Rightarrow> asched" where
  "a_setpriority t p a = (case task_state (a_tcb a t) of
      TSTATE_TASK_RUNNING \<Rightarrow> a_running_setpriority t p a
    | TSTATE_TASK_READYTORUN \<Rightarrow> a_readytorun_setpriority t p a
    | _ \<Rightarrow> a_blocked_setpriority t p a)"

lemma word_prio:
  assumes "SCHED_PRIORITY_MIN \<le> prio" "prio \<le> SCHED_PRIORITY_MAX"
  shows "uint (word_of_int prio :: 8 word) = prio" "1 \<le> (word_of_int prio :: 8 word)"
    "prio \<le> uint w \<longleftrightarrow> word_of_int prio \<le> (w :: 8 word)"
    "uint w < prio \<longleftrightarrow> (w :: 8 word) < word_of_int prio"
proof -
  show u: "uint (word_of_int prio :: 8 word) = prio"
    using assms by (simp add: uint_word_of_int SCHED_PRIORITY_MIN_def SCHED_PRIORITY_MAX_def)
  show "1 \<le> (word_of_int prio :: 8 word)" "prio \<le> uint w \<longleftrightarrow> word_of_int prio \<le> (w :: 8 word)"
    "uint w < prio \<longleftrightarrow> (w :: 8 word) < word_of_int prio"
    using assms by (simp_all add: word_le_def word_less_def u SCHED_PRIORITY_MIN_def)
qed

lemma a_core_ready_split:
  assumes c: "a_core a" and t: "a_running a \<noteq> a_idle a"
  obtains rest where "a_list a g_readytorun = a_running a # rest" "rest \<noteq> []"
proof (cases "a_list a g_readytorun")
  case (Cons x rest)
  with t have "rest \<noteq> []" by (auto simp: a_running_def a_idle_def)
  with Cons that show ?thesis by (simp add: a_running_def)
qed (use c in \<open>simp add: a_core_def\<close>)

lemma sched_running_setpriority_refines:
  assumes r: "refines s a" and i: "a_inv a" and t: "t = a_running a" "t \<noteq> a_idle a"
    and p: "SCHED_PRIORITY_MIN \<le> prio" "prio \<le> SCHED_PRIORITY_MAX"
  shows "\<exists>s'. sched_running_setpriority t prio s = Some s' \<and>
           refines s' (a_running_setpriority t (word_of_int prio) a) \<and> kframe s s'"
proof -
  have c: "a_core a" using i by (simp add: a_inv_def)
  obtain rest where L: "a_list a g_readytorun = t # rest" and ne: "rest \<noteq> []"
    using a_core_ready_split [OF c] t by blast
  have tin: "t \<in> set (a_list a g_readytorun)" using L by simp
  have nx: "get_flink (dqm s) t = Some (first_ptr rest)"
    using refines_links(1) [OF r, of g_readytorun "[]"] L by simp
  have nin: "first_ptr rest \<in> set (a_list a g_readytorun)" using L first_ptr_in [OF ne] by simp
  have nlive: "a_live a (first_ptr rest)" using a_core_live [OF c nin] .
  then have nn: "first_ptr rest \<noteq> NULL" by (simp add: a_live_def)
  note w = word_prio [OF p]
  have pr: "prio \<le> uint (sched_priority (a_tcb a (first_ptr rest))) \<longleftrightarrow>
      word_of_int prio \<le> a_prio a (first_ptr rest)" by (simp add: w a_prio_def)
  show ?thesis
  proof (cases "word_of_int prio \<le> a_prio a (first_ptr rest)")
    case True
    with up_reprioritize_rtr_refines [OF r i tin t(2) w(2)] nx nn pr refines_get_tcb [OF r nlive] L
    show ?thesis by (auto simp: sched_running_setpriority_def a_running_setpriority_def)
  next
    case False
    with refines_upd_tcb [OF r a_core_live [OF c tin], of "\<lambda>t. t\<lparr>sched_priority := word_of_int prio\<rparr>"]
      nx nn pr refines_get_tcb [OF r nlive] L
    show ?thesis by (auto simp: sched_running_setpriority_def a_running_setpriority_def a_set_prio_def)
  qed
qed

lemma a_readytorun_low:
  assumes i: "a_inv a" and t: "t \<in> set (a_list a g_readytorun)" "t \<noteq> a_idle a" "t \<noteq> a_running a"
    and p: "1 \<le> p" "\<not> a_prio a (a_running a) < p"
  defines "x \<equiv> a_removereadytorun t a"
  shows "\<not> fst x" "\<not> fst (a_addreadytorun t (a_set_prio t p (snd x)))"
proof -
  have c: "a_core a" using i by (simp add: a_inv_def)
  show "\<not> fst x" using t(3) by (simp add: x_def a_removereadytorun_def Let_def)
  note rm = a_core_removeready [OF c t(1,2), folded x_def]
  have lt: "a_live (snd x) t" using a_core1D(3) [OF rm(1)] .
  have "a_running (snd x) = a_running a" using rm(3) t(3) by simp
  moreover have "a_prio (snd x) (a_running a) = a_prio a (a_running a)"
    using moved_fields(3) [OF moved_removereadytorun a_core_running_live [OF c]] by (simp add: x_def)
  ultimately show "\<not> fst (a_addreadytorun t (a_set_prio t p (snd x)))"
    using p(2) t(3) a_set_prio_fields(5) [OF lt] by (simp add: a_addreadytorun_def a_ready_def)
qed

lemma sched_readytorun_setpriority_refines:
  assumes r: "refines s a" and i: "a_inv a"
    and t: "t \<in> set (a_list a g_readytorun)" "t \<noteq> a_idle a" "t \<noteq> a_running a"
    and p: "SCHED_PRIORITY_MIN \<le> prio" "prio \<le> SCHED_PRIORITY_MAX"
    and db: "debug_assertions s \<or> a_prio a (a_running a) < word_of_int prio"
  shows "\<exists>s'. sched_readytorun_setpriority t prio s = Some s' \<and>
           refines s' (a_readytorun_setpriority t (word_of_int prio) a) \<and> kframe s s'"
proof -
  have c: "a_core a" using i by (simp add: a_inv_def)
  note w = word_prio [OF p]
  have run: "get_tcb s (this_task s) = Some (a_tcb a (a_running a))"
    using refines_running [OF r] refines_get_tcb [OF r a_core_running_live [OF c]] by simp
  have pr: "uint (sched_priority (a_tcb a (a_running a))) < prio \<longleftrightarrow>
      a_prio a (a_running a) < word_of_int prio" by (simp add: w a_prio_def)
  show ?thesis
  proof (cases "a_prio a (a_running a) < word_of_int prio")
    case True
    with up_reprioritize_rtr_refines [OF r i t(1,2) w(2)] run pr
    show ?thesis by (auto simp: sched_readytorun_setpriority_def a_readytorun_setpriority_def Let_def)
  next
    case False
    with db have "debug_assertions s" by simp
    obtain s1 s2 s3 where s3: "sched_removereadytorun t s = Some (False, s1)" "kframe s s1"
      "upd_tcb t (\<lambda>t. t\<lparr>sched_priority := word_of_int prio\<rparr>) s1 = Some s2" "kframe s s2"
      "sched_addreadytorun t s2 = Some (False, s3)" "kframe s s3"
      "refines s3 (snd (a_addreadytorun t (a_set_prio t (word_of_int prio) (snd (a_removereadytorun t a)))))"
      using remove_set_add_refines [OF r i t(1,2) w(2)] a_readytorun_low [OF i t w(2) False] by metis
    then have "debug_assertions s1" "debug_assertions s2"
      using \<open>debug_assertions s\<close> by (simp_all add: kframe_def)
    with False s3 run pr \<open>debug_assertions s\<close> show ?thesis
      by (simp add: sched_readytorun_setpriority_def a_readytorun_setpriority_def Let_def)
  qed
qed

lemma sched_blocked_setpriority_refines:
  assumes r: "refines s a" and c: "a_core a" and t: "t \<in> set (a_list a L)" and L: "L \<noteq> g_readytorun"
    and p: "SCHED_PRIORITY_MIN \<le> prio" "prio \<le> SCHED_PRIORITY_MAX"
  shows "\<exists>s'. sched_blocked_setpriority t prio s = Some s' \<and>
           refines s' (a_blocked_setpriority t (word_of_int prio) a) \<and> kframe s s'"
proof -
  let ?p = "word_of_int prio :: 8 word"
  let ?f = "\<lambda>t. t\<lparr>sched_priority := ?p\<rparr>"
  have tl: "a_live a t" using a_core_live [OF c t] .
  have st: "TLIST_BLOCKED (task_state (a_tcb a t)) = Some L"
    using a_core_task [OF c t] by (simp add: task_ok_def)
  note pi = TLIST_ISPRIORITIZED_iff [OF st]
  show ?thesis
  proof (cases "prioritized_list L")
    case False
    with refines_upd_tcb [OF r tl, of ?f] st pi refines_get_tcb [OF r tl] show ?thesis
      by (simp add: sched_blocked_setpriority_def a_blocked_setpriority_def a_set_prio_def)
  next
    case True
    obtain s1 where s1: "k_dq_rem t L s = Some s1" "refines s1 (a_remove L t a)" "kframe s s1"
      using k_dq_rem_refines [OF r t] by blast
    obtain s2 where s2: "upd_tcb t ?f s1 = Some s2" "refines s2 (a_set_prio t ?p (a_remove L t a))" "kframe s1 s2"
      using refines_upd_tcb [OF s1(2), of t ?f] tl by (auto simp: a_set_prio_def)
    have "a_unlisted (a_set_prio t ?p (a_remove L t a)) t"
      using a_core_disjoint [OF c t] c by (auto simp: a_unlisted_def a_core_def)
    moreover have "1 \<le> a_prio (a_set_prio t ?p (a_remove L t a)) t"
      using a_set_prio_fields(5) [of "a_remove L t a"] tl word_prio(2) [OF p] by simp
    moreover have "a_live (a_set_prio t ?p (a_remove L t a)) t" using tl by simp
    ultimately obtain s3 b where s3: "sched_addprioritized t L s2 = Some (b, s3)"
      "refines s3 (a_requeue L t ?p a)" "kframe s2 s3"
      using sched_addprioritized_refines [OF s2(2), of t L] unfolding a_requeue_def by blast
    from True s1(1) s2(1) s3(1) st pi refines_get_tcb [OF r tl]
    have "sched_blocked_setpriority t prio s = Some s3"
      by (simp add: sched_blocked_setpriority_def)
    with True st s3(2) s1(3) s2(3) s3(3) show ?thesis
      by (simp add: a_blocked_setpriority_def kframe_def)
  qed
qed

lemma nxsched_setpriority_refines:
  assumes r: "refines s a" and i: "a_inv a" and t: "t \<in> set (a_list a L)" "t \<noteq> a_idle a"
    and p: "SCHED_PRIORITY_MIN \<le> prio" "prio \<le> SCHED_PRIORITY_MAX"
    and db: "L = g_readytorun \<Longrightarrow> t \<noteq> a_running a \<Longrightarrow>
               debug_assertions s \<or> a_prio a (a_running a) < word_of_int prio"
  shows "\<exists>s'. nxsched_setpriority t prio s = Some (0, s') \<and>
           refines s' (a_setpriority t (word_of_int prio) a) \<and> kframe s s'"
proof -
  have c: "a_core a" using i by (simp add: a_inv_def)
  have gt: "get_tcb s t = Some (a_tcb a t)" using refines_get_tcb [OF r a_core_live [OF c t(1)]] .
  have ok: "TLIST_BLOCKED (task_state (a_tcb a t)) = Some L"
    "task_state (a_tcb a t) = TSTATE_TASK_RUNNING \<longleftrightarrow> t = a_running a"
    using a_core_task [OF c t(1)] by (simp_all add: task_ok_def)
  have run: "L = g_readytorun" if "t = a_running a"
    using that a_core_disjoint [OF c t(1)] a_core_running [OF c] by blast
  note bl = sched_blocked_setpriority_refines [OF r c t(1) _ p]
  have "\<exists>s'. (case task_state (a_tcb a t) of
               TSTATE_TASK_RUNNING \<Rightarrow> sched_running_setpriority t prio s
             | TSTATE_TASK_READYTORUN \<Rightarrow> sched_readytorun_setpriority t prio s
             | _ \<Rightarrow> sched_blocked_setpriority t prio s) = Some s' \<and>
           refines s' (a_setpriority t (word_of_int prio) a) \<and> kframe s s'"
  proof (cases "t = a_running a")
    case True
    with sched_running_setpriority_refines [OF r i True t(2) p] ok show ?thesis
      by (simp add: a_setpriority_def)
  next
    case False
    then have nr: "task_state (a_tcb a t) \<noteq> TSTATE_TASK_RUNNING" using ok by simp
    show ?thesis
    proof (cases "L = g_readytorun")
      case True
      with ok nr have "task_state (a_tcb a t) = TSTATE_TASK_READYTORUN"
        by (cases "task_state (a_tcb a t)") auto
      with sched_readytorun_setpriority_refines [OF r i _ t(2) False p] t(1) db True False show ?thesis
        by (simp add: a_setpriority_def)
    next
      case False
      with ok nr bl show ?thesis
        by (cases "task_state (a_tcb a t)") (auto simp: a_setpriority_def)
    qed
  qed
  with gt p show ?thesis by (auto simp: nxsched_setpriority_def)
qed

lemma nxsched_setpriority_invalid:
  "prio < SCHED_PRIORITY_MIN \<or> SCHED_PRIORITY_MAX < prio \<Longrightarrow> nxsched_setpriority t prio s = Some (- EINVAL, s)"
  by (simp add: nxsched_setpriority_def)

lemma a_context_set_prio: "a_live a t \<Longrightarrow> a_context (a_set_prio t p a) x = a_context a x"
  using a_set_prio_fields(2) [of a t p] by (simp add: a_context_def)

lemma a_context_moved:
  "moved a b \<Longrightarrow> a_live a x \<Longrightarrow> a_running b = a_running a \<Longrightarrow> a_context b x = a_context a x"
  using moved_fields(2,5) by (auto simp: a_context_def)

lemma a_running_setpriority_inv:
  assumes i: "a_inv a" and t: "t = a_running a" "t \<noteq> a_idle a" and p: "1 \<le> p"
  shows "a_inv (a_running_setpriority t p a)" "a_idle (a_running_setpriority t p a) = a_idle a"
    "a_live a x \<Longrightarrow> a_context (a_running_setpriority t p a) x = a_context a x"
proof -
  have c: "a_core a" using i by (simp add: a_inv_def)
  obtain rest where L: "a_list a g_readytorun = t # rest" and ne: "rest \<noteq> []"
    using a_core_ready_split [OF c] t by blast
  then have tin: "t \<in> set (a_list a g_readytorun)" by simp
  note re = a_reprioritize_ok [OF i tin t(2) p]
  have "desc ((a_prio a)(t := p)) (a_list a g_readytorun)" if "\<not> p \<le> a_prio a (first_ptr rest)"
  proof -
    have d: "desc (a_prio a) rest" "t \<notin> set rest"
      using a_core_desc [OF c, of g_readytorun] c L
      by (auto simp: prioritized_list_def a_core_def dest!: spec [of _ g_readytorun])
    have "a_prio a y \<le> p" if "y \<in> set rest" for y
    proof -
      have "a_prio a y \<le> a_prio a (first_ptr rest)" using d(1) that by (cases rest) auto
      with \<open>\<not> p \<le> a_prio a (first_ptr rest)\<close> show ?thesis by simp
    qed
    moreover have "desc ((a_prio a)(t := p)) rest = desc (a_prio a) rest"
      using d(2) by (intro desc_cong) auto
    ultimately show ?thesis using L d by auto
  qed
  then have "\<not> p \<le> a_prio a (first_ptr rest) \<Longrightarrow> a_inv (a_set_prio t p a)"
    using a_inv_set_prio [OF i tin t(2) p] by blast
  then show "a_inv (a_running_setpriority t p a)" "a_idle (a_running_setpriority t p a) = a_idle a"
    using re L by (simp_all add: a_running_setpriority_def)
  show "a_context (a_running_setpriority t p a) x = a_context a x" if "a_live a x"
    using re(3) [OF that] a_context_set_prio [OF a_core_live [OF c tin]]
    by (simp add: a_running_setpriority_def)
qed

lemma a_readytorun_setpriority_inv:
  assumes i: "a_inv a" and t: "t \<in> set (a_list a g_readytorun)" "t \<noteq> a_idle a" "t \<noteq> a_running a"
    and p: "1 \<le> p"
  shows "a_inv (a_readytorun_setpriority t p a)" "a_idle (a_readytorun_setpriority t p a) = a_idle a"
    "a_live a x \<Longrightarrow> a_context (a_readytorun_setpriority t p a) x = a_context a x"
proof -
  note re = a_reprioritize_ok [OF i t(1,2) p]
  note co = a_reprioritize_core [OF i t(1,2) p]
  have e: "\<not> a_prio a (a_running a) < p \<Longrightarrow> fst (a_removereadytorun t a) =
      fst (a_addreadytorun t (a_set_prio t p (snd (a_removereadytorun t a))))"
    using a_readytorun_low [OF i t p] by simp
  show "a_inv (a_readytorun_setpriority t p a)" "a_idle (a_readytorun_setpriority t p a) = a_idle a"
    using re co(3,5) e by (auto simp: a_readytorun_setpriority_def)
  show "a_context (a_readytorun_setpriority t p a) x = a_context a x" if "a_live a x"
  proof (cases "a_prio a (a_running a) < p")
    case False
    then show ?thesis using co(4) [OF e] co(6) co(8) [OF that]
      by (simp add: a_readytorun_setpriority_def a_context_def)
  qed (use re(3) [OF that] in \<open>simp add: a_readytorun_setpriority_def\<close>)
qed

lemma a_requeue_fields:
  assumes "a_live a t" "L \<noteq> g_readytorun"
  shows "a_running (a_requeue L t p a) = a_running a" "a_idle (a_requeue L t p a) = a_idle a"
    "lockcount (a_tcb (a_requeue L t p a) x) = lockcount (a_tcb a x)"
    "xcp_regs (a_tcb (a_requeue L t p a) x) = xcp_regs (a_tcb a x)"
    "a_cpu (a_requeue L t p a) = a_cpu a"
    "a_prio (a_requeue L t p a) x = (if x = t then p else a_prio a x)"
  using assms a_set_prio_fields [of "a_remove L t a" t p x]
  by (simp_all add: a_requeue_def a_running_def a_idle_def)

lemma a_blocked_setpriority_inv:
  assumes i: "a_inv a" and t: "t \<in> set (a_list a L)" and L: "L \<noteq> g_readytorun" and p: "1 \<le> p"
  shows "a_inv (a_blocked_setpriority t p a)" "a_idle (a_blocked_setpriority t p a) = a_idle a"
    "a_context (a_blocked_setpriority t p a) x = a_context a x"
proof -
  have c: "a_core a" using i by (simp add: a_inv_def)
  have tl: "a_live a t" using a_core_live [OF c t] .
  have ni: "t \<noteq> a_idle a" using a_core_disjoint [OF c t] a_core_idle [OF c] L by blast
  have st: "TLIST_BLOCKED (task_state (a_tcb a t)) = Some L"
    using a_core_task [OF c t] by (simp add: task_ok_def)
  note f = a_requeue_fields [OF tl L, of p]
  have pe: "a_list (a_requeue L t p a) g_pendingtasks \<noteq> [] \<Longrightarrow> a_list a g_pendingtasks \<noteq> []"
    using t by (auto simp: a_requeue_def split: if_splits)
  have "a_inv (a_requeue L t p a)" if "prioritized_list L"
    using a_core_requeue [OF c t L that p] i f pe by (auto simp: a_inv_def)
  moreover have "a_inv (a_set_prio t p a)" if "\<not> prioritized_list L"
    using a_inv_set_prio [OF i t ni p] that by blast
  ultimately show "a_inv (a_blocked_setpriority t p a)" by (simp add: a_blocked_setpriority_def st)
  show "a_idle (a_blocked_setpriority t p a) = a_idle a"
    "a_context (a_blocked_setpriority t p a) x = a_context a x"
    using f a_set_prio_fields(2) [OF tl]
    by (simp_all add: a_blocked_setpriority_def st a_context_def)
qed

lemma a_setpriority_ok:
  assumes i: "a_inv a" and t: "t \<in> set (a_list a L)" "t \<noteq> a_idle a" and p: "1 \<le> p"
  shows "a_inv (a_setpriority t p a)" "a_idle (a_setpriority t p a) = a_idle a"
    "a_live a x \<Longrightarrow> a_context (a_setpriority t p a) x = a_context a x"
proof -
  have c: "a_core a" using i by (simp add: a_inv_def)
  have ok: "TLIST_BLOCKED (task_state (a_tcb a t)) = Some L"
    "task_state (a_tcb a t) = TSTATE_TASK_RUNNING \<longleftrightarrow> t = a_running a"
    using a_core_task [OF c t(1)] by (simp_all add: task_ok_def)
  note run = a_running_setpriority_inv [OF i _ t(2) p]
  note rtr = a_readytorun_setpriority_inv [OF i _ t(2) _ p]
  note blk = a_blocked_setpriority_inv [OF i t(1) _ p]
  consider "task_state (a_tcb a t) = TSTATE_TASK_RUNNING" "t = a_running a"
    | "task_state (a_tcb a t) = TSTATE_TASK_READYTORUN" "t \<noteq> a_running a" "L = g_readytorun"
    | "L \<noteq> g_readytorun" "a_setpriority t p a = a_blocked_setpriority t p a"
    using ok by (cases "task_state (a_tcb a t)") (auto simp: a_setpriority_def)
  then show "a_inv (a_setpriority t p a)" "a_idle (a_setpriority t p a) = a_idle a"
    "a_live a x \<Longrightarrow> a_context (a_setpriority t p a) x = a_context a x"
    using run rtr blk t(1) by (cases; simp add: a_setpriority_def)+
qed

section \<open>Locking and unlocking pre-emption\<close>

lemma a_inv_upd:
  assumes i: "a_inv a"
    and f: "\<And>x. sched_priority (f x) = sched_priority x" "\<And>x. task_state (f x) = task_state x"
      "lockcount (a_tcb a t) \<le> lockcount (f (a_tcb a t))"
      "lock_ok (lockcount (f (a_tcb a t)))"
  shows "a_inv (a_upd t f a)"
proof -
  have c: "a_core a" using i by (simp add: a_inv_def)
  have "a_core (a_upd t f a)" by (rule a_core_upd [OF c f(1,2)]) (rule f(4))
  moreover have "lockcount (a_tcb a (a_running a)) \<le> lockcount (a_tcb (a_upd t f a) (a_running a))"
    using f(3) a_core_running_live [OF c] by (auto simp: a_tcb_def a_live_def)
  ultimately show ?thesis using i by (auto simp: a_inv_def)
qed

lemma a_context_upd:
  assumes "\<And>x. xcp_regs (f x) = xcp_regs x"
  shows "a_context (a_upd t f a) x = a_context a x"
  using assms by (auto simp: a_context_def a_tcb_def map_option_case split: option.split)

definition a_lock :: "asched \<Rightarrow> asched" where
  "a_lock a = a_upd (a_running a) (\<lambda>t. t\<lparr>lockcount := lockcount t + 1\<rparr>) a"

definition a_unlock :: "asched \<Rightarrow> bool \<times> asched" where
  "a_unlock a =
     (let r = a_running a; n = lockcount (a_tcb a r);
          a1 = a_upd r (\<lambda>t. t\<lparr>lockcount := max 0 (n - 1)\<rparr>) a
      in if n \<le> 1 then a_release_pending a1 else (False, a1))"

lemma refines_upd_tcb_at:
  "refines s a \<Longrightarrow> a_live a t \<Longrightarrow> f (a_tcb a t) = g (a_tcb a t) \<Longrightarrow>
   \<exists>s'. upd_tcb t f s = Some s' \<and> refines s' (a_upd t g a) \<and> kframe s s'"
  by (auto simp: refines_def a_live_def a_tcb_def upd_tcb_def get_tcb_def a_upd_def fun_eq_iff)

lemma sched_lock_refines:
  assumes r: "refines s a" and i: "a_inv a" and irq: "\<not> up_interrupt_context s"
    and n: "lockcount (a_tcb a (a_running a)) < MAX_LOCK_COUNT"
  shows "\<exists>s'. sched_lock s = Some s' \<and> refines s' (a_lock a) \<and> kframe s s'" "a_inv (a_lock a)"
proof -
  have c: "a_core a" using i by (simp add: a_inv_def)
  have lv: "a_live a (a_running a)" using a_core_running_live [OF c] .
  have lo: "lock_ok (lockcount (a_tcb a (a_running a)))"
    using a_core_task [OF c a_core_running [OF c]] by (simp add: task_ok_def)
  then have "s16 (lockcount (a_tcb a (a_running a)) + 1) = lockcount (a_tcb a (a_running a)) + 1"
    using n by (intro s16_id) (simp_all add: lock_ok_def MAX_LOCK_COUNT_def)
  then have "\<exists>s'. upd_tcb (a_running a) (\<lambda>t. t\<lparr>lockcount := s16 (lockcount t + 1)\<rparr>) s = Some s' \<and>
      refines s' (a_lock a) \<and> kframe s s'"
    unfolding a_lock_def by (intro refines_upd_tcb_at [OF r lv]) simp
  with n irq lv refines_running [OF r] refines_get_tcb [OF r lv]
  show "\<exists>s'. sched_lock s = Some s' \<and> refines s' (a_lock a) \<and> kframe s s'"
    by (simp add: sched_lock_def Let_def a_live_def)
  show "a_inv (a_lock a)" unfolding a_lock_def
    by (rule a_inv_upd [OF i]) (use n lo in \<open>simp_all add: lock_ok_def\<close>)
qed

lemma a_core_lockcount:
  assumes c: "a_core a" and n: "lock_ok n"
  shows "a_core (a_upd t (\<lambda>x. x\<lparr>lockcount := n\<rparr>) a)"
  by (rule a_core_upd [OF c]) (use n in simp_all)

lemma a_unlock_ok:
  assumes i: "a_inv a"
  shows "a_inv (snd (a_unlock a))" "a_idle (snd (a_unlock a)) = a_idle a"
    "lockcount (a_tcb a (a_running a)) \<le> 1 \<Longrightarrow> a_list (snd (a_unlock a)) g_pendingtasks = []"
    "a_live a x \<Longrightarrow> a_context (snd (a_unlock a)) x = a_context a x"
proof -
  have c: "a_core a" using i by (simp add: a_inv_def)
  define n where "n = lockcount (a_tcb a (a_running a))"
  have lo: "lock_ok n" using a_core_task [OF c a_core_running [OF c]] by (simp add: task_ok_def n_def)
  define a1 where "a1 = a_upd (a_running a) (\<lambda>t. t\<lparr>lockcount := max 0 (n - 1)\<rparr>) a"
  have c1: "a_core a1" unfolding a1_def
    by (rule a_core_lockcount [OF c]) (use lo in \<open>auto simp: lock_ok_def MAX_LOCK_COUNT_def\<close>)
  have lk: "lockcount (a_tcb a1 (a_running a1)) = max 0 (n - 1)"
    using a_core_running_live [OF c] by (simp add: a1_def)
  have un: "a_unlock a = (if n \<le> 1 then a_release_pending a1 else (False, a1))"
    by (simp add: a_unlock_def Let_def n_def a1_def)
  note rel = a_release_pending_ok [OF c1]
  have cx: "a_context a1 x = a_context a x" unfolding a1_def by (rule a_context_upd) simp
  have lv: "a_live a1 x = a_live a x" by (simp add: a1_def)
  show "a_inv (snd (a_unlock a))" using rel(1) c1 lk by (auto simp: un a_inv_def)
  show "a_idle (snd (a_unlock a)) = a_idle a" using rel(2) by (simp add: un) (simp add: a1_def)
  show "a_list (snd (a_unlock a)) g_pendingtasks = []" if "lockcount (a_tcb a (a_running a)) \<le> 1"
    using that rel(3) by (simp add: un n_def)
  show "a_context (snd (a_unlock a)) x = a_context a x" if "a_live a x"
    using that rel(4) [of x] lv cx by (simp add: un)
qed

lemma release_if_refines:
  assumes r: "refines s a" and c: "a_core a"
  shows "\<exists>s'. (if dq_head (tasklists s g_pendingtasks) \<noteq> NULL then up_release_pending s else Some (False, s)) =
             Some (fst (a_release_pending a), s') \<and> refines s' (snd (a_release_pending a)) \<and> kframe s s'"
proof (cases "a_list a g_pendingtasks = []")
  case True
  then show ?thesis using r refines_head_NULL [OF r]
    by (simp add: a_release_pending_def a_mergepending_Nil a_switch_if_def)
next
  case False
  then show ?thesis using up_release_pending_refines [OF r c] refines_head_NULL [OF r] by simp
qed

lemma sched_unlock_refines:
  assumes r: "refines s a" and i: "a_inv a" and irq: "\<not> up_interrupt_context s"
  shows "\<exists>s'. sched_unlock s = Some (fst (a_unlock a), s') \<and> refines s' (snd (a_unlock a)) \<and> kframe s s'"
proof -
  have c: "a_core a" using i by (simp add: a_inv_def)
  define t where "t = a_running a"
  define n where "n = lockcount (a_tcb a t)"
  have lv: "a_live a t" using a_core_running_live [OF c] by (simp add: t_def)
  have lo: "lock_ok n" using a_core_task [OF c a_core_running [OF c]] by (simp add: task_ok_def n_def t_def)
  define a1 where "a1 = a_upd t (\<lambda>x. x\<lparr>lockcount := max 0 (n - 1)\<rparr>) a"
  have c1: "a_core a1" unfolding a1_def
    by (rule a_core_lockcount [OF c]) (use lo in \<open>auto simp: lock_ok_def MAX_LOCK_COUNT_def\<close>)
  have run1: "a_running a1 = t" "a_live a1 t" using lv by (simp_all add: a1_def t_def)
  have s16n: "0 < n \<Longrightarrow> s16 (n - 1) = n - 1"
    using lo by (intro s16_id) (simp_all add: lock_ok_def MAX_LOCK_COUNT_def)
  obtain s1 where s1: "(if n > 0 then upd_tcb t (\<lambda>t. t\<lparr>lockcount := s16 (lockcount t - 1)\<rparr>) s else Some s) = Some s1"
    "refines s1 a1" "kframe s s1"
  proof (cases "n > 0")
    case True
    then have "\<exists>s1. upd_tcb t (\<lambda>t. t\<lparr>lockcount := s16 (lockcount t - 1)\<rparr>) s = Some s1 \<and> refines s1 a1 \<and> kframe s s1"
      unfolding a1_def using s16n by (intro refines_upd_tcb_at [OF r lv]) (simp add: n_def)
    with that True show ?thesis by auto
  next
    case False
    then have "(a_tcb a t)\<lparr>lockcount := max 0 (n - 1)\<rparr> = a_tcb a t" using lo by (simp add: n_def lock_ok_def)
    then have "a1 = a" using lv by (auto simp: a1_def a_upd_def a_live_def a_tcb_def fun_upd_idem)
    with False that r show ?thesis by simp
  qed
  have lk: "lockcount (a_tcb a1 t) = max 0 (n - 1)" using lv by (simp add: a1_def)
  have gt: "get_tcb s t = Some (a_tcb a t)" "get_tcb s1 t = Some (a_tcb a1 t)"
    using refines_get_tcb [OF r lv] refines_get_tcb [OF s1(2) run1(2)] .
  have pre: "this_task s = t" "t \<noteq> NULL" using refines_running [OF r] lv by (simp_all add: t_def a_live_def)
  have un: "a_unlock a = (if n \<le> 1 then a_release_pending a1 else (False, a1))"
    by (simp add: a_unlock_def Let_def n_def a1_def t_def)
  show ?thesis
  proof (cases "n \<le> 1")
    case False
    with pre gt irq s1 lk un n_def show ?thesis by (simp add: sched_unlock_def Let_def)
  next
    case True
    then have l0: "lockcount (a_tcb a1 t) = 0" using lk lo by (simp add: lock_ok_def)
    then have id: "(a_tcb a1 t)\<lparr>lockcount := 0\<rparr> = a_tcb a1 t" by simp
    obtain s2 where s2: "upd_tcb t (\<lambda>t. t\<lparr>lockcount := 0\<rparr>) s1 = Some s2" "refines s2 (a_upd t (\<lambda>x. x) a1)" "kframe s1 s2"
      using refines_upd_tcb_at [OF s1(2) run1(2), of "\<lambda>t. t\<lparr>lockcount := 0\<rparr>" "\<lambda>x. x"] id by blast
    have r2: "refines s2 a1" using s2(2) by (simp add: a_upd_def option.map_ident)
    obtain s3 where s3: "(if dq_head (tasklists s2 g_pendingtasks) \<noteq> NULL then up_release_pending s2 else Some (False, s2)) =
        Some (fst (a_release_pending a1), s3)" "refines s3 (snd (a_release_pending a1))" "kframe s2 s3"
      using release_if_refines [OF r2 c1] by blast
    have th: "this_task s3 = t" if "\<not> fst (a_release_pending a1)"
      using that refines_running [OF s3(2)] run1(1) a_core_mergepending(6) [OF c1]
      by (simp add: a_release_pending_def)
    have "a_live (snd (a_release_pending a1)) t"
      using run1(2) moved_fields(1) [OF moved_mergepending] by (simp add: a_release_pending_def)
    then have "get_tcb s3 t = Some (a_tcb (snd (a_release_pending a1)) t)" using refines_get_tcb [OF s3(2)] by blast
    then have "sched_unlock_tail t s3 = Some s3" if "\<not> fst (a_release_pending a1)"
      using th [OF that] by (simp add: sched_unlock_tail_def)
    then have "sched_unlock s = Some (fst (a_release_pending a1), s3)"
      using pre gt irq s1(1) s2(1) s3(1) l0 n_def by (auto simp: sched_unlock_def Let_def)
    with True s1(3) s2(3) s3(2,3) show ?thesis by (simp add: un kframe_def)
  qed
qed

section \<open>Yielding\<close>

lemma a_set_prio_same: "a_set_prio t (a_prio a t) a = a"
proof -
  have "(a_tcbs a)(t := map_option (\<lambda>x. x\<lparr>sched_priority := a_prio a t\<rparr>) (a_tcbs a t)) = a_tcbs a"
    by (cases "a_tcbs a t") (auto simp: a_prio_def a_tcb_def fun_upd_idem)
  then show ?thesis by (simp add: a_set_prio_def a_upd_def)
qed

text \<open>
  Re-queueing the running task at its own priority, when a task of no lower priority follows
  and nothing is pending: it moves behind the ready tasks of its priority.
\<close>

lemma a_reprioritize_rotate:
  assumes c: "a_core a" and pe: "a_list a g_pendingtasks = []"
    and L: "a_list a g_readytorun = t # rest" and ni: "t \<noteq> a_idle a"
    and p: "a_prio a t \<le> a_prio a (first_ptr rest)"
  shows "a_list (snd (a_reprioritize t (a_prio a t) a)) g_readytorun = insert_desc (a_prio a) t rest"
    "fst (a_reprioritize t (a_prio a t) a)"
proof -
  have t: "t = a_running a" "t \<in> set (a_list a g_readytorun)" using L by (simp_all add: a_running_def)
  define x where "x = a_removereadytorun t a"
  note rm = a_core_removeready [OF c t(2) ni, folded x_def]
  have mv: "moved a (snd x)" unfolding x_def by (rule moved_removereadytorun)
  have ls: "a_list (snd x) = (a_list a)(g_readytorun := rest)" using rm(4) L by simp
  have run: "a_running (snd x) = first_ptr rest" by (simp add: a_running_def ls)
  have cx: "a_core (snd x)" using a_core1D(1) [OF rm(1)] .
  then have rin: "first_ptr rest \<in> set (a_list a g_readytorun)"
    using a_core_running [OF cx] by (simp add: run ls L)
  have pr: "a_prio (snd x) y = a_prio a y" if "y \<in> set (a_list a g_readytorun)" for y
    using moved_fields(3) [OF mv] a_core_live [OF c that] by blast
  then have sp: "a_set_prio t (a_prio a t) (snd x) = snd x" using a_set_prio_same t(2) by metis
  define y where "y = a_addreadytorun t (snd x)"
  have y: "\<not> fst y" "a_list (snd y) = (a_list a)(g_readytorun := insert_desc (a_prio a) t rest)"
  proof -
    have np: "\<not> a_prio (snd x) (a_running (snd x)) < a_prio (snd x) t"
      using p pr [OF rin] pr [OF t(2)] by (simp add: run)
    have "insert_desc (a_prio (snd x)) t rest = insert_desc (a_prio a) t rest"
      using pr L by (intro insert_desc_cong) auto
    with np show "\<not> fst y" "a_list (snd y) = (a_list a)(g_readytorun := insert_desc (a_prio a) t rest)"
      by (simp_all add: y_def a_addreadytorun_def a_ready_def ls)
  qed
  have sx: "fst x" using t(1) by (simp add: x_def a_removereadytorun_def Let_def)
  have "a_reprioritize t (a_prio a t) a = a_switch_if (a_running a) (True, snd y)"
    using sx y pe unfolding a_reprioritize_eq Let_def x_def [symmetric] sp y_def [symmetric]
    by (simp add: a_mergepending_Nil)
  then show "a_list (snd (a_reprioritize t (a_prio a t) a)) g_readytorun = insert_desc (a_prio a) t rest"
    "fst (a_reprioritize t (a_prio a t) a)"
    using y by simp_all
qed

lemma a_yield_rotate:
  assumes i: "a_inv a" and lk: "lockcount (a_tcb a (a_running a)) = 0" and ni: "a_running a \<noteq> a_idle a"
  shows "a_list (a_setpriority (a_running a) (a_prio a (a_running a)) a) g_readytorun =
           insert_desc (a_prio a) (a_running a) (tl (a_list a g_readytorun))"
proof -
  have c: "a_core a" and pe: "a_list a g_pendingtasks = []" using i lk by (auto simp: a_inv_def)
  obtain rest where L: "a_list a g_readytorun = a_running a # rest" and ne: "rest \<noteq> []"
    using a_core_ready_split [OF c ni] .
  have st: "task_state (a_tcb a (a_running a)) = TSTATE_TASK_RUNNING"
    using a_core_task [OF c a_core_running [OF c]] by (simp add: task_ok_def)
  show ?thesis
  proof (cases "a_prio a (a_running a) \<le> a_prio a (first_ptr rest)")
    case True
    then show ?thesis using a_reprioritize_rotate(1) [OF c pe L ni True] L
      by (simp add: a_setpriority_def st a_running_setpriority_def)
  next
    case False
    then show ?thesis using L ne
      by (cases rest) (simp_all add: a_setpriority_def st a_running_setpriority_def)
  qed
qed

lemma a_yield_slices:
  assumes i: "a_inv a" and lk: "lockcount (a_tcb a (a_running a)) = 0" and ni: "a_running a \<noteq> a_idle a"
  defines "b \<equiv> a_setpriority (a_running a) (a_prio a (a_running a)) a"
  shows "a_slices (a_running b \<noteq> a_running a) a b"
proof -
  have c: "a_core a" and pe: "a_list a g_pendingtasks = []" using i lk by (auto simp: a_inv_def)
  obtain rest where L: "a_list a g_readytorun = a_running a # rest" and ne: "rest \<noteq> []"
    using a_core_ready_split [OF c ni] .
  have rin: "a_running a \<in> set (a_list a g_readytorun)" using a_core_running [OF c] .
  have st: "task_state (a_tcb a (a_running a)) = TSTATE_TASK_RUNNING" using a_core_task [OF c rin] by (simp add: task_ok_def)
  show ?thesis
  proof (cases "a_prio a (a_running a) \<le> a_prio a (first_ptr rest)")
    case True
    have b: "b = snd (a_reprioritize (a_running a) (a_prio a (a_running a)) a)"
      using True L by (simp add: b_def a_setpriority_def st a_running_setpriority_def)
    note rot = a_reprioritize_rotate [OF c pe L ni True]
    have "distinct (a_list a g_readytorun)" using c by (simp add: a_core_def)
    then have "a_running a \<noteq> first_ptr rest" using L ne by (cases rest) auto
    then have "a_running b \<noteq> a_running a"
      using rot(1) True ne by (cases rest) (auto simp: b a_running_def)
    then show ?thesis
      using a_reprioritize_slices [OF i rin ni a_core_prio_ge1 [OF c rin ni]] rot(2) by (simp add: b)
  next
    case False
    then have "b = a" using L a_set_prio_same by (simp add: b_def a_setpriority_def st a_running_setpriority_def)
    then show ?thesis by (simp add: a_slices_def)
  qed
qed

lemma sched_yield_refines:
  assumes r: "refines s a" and i: "a_inv a" and ni: "a_running a \<noteq> a_idle a"
  shows "\<exists>s'. sched_yield s = Some (0, s') \<and>
           refines s' (a_setpriority (a_running a) (a_prio a (a_running a)) a) \<and> kframe s s'"
proof -
  let ?r = "a_running a"
  have c: "a_core a" using i by (simp add: a_inv_def)
  have rin: "?r \<in> set (a_list a g_readytorun)" using a_core_running [OF c] .
  have "1 \<le> a_prio a ?r" using a_core_prio_ge1 [OF c rin ni] .
  then have "SCHED_PRIORITY_MIN \<le> uint (a_prio a ?r)" "uint (a_prio a ?r) \<le> SCHED_PRIORITY_MAX"
    using uint_bounded [of "a_prio a ?r"] by (simp_all add: word_le_def SCHED_PRIORITY_MIN_def SCHED_PRIORITY_MAX_def)
  from nxsched_setpriority_refines [OF r i rin ni this] refines_running [OF r]
    refines_get_tcb [OF r a_core_running_live [OF c]]
  show ?thesis by (auto simp: sched_yield_def Let_def a_prio_def)
qed

lemma sched_yield_idle:
  assumes r: "refines s a" and i: "a_inv a" and ni: "a_running a = a_idle a"
  shows "sched_yield s = Some (-1, s)"
proof -
  have c: "a_core a" using i by (simp add: a_inv_def)
  have "a_prio a (a_running a) = 0" using a_core_prio_idle [OF c] ni by simp
  with refines_running [OF r] refines_get_tcb [OF r a_core_running_live [OF c]]
  show ?thesis by (simp add: sched_yield_def a_prio_def nxsched_setpriority_def SCHED_PRIORITY_MIN_def
        EINVAL_def Let_def)
qed

section \<open>Round robin\<close>

text \<open>The time slice left after \<open>ticks\<close>, for values that fit their types.\<close>

definition a_slice :: "addr \<Rightarrow> int \<Rightarrow> asched \<Rightarrow> asched" where
  "a_slice t n = a_upd t (\<lambda>x. x\<lparr>timeslice := n\<rparr>)"

definition a_roundrobin :: "addr \<Rightarrow> int \<Rightarrow> asched \<Rightarrow> asched" where
  "a_roundrobin t ticks a =
     (let left = timeslice (a_tcb a t) - min (timeslice (a_tcb a t)) ticks;
          nx = first_ptr (tl (a_list a g_readytorun)); a1 = a_slice t RR_TICKS a
      in if left = 0 \<and> lockcount (a_tcb a t) = 0 then
           (if nx \<noteq> NULL \<and> a_prio a t \<le> a_prio a nx then snd (a_reprioritize t (a_prio a t) a1) else a1)
         else a_slice t left a)"

lemma a_slice_simps [simp]:
  "a_list (a_slice t n a) = a_list a" "a_running (a_slice t n a) = a_running a"
  "a_idle (a_slice t n a) = a_idle a" "a_live (a_slice t n a) = a_live a"
  by (simp_all add: a_slice_def fun_eq_iff)

lemma a_slice_fields:
  assumes "a_live a t"
  shows "a_prio (a_slice t n a) x = a_prio a x" "lockcount (a_tcb (a_slice t n a) x) = lockcount (a_tcb a x)"
    "timeslice (a_tcb (a_slice t n a) t) = n"
  using assms by (simp_all add: a_slice_def a_prio_def)

lemma a_inv_slice: "a_inv a \<Longrightarrow> t \<in> set (a_list a L) \<Longrightarrow> a_inv (a_slice t n a)"
  unfolding a_slice_def
  by (rule a_inv_upd) (auto simp: a_inv_def task_ok_def dest!: a_core_task)

lemma a_slice_slice: "a_slice t n (a_slice t m a) = a_slice t n a"
  by (simp add: a_slice_def a_upd_def option.map_comp comp_def)

lemma rr_charge_eq:
  assumes n: "0 \<le> n" "n < 2 ^ 31" and tk: "0 \<le> ticks" "ticks < 2 ^ 31"
  shows "rr_charge n ticks = n - min n ticks"
proof -
  have "u32 n = n" "u32 ticks = ticks" using n tk by (simp_all add: u32_def)
  moreover have "s32 (min n ticks) = min n ticks" "s32 (n - min n ticks) = n - min n ticks"
    using n tk by (auto intro!: s32_id)
  moreover have "(if n < ticks then n else ticks) = min n ticks" by auto
  ultimately show ?thesis unfolding rr_charge_def Let_def by (simp only:)
qed

lemma sched_roundrobin_process_refines:
  assumes r: "refines s a" and i: "a_inv a" and t: "t = a_running a" "t \<noteq> a_idle a"
    and ts: "0 \<le> timeslice (a_tcb a t)" "timeslice (a_tcb a t) < 2 ^ 31" and tk: "0 \<le> ticks" "ticks < 2 ^ 31"
  shows "\<exists>ret s'. sched_roundrobin_process t ticks False s = Some (ret, s') \<and>
           refines s' (a_roundrobin t ticks a) \<and> kframe s s'"
proof -
  have c: "a_core a" using i by (simp add: a_inv_def)
  have lv: "a_live a t" using a_core_running_live [OF c] t(1) by simp
  define n where "n = timeslice (a_tcb a t)"
  define left where "left = n - min n ticks"
  have lr: "0 \<le> left" "left < 2 ^ 31" using ts tk by (auto simp: left_def n_def)
  obtain s1 where s1: "upd_tcb t (\<lambda>x. x\<lparr>timeslice := rr_charge (timeslice x) ticks\<rparr>) s = Some s1"
    "refines s1 (a_slice t left a)" "kframe s s1"
    using refines_upd_tcb_at [OF r lv, of "\<lambda>x. x\<lparr>timeslice := rr_charge (timeslice x) ticks\<rparr>"
        "\<lambda>x. x\<lparr>timeslice := left\<rparr>"] rr_charge_eq [OF ts tk]
    by (auto simp: a_slice_def n_def left_def)
  have lv1: "a_live (a_slice t left a) t" using lv by simp
  have gt: "get_tcb s t = Some (a_tcb a t)" "get_tcb s1 t = Some (a_tcb (a_slice t left a) t)"
    using refines_get_tcb [OF r lv] refines_get_tcb [OF s1(2) lv1] .
  have lk: "0 \<le> lockcount (a_tcb a t)"
    using a_core_task [OF c a_core_running [OF c]] t(1) by (simp add: task_ok_def lock_ok_def)
  have tn: "t \<noteq> NULL" using lv by (simp add: a_live_def)
  note f = a_slice_fields [OF lv, of left]
  show ?thesis
  proof (cases "left = 0 \<and> lockcount (a_tcb a t) = 0")
    case False
    then have "\<not> (left \<le> 0 \<and> \<not> 0 < lockcount (a_tcb a t))" using lr lk by auto
    then have "sched_roundrobin_process t ticks False s = Some (u32 left, s1)"
      using gt s1(1) f tn by (auto simp: sched_roundrobin_process_def Let_def n_def)
    moreover have "a_roundrobin t ticks a = a_slice t left a"
      using False by (auto simp: a_roundrobin_def Let_def left_def n_def)
    ultimately show ?thesis using s1 by simp
  next
    case True
    define a1 where "a1 = a_slice t RR_TICKS a"
    obtain s2 where s2: "upd_tcb t (\<lambda>x. x\<lparr>timeslice := RR_TICKS\<rparr>) s1 = Some s2" "refines s2 a1" "kframe s1 s2"
      using refines_upd_tcb [OF s1(2) lv1, of "\<lambda>x. x\<lparr>timeslice := RR_TICKS\<rparr>"] a_slice_slice
      by (auto simp: a1_def a_slice_def)
    obtain rest where L: "a_list a g_readytorun = t # rest" and ne: "rest \<noteq> []"
      using a_core_ready_split [OF c] t by blast
    have tin: "t \<in> set (a_list a1 g_readytorun)" by (simp add: a1_def L)
    have i1: "a_inv a1" using a_inv_slice [OF i, of t g_readytorun] L by (simp add: a1_def)
    have p1: "1 \<le> a_prio a t" using a_core_prio_ge1 [OF c _ t(2), of g_readytorun] L by simp
    have nx: "get_flink (dqm s2) t = Some (first_ptr rest)"
      using refines_links(1) [OF s2(2), of g_readytorun "[]"] L by (simp add: a1_def)
    have nl: "a_live a1 (first_ptr rest)"
      using a_core_live [OF c, of "first_ptr rest" g_readytorun] L first_ptr_in [OF ne] by (simp add: a1_def)
    have gn: "get_tcb s2 (first_ptr rest) = Some (a_tcb a1 (first_ptr rest))" using refines_get_tcb [OF s2(2) nl] .
    have nn: "first_ptr rest \<noteq> NULL" using nl by (simp add: a_live_def)
    have pr: "sched_priority (a_tcb a1 (first_ptr rest)) = a_prio a (first_ptr rest)"
      "sched_priority (a_tcb (a_slice t left a) t) = a_prio a t"
      using a_slice_fields(1) [OF lv] by (simp_all add: a1_def a_prio_def)
    have re: "\<exists>s'. up_reprioritize_rtr t (a_prio a t) s2 = Some (fst (a_reprioritize t (a_prio a t) a1), s') \<and>
           refines s' (snd (a_reprioritize t (a_prio a t) a1)) \<and> kframe s2 s'"
      using up_reprioritize_rtr_refines [OF s2(2) i1 tin _ p1] t(2) by (simp add: a1_def)
    have rr: "a_roundrobin t ticks a =
        (if a_prio a t \<le> a_prio a (first_ptr rest) then snd (a_reprioritize t (a_prio a t) a1) else a1)"
      using True nn L by (simp add: a_roundrobin_def Let_def left_def n_def a1_def)
    have cond: "timeslice (a_tcb (a_slice t left a) t) \<le> 0 \<and> \<not> 0 < lockcount (a_tcb (a_slice t left a) t)"
      using True f by simp
    have k2: "kframe s s2" using s1(3) s2(3) kframe_trans by blast
    show ?thesis
    proof (cases "a_prio a t \<le> a_prio a (first_ptr rest)")
      case True
      from re obtain s3 where "up_reprioritize_rtr t (a_prio a t) s2 = Some (fst (a_reprioritize t (a_prio a t) a1), s3)"
        "refines s3 (snd (a_reprioritize t (a_prio a t) a1))" "kframe s s3" using k2 kframe_trans by blast
      with True gt s1(1) s2(1) nx gn nn pr cond tn rr show ?thesis
        by (simp add: sched_roundrobin_process_def Let_def n_def )
    next
      case False
      with gt s1(1) s2(1,2) nx gn nn pr cond tn rr k2 show ?thesis
        by (simp add: sched_roundrobin_process_def Let_def n_def )
    qed
  qed
qed

lemma a_roundrobin_ok:
  assumes i: "a_inv a" and t: "t = a_running a" "t \<noteq> a_idle a"
  shows "a_inv (a_roundrobin t ticks a)" "a_live a x \<Longrightarrow> a_context (a_roundrobin t ticks a) x = a_context a x"
proof -
  have c: "a_core a" using i by (simp add: a_inv_def)
  have tin: "t \<in> set (a_list a g_readytorun)" using a_core_running [OF c] t by simp
  have lv: "a_live a t" using a_core_live [OF c tin] .
  note si = a_inv_slice [OF i tin]
  have p: "1 \<le> a_prio a t" using a_core_prio_ge1 [OF c tin t(2)] .
  have "t \<in> set (a_list (a_slice t RR_TICKS a) g_readytorun)" "t \<noteq> a_idle (a_slice t RR_TICKS a)"
    using tin t by simp_all
  note re = a_reprioritize_ok [OF si this p]
  have cx: "a_context (a_slice t n a) y = a_context a y" for n y
    unfolding a_slice_def by (rule a_context_upd) simp
  show "a_inv (a_roundrobin t ticks a)" using re si by (simp add: a_roundrobin_def Let_def)
  show "a_context (a_roundrobin t ticks a) x = a_context a x" if "a_live a x"
    using that re(3) cx by (simp add: a_roundrobin_def Let_def)
qed

definition a_cpu_scheduler :: "asched \<Rightarrow> asched" where
  "a_cpu_scheduler a =
     (if and (tcb_flags (a_tcb a (a_running a))) TCB_FLAG_POLICY_MASK = TCB_FLAG_SCHED_RR
      then a_roundrobin (a_running a) 1 a else a)"

lemma sched_cpu_scheduler_refines:
  assumes r: "refines s a" and i: "a_inv a" and ni: "a_running a \<noteq> a_idle a"
    and ts: "0 \<le> timeslice (a_tcb a (a_running a))" "timeslice (a_tcb a (a_running a)) < 2 ^ 31"
  shows "\<exists>s'. sched_cpu_scheduler s = Some s' \<and> refines s' (a_cpu_scheduler a) \<and> kframe s s'"
proof -
  have "a_live a (a_running a)" using i a_core_running_live by (simp add: a_inv_def)
  from refines_get_tcb [OF r this] refines_running [OF r] r
    sched_roundrobin_process_refines [OF r i refl ni ts, of 1]
  show ?thesis by (auto simp: sched_cpu_scheduler_def a_cpu_scheduler_def Let_def)
qed

lemma a_inv_cpu_scheduler: "a_inv a \<Longrightarrow> a_running a \<noteq> a_idle a \<Longrightarrow> a_inv (a_cpu_scheduler a)"
  using a_roundrobin_ok(1) by (simp add: a_cpu_scheduler_def)

section \<open>Priorities after an operation\<close>

lemma a_prio_moved: "moved a b \<Longrightarrow> a_live a x \<Longrightarrow> a_live b x \<and> a_prio b x = a_prio a x"
  using moved_fields(1,3) by blast

lemma a_prio_remove_add:
  assumes c: "a_core a" and t: "t \<in> set (a_list a g_readytorun)" "t \<noteq> a_idle a" and x: "a_live a x"
  fixes p
  defines "y \<equiv> snd (a_addreadytorun t (a_set_prio t p (snd (a_removereadytorun t a))))"
  shows "a_live y x" "a_prio y x = (if x = t then p else a_prio a x)"
proof -
  let ?a1 = "snd (a_removereadytorun t a)"
  have x1: "a_live ?a1 x" "a_prio ?a1 x = a_prio a x"
    using a_prio_moved [OF moved_removereadytorun x] by auto
  have "a_live ?a1 t" using a_core1D(3) [OF a_core_removeready(1) [OF c t]] .
  note sp = a_set_prio_fields(5) [OF this, of p x]
  show "a_live y x" "a_prio y x = (if x = t then p else a_prio a x)"
    using a_prio_moved [OF moved_addreadytorun, of "a_set_prio t p ?a1" x t] x1 sp by (auto simp: y_def)
qed

lemma a_prio_switch_if:
  "a_live (snd ba) x \<Longrightarrow> a_prio (snd (a_switch_if r ba)) x = a_prio (snd ba) x"
  using switch_if_field [of sched_priority] by (simp add: a_prio_def)

lemma a_prio_reprioritize:
  assumes c: "a_core a" and t: "t \<in> set (a_list a g_readytorun)" "t \<noteq> a_idle a" and x: "a_live a x"
  shows "a_live (snd (a_reprioritize t p a)) x"
    "a_prio (snd (a_reprioritize t p a)) x = (if x = t then p else a_prio a x)"
proof -
  define y where "y = a_addreadytorun t (a_set_prio t p (snd (a_removereadytorun t a)))"
  define z where "z = (if fst (a_removereadytorun t a) \<noteq> fst y then snd (a_mergepending (snd y)) else snd y)"
  note py = a_prio_remove_add [OF c t, where p = p, folded y_def]
  have mv: "moved (snd y) z" using moved_mergepending by (simp add: z_def)
  have re: "a_reprioritize t p a = a_switch_if (a_running a) (fst (a_removereadytorun t a) \<noteq> fst y, z)"
    by (simp add: a_reprioritize_eq Let_def y_def z_def)
  have xz: "a_live z x" "a_prio z x = a_prio (snd y) x" using a_prio_moved [OF mv py(1) [OF x]] by auto
  show "a_live (snd (a_reprioritize t p a)) x"
    "a_prio (snd (a_reprioritize t p a)) x = (if x = t then p else a_prio a x)"
    using xz py(2) [OF x] a_prio_switch_if [of "(_, z)"] by (simp_all add: re)
qed

lemma a_prio_setpriority:
  assumes i: "a_inv a" and t: "t \<in> set (a_list a L)" "t \<noteq> a_idle a" and x: "a_live a x"
  shows "a_live (a_setpriority t p a) x" "a_prio (a_setpriority t p a) x = (if x = t then p else a_prio a x)"
proof -
  have c: "a_core a" using i by (simp add: a_inv_def)
  have tl: "a_live a t" using a_core_live [OF c t(1)] .
  have ok: "TLIST_BLOCKED (task_state (a_tcb a t)) = Some L" using a_core_task [OF c t(1)] by (simp add: task_ok_def)
  note sp = a_set_prio_fields(5) [OF tl, of p]
  have "a_live (a_setpriority t p a) x \<and> a_prio (a_setpriority t p a) x = (if x = t then p else a_prio a x)"
  proof (cases "L = g_readytorun")
    case True
    with t have t': "t \<in> set (a_list a g_readytorun)" by simp
    note re = a_prio_reprioritize [OF c t' t(2) x, of p] and ra = a_prio_remove_add [OF c t' t(2) x, of p]
    from ok True show ?thesis
      by (cases "task_state (a_tcb a t)")
        (use re ra sp x in \<open>auto simp: a_setpriority_def a_running_setpriority_def a_readytorun_setpriority_def\<close>)
  next
    case False
    note rq = a_requeue_fields(6) [OF tl False, of p x]
    have "a_setpriority t p a = a_blocked_setpriority t p a"
      using ok False by (cases "task_state (a_tcb a t)") (auto simp: a_setpriority_def)
    moreover have "a_live (a_requeue L t p a) x" using x by (simp add: a_requeue_def)
    ultimately show ?thesis using rq sp x by (auto simp: a_blocked_setpriority_def ok)
  qed
  then show "a_live (a_setpriority t p a) x"
    "a_prio (a_setpriority t p a) x = (if x = t then p else a_prio a x)" by auto
qed

section \<open>Locks and time slices after an operation\<close>

lemma a_release_field:
  assumes "a_core a" "sched_field F" "a_live a x"
  shows "F (a_tcb (snd (a_release_pending a)) x) = F (a_tcb a x)"
  using switch_if_field [OF assms(2), of "a_mergepending a" x] moved_field [OF moved_mergepending assms(2,3)]
    moved_fields(1) [OF moved_mergepending] assms(3) by (simp add: a_release_pending_def)

lemma a_unlock_fields:
  assumes c: "a_core a"
  shows "a_slices (fst (a_unlock a)) a (snd (a_unlock a))"
    "a_live a x \<Longrightarrow> lockcount (a_tcb (snd (a_unlock a)) x) =
       (if x = a_running a then max 0 (lockcount (a_tcb a x) - 1) else lockcount (a_tcb a x))"
    "sched_field F \<Longrightarrow> (\<And>y n. F (y\<lparr>lockcount := n\<rparr>) = F y) \<Longrightarrow> a_live a x \<Longrightarrow>
       F (a_tcb (snd (a_unlock a)) x) = F (a_tcb a x)"
proof -
  define n where "n = lockcount (a_tcb a (a_running a))"
  define a1 where "a1 = a_upd (a_running a) (\<lambda>t. t\<lparr>lockcount := max 0 (n - 1)\<rparr>) a"
  have "lock_ok n" using a_core_task [OF c a_core_running [OF c]] by (simp add: task_ok_def n_def)
  then have c1: "a_core a1" unfolding a1_def
    by (intro a_core_lockcount [OF c]) (auto simp: lock_ok_def MAX_LOCK_COUNT_def)
  have un: "a_unlock a = (if n \<le> 1 then a_release_pending a1 else (False, a1))"
    by (simp add: a_unlock_def Let_def n_def a1_def)
  have lv: "a_live a (a_running a)" using a_core_running_live [OF c] .
  have sl: "a_slices sw a b" if "a_slices sw a1 b" for sw b using that lv by (simp add: a_slices_def a1_def)
  have "a_slices False a a1" using lv by (simp add: a_slices_def a1_def)
  then show "a_slices (fst (a_unlock a)) a (snd (a_unlock a))"
    using sl [OF a_release_slices [OF c1]] unfolding un by simp
  have lv1: "a_live a1 x = a_live a x" for x by (simp add: a1_def)
  have F: "F (a_tcb (snd (a_unlock a)) x) = F (a_tcb a1 x)" if "sched_field F" "a_live a x" for F :: "tcb \<Rightarrow> 'c"
    using a_release_field [OF c1 that(1), of x] that(2) lv1 unfolding un by simp
  show "lockcount (a_tcb (snd (a_unlock a)) x) =
       (if x = a_running a then max 0 (lockcount (a_tcb a x) - 1) else lockcount (a_tcb a x))" if "a_live a x"
    using F [of lockcount] that lv by (simp add: n_def a1_def)
  show "F (a_tcb (snd (a_unlock a)) x) = F (a_tcb a x)"
    if "sched_field F" "\<And>y n. F (y\<lparr>lockcount := n\<rparr>) = F y" "a_live a x"
    using F [OF that(1,3)] that(2) lv by (simp add: a1_def)
qed

section \<open>Lists after an operation\<close>

lemma a_unlock_lists:
  assumes c: "a_core a"
  defines "n \<equiv> lockcount (a_tcb a (a_running a))"
  shows "n \<le> 1 \<Longrightarrow> set (a_list (snd (a_unlock a)) g_readytorun) =
           set (a_list a g_pendingtasks) \<union> set (a_list a g_readytorun)"
    "\<not> n \<le> 1 \<Longrightarrow> \<not> fst (a_unlock a) \<and> a_list (snd (a_unlock a)) = a_list a"
    "a_live (snd (a_unlock a)) x = a_live a x"
    "fst (a_unlock a) \<longleftrightarrow> n \<le> 1 \<and> (\<exists>p \<in> set (a_list a g_pendingtasks). a_prio a (a_running a) < a_prio a p)"
    "\<not> fst (a_unlock a) \<Longrightarrow> a_running (snd (a_unlock a)) = a_running a"
proof -
  define a1 where "a1 = a_upd (a_running a) (\<lambda>t. t\<lparr>lockcount := max 0 (n - 1)\<rparr>) a"
  have "lock_ok n" using a_core_task [OF c a_core_running [OF c]] by (simp add: task_ok_def n_def)
  then have c1: "a_core a1" unfolding a1_def
    by (intro a_core_lockcount [OF c]) (auto simp: lock_ok_def MAX_LOCK_COUNT_def)
  have un: "a_unlock a = (if n \<le> 1 then a_release_pending a1 else (False, a1))"
    by (simp add: a_unlock_def Let_def n_def a1_def)
  have a1: "a_list a1 = a_list a" "a_running a1 = a_running a" "a_live a1 = a_live a" "a_prio a1 = a_prio a"
    using a_core_running_live [OF c] by (simp_all add: a1_def a_prio_def fun_eq_iff)
  show "set (a_list (snd (a_unlock a)) g_readytorun) = set (a_list a g_pendingtasks) \<union> set (a_list a g_readytorun)"
    if "n \<le> 1"
    using that a_core_mergepending(5) [OF c1] by (simp add: un a_release_pending_def a1)
  show "\<not> n \<le> 1 \<Longrightarrow> \<not> fst (a_unlock a) \<and> a_list (snd (a_unlock a)) = a_list a" by (simp add: un a1)
  show "a_live (snd (a_unlock a)) x = a_live a x"
    using moved_fields(1) [OF moved_mergepending] by (simp add: un a_release_pending_def a1)
  show "fst (a_unlock a) \<longleftrightarrow> n \<le> 1 \<and> (\<exists>p \<in> set (a_list a g_pendingtasks). a_prio a (a_running a) < a_prio a p)"
    using a_core_mergepending(7) [OF c1] by (simp add: un a_release_pending_def a1)
  show "\<not> fst (a_unlock a) \<Longrightarrow> a_running (snd (a_unlock a)) = a_running a"
    using a_core_mergepending(6) [OF c1] by (simp add: un a_release_pending_def a1 split: if_splits)
qed

lemma a_roundrobin_lists:
  assumes i: "a_inv a" and t: "t = a_running a" "t \<noteq> a_idle a"
    and L: "a_list a g_readytorun = t # rest" and ts: "0 \<le> timeslice (a_tcb a t)" "0 \<le> ticks"
  defines "ex \<equiv> timeslice (a_tcb a t) \<le> ticks \<and> lockcount (a_tcb a t) = 0"
  shows "ex \<Longrightarrow> a_list (a_roundrobin t ticks a) g_readytorun = insert_desc (a_prio a) t rest"
    "ex \<Longrightarrow> a_live a x \<Longrightarrow> timeslice (a_tcb (a_roundrobin t ticks a) x) =
       (if x = t \<or> x = a_running (a_roundrobin t ticks a) then RR_TICKS else timeslice (a_tcb a x))"
    "\<not> ex \<Longrightarrow> a_roundrobin t ticks a = a_slice t (timeslice (a_tcb a t) - min (timeslice (a_tcb a t)) ticks) a"
    "a_live (a_roundrobin t ticks a) x = a_live a x"
proof -
  let ?a1 = "a_slice t RR_TICKS a"
  have c: "a_core a" using i by (simp add: a_inv_def)
  have tin: "t \<in> set (a_list a g_readytorun)" using L by simp
  have lv: "a_live a t" using a_core_live [OF c tin] .
  have i1: "a_inv ?a1" and c1: "a_core ?a1" using a_inv_slice [OF i tin] by (simp_all add: a_inv_def)
  have ne: "rest \<noteq> []" using t L by (auto simp: a_idle_def a_running_def)
  have nn: "first_ptr rest \<noteq> NULL"
    using a_core_live [OF c, of "first_ptr rest" g_readytorun] first_ptr_in [OF ne] L by (simp add: a_live_def)
  have t1: "t \<in> set (a_list ?a1 g_readytorun)" "t \<noteq> a_idle ?a1" using tin t by simp_all
  have pr: "a_prio ?a1 = a_prio a" using a_slice_fields(1) [OF lv] by (simp add: fun_eq_iff)
  have "a_list ?a1 g_pendingtasks = []" if ex using that i t by (auto simp: ex_def a_inv_def)
  note rot = a_reprioritize_rotate [OF c1 this _ t1(2), of rest, unfolded pr]
  have df: "timeslice (a_tcb a t) - min (timeslice (a_tcb a t)) ticks = 0 \<longleftrightarrow> timeslice (a_tcb a t) \<le> ticks"
    by auto
  have rr: "ex \<Longrightarrow> a_roundrobin t ticks a =
      (if a_prio a t \<le> a_prio a (first_ptr rest) then snd (a_reprioritize t (a_prio a t) ?a1) else ?a1)"
    using nn L by (simp add: a_roundrobin_def Let_def ex_def df)
  show "a_list (a_roundrobin t ticks a) g_readytorun = insert_desc (a_prio a) t rest" if ex
    using rr [OF that] rot(1) [OF that] L ne by (cases rest) auto
  have "1 \<le> a_prio a t" using a_core_prio_ge1 [OF c tin t(2)] .
  note sl = a_reprioritize_slices [OF i1 t1 this, unfolded a_slices_def]
  have ts1: "timeslice (a_tcb ?a1 y) = (if y = t then RR_TICKS else timeslice (a_tcb a y))" for y
    using lv by (simp add: a_slice_def)
  show "timeslice (a_tcb (a_roundrobin t ticks a) x) =
      (if x = t \<or> x = a_running (a_roundrobin t ticks a) then RR_TICKS else timeslice (a_tcb a x))"
    if ex "a_live a x"
    using rr [OF that(1)] rot(2) [OF that(1)] L sl that(2) ts1 t(1) by auto
  show nex: "a_roundrobin t ticks a = a_slice t (timeslice (a_tcb a t) - min (timeslice (a_tcb a t)) ticks) a" if "\<not> ex"
    using that by (auto simp: a_roundrobin_def Let_def ex_def df)
  have "a_live (snd (a_reprioritize t p ?a1)) x = a_live ?a1 x" for p by (rule a_reprioritize_live)
  then show "a_live (a_roundrobin t ticks a) x = a_live a x"
    using rr nex by (cases ex) auto
qed

section \<open>What the interface leaves alone\<close>

text \<open>
  For other components: an operation keeps the set of tasks, a field of the TCBs that it does
  not own, and, up to the order, the lists of the blocked tasks.
\<close>

definition others_kept :: "(tcb \<Rightarrow> 'b) \<Rightarrow> asched \<Rightarrow> asched \<Rightarrow> bool" where
  "others_kept F a b \<longleftrightarrow> a_live b = a_live a \<and> (\<forall>x. a_live a x \<longrightarrow> F (a_tcb b x) = F (a_tcb a x)) \<and>
     (\<forall>M. M \<noteq> g_readytorun \<and> M \<noteq> g_pendingtasks \<longrightarrow> mset (a_list b M) = mset (a_list a M))"

definition api_field :: "(tcb \<Rightarrow> 'b) \<Rightarrow> bool" where
  "api_field F \<longleftrightarrow> sched_field F \<and> (\<forall>x p. F (x\<lparr>sched_priority := p\<rparr>) = F x) \<and>
     (\<forall>x n. F (x\<lparr>lockcount := n\<rparr>) = F x)"

lemma api_fields [simp]: "api_field waitsem" "api_field msgwaitq" "api_field pterrno" "api_field pid"
  "api_field waitdog" "api_field tcb_flags"
  by (simp_all add: api_field_def)

lemma others_kept_refl [simp]: "others_kept F a a"
  by (simp add: others_kept_def)

lemma others_kept_trans: "others_kept F a b \<Longrightarrow> others_kept F b c \<Longrightarrow> others_kept F a c"
  by (simp add: others_kept_def)

lemma others_kept_upd:
  assumes "\<And>x. F (f x) = F x"
  shows "others_kept F a (a_upd t f a)"
  using assms by (auto simp: others_kept_def fun_eq_iff a_tcb_def a_live_def)

lemma others_kept_moved:
  assumes "moved a b" "sched_field F"
    "\<And>M. M \<noteq> g_readytorun \<Longrightarrow> M \<noteq> g_pendingtasks \<Longrightarrow> mset (a_list b M) = mset (a_list a M)"
  shows "others_kept F a b"
  using assms moved_fields(1) moved_field by (auto simp: others_kept_def fun_eq_iff)

lemma others_kept_switch_if:
  assumes "others_kept F a (snd ba)" "sched_field F"
  shows "others_kept F a (snd (a_switch_if r ba))"
  using assms switch_if_field [of F ba] by (simp add: others_kept_def)

lemma others_kept_release:
  assumes c: "a_core a" and F: "sched_field F"
  shows "others_kept F a (snd (a_release_pending a))"
proof -
  have "others_kept F a (snd (a_mergepending a))"
    using moved_mergepending F a_core_mergepending(4) [OF c] by (intro others_kept_moved) auto
  then show ?thesis unfolding a_release_pending_def
    using others_kept_switch_if F by blast
qed

lemma others_kept_unlock:
  assumes c: "a_core a" and F: "api_field F"
  shows "others_kept F a (snd (a_unlock a))"
proof -
  define n where "n = lockcount (a_tcb a (a_running a))"
  let ?a1 = "a_upd (a_running a) (\<lambda>t. t\<lparr>lockcount := max 0 (n - 1)\<rparr>) a"
  have "lock_ok n" using a_core_task [OF c a_core_running [OF c]] by (simp add: task_ok_def n_def)
  then have c1: "a_core ?a1"
    by (intro a_core_lockcount [OF c]) (auto simp: lock_ok_def MAX_LOCK_COUNT_def)
  have "others_kept F a ?a1" by (rule others_kept_upd) (use F in \<open>simp add: api_field_def\<close>)
  moreover have "others_kept F ?a1 (snd (a_release_pending ?a1))"
    by (rule others_kept_release [OF c1]) (use F in \<open>simp add: api_field_def\<close>)
  ultimately have "others_kept F a (snd (a_release_pending ?a1))" "others_kept F a ?a1"
    using others_kept_trans by blast+
  moreover have "a_unlock a = (if n \<le> 1 then a_release_pending ?a1 else (False, ?a1))"
    by (simp add: a_unlock_def Let_def n_def)
  ultimately show ?thesis by (cases "n \<le> 1") simp_all
qed

lemma others_kept_reprioritize:
  assumes i: "a_inv a" and t: "t \<in> set (a_list a g_readytorun)" "t \<noteq> a_idle a" and p: "1 \<le> p"
    and F: "api_field F"
  shows "others_kept F a (snd (a_reprioritize t p a))"
  using a_reprioritize_field [OF i t, of F] a_reprioritize_lists [OF i t p] a_reprioritize_live F
  by (auto simp: others_kept_def api_field_def fun_eq_iff)

lemma others_kept_setpriority:
  assumes i: "a_inv a" and t: "t \<in> set (a_list a L)" "t \<noteq> a_idle a" and p: "1 \<le> p" and F: "api_field F"
  shows "others_kept F a (a_setpriority t p a)"
proof -
  have c: "a_core a" using i by (simp add: a_inv_def)
  have F': "sched_field F" "\<And>x p. F (x\<lparr>sched_priority := p\<rparr>) = F x" using F by (simp_all add: api_field_def)
  have ok: "TLIST_BLOCKED (task_state (a_tcb a t)) = Some L" using a_core_task [OF c t(1)] by (simp add: task_ok_def)
  have sp: "others_kept F b (a_set_prio t p b)" for b unfolding a_set_prio_def by (rule others_kept_upd) (rule F'(2))
  have rq: "others_kept F a (a_requeue M t p a)" if "t \<in> set (a_list a M)" for M
  proof -
    have "others_kept F a (a_set_prio t p a)" by (rule sp)
    moreover have "a_tcb (a_requeue M t p a) = a_tcb (a_set_prio t p a)"
      by (simp add: a_requeue_def a_set_prio_def fun_eq_iff a_tcb_def a_upd_def)
    moreover have "a_live (a_requeue M t p a) = a_live a" by (simp add: a_requeue_def fun_eq_iff)
    moreover have "mset (a_list (a_requeue M t p a) N) = mset (a_list a N)" for N
      using that by (auto simp: a_requeue_def)
    ultimately show ?thesis by (simp add: others_kept_def)
  qed
  show ?thesis
  proof (cases "L = g_readytorun")
    case True
    with t have t': "t \<in> set (a_list a g_readytorun)" by simp
    let ?y = "snd (a_addreadytorun t (a_set_prio t p (snd (a_removereadytorun t a))))"
    have "others_kept F a (snd (a_removereadytorun t a))"
      using moved_removereadytorun F'(1) a_core_removeready(4) [OF c t' t(2)] by (intro others_kept_moved) auto
    moreover have "others_kept F b (snd (a_addreadytorun t b))" for b
      using moved_addreadytorun F'(1) by (intro others_kept_moved) (auto simp: a_addreadytorun_def a_ready_frame)
    ultimately have "others_kept F a ?y" using sp others_kept_trans by blast
    with others_kept_reprioritize [OF i t' t(2) p F] sp [of a] ok True show ?thesis
      by (cases "task_state (a_tcb a t)")
        (auto simp: a_setpriority_def a_running_setpriority_def a_readytorun_setpriority_def)
  next
    case False
    then have "a_setpriority t p a = a_blocked_setpriority t p a"
      using ok by (cases "task_state (a_tcb a t)") (auto simp: a_setpriority_def)
    then show ?thesis using rq [OF t(1)] sp [of a] by (simp add: a_blocked_setpriority_def ok)
  qed
qed

lemma others_kept_cpu_scheduler:
  assumes i: "a_inv a" and ni: "a_running a \<noteq> a_idle a" and F: "api_field F"
  shows "others_kept F a (a_cpu_scheduler a)"
proof -
  have c: "a_core a" using i by (simp add: a_inv_def)
  let ?t = "a_running a"
  have tin: "?t \<in> set (a_list a g_readytorun)" using a_core_running [OF c] .
  have sl: "others_kept F a (a_slice ?t n a)" for n
    unfolding a_slice_def by (rule others_kept_upd) (use F in \<open>simp add: api_field_def sched_field_def\<close>)
  have "others_kept F (a_slice ?t RR_TICKS a) (snd (a_reprioritize ?t (a_prio a ?t) (a_slice ?t RR_TICKS a)))"
    using tin ni a_core_prio_ge1 [OF c tin ni] by (intro others_kept_reprioritize a_inv_slice [OF i tin] F) auto
  from others_kept_trans [OF sl this] show ?thesis using sl
    by (auto simp: a_cpu_scheduler_def a_roundrobin_def Let_def)
qed

lemma others_kept_lock: "api_field F \<Longrightarrow> others_kept F a (a_lock a)"
  unfolding a_lock_def by (rule others_kept_upd) (simp add: api_field_def)

end
