(* ===== verification/SchedThms.thy ===== *)
theory SchedThms
  imports SchedApi
begin

text \<open>
  The properties of the scheduler: the kernel as a transition system whose steps are the
  operations of the scheduler, its invariant, and what each operation does to the task
  lists, the task states and the register contexts. The concrete state \<open>demo\<close>, with four
  ready tasks and one waiting for a semaphore, instantiates them.
\<close>

section \<open>Observations on a kernel state\<close>

text \<open>Membership in a task list, the idle task, and the context a task executes with.\<close>

definition in_list :: "'a kstate_scheme \<Rightarrow> tasklist \<Rightarrow> addr \<Rightarrow> bool" where
  "in_list s L t \<longleftrightarrow> (\<exists>xs. dq_rep (dqm s) (tasklists s L) xs \<and> t \<in> set xs)"

definition idle_task :: "'a kstate_scheme \<Rightarrow> addr" where
  "idle_task s = dq_tail (tasklists s g_readytorun)"

definition task_context :: "'a kstate_scheme \<Rightarrow> addr \<Rightarrow> nat option" where
  "task_context s t = (if t = this_task s then Some (cpu_regs s) else map_option xcp_regs (tcbs s t))"

definition task_prio :: "'a kstate_scheme \<Rightarrow> addr \<Rightarrow> 8 word option" where
  "task_prio s t = map_option sched_priority (tcbs s t)"

lemma refines_in_list: "refines s a \<Longrightarrow> in_list s L t \<longleftrightarrow> t \<in> set (a_list a L)"
  unfolding in_list_def by (metis refines_rep dq_rep_unique)

lemma refines_idle: "refines s a \<Longrightarrow> a_core a \<Longrightarrow> idle_task s = a_idle a"
  using dq_rep_tail [OF refines_rep, of s a g_readytorun]
  by (simp add: idle_task_def a_idle_def a_core_def last_ptr_def)

lemma refines_context:
  "refines s a \<Longrightarrow> a_live a t \<Longrightarrow> task_context s t = Some (a_context a t)"
  by (auto simp: task_context_def a_context_def refines_running refines_def a_live_def a_tcb_def)

lemma refines_tcb: "refines s a \<Longrightarrow> a_live a t \<Longrightarrow> tcbs s t = Some (a_tcb a t)"
  by (auto simp: refines_def a_live_def a_tcb_def)

lemma refines_prio: "refines s a \<Longrightarrow> a_live a t \<Longrightarrow> task_prio s t = Some (a_prio a t)"
  by (auto simp: task_prio_def refines_def a_live_def a_prio_def a_tcb_def)

lemma refines_live: "refines s a \<Longrightarrow> a_core a \<Longrightarrow> in_list s L t \<Longrightarrow> a_live a t"
  using a_core_live by (simp add: refines_in_list)

text \<open>The tasks that exist in a state.\<close>

definition live_task :: "'a kstate_scheme \<Rightarrow> addr \<Rightarrow> bool" where
  "live_task s t \<longleftrightarrow> t \<noteq> NULL \<and> tcbs s t \<noteq> None"

lemma refines_live_task: "refines s a \<Longrightarrow> live_task s t = a_live a t"
  by (simp add: live_task_def a_live_def refines_def)

definition same_contexts :: "'a kstate_scheme \<Rightarrow> 'a kstate_scheme \<Rightarrow> bool" where
  "same_contexts s s' \<longleftrightarrow> (\<forall>t. live_task s t \<longrightarrow> task_context s' t = task_context s t)"

lemma same_contextsI:
  assumes "refines s a" "refines s' b" "\<And>t. a_live a t \<Longrightarrow> a_live b t \<and> a_context b t = a_context a t"
  shows "same_contexts s s'"
  using assms refines_context [OF assms(1)] refines_context [OF assms(2)]
  by (auto simp: same_contexts_def refines_live_task)

text \<open>
  The time slice and the nesting of the pre-emption lock of a task. A context switch gives the
  task that it switches to a new time slice; \<open>slices\<close> says that no other slice has changed.
\<close>

definition task_slice :: "'a kstate_scheme \<Rightarrow> addr \<Rightarrow> int option" where
  "task_slice s t = map_option timeslice (tcbs s t)"

definition task_locks :: "'a kstate_scheme \<Rightarrow> addr \<Rightarrow> int option" where
  "task_locks s t = map_option lockcount (tcbs s t)"

definition slices :: "bool \<Rightarrow> 'a kstate_scheme \<Rightarrow> 'a kstate_scheme \<Rightarrow> bool" where
  "slices sw s s' \<longleftrightarrow> (\<forall>t. live_task s t \<longrightarrow>
     task_slice s' t = (if sw \<and> t = this_task s' then Some RR_TICKS else task_slice s t))"

lemma refines_fields:
  assumes "refines s a" "a_live a t"
  shows "task_slice s t = Some (timeslice (a_tcb a t))" "task_locks s t = Some (lockcount (a_tcb a t))"
  using refines_tcb [OF assms] by (simp_all add: task_slice_def task_locks_def)

lemma slicesI:
  assumes "refines s a" "refines s' b" "a_slices sw a b" "\<And>t. a_live a t \<Longrightarrow> a_live b t"
  shows "slices sw s s'"
  using assms(3,4) refines_fields(1) [OF assms(1)] refines_fields(1) [OF assms(2)] refines_running [OF assms(2)]
  by (auto simp: slices_def a_slices_def refines_live_task [OF assms(1)])

section \<open>A concrete state\<close>

definition demo_tcb :: "int \<Rightarrow> 8 word \<Rightarrow> tstate \<Rightarrow> tcb" where
  "demo_tcb n p st = \<lparr>pid = n, sched_priority = p, task_state = st, tcb_flags = TCB_FLAG_SCHED_RR,
     lockcount = 0, timeslice = 1, waitdog = 0, waitsem = 0, msgwaitq = 0, pterrno = 2, xcp_regs = nat n\<rparr>"

definition demo :: kstate where
  "demo = \<lparr>
     dqm = [1 \<mapsto> \<lparr>flink = 0, blink = 5\<rparr>, 2 \<mapsto> \<lparr>flink = 3, blink = 0\<rparr>,
            3 \<mapsto> \<lparr>flink = 5, blink = 2\<rparr>, 4 \<mapsto> \<lparr>flink = 0, blink = 0\<rparr>, 5 \<mapsto> \<lparr>flink = 1, blink = 3\<rparr>],
     tcbs = [1 \<mapsto> demo_tcb 0 0 TSTATE_TASK_READYTORUN, 2 \<mapsto> demo_tcb 2 100 TSTATE_TASK_RUNNING,
             3 \<mapsto> demo_tcb 3 100 TSTATE_TASK_READYTORUN, 4 \<mapsto> demo_tcb 4 150 TSTATE_WAIT_SEM,
             5 \<mapsto> demo_tcb 5 50 TSTATE_TASK_READYTORUN],
     tasklists = (\<lambda>L. if L = g_readytorun then \<lparr>dq_head = 2, dq_tail = 1\<rparr>
                  else if L = g_waitingforsemaphore then \<lparr>dq_head = 4, dq_tail = 4\<rparr>
                  else \<lparr>dq_head = 0, dq_tail = 0\<rparr>),
     current_regs = False, cpu_regs = 42, debug_assertions = True\<rparr>"

definition demo_a :: asched where
  "demo_a = \<lparr>a_tcbs = tcbs demo,
     a_list = (\<lambda>L. if L = g_readytorun then [2, 3, 5, 1]
               else if L = g_waitingforsemaphore then [4] else []),
     a_cpu = 42\<rparr>"

lemma demo_refines: "refines demo demo_a"
  by (auto simp: refines_def demo_def demo_a_def dq_rep_def)

lemma demo_inv: "a_inv demo_a"
  by (auto simp: a_inv_def a_core_def task_ok_def a_live_def a_tcb_def a_prio_def a_running_def a_idle_def
      demo_def demo_a_def demo_tcb_def lock_ok_def MAX_LOCK_COUNT_def prioritized_list_def split: if_splits)

lemma demo_kinv: "kinv demo"
  using kinvI [OF demo_refines demo_inv] .

lemma demo_observe:
  "this_task demo = 2" "idle_task demo = 1" "current_regs demo = False" "debug_assertions demo"
  "in_list demo L t \<longleftrightarrow> t \<in> set (a_list demo_a L)"
  using refines_in_list [OF demo_refines]
  by (simp_all add: this_task_def idle_task_def) (simp_all add: demo_def)

text \<open>The same tasks while task 2 has locked pre-emption once and task 4 is pending.\<close>

definition demo_pend :: kstate where
  "demo_pend = demo\<lparr>
     tcbs := (tcbs demo)(2 \<mapsto> (demo_tcb 2 100 TSTATE_TASK_RUNNING)\<lparr>lockcount := 1\<rparr>,
                         4 \<mapsto> demo_tcb 4 150 TSTATE_TASK_PENDING),
     tasklists := (tasklists demo)(g_waitingforsemaphore := \<lparr>dq_head = 0, dq_tail = 0\<rparr>,
                                   g_pendingtasks := \<lparr>dq_head = 4, dq_tail = 4\<rparr>)\<rparr>"

definition demo_pend_a :: asched where
  "demo_pend_a = \<lparr>a_tcbs = tcbs demo_pend,
     a_list = (\<lambda>L. if L = g_readytorun then [2, 3, 5, 1] else if L = g_pendingtasks then [4] else []),
     a_cpu = 42\<rparr>"

lemma demo_pend_refines: "refines demo_pend demo_pend_a"
  by (auto simp: refines_def demo_pend_def demo_def demo_pend_a_def dq_rep_def)

lemma demo_pend_inv: "a_inv demo_pend_a"
  by (auto simp: a_inv_def a_core_def task_ok_def a_live_def a_tcb_def a_prio_def a_running_def a_idle_def
      demo_def demo_pend_def demo_pend_a_def demo_tcb_def lock_ok_def MAX_LOCK_COUNT_def prioritized_list_def
      split: if_splits)

lemma demo_pend_kinv: "kinv demo_pend"
  using kinvI [OF demo_pend_refines demo_pend_inv] .

lemma demo_pend_observe:
  "this_task demo_pend = 2" "idle_task demo_pend = 1" "\<not> up_interrupt_context demo_pend"
  "in_list demo_pend L t \<longleftrightarrow> t \<in> set (a_list demo_pend_a L)"
  "tcbs demo_pend 2 = Some ((demo_tcb 2 100 TSTATE_TASK_RUNNING)\<lparr>lockcount := 1\<rparr>)"
  using refines_in_list [OF demo_pend_refines]
  by (simp_all add: this_task_def idle_task_def up_interrupt_context_def) (simp_all add: demo_pend_def demo_def)

section \<open>The scheduler as a transition system\<close>

text \<open>
  The steps: the operations of the scheduler under the conditions their callers establish,
  the execution of the running task, which changes the registers of the CPU, and the entry
  to and the exit from interrupt handlers. One call is left out: without debug assertions,
  giving a ready task that is not running a priority that does not exceed that of the running
  task. \<open>nxsched_setpriority_unsorted\<close> below shows that this call breaks the invariant.
\<close>

definition setpriority_sorts :: "'a kstate_scheme \<Rightarrow> addr \<Rightarrow> int \<Rightarrow> bool" where
  "setpriority_sorts s t prio \<longleftrightarrow> debug_assertions s \<or>
     (in_list s g_readytorun t \<and> t \<noteq> this_task s \<longrightarrow> uint (the (task_prio s (this_task s))) < prio)"

inductive sched_step :: "'a kstate_scheme \<Rightarrow> 'a kstate_scheme \<Rightarrow> bool" where
  block: "in_list s g_readytorun t \<Longrightarrow> t \<noteq> idle_task s \<Longrightarrow> is_blocked_state st \<Longrightarrow>
    up_block_task t st s = Some (sw, s') \<Longrightarrow> sched_step s s'"
| unblock: "in_list s L t \<Longrightarrow> L \<noteq> g_readytorun \<Longrightarrow> L \<noteq> g_pendingtasks \<Longrightarrow>
    up_unblock_task t s = Some (sw, s') \<Longrightarrow> sched_step s s'"
| setpriority: "in_list s L t \<Longrightarrow> t \<noteq> idle_task s \<Longrightarrow> setpriority_sorts s t prio \<Longrightarrow>
    nxsched_setpriority t prio s = Some (ret, s') \<Longrightarrow> sched_step s s'"
| yield: "sched_yield s = Some (ret, s') \<Longrightarrow> sched_step s s'"
| lock: "tcbs s (this_task s) = Some r \<Longrightarrow> lockcount r < MAX_LOCK_COUNT \<Longrightarrow>
    sched_lock s = Some s' \<Longrightarrow> sched_step s s'"
| unlock: "sched_unlock s = Some (sw, s') \<Longrightarrow> sched_step s s'"
| tick: "tcbs s (this_task s) = Some r \<Longrightarrow> 0 \<le> timeslice r \<Longrightarrow> timeslice r < 2 ^ 31 \<Longrightarrow>
    this_task s \<noteq> idle_task s \<Longrightarrow> sched_cpu_scheduler s = Some s' \<Longrightarrow> sched_step s s'"
| run: "sched_step s (s\<lparr>cpu_regs := c\<rparr>)"
| irq: "sched_step s (s\<lparr>current_regs := b\<rparr>)"

lemma kinv_run: "kinv s \<Longrightarrow> kinv (s\<lparr>cpu_regs := c\<rparr>)"
  unfolding kinv_def using refines_cpu a_core_cpu
  by (metis a_cpu_simps(1,4) a_inv_def asched.select_convs(2) asched.surjective asched.update_convs(3))

lemma kinv_irq: "kinv s \<Longrightarrow> kinv (s\<lparr>current_regs := b\<rparr>)"
  unfolding kinv_def refines_def by simp

lemma kinvE:
  assumes "kinv s"
  obtains a where "refines s a" "a_inv a" "a_core a" "idle_task s = a_idle a" "this_task s = a_running a"
    "\<And>L t. in_list s L t \<longleftrightarrow> t \<in> set (a_list a L)"
proof -
  obtain a where a: "refines s a" "a_inv a" using assms by (auto simp: kinv_def)
  then have "a_core a" by (simp add: a_inv_def)
  with a that show ?thesis using refines_idle refines_running refines_in_list by blast
qed

lemma setpriority_sorts_refines:
  assumes r: "refines s a" and c: "a_core a" and so: "setpriority_sorts s t prio"
    and p: "SCHED_PRIORITY_MIN \<le> prio" "prio \<le> SCHED_PRIORITY_MAX" and t: "t \<in> set (a_list a g_readytorun)" "t \<noteq> a_running a"
  shows "debug_assertions s \<or> a_prio a (a_running a) < word_of_int prio"
proof -
  have "task_prio s (this_task s) = Some (a_prio a (a_running a))"
    using refines_prio [OF r a_core_running_live [OF c]] refines_running [OF r] by simp
  with so t refines_in_list [OF r] refines_running [OF r] word_prio(1) [OF p] show ?thesis
    by (auto simp: setpriority_sorts_def word_less_def)
qed

lemma setpriority_refines:
  assumes "refines s a" "a_inv a" "t \<in> set (a_list a L)" "t \<noteq> a_idle a"
    and "SCHED_PRIORITY_MIN \<le> prio" "prio \<le> SCHED_PRIORITY_MAX" "setpriority_sorts s t prio"
  shows "\<exists>s'. nxsched_setpriority t prio s = Some (0, s') \<and>
           refines s' (a_setpriority t (word_of_int prio) a) \<and> kframe s s'"
  by (rule nxsched_setpriority_refines [OF assms(1-6)])
    (use setpriority_sorts_refines [OF assms(1) _ assms(7,5,6)] assms(2,3) in \<open>auto simp: a_inv_def\<close>)

lemma sched_step_kinv:
  assumes "sched_step s s'" "kinv s"
  shows "kinv s'"
  using assms
proof (induction rule: sched_step.induct)
  case (block s t st sw s')
  then obtain a where a: "refines s a" "a_inv a" "t \<in> set (a_list a g_readytorun)" "t \<noteq> a_idle a"
    by (auto elim: kinvE)
  from up_block_task_refines [OF a block(3)] block(4) a_block_ok(1) [OF a(2-4) block(3)]
  show ?case by (auto intro: kinvI)
next
  case (unblock s L t sw s')
  then obtain a where a: "refines s a" "a_inv a" "t \<in> set (a_list a L)" by (auto elim: kinvE)
  from up_unblock_task_refines [OF a unblock(2,3)] unblock(4) a_unblock_ok(1) [OF a(2,3) unblock(2,3)]
  show ?case by (auto intro: kinvI)
next
  case (setpriority s L t prio ret s')
  then obtain a where a: "refines s a" "a_inv a" "t \<in> set (a_list a L)" "t \<noteq> a_idle a"
    by (auto elim: kinvE)
  show ?case
  proof (cases "prio < SCHED_PRIORITY_MIN \<or> SCHED_PRIORITY_MAX < prio")
    case True
    then show ?thesis using setpriority nxsched_setpriority_invalid [OF True, of t s] by simp
  next
    case False
    then have p: "SCHED_PRIORITY_MIN \<le> prio" "prio \<le> SCHED_PRIORITY_MAX" by auto
    from setpriority_refines [OF a p setpriority(3)] setpriority(4)
      a_setpriority_ok(1) [OF a(2-4) word_prio(2) [OF p]]
    show ?thesis by (auto intro: kinvI)
  qed
next
  case (yield s ret s')
  then obtain a where a: "refines s a" "a_inv a" "a_core a" by (auto elim: kinvE)
  note rin = a_core_running [OF a(3)]
  show ?case
  proof (cases "a_running a = a_idle a")
    case True
    with sched_yield_idle [OF a(1,2)] yield show ?thesis by simp
  next
    case False
    with sched_yield_refines [OF a(1,2)] yield a_setpriority_ok(1) [OF a(2) rin False a_core_prio_ge1 [OF a(3) rin False]]
    show ?thesis by (auto intro: kinvI)
  qed
next
  case (lock s r s')
  then obtain a where a: "refines s a" "a_inv a" "a_core a" "this_task s = a_running a"
    by (auto elim: kinvE)
  have "a_tcb a (a_running a) = r" using a lock(1) by (simp add: a_tcb_def refines_tcbs)
  with lock show ?case using sched_lock_refines [OF a(1,2)]
    by (cases "up_interrupt_context s") (auto intro: kinvI simp: sched_lock_def)
next
  case (unlock s sw s')
  then obtain a where a: "refines s a" "a_inv a" by (auto elim: kinvE)
  with unlock sched_unlock_refines [OF a] a_unlock_ok(1) [OF a(2)] show ?case
    by (cases "up_interrupt_context s") (auto intro: kinvI simp: sched_unlock_def)
next
  case (tick s r s')
  then obtain a where a: "refines s a" "a_inv a" "this_task s = a_running a" "a_running a \<noteq> a_idle a"
    by (auto elim: kinvE)
  have "a_tcb a (a_running a) = r" using a tick(1) by (simp add: a_tcb_def refines_tcbs)
  with tick sched_cpu_scheduler_refines [OF a(1,2,4)] a_inv_cpu_scheduler [OF a(2,4)]
  show ?case by (auto intro: kinvI)
qed (auto simp: kinv_run kinv_irq)



section \<open>Blocking and unblocking\<close>

text \<open>
  C2. Blocking a ready task other than the idle task always succeeds: it takes the task out
  of the ready-to-run list and into the list of the given blocked state, which becomes its
  state; every pending task becomes ready; no other task changes its list. The running task
  is switched out exactly if it is the blocked task or a pending task has a higher priority;
  the task switched to gets a new time slice and no other slice changes. The scheduler stays
  well-formed and every task keeps its register context.
\<close>

theorem up_block_task_correct:
  assumes "kinv s" "in_list s g_readytorun t" "t \<noteq> idle_task s" "is_blocked_state st"
  shows "\<exists>sw s' x. up_block_task t st s = Some (sw, s') \<and> kinv s' \<and> kframe s s' \<and>
           in_list s' (the (TLIST_BLOCKED st)) t \<and> tcbs s' t = Some x \<and> task_state x = st \<and>
           (\<forall>u. \<not> in_list s' g_pendingtasks u) \<and>
           (\<forall>u. in_list s' g_readytorun u \<longleftrightarrow> (in_list s g_readytorun u \<or> in_list s g_pendingtasks u) \<and> u \<noteq> t) \<and>
           (\<forall>L u. L \<noteq> g_readytorun \<and> L \<noteq> g_pendingtasks \<longrightarrow>
              (in_list s' L u \<longleftrightarrow> in_list s L u \<or> u = t \<and> TLIST_BLOCKED st = Some L)) \<and>
           (sw \<longleftrightarrow> t = this_task s \<or>
              (\<exists>u. in_list s g_pendingtasks u \<and> the (task_prio s (this_task s)) < the (task_prio s u))) \<and>
           slices sw s s' \<and> same_contexts s s'"
proof -
  obtain a where a: "refines s a" "a_inv a" "t \<in> set (a_list a g_readytorun)" "t \<noteq> a_idle a"
    "a_core a" "this_task s = a_running a"
    using assms by (auto elim: kinvE)
  let ?b = "snd (a_block t st a)"
  note ok = a_block_ok [OF a(2-4) assms(4)]
  note bl = a_block_ready [OF a(5,3,4) assms(4)] a_block_set [OF a(5,3,4) assms(4)]
  obtain s' where s': "up_block_task t st s = Some (fst (a_block t st a), s')" "refines s' ?b" "kframe s s'"
    using up_block_task_refines [OF a(1-4) assms(4)] by blast
  obtain L where L: "TLIST_BLOCKED st = Some L" using assms(4) by (auto simp: blocked_state_list)
  have tb: "t \<in> set (a_list ?b L)" using ok(4) L by simp
  have cb: "a_core ?b" using ok(1) by (simp add: a_inv_def)
  have lb: "a_live ?b t" using a_core_live [OF cb tb] .
  then have "tcbs s' t = Some (a_tcb ?b t)" using refines_tcbs [OF s'(2)] by (auto simp: a_live_def a_tcb_def)
  moreover have "TLIST_BLOCKED (task_state (a_tcb ?b t)) = TLIST_BLOCKED st"
    using a_core_task [OF cb tb] L by (simp add: task_ok_def)
  then have "task_state (a_tcb ?b t) = st"
    using assms(4) by (cases "task_state (a_tcb ?b t)"; cases st) (simp_all add: is_blocked_state_def tstate_num_def)
  moreover have lv: "a_live ?b x" if "a_live a x" for x
    using that by (simp add: a_block_live)
  then have "same_contexts s s'" using ok(5) by (intro same_contextsI [OF a(1) s'(2)]) auto
  moreover have "slices (fst (a_block t st a)) s s'"
    using lv by (intro slicesI [OF a(1) s'(2) a_block_slices [OF a(5,3,4) assms(4)]])
  moreover have "fst (a_block t st a) \<longleftrightarrow> t = this_task s \<or>
      (\<exists>u. in_list s g_pendingtasks u \<and> the (task_prio s (this_task s)) < the (task_prio s u))"
    unfolding bl(2) refines_in_list [OF a(1)] a(6)
    using refines_prio [OF a(1)] a_core_live [OF a(5)] a_core_running_live [OF a(5)] by force
  moreover have "\<forall>u. \<not> in_list s' g_pendingtasks u" "in_list s' (the (TLIST_BLOCKED st)) t"
    "\<forall>u. in_list s' g_readytorun u \<longleftrightarrow> (in_list s g_readytorun u \<or> in_list s g_pendingtasks u) \<and> u \<noteq> t"
    "\<forall>L u. L \<noteq> g_readytorun \<and> L \<noteq> g_pendingtasks \<longrightarrow>
       (in_list s' L u \<longleftrightarrow> in_list s L u \<or> u = t \<and> TLIST_BLOCKED st = Some L)"
    unfolding refines_in_list [OF s'(2)] refines_in_list [OF a(1)] using ok(3) tb L bl(1,3) by auto
  ultimately show ?thesis using s'(1,3) kinvI [OF s'(2) ok(1)]
    by (intro exI [of _ "fst (a_block t st a)"] exI [of _ s'] exI [of _ "a_tcb ?b t"] conjI)
qed

theorem up_block_task_correct_witness:
  "\<exists>s'. up_block_task 2 TSTATE_WAIT_SEM demo_pend = Some (True, s') \<and> in_list s' g_waitingforsemaphore 2 \<and>
     in_list s' g_readytorun 4 \<and> task_slice s' (this_task s') = Some RR_TICKS"
proof -
  have "in_list demo_pend g_readytorun 2" "in_list demo_pend g_pendingtasks 4"
    by (simp_all add: demo_pend_observe(4) demo_pend_a_def)
  moreover have "is_blocked_state TSTATE_WAIT_SEM" by (simp add: is_blocked_state_def tstate_num_def)
  ultimately obtain s' where s': "up_block_task 2 TSTATE_WAIT_SEM demo_pend = Some (True, s')"
    "in_list s' g_waitingforsemaphore 2" "in_list s' g_readytorun 4" "slices True demo_pend s'"
    using up_block_task_correct [OF demo_pend_kinv, of 2 TSTATE_WAIT_SEM] demo_pend_observe(1,2) by auto
  have "map_option (this_task \<circ> snd) (up_block_task 2 TSTATE_WAIT_SEM demo_pend) = Some 4" by code_simp
  then have "this_task s' = 4" using s'(1) by simp
  moreover have "live_task demo_pend 4" by (simp add: live_task_def demo_pend_def)
  ultimately show ?thesis using s' by (simp add: slices_def)
qed

text \<open>
  C3. Unblocking a blocked task always succeeds. The unblocked task pre-empts the running
  task exactly if its priority is higher and the running task has not locked pre-emption;
  if it is higher and pre-emption is locked, it becomes pending; otherwise it becomes ready.
  A task that pre-empts gets a new time slice and no other slice changes. The scheduler stays
  well-formed and every task keeps its register context.
\<close>

theorem up_unblock_task_correct:
  assumes "kinv s" "in_list s L t" "L \<noteq> g_readytorun" "L \<noteq> g_pendingtasks"
    and "tcbs s t = Some x" "tcbs s (this_task s) = Some r"
  shows "\<exists>sw s'. up_unblock_task t s = Some (sw, s') \<and> kinv s' \<and> kframe s s' \<and> same_contexts s s' \<and> slices sw s s' \<and>
           (sw \<longleftrightarrow> lockcount r = 0 \<and> sched_priority r < sched_priority x) \<and>
           this_task s' = (if sw then t else this_task s) \<and>
           in_list s' (if lockcount r > 0 \<and> sched_priority r < sched_priority x
                       then g_pendingtasks else g_readytorun) t"
proof -
  obtain a where a: "refines s a" "a_inv a" "a_core a" "t \<in> set (a_list a L)" "this_task s = a_running a"
    using assms by (auto elim: kinvE)
  let ?b = "snd (a_unblock t a)"
  note ok = a_unblock_ok [OF a(2,4) assms(3,4)]
  obtain s' where s': "up_unblock_task t s = Some (fst (a_unblock t a), s')" "refines s' ?b" "kframe s s'"
    using up_unblock_task_refines [OF a(1,2,4) assms(3,4)] by blast
  have lv: "a_live a t" "a_live a (a_running a)" using a_core_live [OF a(3,4)] a_core_running_live [OF a(3)] .
  have tc: "a_tcb a t = x" "a_tcb a (a_running a) = r"
    using assms(5,6) a(5) refines_tcbs [OF a(1)] by (auto simp: a_tcb_def)
  have "lock_ok (lockcount r)" using a_core_task [OF a(3) a_core_running [OF a(3)]] tc by (simp add: task_ok_def)
  then have l0: "\<not> lockcount r > 0 \<longleftrightarrow> lockcount r = 0" by (auto simp: lock_ok_def)
  note un = a_unblock_dest [OF a(3,4) assms(3)]
  have lb: "a_live ?b z" if "a_live a z" for z using that by (simp add: a_unblock_live)
  then have "same_contexts s s'" using ok(4) by (intro same_contextsI [OF a(1) s'(2)]) auto
  moreover have "slices (fst (a_unblock t a)) s s'"
    using lb by (intro slicesI [OF a(1) s'(2) a_unblock_slices [OF a(3,4) assms(3)]])
  moreover have "this_task s' = (if fst (a_unblock t a) then t else this_task s)"
    using refines_running [OF s'(2)] ok(3) a(5) by simp
  ultimately show ?thesis
    using s' ok(1) un l0 tc refines_in_list [OF s'(2)] kinvI by (auto simp: a_prio_def)
qed

theorem up_unblock_task_correct_witness:
  "\<exists>s'. up_unblock_task 4 demo = Some (True, s') \<and> this_task s' = 4 \<and> kinv s'"
proof -
  have "in_list demo g_waitingforsemaphore 4" by (simp add: demo_observe(5) demo_a_def)
  from up_unblock_task_correct [OF demo_kinv this, of "demo_tcb 4 150 TSTATE_WAIT_SEM" "demo_tcb 2 100 TSTATE_TASK_RUNNING"]
  show ?thesis by (auto simp: demo_observe(1)) (auto simp: demo_def demo_tcb_def)
qed

section \<open>Priorities\<close>



text \<open>
  C10. Without debug assertions, lowering the priority of a ready task that is not running does
  not re-sort the ready-to-run list: the removal and the re-insertion are arguments of
  \<^verbatim>\<open>DEBUGASSERT\<close> and are compiled out. The call reports success, the links are unchanged,
  and if another ready task lies between the new and the old priority the list is no longer
  ordered: the invariant of the scheduler is broken.
\<close>

theorem nxsched_setpriority_unsorted:
  assumes "kinv s" "\<not> debug_assertions s" "in_list s g_readytorun t" "t \<noteq> this_task s"
    and "in_list s g_readytorun u" "tcbs s t = Some x" "tcbs s u = Some y"
    and p: "SCHED_PRIORITY_MIN \<le> prio" "prio < uint (sched_priority y)" "sched_priority y < sched_priority x"
  shows "\<exists>s'. nxsched_setpriority t prio s = Some (0, s') \<and>
           tasklists s' = tasklists s \<and> dqm s' = dqm s \<and> \<not> kinv s'"
proof -
  obtain a where a: "refines s a" "a_inv a" "a_core a" "t \<in> set (a_list a g_readytorun)"
    "u \<in> set (a_list a g_readytorun)" "this_task s = a_running a"
    using assms(1,3,5) by (auto elim: kinvE)
  let ?b = "a_set_prio t (word_of_int prio) a"
  have tc: "a_tcb a t = x" "a_tcb a u = y" using assms(6,7) refines_tcbs [OF a(1)] by (auto simp: a_tcb_def)
  have lv: "a_live a t" using a_core_live [OF a(3,4)] .
  have pm: "prio \<le> SCHED_PRIORITY_MAX"
    using p(2) uint_bounded [of "sched_priority y"] by (simp add: SCHED_PRIORITY_MAX_def)
  have st: "task_state x = TSTATE_TASK_READYTORUN"
    using a_core_task [OF a(3,4)] tc(1) assms(4) a(6) by (cases "task_state x") (auto simp: task_ok_def)
  have "uint (sched_priority y) \<le> uint (sched_priority (a_tcb a (a_running a)))"
    using a_core_running_max [OF a(3,5)] tc by (simp add: a_prio_def word_le_def)
  then have low: "\<not> uint (sched_priority (a_tcb a (a_running a))) < prio" using p(2) by simp
  obtain s' where s': "upd_tcb t (\<lambda>x. x\<lparr>sched_priority := word_of_int prio\<rparr>) s = Some s'" "refines s' ?b"
    using refines_upd_tcb [OF a(1) lv, of "\<lambda>x. x\<lparr>sched_priority := word_of_int prio\<rparr>"]
    by (auto simp: a_set_prio_def)
  then have same: "tasklists s' = tasklists s" "dqm s' = dqm s" "\<not> debug_assertions s'"
    using assms(2) by (auto simp: upd_tcb_def get_tcb_def split: bind_splits if_splits)
  have "nxsched_setpriority t prio s = Some (0, s')"
    using p(1) pm refines_get_tcb [OF a(1) lv] refines_get_tcb [OF a(1) a_core_running_live [OF a(3)]]
      tc st low s'(1) same(3) assms(2) a(6)
    by (simp add: nxsched_setpriority_def sched_readytorun_setpriority_def Let_def)
  moreover have "\<not> kinv s'"
  proof
    assume "kinv s'"
    then obtain b where b: "refines s' b" "a_core b" by (auto elim: kinvE)
    then have "desc (a_prio ?b) (a_list ?b g_readytorun)"
      using refines_unique [OF s'(2) b(1)] a_core_desc [OF b(2)] by (simp add: prioritized_list_def)
    then have d: "desc (a_prio ?b) (a_list a g_readytorun)" by simp
    have da: "desc (a_prio a) (a_list a g_readytorun)"
      using a_core_desc [OF a(3), of g_readytorun] by (simp add: prioritized_list_def)
    have "t \<noteq> u" using tc p(3) by auto
    then have pb: "a_prio ?b u = sched_priority y" "a_prio ?b t = word_of_int prio"
      using a_set_prio_fields(5) [OF lv, of "word_of_int prio"] tc(2) by (simp_all add: a_prio_def)
    have "a_prio ?b t < a_prio ?b u" "a_prio a u < a_prio a t"
      using p(2,3) word_prio(1) [OF p(1) pm] tc unfolding pb by (simp_all add: word_less_def a_prio_def)
    then show False using desc_conflict [OF d da a(4,5)] by blast
  qed
  ultimately show ?thesis using same by blast
qed

theorem nxsched_setpriority_unsorted_witness:
  "\<exists>s'. nxsched_setpriority 3 10 (demo\<lparr>debug_assertions := False\<rparr>) = Some (0, s') \<and> \<not> kinv s'"
proof -
  let ?d = "demo\<lparr>debug_assertions := False\<rparr>"
  have r: "refines ?d demo_a" using demo_refines by (simp add: refines_def)
  note k = kinvI [OF r demo_inv]
  have "this_task ?d = 2" by (simp add: this_task_def demo_def)
  with nxsched_setpriority_unsorted [OF k, of 3 5 "demo_tcb 3 100 TSTATE_TASK_READYTORUN"
      "demo_tcb 5 50 TSTATE_TASK_READYTORUN" 10]
  show ?thesis
    by (auto simp: refines_in_list [OF r] demo_a_def SCHED_PRIORITY_MIN_def)
      (auto simp: demo_def demo_tcb_def)
qed

section \<open>Locking pre-emption\<close>

text \<open>
  C6. \<^verbatim>\<open>sched_unlock\<close> in thread context decrements the lock count of the caller, if it is
  positive, and of no other task. An inner unlock neither switches contexts nor touches the
  lists; the outermost unlock makes every pending task ready and switches contexts exactly if
  a pending task has a higher priority than the caller. A task that is switched to gets a new
  time slice and no other slice changes.
\<close>

theorem sched_unlock_correct:
  assumes "kinv s" "\<not> up_interrupt_context s" "tcbs s (this_task s) = Some r"
  shows "\<exists>sw s'. sched_unlock s = Some (sw, s') \<and> kinv s' \<and> kframe s s' \<and> same_contexts s s' \<and> slices sw s s' \<and>
     (\<forall>u. live_task s u \<longrightarrow> task_locks s' u =
        (if u = this_task s then Some (max 0 (lockcount r - 1)) else task_locks s u)) \<and>
     (sw \<longleftrightarrow> lockcount r \<le> 1 \<and> (\<exists>u. in_list s g_pendingtasks u \<and> sched_priority r < the (task_prio s u))) \<and>
     (\<not> sw \<longrightarrow> this_task s' = this_task s) \<and>
     (lockcount r > 1 \<longrightarrow> \<not> sw \<and> (\<forall>L u. in_list s' L u = in_list s L u)) \<and>
     (lockcount r \<le> 1 \<longrightarrow> (\<forall>u. \<not> in_list s' g_pendingtasks u) \<and>
        (\<forall>u. in_list s' g_readytorun u \<longleftrightarrow> in_list s g_readytorun u \<or> in_list s g_pendingtasks u))"
proof -
  obtain a where a: "refines s a" "a_inv a" "a_core a" "this_task s = a_running a"
    "\<And>L t. in_list s L t \<longleftrightarrow> t \<in> set (a_list a L)"
    using assms by (auto elim: kinvE)
  let ?b = "snd (a_unlock a)"
  obtain s' where s': "sched_unlock s = Some (fst (a_unlock a), s')" "refines s' ?b" "kframe s s'"
    using sched_unlock_refines [OF a(1,2) assms(2)] by blast
  have tc: "a_tcb a (a_running a) = r" using assms(3) a(4) refines_tcbs [OF a(1)] by (simp add: a_tcb_def)
  note ok = a_unlock_ok [OF a(2)] and ls = a_unlock_lists [OF a(3)] and fd = a_unlock_fields [OF a(3)]
  have "same_contexts s s'" using ok(4) ls(3) by (intro same_contextsI [OF a(1) s'(2)]) auto
  moreover have "slices (fst (a_unlock a)) s s'" using ls(3) by (intro slicesI [OF a(1) s'(2) fd(1)]) simp
  moreover have "\<forall>u. live_task s u \<longrightarrow> task_locks s' u =
        (if u = this_task s then Some (max 0 (lockcount r - 1)) else task_locks s u)"
    using fd(2) ls(3) refines_fields(2) [OF a(1)] refines_fields(2) [OF s'(2)] tc a(4)
    by (auto simp: refines_live_task [OF a(1)])
  moreover have "fst (a_unlock a) \<longleftrightarrow>
      lockcount r \<le> 1 \<and> (\<exists>u. in_list s g_pendingtasks u \<and> sched_priority r < the (task_prio s u))"
    using ls(4) tc a(5) refines_prio [OF a(1) a_core_live [OF a(3)]] by (auto simp: a_prio_def)
  moreover have "\<not> fst (a_unlock a) \<longrightarrow> this_task s' = this_task s"
    using ls(5) refines_running [OF s'(2)] a(4) by simp
  moreover have "lockcount r > 1 \<longrightarrow> \<not> fst (a_unlock a) \<and> (\<forall>L u. in_list s' L u = in_list s L u)"
    using ls(2) tc a(5) refines_in_list [OF s'(2)] by auto
  moreover have "lockcount r \<le> 1 \<longrightarrow> (\<forall>u. \<not> in_list s' g_pendingtasks u) \<and>
        (\<forall>u. in_list s' g_readytorun u \<longleftrightarrow> in_list s g_readytorun u \<or> in_list s g_pendingtasks u)"
    using ls(1) ok(3) tc a(5) refines_in_list [OF s'(2)] by auto
  ultimately show ?thesis using s' kinvI [OF s'(2) ok(1)]
    by (intro exI [of _ "fst (a_unlock a)"] exI [of _ s'] conjI)
qed

theorem sched_unlock_correct_witness:
  "\<exists>s'. sched_unlock demo_pend = Some (True, s') \<and> kinv s' \<and> in_list s' g_readytorun 4 \<and>
     task_locks s' 2 = Some 0"
proof -
  have "in_list demo_pend g_pendingtasks 4" "task_prio demo_pend 4 = Some 150" "live_task demo_pend 2"
    by (simp_all add: demo_pend_observe(4) demo_pend_a_def task_prio_def live_task_def)
      (simp_all add: demo_pend_def demo_tcb_def)
  with sched_unlock_correct [OF demo_pend_kinv demo_pend_observe(3)] demo_pend_observe(1,5)
  show ?thesis by (force simp: demo_tcb_def)
qed

section \<open>Sharing the processor\<close>

text \<open>
  C8. \<^verbatim>\<open>sched_yield\<close> of a task that has not locked pre-emption moves the task behind all
  ready tasks of its priority, and changes the order of no other tasks; so the next of these
  tasks runs, with a new time slice, or the caller continues if it has no peer. No other time
  slice changes.
\<close>

theorem sched_yield_rotates:
  assumes "kinv s" "tcbs s (this_task s) = Some r" "lockcount r = 0" "this_task s \<noteq> idle_task s"
    and rep: "dq_rep (dqm s) (tasklists s g_readytorun) (this_task s # rest)"
  shows "\<exists>s' ready. sched_yield s = Some (0, s') \<and> kinv s' \<and> same_contexts s s' \<and>
     dq_rep (dqm s') (tasklists s' g_readytorun) ready \<and>
     filter (\<lambda>u. task_prio s u = Some (sched_priority r)) ready =
       filter (\<lambda>u. task_prio s u = Some (sched_priority r)) rest @ [this_task s] \<and>
     filter (\<lambda>u. u \<noteq> this_task s) ready = rest \<and> slices (this_task s' \<noteq> this_task s) s s'"
proof -
  obtain a where a: "refines s a" "a_inv a" "a_core a" "this_task s = a_running a" "a_running a \<noteq> a_idle a"
    using assms by (auto elim!: kinvE)
  let ?t = "a_running a"
  let ?b = "a_setpriority ?t (a_prio a ?t) a"
  have rin: "?t \<in> set (a_list a g_readytorun)" using a_core_running [OF a(3)] .
  have p1: "1 \<le> a_prio a ?t" using a_core_prio_ge1 [OF a(3) rin a(5)] .
  have L: "a_list a g_readytorun = ?t # rest"
    using dq_rep_unique [OF refines_rep [OF a(1)] rep] a(4) by simp
  then have dr: "distinct (?t # rest)" "desc (a_prio a) rest"
    using a_core_desc [OF a(3), of g_readytorun] a(3) by (auto simp: prioritized_list_def a_core_def dest!: spec [of _ g_readytorun])
  have r: "a_tcb a ?t = r" using assms(2) a(4) refines_tcbs [OF a(1)] by (simp add: a_tcb_def)
  obtain s' where s': "sched_yield s = Some (0, s')" "refines s' ?b" "kframe s s'"
    using sched_yield_refines [OF a(1,2,5)] by blast
  note ok = a_setpriority_ok [OF a(2) rin a(5) p1] and pr = a_prio_setpriority [OF a(2) rin a(5)]
  have rl: "a_list ?b g_readytorun = insert_desc (a_prio a) ?t rest"
    using a_yield_rotate [OF a(2) _ a(5)] r assms(3) L by simp
  have tp: "task_prio s u = Some (sched_priority r) \<longleftrightarrow> a_prio a u = a_prio a ?t" if "u \<in> set (?t # rest)" for u
    using that a_core_live [OF a(3), of u g_readytorun] L r refines_tcbs [OF a(1)]
    by (auto simp: task_prio_def a_prio_def a_tcb_def a_live_def)
  have "filter (\<lambda>u. task_prio s u = Some (sched_priority r)) (insert_desc (a_prio a) ?t rest) =
      filter (\<lambda>u. a_prio a u = a_prio a ?t) (insert_desc (a_prio a) ?t rest)"
    "filter (\<lambda>u. task_prio s u = Some (sched_priority r)) rest = filter (\<lambda>u. a_prio a u = a_prio a ?t) rest"
    using tp by (auto intro!: filter_cong)
  then have f1: "filter (\<lambda>u. task_prio s u = Some (sched_priority r)) (insert_desc (a_prio a) ?t rest) =
      filter (\<lambda>u. task_prio s u = Some (sched_priority r)) rest @ [?t]"
    using insert_desc_fifo [OF dr(2), of ?t] by simp
  have "filter (\<lambda>u. u \<noteq> ?t) rest = rest" using dr(1) by (auto simp: filter_id_conv)
  then have f2: "filter (\<lambda>u. u \<noteq> ?t) (insert_desc (a_prio a) ?t rest) = rest"
    by (simp add: filter_insert_desc)
  have "slices (this_task s' \<noteq> this_task s) s s'"
    using slicesI [OF a(1) s'(2) a_yield_slices [OF a(2) _ a(5)]] pr(1) r assms(3) refines_running [OF s'(2)] a(4) by simp
  moreover have "same_contexts s s'" using ok(3) pr(1) by (intro same_contextsI [OF a(1) s'(2)]) auto
  ultimately show ?thesis
    using s'(1) kinvI [OF s'(2) ok(1)] refines_rep [OF s'(2), of g_readytorun] rl f1 f2 a(4) by auto
qed

theorem sched_yield_rotates_witness:
  "\<exists>s'. sched_yield demo = Some (0, s') \<and> kinv s' \<and> this_task s' = 3"
proof -
  have "dq_rep (dqm demo) (tasklists demo g_readytorun) (this_task demo # [3, 5, 1])"
    using refines_rep [OF demo_refines, of g_readytorun] by (simp add: demo_a_def demo_observe(1))
  moreover have "tcbs demo (this_task demo) = Some (demo_tcb 2 100 TSTATE_TASK_RUNNING)"
    by (simp add: demo_observe(1)) (simp add: demo_def)
  ultimately obtain s' where "sched_yield demo = Some (0, s')" "kinv s'"
    using sched_yield_rotates [OF demo_kinv, of "demo_tcb 2 100 TSTATE_TASK_RUNNING" "[3, 5, 1]"]
      demo_observe(1,2) by (auto simp: demo_tcb_def)
  moreover have "map_option (this_task \<circ> snd) (sched_yield demo) = Some 3" by code_simp
  ultimately show ?thesis by simp
qed

text \<open>
  C9. The timer tick of a round-robin task that has not locked pre-emption: while the time
  slice lasts, only the slice is decremented; when it is used up, the task gets a new slice
  and moves behind the ready tasks of its priority, and the task that runs instead also gets
  a new slice. The slices of all other tasks are unchanged.
\<close>

theorem round_robin_tick:
  assumes "kinv s" "tcbs s (this_task s) = Some r" "lockcount r = 0" "this_task s \<noteq> idle_task s"
    and rr: "and (tcb_flags r) TCB_FLAG_POLICY_MASK = TCB_FLAG_SCHED_RR"
    and ts: "0 \<le> timeslice r" "timeslice r < 2 ^ 31"
    and rep: "dq_rep (dqm s) (tasklists s g_readytorun) (this_task s # rest)"
  shows "\<exists>s'. sched_cpu_scheduler s = Some s' \<and> kinv s' \<and> same_contexts s s' \<and>
     (\<forall>u. live_task s u \<longrightarrow> task_slice s' u =
        (if u = this_task s then Some (if timeslice r \<le> 1 then RR_TICKS else timeslice r - 1)
         else if timeslice r \<le> 1 \<and> u = this_task s' then Some RR_TICKS else task_slice s u)) \<and>
     dq_rep (dqm s') (tasklists s' g_readytorun)
       (if timeslice r \<le> 1 then insert_desc (\<lambda>u. the (task_prio s u)) (this_task s) rest
        else this_task s # rest)"
proof -
  obtain a where a: "refines s a" "a_inv a" "a_core a" "this_task s = a_running a" "a_running a \<noteq> a_idle a"
    using assms by (auto elim!: kinvE)
  let ?t = "a_running a"
  let ?b = "a_roundrobin ?t 1 a"
  have L: "a_list a g_readytorun = ?t # rest"
    using dq_rep_unique [OF refines_rep [OF a(1)] rep] a(4) by simp
  have r: "a_tcb a ?t = r" using assms(2) a(4) refines_tcbs [OF a(1)] by (simp add: a_tcb_def)
  obtain s' where s': "sched_cpu_scheduler s = Some s'" "refines s' ?b"
    using sched_cpu_scheduler_refines [OF a(1,2,5)] ts rr r by (auto simp: a_cpu_scheduler_def)
  note ok = a_roundrobin_ok [OF a(2) refl a(5)]
  note ls = a_roundrobin_lists [OF a(2) refl a(5) L, of 1]
  have lv: "a_live a ?t" using a_core_running_live [OF a(3)] .
  have "insert_desc (\<lambda>u. the (task_prio s u)) ?t rest = insert_desc (a_prio a) ?t rest"
    using a_core_live [OF a(3), of _ g_readytorun] L refines_prio [OF a(1)]
    by (intro insert_desc_cong) auto
  moreover have "a_list ?b g_readytorun =
      (if timeslice r \<le> 1 then insert_desc (a_prio a) ?t rest else ?t # rest)"
    using ls r ts assms(3) L by simp
  moreover have "task_slice s' u =
        (if u = ?t then Some (if timeslice r \<le> 1 then RR_TICKS else timeslice r - 1)
         else if timeslice r \<le> 1 \<and> u = this_task s' then Some RR_TICKS else task_slice s u)" if u: "a_live a u" for u
  proof -
    have bu: "a_live ?b u" using ls(4) r ts u by simp
    show ?thesis
      using ls(2) [where x = u] ls(3) r ts assms(3) u lv refines_fields(1) [OF a(1) u] refines_fields(1) [OF s'(2) bu]
        refines_running [OF s'(2)] by (auto simp: a_slice_def)
  qed
  moreover have "same_contexts s s'"
    using ok(2) ls(4) r ts by (intro same_contextsI [OF a(1) s'(2)]) auto
  ultimately show ?thesis
    using s'(1) kinvI [OF s'(2) ok(1)] refines_rep [OF s'(2), of g_readytorun] a(4) refines_live_task [OF a(1)]
    by (intro exI [of _ s'] conjI) (cases "timeslice r \<le> 1"; simp)+
qed

theorem round_robin_tick_witness:
  "\<exists>s'. sched_cpu_scheduler demo = Some s' \<and> kinv s' \<and> this_task s' = 3 \<and> task_slice s' 3 = Some RR_TICKS"
proof -
  have "dq_rep (dqm demo) (tasklists demo g_readytorun) (this_task demo # [3, 5, 1])"
    using refines_rep [OF demo_refines, of g_readytorun] by (simp add: demo_a_def demo_observe(1))
  moreover have "tcbs demo (this_task demo) = Some (demo_tcb 2 100 TSTATE_TASK_RUNNING)"
    by (simp add: demo_observe(1)) (simp add: demo_def)
  moreover have "and TCB_FLAG_SCHED_RR TCB_FLAG_POLICY_MASK = TCB_FLAG_SCHED_RR" by code_simp
  moreover have "live_task demo 3" by (simp add: live_task_def demo_def)
  ultimately obtain s' where "sched_cpu_scheduler demo = Some s'" "kinv s'"
      "this_task s' = 3 \<longrightarrow> task_slice s' 3 = Some RR_TICKS"
    using round_robin_tick [OF demo_kinv, of "demo_tcb 2 100 TSTATE_TASK_RUNNING" "[3, 5, 1]"]
      demo_observe(1,2) by (auto simp: demo_tcb_def)
  moreover have "map_option this_task (sched_cpu_scheduler demo) = Some 3" by code_simp
  ultimately show ?thesis by simp
qed

section \<open>The list primitives\<close>

text \<open>
  C5. \<^verbatim>\<open>sched_addprioritized\<close> links a task that is in no list into a task list: the result
  is the list with the task inserted at the end of its priority, an ordered list stays
  ordered, tasks of equal priority stay in the order of their arrival, all other lists are
  unchanged, and the result tells whether the task became the head.
\<close>

theorem sched_addprioritized_correct:
  assumes "refines s a" "a_live a t" "a_unlisted a t" "1 \<le> a_prio a t" "desc (a_prio a) (a_list a L)"
  shows "\<exists>s'. sched_addprioritized t L s = Some (first_ptr (a_list (a_insert L t a) L) = t, s') \<and>
           refines s' (a_insert L t a) \<and> kframe s s' \<and>
           desc (a_prio a) (a_list (a_insert L t a) L) \<and>
           filter (\<lambda>u. a_prio a u = a_prio a t) (a_list (a_insert L t a) L) =
             filter (\<lambda>u. a_prio a u = a_prio a t) (a_list a L) @ [t] \<and>
           (\<forall>M. M \<noteq> L \<longrightarrow> a_list (a_insert L t a) M = a_list a M)"
proof -
  have "t \<notin> set (a_list a L)" using assms(3) by (simp add: a_unlisted_def)
  then have "first_ptr (a_list (a_insert L t a) L) = t \<longleftrightarrow>
      a_list a L = [] \<or> a_prio a (first_ptr (a_list a L)) < a_prio a t"
    by (cases "a_list a L") auto
  with sched_addprioritized_refines [OF assms(1-4), of L] desc_insert_desc [OF assms(5)]
    insert_desc_fifo [OF assms(5)]
  show ?thesis by simp
qed

theorem sched_addprioritized_correct_witness:
  "\<exists>s'. sched_addprioritized 4 g_waitingforsemaphore
        (demo\<lparr>tasklists := (tasklists demo)(g_waitingforsemaphore := \<lparr>dq_head = 0, dq_tail = 0\<rparr>)\<rparr>) =
     Some (True, s')"
proof -
  let ?s = "demo\<lparr>tasklists := (tasklists demo)(g_waitingforsemaphore := \<lparr>dq_head = 0, dq_tail = 0\<rparr>)\<rparr>"
  let ?a = "a_set_list g_waitingforsemaphore [] demo_a"
  have "refines ?s ?a" using demo_refines by (auto simp: refines_def)
  moreover have "a_live ?a 4" "a_unlisted ?a 4" "1 \<le> a_prio ?a 4"
    by (auto simp: a_live_def a_unlisted_def a_prio_def a_tcb_def demo_a_def demo_def demo_tcb_def)
  ultimately show ?thesis
    using sched_addprioritized_correct [of ?s ?a 4 g_waitingforsemaphore] by auto
qed

text \<open>
  C4. \<^verbatim>\<open>sched_mergepending\<close>, which walks the two ordered lists once and resumes each search
  where the last insertion was made, computes the same as making the pending tasks ready one
  by one with the insertion by priority; it empties the pending list and keeps the invariant.
\<close>

theorem sched_mergepending_correct:
  assumes "refines s a" "a_inv a"
  shows "\<exists>s'. sched_mergepending s = Some (fst (a_mergepending a), s') \<and>
           refines s' (snd (a_mergepending a)) \<and> a_inv (snd (a_mergepending a)) \<and> kframe s s' \<and>
           a_list (snd (a_mergepending a)) g_pendingtasks = [] \<and>
           set (a_list (snd (a_mergepending a)) g_readytorun) =
             set (a_list a g_pendingtasks) \<union> set (a_list a g_readytorun)"
proof -
  have c: "a_core a" using assms(2) by (simp add: a_inv_def)
  from sched_mergepending_refines [OF assms(1) a_core_merge_pre [OF c]] a_inv_mergepending [OF c]
    a_core_mergepending(3,5) [OF c]
  show ?thesis by blast
qed

theorem sched_mergepending_correct_witness:
  "\<exists>s'. sched_mergepending demo_pend = Some (True, s') \<and> (\<exists>a. refines s' a \<and> a_inv a \<and> 4 \<in> set (a_list a g_readytorun))"
proof -
  obtain s' where s': "sched_mergepending demo_pend = Some (fst (a_mergepending demo_pend_a), s')"
    "refines s' (snd (a_mergepending demo_pend_a))" "a_inv (snd (a_mergepending demo_pend_a))"
    "4 \<in> set (a_list (snd (a_mergepending demo_pend_a)) g_readytorun)"
    using sched_mergepending_correct [OF demo_pend_refines demo_pend_inv] by (auto simp: demo_pend_a_def)
  have "map_option fst (sched_mergepending demo_pend) = Some True" by code_simp
  with s' show ?thesis by auto
qed

end
