(* ===== verification/Sem.thy ===== *)
theory Sem
  imports SchedThms
begin

text \<open>
  Counting semaphores: \<^verbatim>\<open>nuttx/sched/semaphore\<close> and \<^verbatim>\<open>nuttx/libs/libc/semaphore\<close>, without
  priority inheritance. The state extends the state of the scheduler by the semaphores, the
  table of process identifiers and the \<^verbatim>\<open>errno\<close> of interrupt handlers.

  A task that blocks in \<^verbatim>\<open>nxsem_wait\<close> is switched out by \<^verbatim>\<open>up_block_task\<close>; the code behind
  that call runs when it is resumed. It is the operation \<open>nxsem_wait_resume\<close>, which receives
  the local variable \<^verbatim>\<open>saved_errno\<close> of the call.
\<close>

section \<open>State\<close>

record sem_t =
  semcount :: int

record pidhash_s =
  ph_tcb :: addr
  ph_pid :: int

record semstate = kstate +
  sems :: "addr \<rightharpoonup> sem_t"
  g_pidhash :: "nat \<Rightarrow> pidhash_s"
  g_irqerrno :: int

type_synonym ('a, 'r) sop = "'a semstate_scheme \<Rightarrow> ('r \<times> 'a semstate_scheme) option"
type_synonym 'a sproc = "'a semstate_scheme \<Rightarrow> 'a semstate_scheme option"

definition SEM_VALUE_MAX :: int where "SEM_VALUE_MAX = 0x7fff"

definition EAGAIN :: int where "EAGAIN = 11"

definition ETIMEDOUT :: int where "ETIMEDOUT = 116"

definition get_sem :: "'a semstate_scheme \<Rightarrow> addr \<Rightarrow> sem_t option" where
  "get_sem s p = (if p = NULL then None else sems s p)"

definition set_semcount :: "addr \<Rightarrow> int \<Rightarrow> 'a sproc" where
  "set_semcount p n s = do {
     x \<leftarrow> get_sem s p;
     Some (s\<lparr>sems := (sems s)(p \<mapsto> x\<lparr>semcount := s16 n\<rparr>)\<rparr>)
   }"

section \<open>The error number\<close>

definition set_errno :: "int \<Rightarrow> 'a sproc" where
  "set_errno e s = do {
     let rtcb = this_task s;
     in_task \<leftarrow> (if \<not> up_interrupt_context s \<and> rtcb \<noteq> NULL
                 then do { r \<leftarrow> get_tcb s rtcb; Some (task_state r = TSTATE_TASK_RUNNING) }
                 else Some False);
     if in_task then upd_tcb rtcb (\<lambda>t. t\<lparr>pterrno := e\<rparr>) s
     else Some (s\<lparr>g_irqerrno := e\<rparr>)
   }"

text \<open>The wrapper of an internal operation as a standard interface: zero, or -1 and \<^verbatim>\<open>errno\<close>.\<close>

definition posix_ret :: "int \<Rightarrow> ('a, int) sop" where
  "posix_ret ret s = (if ret < 0 then do { s \<leftarrow> set_errno (- ret) s; Some (-1, s) } else Some (ret, s))"

section \<open>Initialisation and inspection\<close>

definition nxsem_init :: "addr \<Rightarrow> 32 word \<Rightarrow> ('a, int) sop" where
  "nxsem_init sem value s =
     (if sem \<noteq> NULL \<and> uint value \<le> SEM_VALUE_MAX
      then do { s \<leftarrow> set_semcount sem (uint value) s; Some (0, s) }
      else Some (- EINVAL, s))"

definition sem_init :: "addr \<Rightarrow> 32 word \<Rightarrow> ('a, int) sop" where
  "sem_init sem value s = do { (ret, s) \<leftarrow> nxsem_init sem value s; posix_ret ret s }"

text \<open>Returns the status and the value stored through \<^verbatim>\<open>sval\<close>.\<close>

definition nxsem_getvalue :: "addr \<Rightarrow> addr \<Rightarrow> 'a semstate_scheme \<Rightarrow> (int \<times> int option) option" where
  "nxsem_getvalue sem sval s =
     (if sem \<noteq> NULL \<and> sval \<noteq> NULL
      then do { x \<leftarrow> get_sem s sem; Some (0, Some (semcount x)) }
      else Some (- EINVAL, None))"

definition sem_getvalue :: "addr \<Rightarrow> addr \<Rightarrow> ('a, int \<times> int option) sop" where
  "sem_getvalue sem sval s = do {
     (ret, v) \<leftarrow> nxsem_getvalue sem sval s;
     (ret, s) \<leftarrow> posix_ret ret s;
     Some ((ret, v), s)
   }"

definition nxsem_destroy :: "addr \<Rightarrow> ('a, int) sop" where
  "nxsem_destroy sem s =
     (if sem \<noteq> NULL then do {
        x \<leftarrow> get_sem s sem;
        s \<leftarrow> (if semcount x \<ge> 0 then set_semcount sem 1 s else Some s);
        Some (0, s)
      }
      else Some (- EINVAL, s))"

definition sem_destroy :: "addr \<Rightarrow> ('a, int) sop" where
  "sem_destroy sem s = do { (ret, s) \<leftarrow> nxsem_destroy sem s; posix_ret ret s }"

section \<open>Waiting\<close>

definition nxsem_wait_resume :: "addr \<Rightarrow> int \<Rightarrow> ('a, int) sop" where
  "nxsem_wait_resume rtcb saved_errno s = do {
     r \<leftarrow> get_tcb s rtcb;
     let ret = (if pterrno r \<noteq> 0 then - pterrno r else 0);
     s \<leftarrow> upd_tcb rtcb (\<lambda>t. t\<lparr>pterrno := saved_errno\<rparr>) s;
     Some (ret, s)
   }"

text \<open>
  How a waiting call ends: it returns its result, or the caller is switched out and its stack
  keeps the local variable \<^verbatim>\<open>saved_errno\<close> until it continues with the \<open>_resume\<close> operation.
\<close>

datatype 'r outcome = Returned 'r | Switched int

type_synonym wait_result = "int outcome"

definition nxsem_wait :: "addr \<Rightarrow> ('a, wait_result) sop" where
  "nxsem_wait sem s = do {
     let rtcb = this_task s;
     debugassert s (sem \<noteq> NULL \<and> \<not> up_interrupt_context s);
     if sem \<noteq> NULL then do {
       x \<leftarrow> get_sem s sem;
       if semcount x > 0 then do {
         s \<leftarrow> set_semcount sem (semcount x - 1) s;
         s \<leftarrow> upd_tcb rtcb (\<lambda>t. t\<lparr>waitsem := NULL\<rparr>) s;
         Some (Returned 0, s)
       }
       else do {
         r \<leftarrow> get_tcb s rtcb;
         debugassert s (waitsem r = NULL);
         s \<leftarrow> set_semcount sem (semcount x - 1) s;
         s \<leftarrow> upd_tcb rtcb (\<lambda>t. t\<lparr>waitsem := sem\<rparr>) s;
         let saved_errno = pterrno r;
         s \<leftarrow> upd_tcb rtcb (\<lambda>t. t\<lparr>pterrno := 0\<rparr>) s;
         (switched, s) \<leftarrow> up_block_task rtcb TSTATE_WAIT_SEM s;
         if switched \<and> \<not> up_interrupt_context s then Some (Switched saved_errno, s)
         else do { (ret, s) \<leftarrow> nxsem_wait_resume rtcb saved_errno s; Some (Returned ret, s) }
       }
     }
     else Some (Returned (- EINVAL), s)
   }"

text \<open>
  The standard interface; cancellation points are not configured. A caller that was switched
  out continues with \<open>sem_wait_resume\<close>.
\<close>

definition sem_wait_resume :: "addr \<Rightarrow> int \<Rightarrow> ('a, int) sop" where
  "sem_wait_resume rtcb saved_errno s = do {
     (ret, s) \<leftarrow> nxsem_wait_resume rtcb saved_errno s;
     posix_ret ret s
   }"

definition sem_wait :: "addr \<Rightarrow> ('a, wait_result) sop" where
  "sem_wait sem s = do {
     (ret, s) \<leftarrow> nxsem_wait sem s;
     case ret of
       Switched saved_errno \<Rightarrow> Some (Switched saved_errno, s)
     | Returned ret \<Rightarrow> do { (ret, s) \<leftarrow> posix_ret ret s; Some (Returned ret, s) }
   }"

definition nxsem_trywait :: "addr \<Rightarrow> ('a, int) sop" where
  "nxsem_trywait sem s = do {
     let rtcb = this_task s;
     debugassert s (sem \<noteq> NULL \<and> \<not> up_interrupt_context s);
     if sem \<noteq> NULL then do {
       x \<leftarrow> get_sem s sem;
       if semcount x > 0 then do {
         s \<leftarrow> set_semcount sem (semcount x - 1) s;
         s \<leftarrow> upd_tcb rtcb (\<lambda>t. t\<lparr>waitsem := NULL\<rparr>) s;
         Some (0, s)
       }
       else Some (- EAGAIN, s)
     }
     else Some (- EINVAL, s)
   }"

definition sem_trywait :: "addr \<Rightarrow> ('a, int) sop" where
  "sem_trywait sem s = do { (ret, s) \<leftarrow> nxsem_trywait sem s; posix_ret ret s }"

section \<open>Posting\<close>

text \<open>The first task from \<open>stcb\<close> on that waits for the semaphore.\<close>

partial_function (option) sem_search :: "'a semstate_scheme \<Rightarrow> addr \<Rightarrow> addr \<Rightarrow> addr option" where
  "sem_search s stcb sem =
     (if stcb = NULL then Some NULL
      else Option.bind (get_tcb s stcb) (\<lambda>t.
        if waitsem t \<noteq> sem
        then Option.bind (get_flink (dqm s) stcb) (\<lambda>f. sem_search s f sem)
        else Some stcb))"

declare sem_search.simps [code]

text \<open>The rest of the call has no effect on the state, so it returns zero in any case.\<close>

definition nxsem_post :: "addr \<Rightarrow> ('a, int) sop" where
  "nxsem_post sem s =
     (if sem \<noteq> NULL then do {
        x \<leftarrow> get_sem s sem;
        debugassert s (semcount x < SEM_VALUE_MAX);
        s \<leftarrow> set_semcount sem (semcount x + 1) s;
        x \<leftarrow> get_sem s sem;
        s \<leftarrow> (if semcount x \<le> 0 then do {
                stcb \<leftarrow> sem_search s (dq_head (tasklists s g_waitingforsemaphore)) sem;
                if stcb \<noteq> NULL then do {
                  s \<leftarrow> upd_tcb stcb (\<lambda>t. t\<lparr>waitsem := NULL\<rparr>) s;
                  (_, s) \<leftarrow> up_unblock_task stcb s;
                  Some s
                }
                else do { debugassert s False; Some s }
              }
              else Some s);
        Some (0, s)
      }
      else Some (- EINVAL, s))"

definition sem_post :: "addr \<Rightarrow> ('a, int) sop" where
  "sem_post sem s = do { (ret, s) \<leftarrow> nxsem_post sem s; posix_ret ret s }"

section \<open>Interrupted waits\<close>

definition nxsem_wait_irq :: "addr \<Rightarrow> int \<Rightarrow> 'a sproc" where
  "nxsem_wait_irq wtcb errcode s = do {
     w \<leftarrow> get_tcb s wtcb;
     if task_state w = TSTATE_WAIT_SEM then do {
       let sem = waitsem w;
       debugassert s (sem \<noteq> NULL);
       x \<leftarrow> get_sem s sem;
       debugassert s (semcount x < 0);
       s \<leftarrow> set_semcount sem (semcount x + 1) s;
       s \<leftarrow> upd_tcb wtcb (\<lambda>t. t\<lparr>waitsem := NULL\<rparr>) s;
       s \<leftarrow> upd_tcb wtcb (\<lambda>t. t\<lparr>pterrno := errcode\<rparr>) s;
       (_, s) \<leftarrow> up_unblock_task wtcb s;
       Some s
     }
     else Some s
   }"

definition nxsem_recover :: "addr \<Rightarrow> 'a sproc" where
  "nxsem_recover tcb s = do {
     w \<leftarrow> get_tcb s tcb;
     if task_state w = TSTATE_WAIT_SEM then do {
       let sem = waitsem w;
       debugassert s (sem \<noteq> NULL);
       x \<leftarrow> get_sem s sem;
       debugassert s (semcount x < 0);
       s \<leftarrow> set_semcount sem (semcount x + 1) s;
       upd_tcb tcb (\<lambda>t. t\<lparr>waitsem := NULL\<rparr>) s
     }
     else Some s
   }"

text \<open>\<^verbatim>\<open>PIDHASH\<close> with \<^verbatim>\<open>CONFIG_MAX_TASKS\<close> 16.\<close>

definition PIDHASH :: "int \<Rightarrow> nat" where
  "PIDHASH p = nat (and p 15)"

definition sched_gettcb :: "'a semstate_scheme \<Rightarrow> int \<Rightarrow> addr" where
  "sched_gettcb s p =
     (if 0 \<le> p then
        (let h = g_pidhash s (PIDHASH p) in if p = ph_pid h then ph_tcb h else NULL)
      else NULL)"

definition nxsem_timeout :: "int \<Rightarrow> 'a sproc" where
  "nxsem_timeout p s =
     (let wtcb = sched_gettcb s (s16 p) in
      if wtcb \<noteq> NULL then do {
        w \<leftarrow> get_tcb s wtcb;
        if task_state w = TSTATE_WAIT_SEM then nxsem_wait_irq wtcb ETIMEDOUT s else Some s
      }
      else Some s)"

section \<open>Resetting\<close>

text \<open>
  The loop of \<^verbatim>\<open>nxsem_reset\<close>: each round hands out one of the remaining counts. Returns the
  counts left.
\<close>

fun nxsem_reset_loop :: "addr \<Rightarrow> nat \<Rightarrow> ('a, nat) sop" where
  "nxsem_reset_loop sem 0 s = do { _ \<leftarrow> get_sem s sem; Some (0, s) }"
| "nxsem_reset_loop sem (Suc n) s = do {
     x \<leftarrow> get_sem s sem;
     if semcount x < 0 then do {
       (ret, s) \<leftarrow> nxsem_post sem s;
       debugassert s (ret \<ge> 0);
       nxsem_reset_loop sem n s
     }
     else Some (Suc n, s)
   }"

text \<open>
  The count is an \<^verbatim>\<open>int16_t\<close>; a negative one fails the assertion and otherwise makes no
  rounds. The outcome of the final unlock is whether the caller was switched out.
\<close>

definition nxsem_reset :: "addr \<Rightarrow> int \<Rightarrow> ('a, int) sop" where
  "nxsem_reset sem cnt s = do {
     debugassert s (sem \<noteq> NULL \<and> cnt \<ge> 0);
     s \<leftarrow> sched_lock s;
     (left, s) \<leftarrow> nxsem_reset_loop sem (nat cnt) s;
     let cnt = (if cnt < 0 then cnt else int left);
     x \<leftarrow> get_sem s sem;
     s \<leftarrow> (if semcount x \<ge> 0 then set_semcount sem cnt s else Some s);
     (_, s) \<leftarrow> sched_unlock s;
     Some (0, s)
   }"

end
