(* ===== verification/Wdog.thy ===== *)
theory Wdog
  imports Sem
begin

text \<open>
  Watchdog timers: \<^verbatim>\<open>nuttx/sched/wdog\<close> without the tickless mode. The active watchdogs form
  a delta list: every entry holds the number of ticks by which it expires after its
  predecessor.

  The link field \<^verbatim>\<open>next\<close>, with which a watchdog starts, is kept in the memory of singly linked
  queue entries; the other fields are a record. The functions that expired watchdogs run are
  reached through function pointers: what a call of such a pointer does is the argument
  \<open>call\<close> of the operations that make one. Signed 32-bit arithmetic wraps around.
\<close>

section \<open>State\<close>

type_synonym wdparm_t = "32 word"

record wdog_s =
  wdfunc :: addr
  lag :: int
  wdflags :: "8 word"
  wdargc :: "8 word"
  parm :: "wdparm_t list"

record wdstate = semstate +
  wdogs :: "addr \<rightharpoonup> wdog_s"
  wdnext :: sqmem
  g_wdfreelist :: sq_queue
  g_wdactivelist :: sq_queue
  g_wdnfree :: "16 word"
  g_system_timer :: "32 word"

type_synonym ('a, 'r) wop = "'a wdstate_scheme \<Rightarrow> ('r \<times> 'a wdstate_scheme) option"
type_synonym 'a wproc = "'a wdstate_scheme \<Rightarrow> 'a wdstate_scheme option"
type_synonym 'a wcall = "addr \<Rightarrow> wdparm_t list \<Rightarrow> 'a wproc"

definition CONFIG_MAX_WDOGPARMS :: nat where "CONFIG_MAX_WDOGPARMS = 2"

definition CONFIG_PREALLOC_WDOGS :: nat where "CONFIG_PREALLOC_WDOGS = 16"

definition CONFIG_WDOG_INTRESERVE :: nat where "CONFIG_WDOG_INTRESERVE = 2"

definition WDOGF_ACTIVE :: "8 word" where "WDOGF_ACTIVE = 1"

definition WDOGF_ALLOCED :: "8 word" where "WDOGF_ALLOCED = 2"

definition WDOGF_STATIC :: "8 word" where "WDOGF_STATIC = 4"

definition WDOG_ISACTIVE :: "wdog_s \<Rightarrow> bool" where
  "WDOG_ISACTIVE w \<longleftrightarrow> and (wdflags w) WDOGF_ACTIVE \<noteq> 0"

definition WDOG_ISALLOCED :: "wdog_s \<Rightarrow> bool" where
  "WDOG_ISALLOCED w \<longleftrightarrow> and (wdflags w) WDOGF_ALLOCED \<noteq> 0"

definition WDOG_ISSTATIC :: "wdog_s \<Rightarrow> bool" where
  "WDOG_ISSTATIC w \<longleftrightarrow> and (wdflags w) WDOGF_STATIC \<noteq> 0"

definition WDOG_SETACTIVE :: "wdog_s \<Rightarrow> wdog_s" where
  "WDOG_SETACTIVE w = w\<lparr>wdflags := or (wdflags w) WDOGF_ACTIVE\<rparr>"

definition WDOG_CLRACTIVE :: "wdog_s \<Rightarrow> wdog_s" where
  "WDOG_CLRACTIVE w = w\<lparr>wdflags := and (wdflags w) (not WDOGF_ACTIVE)\<rparr>"

definition get_wdog :: "'a wdstate_scheme \<Rightarrow> addr \<Rightarrow> wdog_s option" where
  "get_wdog s p = (if p = NULL then None else wdogs s p)"

definition upd_wdog :: "addr \<Rightarrow> (wdog_s \<Rightarrow> wdog_s) \<Rightarrow> 'a wproc" where
  "upd_wdog p f s = do { w \<leftarrow> get_wdog s p; Some (s\<lparr>wdogs := (wdogs s)(p \<mapsto> f w)\<rparr>) }"

definition add_lag :: "addr \<Rightarrow> int \<Rightarrow> 'a wproc" where
  "add_lag p n = upd_wdog p (\<lambda>w. w\<lparr>lag := s32 (lag w + n)\<rparr>)"

definition get_next :: "'a wdstate_scheme \<Rightarrow> addr \<Rightarrow> addr option" where
  "get_next s p = sq_get (wdnext s) p"

definition set_next :: "addr \<Rightarrow> addr \<Rightarrow> 'a wproc" where
  "set_next p v s = do { m \<leftarrow> sq_set (wdnext s) p v; Some (s\<lparr>wdnext := m\<rparr>) }"

text \<open>The queue operations on the list of active watchdogs.\<close>

definition wd_queue :: "(sq_queue \<times> sqmem) option \<Rightarrow> 'a wproc" where
  "wd_queue r s = do { (q, m) \<leftarrow> r; Some (s\<lparr>g_wdactivelist := q, wdnext := m\<rparr>) }"

definition wd_addfirst :: "addr \<Rightarrow> 'a wproc" where
  "wd_addfirst p s = wd_queue (sq_addfirst p (g_wdactivelist s) (wdnext s)) s"

definition wd_addlast :: "addr \<Rightarrow> 'a wproc" where
  "wd_addlast p s = wd_queue (sq_addlast p (g_wdactivelist s) (wdnext s)) s"

definition wd_addafter :: "addr \<Rightarrow> addr \<Rightarrow> 'a wproc" where
  "wd_addafter prev p s = wd_queue (sq_addafter prev p (g_wdactivelist s) (wdnext s)) s"

definition wd_remfirst :: "('a, addr) wop" where
  "wd_remfirst s = do {
     (p, q, m) \<leftarrow> sq_remfirst (g_wdactivelist s) (wdnext s);
     s \<leftarrow> wd_queue (Some (q, m)) s;
     Some (p, s)
   }"

definition wd_remafter :: "addr \<Rightarrow> ('a, addr) wop" where
  "wd_remafter prev s = do {
     (p, q, m) \<leftarrow> sq_remafter prev (g_wdactivelist s) (wdnext s);
     s \<leftarrow> wd_queue (Some (q, m)) s;
     Some (p, s)
   }"

section \<open>Creating and deleting\<close>

fun wd_free_all :: "addr list \<Rightarrow> 'a wproc" where
  "wd_free_all [] s = Some s"
| "wd_free_all (p # ps) s = do {
     (q, m) \<leftarrow> sq_addlast p (g_wdfreelist s) (wdnext s);
     wd_free_all ps (s\<lparr>g_wdfreelist := q, wdnext := m\<rparr>)
   }"

text \<open>The argument is the list of the addresses of the elements of \<^verbatim>\<open>g_wdpool\<close>.\<close>

definition wd_initialize :: "addr list \<Rightarrow> 'a wproc" where
  "wd_initialize g_wdpool s = do {
     let s = s\<lparr>g_wdfreelist := sq_init, g_wdactivelist := sq_init\<rparr>;
     s \<leftarrow> wd_free_all g_wdpool s;
     Some (s\<lparr>g_wdnfree := of_nat CONFIG_PREALLOC_WDOGS\<rparr>)
   }"

text \<open>
  The arguments are what \<^verbatim>\<open>kmm_malloc\<close> returns if it is called: an address, and what the
  block contains.
\<close>

definition wd_create :: "addr \<Rightarrow> wdog_s \<Rightarrow> ('a, addr) wop" where
  "wd_create blk content s =
     (if unat (g_wdnfree s) > CONFIG_WDOG_INTRESERVE \<or> up_interrupt_context s
      then do {
        (wdog, q, m) \<leftarrow> sq_remfirst (g_wdfreelist s) (wdnext s);
        let s = s\<lparr>g_wdfreelist := q, wdnext := m\<rparr>;
        if wdog \<noteq> NULL then do {
          debugassert s (g_wdnfree s > 0);
          let s = s\<lparr>g_wdnfree := g_wdnfree s - 1\<rparr>;
          s \<leftarrow> set_next wdog NULL s;
          s \<leftarrow> upd_wdog wdog (\<lambda>w. w\<lparr>wdflags := 0\<rparr>) s;
          Some (wdog, s)
        }
        else do {
          debugassert s (g_wdnfree s = 0);
          Some (wdog, s)
        }
      }
      else if blk \<noteq> NULL
      then Some (blk, s\<lparr>wdnext := (wdnext s)(blk \<mapsto> NULL),
                        wdogs := (wdogs s)(blk \<mapsto> content\<lparr>wdflags := WDOGF_ALLOCED\<rparr>)\<rparr>)
      else Some (NULL, s))"

section \<open>Cancelling\<close>

partial_function (option) wd_find :: "'a wdstate_scheme \<Rightarrow> addr \<Rightarrow> addr \<Rightarrow> addr \<Rightarrow> (addr \<times> addr) option" where
  "wd_find s wdog prev cur =
     (if cur \<noteq> NULL \<and> cur \<noteq> wdog
      then Option.bind (get_next s cur) (\<lambda>n. wd_find s wdog cur n)
      else Some (prev, cur))"

declare wd_find.simps [code]

definition wd_cancel :: "addr \<Rightarrow> ('a, int) wop" where
  "wd_cancel wdog s = do {
     active \<leftarrow> (if wdog \<noteq> NULL then do { w \<leftarrow> get_wdog s wdog; Some (WDOG_ISACTIVE w) } else Some False);
     if active then do {
       (prev, cur) \<leftarrow> wd_find s wdog NULL (sq_head (g_wdactivelist s));
       debugassert s (cur \<noteq> NULL);
       n \<leftarrow> get_next s cur;
       c \<leftarrow> get_wdog s cur;
       s \<leftarrow> (if n \<noteq> NULL then add_lag n (lag c) s else Some s);
       (_, s) \<leftarrow> (if prev \<noteq> NULL then wd_remafter prev s else wd_remfirst s);
       s \<leftarrow> set_next wdog NULL s;
       s \<leftarrow> upd_wdog wdog WDOG_CLRACTIVE s;
       Some (0, s)
     }
     else Some (- EINVAL, s)
   }"

text \<open>
  A watchdog from the heap is released with \<^verbatim>\<open>sched_kfree\<close>: its block is no longer memory that
  may be accessed.
\<close>

definition wd_delete :: "addr \<Rightarrow> ('a, int) wop" where
  "wd_delete wdog s = do {
     debugassert s (wdog \<noteq> NULL);
     w \<leftarrow> get_wdog s wdog;
     s \<leftarrow> (if WDOG_ISACTIVE w then do { (_, s) \<leftarrow> wd_cancel wdog s; Some s } else Some s);
     w \<leftarrow> get_wdog s wdog;
     if WDOG_ISALLOCED w
     then Some (0, s\<lparr>wdogs := (wdogs s)(wdog := None), wdnext := (wdnext s)(wdog := None)\<rparr>)
     else if \<not> WDOG_ISSTATIC w then do {
       (q, m) \<leftarrow> sq_addlast wdog (g_wdfreelist s) (wdnext s);
       let s = s\<lparr>g_wdfreelist := q, wdnext := m, g_wdnfree := g_wdnfree s + 1\<rparr>;
       debugassert s (unat (g_wdnfree s) \<le> CONFIG_PREALLOC_WDOGS);
       Some (0, s)
     }
     else Some (0, s)
   }"

definition wd_recover :: "addr \<Rightarrow> 'a wproc" where
  "wd_recover p s = do {
     t \<leftarrow> get_tcb s p;
     if waitdog t \<noteq> NULL then do {
       (_, s) \<leftarrow> wd_cancel (waitdog t) s;
       (_, s) \<leftarrow> wd_delete (waitdog t) s;
       upd_tcb p (\<lambda>t. t\<lparr>waitdog := NULL\<rparr>) s
     }
     else Some s
   }"

section \<open>The remaining time\<close>

partial_function (option) wd_sum :: "'a wdstate_scheme \<Rightarrow> addr \<Rightarrow> int \<Rightarrow> addr \<Rightarrow> int option" where
  "wd_sum s wdog delay cur =
     (if cur \<noteq> NULL
      then Option.bind (get_wdog s cur) (\<lambda>c.
        if cur = wdog then Some (s32 (delay + lag c))
        else Option.bind (get_next s cur) (\<lambda>n. wd_sum s wdog (s32 (delay + lag c)) n))
      else Some 0)"

declare wd_sum.simps [code]

definition wd_gettime :: "addr \<Rightarrow> 'a wdstate_scheme \<Rightarrow> int option" where
  "wd_gettime wdog s =
     (if wdog \<noteq> NULL then do {
        w \<leftarrow> get_wdog s wdog;
        if WDOG_ISACTIVE w then wd_sum s wdog 0 (sq_head (g_wdactivelist s)) else Some 0
      }
      else Some 0)"

section \<open>Starting\<close>

text \<open>The two loops of \<^verbatim>\<open>wd_start\<close> that search the position; they return \<^verbatim>\<open>now\<close>, \<^verbatim>\<open>prev\<close>, \<^verbatim>\<open>cur\<close>.\<close>

partial_function (option) wd_advance_positive ::
  "'a wdstate_scheme \<Rightarrow> int \<Rightarrow> addr \<Rightarrow> addr \<Rightarrow> (int \<times> addr \<times> addr) option" where
  "wd_advance_positive s now prev cur =
     Option.bind (get_wdog s cur) (\<lambda>c. Option.bind (get_next s cur) (\<lambda>n.
       if s32 (now + lag c) < 0 \<and> n \<noteq> NULL
       then wd_advance_positive s (s32 (now + lag c)) cur n
       else Some (s32 (now + lag c), prev, cur)))"

declare wd_advance_positive.simps [code]

partial_function (option) wd_advance_shorter ::
  "'a wdstate_scheme \<Rightarrow> int \<Rightarrow> int \<Rightarrow> addr \<Rightarrow> addr \<Rightarrow> (int \<times> addr \<times> addr) option" where
  "wd_advance_shorter s delay now prev cur =
     Option.bind (get_next s cur) (\<lambda>n.
       if now \<le> delay \<and> n \<noteq> NULL
       then Option.bind (get_wdog s n) (\<lambda>c. wd_advance_shorter s delay (s32 (now + lag c)) cur n)
       else Some (now, prev, cur))"

declare wd_advance_shorter.simps [code]

text \<open>Inserts the watchdog into the active list; returns the lag to store in it.\<close>

definition wd_insert :: "addr \<Rightarrow> int \<Rightarrow> ('a, int) wop" where
  "wd_insert wdog delay s =
     (let head = sq_head (g_wdactivelist s) in
      if head = NULL then do { s \<leftarrow> wd_addlast wdog s; Some (delay, s) }
      else do {
        (now, prev, cur) \<leftarrow> wd_advance_positive s 0 head head;
        (now, prev, cur) \<leftarrow> wd_advance_shorter s delay now prev cur;
        if delay < now then do {
          c \<leftarrow> get_wdog s cur;
          let delay = s32 (delay - s32 (now - lag c));
          s \<leftarrow> add_lag cur (- delay) s;
          s \<leftarrow> (if cur = sq_head (g_wdactivelist s) then wd_addfirst wdog s
                else wd_addafter prev wdog s);
          Some (delay, s)
        }
        else do {
          let delay = s32 (delay - now);
          n \<leftarrow> get_next s cur;
          if n = NULL then do { s \<leftarrow> wd_addlast wdog s; Some (delay, s) }
          else do {
            s \<leftarrow> add_lag n (- delay) s;
            s \<leftarrow> wd_addafter cur wdog s;
            Some (delay, s)
          }
        }
      })"

text \<open>
  \<open>args\<close> are the variable arguments; taking more than there are is a fault. The parameter
  slots behind the last argument keep what they contain.
\<close>

definition wd_setparms :: "nat \<Rightarrow> wdparm_t list \<Rightarrow> wdparm_t list \<Rightarrow> wdparm_t list option" where
  "wd_setparms argc args ps =
     (if argc \<le> length args then Some (take argc args @ drop argc ps) else None)"

definition wd_tick_delay :: "int \<Rightarrow> int" where
  "wd_tick_delay delay =
     (if delay \<le> 0 then 1 else if s32 (delay + 1) \<le> 0 then s32 (s32 (delay + 1) - 1) else s32 (delay + 1))"

definition wd_start :: "addr \<Rightarrow> int \<Rightarrow> addr \<Rightarrow> int \<Rightarrow> wdparm_t list \<Rightarrow> ('a, int) wop" where
  "wd_start wdog delay wdentry argc args s =
     (if wdog = NULL \<or> argc > int CONFIG_MAX_WDOGPARMS \<or> delay < 0 then Some (- EINVAL, s)
      else do {
        w \<leftarrow> get_wdog s wdog;
        s \<leftarrow> (if WDOG_ISACTIVE w then do { (_, s) \<leftarrow> wd_cancel wdog s; Some s } else Some s);
        w \<leftarrow> get_wdog s wdog;
        ps \<leftarrow> wd_setparms (nat argc) args (parm w);
        s \<leftarrow> upd_wdog wdog (\<lambda>w. w\<lparr>wdfunc := wdentry, wdargc := word_of_int argc, parm := ps\<rparr>) s;
        (delay, s) \<leftarrow> wd_insert wdog (wd_tick_delay delay) s;
        s \<leftarrow> upd_wdog wdog (\<lambda>w. WDOG_SETACTIVE (w\<lparr>lag := delay\<rparr>)) s;
        Some (0, s)
      })"

section \<open>The timer interrupt\<close>

definition wd_call :: "'a wcall \<Rightarrow> wdog_s \<Rightarrow> 'a wproc" where
  "wd_call call w s =
     (if unat (wdargc w) \<le> CONFIG_MAX_WDOGPARMS then call (wdfunc w) (take (unat (wdargc w)) (parm w)) s
      else do { debugassert s False; Some s })"

text \<open>One round of the loop of \<^verbatim>\<open>wd_expiration\<close>; the result is the watchdog that was run.\<close>

definition wd_expire_one :: "'a wcall \<Rightarrow> ('a, addr) wop" where
  "wd_expire_one call s = do {
     (wdog, s) \<leftarrow> wd_remfirst s;
     w \<leftarrow> get_wdog s wdog;
     let head = sq_head (g_wdactivelist s);
     s \<leftarrow> (if head \<noteq> NULL then add_lag head (lag w) s else Some s);
     s \<leftarrow> upd_wdog wdog WDOG_CLRACTIVE s;
     w \<leftarrow> get_wdog s wdog;
     s \<leftarrow> wd_call call w s;
     Some (wdog, s)
   }"

text \<open>The loop returns the watchdogs that were run, in this order.\<close>

partial_function (option) wd_expire_loop :: "'a wcall \<Rightarrow> 'a wdstate_scheme \<Rightarrow> (addr list \<times> 'a wdstate_scheme) option" where
  "wd_expire_loop call s =
     (let head = sq_head (g_wdactivelist s) in
      if head = NULL then Some ([], s)
      else Option.bind (get_wdog s head) (\<lambda>h.
        if lag h \<le> 0
        then Option.bind (wd_expire_one call s) (\<lambda>(p, s).
          Option.bind (wd_expire_loop call s) (\<lambda>(ps, s). Some (p # ps, s)))
        else Some ([], s)))"

declare wd_expire_loop.simps [code]

definition wd_expiration :: "'a wcall \<Rightarrow> ('a, addr list) wop" where
  "wd_expiration call s = do {
     h \<leftarrow> get_wdog s (sq_head (g_wdactivelist s));
     if lag h \<le> 0 then wd_expire_loop call s else Some ([], s)
   }"

definition wd_timer :: "'a wcall \<Rightarrow> ('a, addr list) wop" where
  "wd_timer call s =
     (if sq_head (g_wdactivelist s) \<noteq> NULL then do {
        s \<leftarrow> add_lag (sq_head (g_wdactivelist s)) (- 1) s;
        wd_expiration call s
      }
      else Some ([], s))"

end
