(* ===== verification/WdogInv.thy ===== *)
theory WdogInv
  imports Wdog
begin

text \<open>
  The abstract view of the watchdog timers is a list of pairs of a watchdog and the number of
  ticks until it expires, in ascending order. This theory defines how a state represents such
  a list and proves that the operations on the delta list implement the operations on it:
  cancelling removes a pair, starting is a stable insertion, a tick decrements every time.
\<close>

section \<open>Representation\<close>

type_synonym timers = "(addr \<times> int) list"

fun wd_lags :: "(addr \<rightharpoonup> wdog_s) \<Rightarrow> int \<Rightarrow> timers \<Rightarrow> bool" where
  "wd_lags m t [] \<longleftrightarrow> True"
| "wd_lags m t ((p, d) # xs) \<longleftrightarrow>
     (\<exists>w. m p = Some w \<and> lag w = d - t) \<and> t \<le> d \<and> d < 2 ^ 31 \<and> wd_lags m d xs"

definition pooled :: "'a wdstate_scheme \<Rightarrow> addr set" where
  "pooled s = {p. \<exists>w. wdogs s p = Some w \<and> \<not> WDOG_ISALLOCED w \<and> \<not> WDOG_ISSTATIC w}"

definition wd_rep :: "'a wdstate_scheme \<Rightarrow> timers \<Rightarrow> addr list \<Rightarrow> bool" where
  "wd_rep s xs fr \<longleftrightarrow>
     sq_rep (wdnext s) (g_wdactivelist s) (map fst xs) \<and>
     sq_rep (wdnext s) (g_wdfreelist s) fr \<and>
     fst ` set xs \<inter> set fr = {} \<and>
     wd_lags (wdogs s) 0 xs \<and>
     dom (wdnext s) = dom (wdogs s) \<and> wdogs s NULL = None \<and>
     (\<forall>p w. wdogs s p = Some w \<longrightarrow>
        (WDOG_ISACTIVE w \<longleftrightarrow> p \<in> fst ` set xs) \<and> length (parm w) = CONFIG_MAX_WDOGPARMS) \<and>
     set fr \<subseteq> pooled s \<and> finite (pooled s) \<and> card (pooled s) \<le> CONFIG_PREALLOC_WDOGS \<and>
     unat (g_wdnfree s) = length fr"

text \<open>What the watchdog operations leave unchanged: the scheduler, the semaphores and the clock.\<close>

definition wframe :: "'a wdstate_scheme \<Rightarrow> 'a wdstate_scheme \<Rightarrow> bool" where
  "wframe s s' \<longleftrightarrow>
     dqm s' = dqm s \<and> tcbs s' = tcbs s \<and> tasklists s' = tasklists s \<and>
     current_regs s' = current_regs s \<and> cpu_regs s' = cpu_regs s \<and>
     debug_assertions s' = debug_assertions s \<and> sems s' = sems s \<and>
     g_pidhash s' = g_pidhash s \<and> g_irqerrno s' = g_irqerrno s \<and>
     g_system_timer s' = g_system_timer s \<and> wdstate.more s' = wdstate.more s"

lemma wframe_refl [simp]: "wframe s s"
  by (simp add: wframe_def)

lemma wframe_trans: "wframe s s' \<Longrightarrow> wframe s' s'' \<Longrightarrow> wframe s s''"
  by (simp add: wframe_def)

lemma wframe_upd [simp]:
  "wframe s (s'\<lparr>wdogs := a\<rparr>) = wframe s s'" "wframe s (s'\<lparr>wdnext := b\<rparr>) = wframe s s'"
  "wframe s (s'\<lparr>g_wdfreelist := c\<rparr>) = wframe s s'" "wframe s (s'\<lparr>g_wdactivelist := c\<rparr>) = wframe s s'"
  "wframe s (s'\<lparr>g_wdnfree := n\<rparr>) = wframe s s'"
  by (simp_all add: wframe_def)

section \<open>Flags\<close>

lemmas wdog_flags =
  WDOG_ISACTIVE_def WDOG_ISALLOCED_def WDOG_ISSTATIC_def WDOG_SETACTIVE_def WDOG_CLRACTIVE_def
  WDOGF_ACTIVE_def WDOGF_ALLOCED_def WDOGF_STATIC_def

lemma wdog_flag_simps [simp]:
  "WDOG_ISACTIVE (WDOG_SETACTIVE w)" "\<not> WDOG_ISACTIVE (WDOG_CLRACTIVE w)"
  "WDOG_ISALLOCED (WDOG_SETACTIVE w) = WDOG_ISALLOCED w"
  "WDOG_ISALLOCED (WDOG_CLRACTIVE w) = WDOG_ISALLOCED w"
  "WDOG_ISSTATIC (WDOG_SETACTIVE w) = WDOG_ISSTATIC w"
  "WDOG_ISSTATIC (WDOG_CLRACTIVE w) = WDOG_ISSTATIC w"
  "lag (WDOG_SETACTIVE w) = lag w" "lag (WDOG_CLRACTIVE w) = lag w"
  "parm (WDOG_SETACTIVE w) = parm w" "parm (WDOG_CLRACTIVE w) = parm w"
  "wdfunc (WDOG_SETACTIVE w) = wdfunc w" "wdfunc (WDOG_CLRACTIVE w) = wdfunc w"
  "wdargc (WDOG_SETACTIVE w) = wdargc w" "wdargc (WDOG_CLRACTIVE w) = wdargc w"
  by (simp_all add: wdog_flags and.assoc bit.conj_disj_distrib2)

lemma wdog_flag_upd [simp]:
  "WDOG_ISACTIVE (w\<lparr>lag := n\<rparr>) = WDOG_ISACTIVE w" "WDOG_ISALLOCED (w\<lparr>lag := n\<rparr>) = WDOG_ISALLOCED w"
  "WDOG_ISSTATIC (w\<lparr>lag := n\<rparr>) = WDOG_ISSTATIC w"
  "WDOG_ISACTIVE (w\<lparr>wdfunc := f\<rparr>) = WDOG_ISACTIVE w" "WDOG_ISALLOCED (w\<lparr>wdfunc := f\<rparr>) = WDOG_ISALLOCED w"
  "WDOG_ISSTATIC (w\<lparr>wdfunc := f\<rparr>) = WDOG_ISSTATIC w"
  "WDOG_ISACTIVE (w\<lparr>wdargc := c\<rparr>) = WDOG_ISACTIVE w" "WDOG_ISALLOCED (w\<lparr>wdargc := c\<rparr>) = WDOG_ISALLOCED w"
  "WDOG_ISSTATIC (w\<lparr>wdargc := c\<rparr>) = WDOG_ISSTATIC w"
  "WDOG_ISACTIVE (w\<lparr>parm := ps\<rparr>) = WDOG_ISACTIVE w" "WDOG_ISALLOCED (w\<lparr>parm := ps\<rparr>) = WDOG_ISALLOCED w"
  "WDOG_ISSTATIC (w\<lparr>parm := ps\<rparr>) = WDOG_ISSTATIC w"
  by (simp_all add: wdog_flags)

section \<open>Delta lists\<close>

lemma wd_lags_append:
  "wd_lags m t (xs @ ys) \<longleftrightarrow> wd_lags m t xs \<and> wd_lags m (if xs = [] then t else snd (last xs)) ys"
  by (induction xs arbitrary: t) auto

lemma wd_lags_frame:
  "(\<And>p. p \<in> fst ` set xs \<Longrightarrow> map_option lag (m' p) = map_option lag (m p)) \<Longrightarrow> wd_lags m' t xs = wd_lags m t xs"
proof (induction xs arbitrary: t)
  case (Cons a xs)
  obtain p d where a: "a = (p, d)" by fastforce
  from Cons.prems have "map_option lag (m' p) = map_option lag (m p)" by (simp add: a)
  then have "(\<exists>w. m' p = Some w \<and> lag w = d - t) = (\<exists>w. m p = Some w \<and> lag w = d - t)"
    by (cases "m p"; cases "m' p") auto
  with Cons show ?case by (simp add: a)
qed simp

lemma wd_lags_upd [simp]:
  "p \<notin> fst ` set xs \<Longrightarrow> wd_lags (m(p := v)) t xs = wd_lags m t xs"
  by (rule wd_lags_frame) auto

lemma wd_lags_sorted: "wd_lags m t xs \<Longrightarrow> \<forall>x \<in> set xs. t \<le> snd x \<and> snd x < 2 ^ 31"
  by (induction m t xs rule: wd_lags.induct) fastforce+

lemma wd_lags_ascending: "wd_lags m t xs \<Longrightarrow> sorted (map snd xs)"
proof (induction m t xs rule: wd_lags.induct)
  case (2 m t p d xs)
  then show ?case using wd_lags_sorted [of m d xs] by auto
qed simp

lemma wd_lags_some: "wd_lags m t xs \<Longrightarrow> p \<in> fst ` set xs \<Longrightarrow> m p \<noteq> None"
  by (induction m t xs rule: wd_lags.induct) auto

definition last_time :: "int \<Rightarrow> timers \<Rightarrow> int" where
  "last_time t xs = (if xs = [] then t else snd (last xs))"

lemma last_time_simps [simp]:
  "last_time t [] = t" "last_time t (x # xs) = last_time (snd x) xs"
  "last_time t (xs @ [x]) = snd x"
  by (simp_all add: last_time_def)

text \<open>Makes the lag of the first of \<open>bs\<close> relative to the time \<open>t\<close>.\<close>

definition wd_shift :: "timers \<Rightarrow> int \<Rightarrow> (addr \<rightharpoonup> wdog_s) \<Rightarrow> (addr \<rightharpoonup> wdog_s)" where
  "wd_shift bs t m = (case bs of [] \<Rightarrow> m
     | (p, d) # _ \<Rightarrow> m(p := map_option (\<lambda>w. w\<lparr>lag := d - t\<rparr>) (m p)))"

lemma wd_lags_shift:
  "wd_lags m t' bs \<Longrightarrow> distinct (map fst bs) \<Longrightarrow> bs = [] \<or> t \<le> snd (hd bs) \<Longrightarrow> wd_lags (wd_shift bs t m) t bs"
  by (cases bs) (auto simp: wd_shift_def split: prod.split)

lemma wd_lags_shift_other:
  "bs = [] \<or> fst (hd bs) \<notin> fst ` set as \<Longrightarrow> wd_lags (wd_shift bs t m) t0 as = wd_lags m t0 as"
  by (cases bs) (auto simp: wd_shift_def split: prod.split)

lemma wd_lags_last_time: "wd_lags m t xs \<Longrightarrow> t \<le> last_time t xs"
  using wd_lags_sorted [of m t xs] last_in_set [of xs] by (auto simp: last_time_def)

lemma wd_lags_append': "wd_lags m t (xs @ ys) \<longleftrightarrow> wd_lags m t xs \<and> wd_lags m (last_time t xs) ys"
  by (simp add: wd_lags_append last_time_def)

lemma wd_lags_remove:
  assumes "wd_lags m t (as @ mid @ bs)" "distinct (map fst (as @ mid @ bs))"
  shows "wd_lags (wd_shift bs (last_time t as) m) t (as @ bs)"
proof -
  have l: "wd_lags m t as" "wd_lags m (last_time t as) (mid @ bs)" "wd_lags m (last_time (last_time t as) mid) bs"
    using assms(1) by (simp_all add: wd_lags_append')
  have "bs = [] \<or> last_time t as \<le> snd (hd bs)"
    using wd_lags_sorted [OF l(2)] by (cases bs) auto
  moreover have "bs = [] \<or> fst (hd bs) \<notin> fst ` set as" using assms(2) by (cases bs) auto
  ultimately show ?thesis
    using l wd_lags_shift [OF l(3)] assms(2) by (simp add: wd_lags_append' wd_lags_shift_other)
qed

lemma wd_lags_insert:
  assumes l: "wd_lags m t (as @ bs)" and d: "distinct (map fst (as @ bs))" "x \<notin> fst ` set (as @ bs)"
    and t: "last_time t as \<le> d" "d < 2 ^ 31" "bs = [] \<or> d \<le> snd (hd bs)"
    and w: "lag w = d - last_time t as"
  shows "wd_lags ((wd_shift bs d m)(x \<mapsto> w)) t (as @ (x, d) # bs)"
proof -
  have h: "bs = [] \<or> fst (hd bs) \<notin> fst ` set as" using d by (cases bs) auto
  have "wd_lags m t as" "wd_lags m (last_time t as) bs" using l by (simp_all add: wd_lags_append')
  with d t w h show ?thesis
    using wd_lags_shift [of m "last_time t as" bs d]
    by (simp add: wd_lags_append' wd_lags_shift_other image_Un)
qed

section \<open>What the operations keep\<close>

definition wd_kept :: "addr set \<Rightarrow> (addr \<rightharpoonup> wdog_s) \<Rightarrow> (addr \<rightharpoonup> wdog_s) \<Rightarrow> bool" where
  "wd_kept S m m' \<longleftrightarrow> (\<forall>p. rel_option (\<lambda>w w'. WDOG_ISALLOCED w' = WDOG_ISALLOCED w \<and>
     WDOG_ISSTATIC w' = WDOG_ISSTATIC w \<and> length (parm w') = length (parm w) \<and>
     (p \<notin> S \<longrightarrow> (\<exists>n. w' = w\<lparr>lag := n\<rparr>))) (m p) (m' p))"

lemma lag_same [simp]: "\<exists>n. w = w\<lparr>lag := n\<rparr>"
  by (rule exI [of _ "lag w"]) simp

lemma lag_twice [simp]: "\<exists>n. w\<lparr>lag := k\<rparr> = w\<lparr>lag := n\<rparr>"
  by blast

lemma wd_kept_refl [simp]: "wd_kept S m m"
  unfolding wd_kept_def by (intro allI option.rel_refl) simp

lemma wd_kept_mono: "wd_kept S m m' \<Longrightarrow> S \<subseteq> T \<Longrightarrow> wd_kept T m m'"
  unfolding wd_kept_def by (blast intro: option.rel_mono_strong)

lemma wd_keptD:
  assumes "wd_kept S m m'"
  shows "m' p = None \<longleftrightarrow> m p = None"
    and "m p = Some w \<Longrightarrow> \<exists>w'. m' p = Some w' \<and> WDOG_ISALLOCED w' = WDOG_ISALLOCED w \<and>
     WDOG_ISSTATIC w' = WDOG_ISSTATIC w \<and> length (parm w') = length (parm w) \<and> (p \<notin> S \<longrightarrow> (\<exists>n. w' = w\<lparr>lag := n\<rparr>))"
    and "m' p = Some w' \<Longrightarrow> \<exists>w. m p = Some w \<and> WDOG_ISALLOCED w' = WDOG_ISALLOCED w \<and>
     WDOG_ISSTATIC w' = WDOG_ISSTATIC w \<and> length (parm w') = length (parm w) \<and> (p \<notin> S \<longrightarrow> (\<exists>n. w' = w\<lparr>lag := n\<rparr>))"
  using assms unfolding wd_kept_def by (fastforce elim!: option.rel_cases dest: spec [of _ p])+

lemma wd_kept_trans:
  assumes "wd_kept S m m'" "wd_kept S m' m''"
  shows "wd_kept S m m''"
  unfolding wd_kept_def
proof
  fix p
  show "rel_option (\<lambda>w w'. WDOG_ISALLOCED w' = WDOG_ISALLOCED w \<and> WDOG_ISSTATIC w' = WDOG_ISSTATIC w \<and>
     length (parm w') = length (parm w) \<and> (p \<notin> S \<longrightarrow> (\<exists>n. w' = w\<lparr>lag := n\<rparr>))) (m p) (m'' p)"
  proof (cases "m p")
    case None
    then show ?thesis using wd_keptD(1) [OF assms(1)] wd_keptD(1) [OF assms(2)] by simp
  next
    case (Some w)
    from wd_keptD(2) [OF assms(1) Some] obtain w' where w': "m' p = Some w'"
      "WDOG_ISALLOCED w' = WDOG_ISALLOCED w" "WDOG_ISSTATIC w' = WDOG_ISSTATIC w"
      "length (parm w') = length (parm w)" "p \<notin> S \<longrightarrow> (\<exists>n. w' = w\<lparr>lag := n\<rparr>)" by auto
    with wd_keptD(2) [OF assms(2) w'(1)] Some show ?thesis by auto
  qed
qed

lemma wd_kept_upd:
  assumes "wd_kept S m m'" "m' p = Some v" "WDOG_ISALLOCED v' = WDOG_ISALLOCED v"
    "WDOG_ISSTATIC v' = WDOG_ISSTATIC v" "length (parm v') = length (parm v)" "p \<in> S"
  shows "wd_kept S m (m'(p \<mapsto> v'))"
proof -
  have "wd_kept S m' (m'(p \<mapsto> v'))"
    using assms(2-) unfolding wd_kept_def by (auto intro!: option.rel_refl)
  with assms(1) show ?thesis by (rule wd_kept_trans)
qed

lemma wd_kept_shift: "wd_kept S m (wd_shift bs t m)"
  unfolding wd_kept_def wd_shift_def
  by (auto split: list.split intro!: option.rel_refl simp: option.rel_map)

lemma wd_kept_pooled:
  assumes "wd_kept S (wdogs s) (wdogs s')"
  shows "pooled s' = pooled s" "dom (wdogs s') = dom (wdogs s)"
  using wd_keptD [OF assms] by (fastforce simp: pooled_def dom_def)+

section \<open>Facts of a represented state\<close>

lemma wd_repD:
  assumes "wd_rep s xs fr"
  shows "sq_rep (wdnext s) (g_wdactivelist s) (map fst xs)" "sq_rep (wdnext s) (g_wdfreelist s) fr"
    "fst ` set xs \<inter> set fr = {}" "wd_lags (wdogs s) 0 xs" "dom (wdnext s) = dom (wdogs s)"
    "wdogs s NULL = None" "distinct (map fst xs)" "set fr \<subseteq> pooled s" "finite (pooled s)"
    "card (pooled s) \<le> CONFIG_PREALLOC_WDOGS" "unat (g_wdnfree s) = length fr" "distinct fr"
  using assms by (auto simp: wd_rep_def dest: sq_rep_distinct)

lemma wd_rep_wdog:
  assumes "wd_rep s xs fr" "wdogs s p = Some w"
  shows "WDOG_ISACTIVE w \<longleftrightarrow> p \<in> fst ` set xs" "length (parm w) = CONFIG_MAX_WDOGPARMS"
    "p \<noteq> NULL" "get_wdog s p = Some w" "sq_valid (wdnext s) p"
proof -
  show "WDOG_ISACTIVE w \<longleftrightarrow> p \<in> fst ` set xs" "length (parm w) = CONFIG_MAX_WDOGPARMS"
    using assms unfolding wd_rep_def by blast+
  show n: "p \<noteq> NULL" using wd_repD(6) [OF assms(1)] assms(2) by (cases "p = NULL") auto
  with assms(2) show "get_wdog s p = Some w" by (simp add: get_wdog_def)
  show "sq_valid (wdnext s) p" using n assms(2) wd_repD(5) [OF assms(1)] by (auto simp: sq_valid_def dom_def set_eq_iff)
qed

lemma wd_rep_active:
  assumes "wd_rep s xs fr" "p \<in> fst ` set xs"
  obtains w where "wdogs s p = Some w" "WDOG_ISACTIVE w"
proof -
  obtain w where "wdogs s p = Some w" using wd_lags_some [OF wd_repD(4) [OF assms(1)] assms(2)] by auto
  with wd_rep_wdog(1) [OF assms(1)] assms(2) that show thesis by blast
qed

lemma wd_repI:
  assumes rep: "wd_rep s xs fr" and k: "wd_kept S (wdogs s) (wdogs s')"
    and q: "sq_rep (wdnext s') (g_wdactivelist s') (map fst ys)"
    and f: "dq_frame T (wdnext s) (wdnext s')" "T \<inter> set fr = {}"
    and l: "wd_lags (wdogs s') 0 ys" "fst ` set ys \<inter> set fr = {}"
    and a: "\<And>p w. wdogs s' p = Some w \<Longrightarrow> WDOG_ISACTIVE w \<longleftrightarrow> p \<in> fst ` set ys"
    and e: "g_wdfreelist s' = g_wdfreelist s" "g_wdnfree s' = g_wdnfree s"
  shows "wd_rep s' ys fr"
proof -
  have p: "length (parm w) = CONFIG_MAX_WDOGPARMS" if "wdogs s' p = Some w" for p w
    using wd_keptD(3) [OF k that] wd_rep_wdog(2) [OF rep] by auto
  have "dom (wdnext s') = dom (wdogs s')"
    using f(1) wd_repD(5) [OF rep] wd_kept_pooled(2) [OF k] by (simp add: dq_frame_def)
  moreover have "sq_rep (wdnext s') (g_wdfreelist s') fr"
    using sq_rep_frame [OF f(1)] f(2) wd_repD(2) [OF rep] by (simp add: e Int_commute)
  moreover have "wdogs s' NULL = None" using wd_keptD(1) [OF k] wd_repD(6) [OF rep] by simp
  ultimately show ?thesis
    using q l a p wd_repD [OF rep] unfolding wd_rep_def wd_kept_pooled(1) [OF k] e by blast
qed

lemma wd_rep_unique:
  assumes "wd_rep s xs fr" "wd_rep s ys fr'"
  shows "xs = ys \<and> fr = fr'"
proof -
  have u: "xs = ys" if "sq_path m p (map fst xs) NULL" "sq_path m p (map fst ys) NULL"
    "wd_lags w t xs" "wd_lags w t ys" for m p w t
    using that
  proof (induction xs arbitrary: ys p t)
    case Nil
    then show ?case by (cases ys) auto
  next
    case (Cons x xs)
    then obtain y zs where "ys = y # zs" by (cases ys) auto
    with Cons show ?case by (cases x; cases y) (auto; force)
  qed
  have v: "fs = gs" if "sq_path m p fs NULL" "sq_path m p gs NULL" for m p fs gs
    using that
  proof (induction fs arbitrary: gs p)
    case Nil
    then show ?case by (cases gs) auto
  next
    case (Cons x xs)
    then obtain y zs where "gs = y # zs" by (cases gs) auto
    with Cons show ?case by auto
  qed
  show ?thesis
    using wd_repD(1,2,4) [OF assms(1)] wd_repD(1,2,4) [OF assms(2)] u v by (auto simp: sq_rep_def)
qed

section \<open>The remaining time\<close>

lemma wd_sum_path:
  "sq_path (wdnext s) p (map fst (as @ (x, d) # bs)) NULL \<Longrightarrow> wd_lags (wdogs s) t (as @ (x, d) # bs) \<Longrightarrow>
   x \<notin> fst ` set as \<Longrightarrow> 0 \<le> t \<Longrightarrow> wd_sum s x t p = Some d"
proof (induction as arbitrary: p t)
  case Nil
  then show ?case by (subst wd_sum.simps) (auto simp: get_wdog_def s32_id)
next
  case (Cons a as)
  then show ?case
    by (cases a; subst wd_sum.simps) (auto simp: get_wdog_def get_next_def sq_get_def s32_id)
qed

lemma wd_gettime_spec:
  assumes rep: "wd_rep s xs fr"
  shows "(p, d) \<in> set xs \<Longrightarrow> wd_gettime p s = Some d"
    and "p \<notin> fst ` set xs \<Longrightarrow> p = NULL \<or> wdogs s p \<noteq> None \<Longrightarrow> wd_gettime p s = Some 0"
proof -
  assume "(p, d) \<in> set xs"
  then obtain as bs where xs: "xs = as @ (p, d) # bs" by (meson split_list)
  have "p \<in> fst ` set xs" by (simp add: xs)
  with rep obtain w where w: "wdogs s p = Some w" "WDOG_ISACTIVE w" by (rule wd_rep_active)
  have "p \<notin> fst ` set as" using wd_repD(7) [OF rep] by (auto simp: xs)
  then have "wd_sum s p 0 (sq_head (g_wdactivelist s)) = Some d"
    using wd_repD(1,4) [OF rep] by (intro wd_sum_path [of s _ as p d bs]) (auto simp: xs sq_rep_def)
  with w wd_rep_wdog(3,4) [OF rep w(1)] show "wd_gettime p s = Some d" by (simp add: wd_gettime_def)
next
  assume "p \<notin> fst ` set xs" "p = NULL \<or> wdogs s p \<noteq> None"
  then show "wd_gettime p s = Some 0"
    using wd_rep_wdog [OF rep, of p] by (auto simp: wd_gettime_def)
qed

section \<open>Cancelling\<close>

lemma wd_find_path:
  "sq_path (wdnext s) p (as @ x # bs) n \<Longrightarrow> x \<notin> set as \<Longrightarrow>
   wd_find s x prev p = Some (if as = [] then prev else last as, x)"
proof (induction as arbitrary: p prev)
  case Nil
  then show ?case by (subst wd_find.simps) auto
next
  case (Cons a as)
  then show ?case by (subst wd_find.simps) (auto simp: get_next_def sq_get_def)
qed

lemma add_lag_shift:
  assumes "wdogs s p = Some w" "p \<noteq> NULL" "lag w + k = d - t" "0 \<le> d - t" "d - t < 2 ^ 31"
  shows "add_lag p k s = Some (s\<lparr>wdogs := wd_shift ((p, d) # bs) t (wdogs s)\<rparr>)"
  using assms by (simp add: add_lag_def upd_wdog_def get_wdog_def wd_shift_def s32_id)

lemma wd_shift_same: "x \<notin> fst ` set bs \<Longrightarrow> wd_shift bs t m x = m x"
  by (cases bs) (auto simp: wd_shift_def split: prod.split)

lemma wd_shift_active: "wd_shift bs t m p = Some w \<Longrightarrow> \<exists>v. m p = Some v \<and> WDOG_ISACTIVE w = WDOG_ISACTIVE v"
  by (cases bs) (auto simp: wd_shift_def split: prod.splits if_splits)

text \<open>Taking a watchdog out of the active list and handing its lag to the next one.\<close>

lemma wd_rep_remove:
  assumes rep: "wd_rep s (as @ (x, d) # bs) fr" and w: "wdogs s x = Some w"
    and m: "wdogs s' = (wd_shift bs (last_time 0 as) (wdogs s))(x \<mapsto> WDOG_CLRACTIVE w)"
    and q: "sq_rep (wdnext s') (g_wdactivelist s') (map fst (as @ bs))"
    and f: "dq_frame (fst ` set (as @ (x, d) # bs)) (wdnext s) (wdnext s')"
    and e: "g_wdfreelist s' = g_wdfreelist s" "g_wdnfree s' = g_wdnfree s"
  shows "wd_rep s' (as @ bs) fr \<and> wd_kept {x} (wdogs s) (wdogs s')"
proof
  have d: "distinct (map fst (as @ (x, d) # bs))" and x: "x \<notin> fst ` set as" "x \<notin> fst ` set bs"
    using wd_repD(7) [OF rep] by auto
  show k: "wd_kept {x} (wdogs s) (wdogs s')" unfolding m
    by (rule wd_kept_upd [OF wd_kept_shift, where v = w]) (simp_all add: wd_shift_same x w)
  have l: "wd_lags (wdogs s') 0 (as @ bs)" unfolding m
    using wd_lags_remove [of "wdogs s" 0 as "[(x, d)]" bs] wd_repD(4) [OF rep] d x
    by (simp add: image_Un)
  show "wd_rep s' (as @ bs) fr"
  proof (rule wd_repI [OF rep k q f _ l _ _ e])
    show "fst ` set (as @ (x, d) # bs) \<inter> set fr = {}" using wd_repD(3) [OF rep] .
    then show "fst ` set (as @ bs) \<inter> set fr = {}" by auto
    fix p v
    assume v: "wdogs s' p = Some v"
    show "WDOG_ISACTIVE v \<longleftrightarrow> p \<in> fst ` set (as @ bs)"
    proof (cases "p = x")
      case True
      with v x show ?thesis by (auto simp: m)
    next
      case False
      with v obtain u where u: "wdogs s p = Some u" "WDOG_ISACTIVE v = WDOG_ISACTIVE u"
        by (auto simp: m dest: wd_shift_active)
      with wd_rep_wdog(1) [OF rep u(1)] False show ?thesis by auto
    qed
  qed
qed

lemma wd_rep_split:
  assumes rep: "wd_rep s (as @ (x, d) # bs) fr"
  shows "\<exists>w. wdogs s x = Some w \<and> WDOG_ISACTIVE w \<and> lag w = d - last_time 0 as \<and> get_wdog s x = Some w"
    and "get_next s x = Some (first_ptr (map fst bs))" "x \<noteq> NULL" "last_time 0 as \<le> d" "d < 2 ^ 31" "0 \<le> last_time 0 as"
proof -
  have l: "wd_lags (wdogs s) 0 as" "wd_lags (wdogs s) (last_time 0 as) ((x, d) # bs)"
    using wd_repD(4) [OF rep] by (simp_all add: wd_lags_append')
  then obtain w where w: "wdogs s x = Some w" "lag w = d - last_time 0 as" by auto
  from rep w wd_rep_wdog [OF rep w(1)]
  show "\<exists>w. wdogs s x = Some w \<and> WDOG_ISACTIVE w \<and> lag w = d - last_time 0 as \<and> get_wdog s x = Some w" by auto
  show "x \<noteq> NULL" using wd_rep_wdog(3) [OF rep w(1)] .
  show "get_next s x = Some (first_ptr (map fst bs))"
    using sq_rep_split [of "wdnext s" "g_wdactivelist s" "map fst as" x "map fst bs"] wd_repD(1) [OF rep]
    by (simp add: get_next_def sq_get_def)
  show "last_time 0 as \<le> d" "d < 2 ^ 31" using l(2) by auto
  show "0 \<le> last_time 0 as" using wd_lags_last_time [OF l(1)] .
qed

lemma wd_cancel_shift:
  assumes rep: "wd_rep s (as @ (x, d) # bs) fr" and eq: "wdogs s1 = wdogs s"
  shows "(if first_ptr (map fst bs) \<noteq> NULL then add_lag (first_ptr (map fst bs)) (d - last_time 0 as) s1 else Some s1)
    = Some (s1\<lparr>wdogs := wd_shift bs (last_time 0 as) (wdogs s)\<rparr>)"
proof (cases bs)
  case Nil
  then show ?thesis by (simp add: wd_shift_def eq [symmetric])
next
  case (Cons b cs)
  obtain p e where b: "b = (p, e)" by fastforce
  have rep': "wd_rep s ((as @ [(x, d)]) @ (p, e) # cs) fr" using rep by (simp add: Cons b)
  from wd_rep_split [OF rep'] obtain w where "wdogs s p = Some w" "lag w = e - d" "p \<noteq> NULL" "d \<le> e" "e < 2 ^ 31" by auto
  with wd_rep_split(4,6) [OF rep] show ?thesis
    using add_lag_shift [of s1 p w "d - last_time 0 as" e "last_time 0 as" cs] by (simp add: Cons b eq)
qed

lemma wd_cancel_spec:
  assumes rep: "wd_rep s (as @ (x, d) # bs) fr"
  shows "\<exists>s'. wd_cancel x s = Some (0, s') \<and> wd_rep s' (as @ bs) fr \<and> wd_kept {x} (wdogs s) (wdogs s') \<and>
     wframe s s' \<and> wdnext s' x = Some NULL \<and> map_option parm (wdogs s' x) = map_option parm (wdogs s x)"
proof -
  note sp = wd_rep_split [OF rep]
  then obtain w where w: "wdogs s x = Some w" "WDOG_ISACTIVE w" "lag w = d - last_time 0 as" "get_wdog s x = Some w" by auto
  define s1 where "s1 = s\<lparr>wdogs := wd_shift bs (last_time 0 as) (wdogs s)\<rparr>"
  have q: "sq_rep (wdnext s) (g_wdactivelist s) (map fst as @ x # map fst bs)" using wd_repD(1) [OF rep] by simp
  have xs: "x \<notin> fst ` set as" "x \<notin> fst ` set bs" using wd_repD(7) [OF rep] by auto
  have fnd: "wd_find s x NULL (sq_head (g_wdactivelist s)) = Some (if as = [] then NULL else fst (last as), x)"
    using wd_find_path [of s "sq_head (g_wdactivelist s)" "map fst as" x "map fst bs" NULL NULL] q xs(1)
    by (cases "as = []") (simp_all add: sq_rep_def last_map)
  let ?prev = "if as = [] then NULL else fst (last as)"
  have "\<exists>q m. (if ?prev \<noteq> NULL then wd_remafter ?prev s1 else wd_remfirst s1)
        = Some (x, s1\<lparr>g_wdactivelist := q, wdnext := m\<rparr>) \<and>
      sq_rep m q (map fst (as @ bs)) \<and>
      dq_frame (fst ` set (as @ (x, d) # bs)) (wdnext s) m \<and> m x = Some NULL"
  proof (cases "as = []")
    case True
    with sq_remfirst_spec [of "wdnext s" "g_wdactivelist s" x "map fst bs"] q show ?thesis
      by (auto simp: wd_remfirst_def wd_queue_def s1_def) blast
  next
    case False
    then obtain ys l where l: "as = ys @ [l]" by (metis rev_exhaust)
    have "fst l \<noteq> NULL" using sq_rep_NULL [OF q] by (auto simp: l)
    with sq_remafter_spec [of "wdnext s" "g_wdactivelist s" "map fst ys" "fst l" x "map fst bs"] q show ?thesis
      by (auto simp: wd_remafter_def wd_queue_def s1_def l insert_commute image_Un) blast
  qed
  then obtain q' m' where s2: "(if ?prev \<noteq> NULL then wd_remafter ?prev s1 else wd_remfirst s1)
        = Some (x, s1\<lparr>g_wdactivelist := q', wdnext := m'\<rparr>)"
      "sq_rep m' q' (map fst (as @ bs))" "dq_frame (fst ` set (as @ (x, d) # bs)) (wdnext s) m'" "m' x = Some NULL"
    by blast
  have nx: "m'(x \<mapsto> NULL) = m'" using s2(4) by auto
  define s3 where "s3 = s1\<lparr>wdogs := (wdogs s1)(x \<mapsto> WDOG_CLRACTIVE w), g_wdactivelist := q', wdnext := m'\<rparr>"
  have "wdogs s1 x = Some w" using w(1) wd_shift_same [OF xs(2)] by (simp add: s1_def)
  moreover have "as \<noteq> [] \<Longrightarrow> fst (last as) \<noteq> NULL"
    using sq_rep_NULL [OF q] last_in_set [of as] by (metis Un_iff image_eqI set_append set_map)
  moreover have "bs \<noteq> [] \<Longrightarrow> first_ptr (map fst bs) \<noteq> NULL"
    using sq_rep_NULL [OF q] by (simp add: first_ptr_NULL)
  ultimately have c: "wd_cancel x s = Some (0, s3)"
    using w(2-4) fnd sp(2,3) wd_cancel_shift [OF rep refl, folded s1_def] s2(1,4) nx
    by (cases "as = []"; cases "bs = []")
      (simp_all add: wd_cancel_def debugassert_def set_next_def sq_set_def sq_valid_def
        upd_wdog_def get_wdog_def [of "s1\<lparr>g_wdactivelist := q', wdnext := m'\<rparr>"] s3_def)
  have "wd_rep s3 (as @ bs) fr \<and> wd_kept {x} (wdogs s) (wdogs s3)"
    by (rule wd_rep_remove [OF rep w(1)]) (use s2 in \<open>simp_all add: s3_def s1_def\<close>)
  with c s2(4) w(1) show ?thesis by (auto simp: s3_def s1_def)
qed

lemma wd_cancel_inactive:
  assumes rep: "wd_rep s xs fr" and p: "p \<notin> fst ` set xs" "p = NULL \<or> wdogs s p \<noteq> None"
  shows "wd_cancel p s = Some (- EINVAL, s)"
  using p wd_rep_wdog [OF rep, of p] by (auto simp: wd_cancel_def)

text \<open>Both cases: cancelling takes the watchdog out of the abstract list.\<close>

definition drop_timer :: "addr \<Rightarrow> timers \<Rightarrow> timers" where
  "drop_timer p xs = filter (\<lambda>x. fst x \<noteq> p) xs"

lemma drop_timer_split:
  assumes "distinct (map fst (as @ (p, d) # bs))"
  shows "drop_timer p (as @ (p, d) # bs) = as @ bs"
proof -
  have "p \<notin> fst ` set as" "p \<notin> fst ` set bs" using assms by auto
  then have "\<forall>x \<in> set as. fst x \<noteq> p" "\<forall>x \<in> set bs. fst x \<noteq> p" by auto
  then show ?thesis by (simp add: drop_timer_def)
qed

lemma drop_timer_id: "p \<notin> fst ` set xs \<Longrightarrow> drop_timer p xs = xs"
  unfolding drop_timer_def by (rule filter_True) auto

lemma set_drop_timer [simp]: "set (drop_timer p xs) = {x \<in> set xs. fst x \<noteq> p}"
  by (simp add: drop_timer_def)

lemma wd_cancel_refines:
  assumes rep: "wd_rep s xs fr" and p: "wdogs s p \<noteq> None"
  shows "\<exists>s' r. wd_cancel p s = Some (r, s') \<and> wd_rep s' (drop_timer p xs) fr \<and>
     wd_kept {p} (wdogs s) (wdogs s') \<and> wframe s s' \<and> r = (if p \<in> fst ` set xs then 0 else - EINVAL) \<and>
     map_option parm (wdogs s' p) = map_option parm (wdogs s p)"
proof (cases "p \<in> fst ` set xs")
  case True
  then obtain as bs d where xs: "xs = as @ (p, d) # bs" by (metis imageE prod.collapse split_list)
  with wd_cancel_spec [of s as p d bs fr] rep wd_repD(7) [OF rep] True show ?thesis
    by (auto simp: drop_timer_split)
next
  case False
  with wd_cancel_inactive [OF rep] rep p show ?thesis by (auto simp: drop_timer_id)
qed

section \<open>Starting\<close>

definition insert_timer :: "addr \<Rightarrow> int \<Rightarrow> timers \<Rightarrow> timers" where
  "insert_timer p d xs = takeWhile (\<lambda>x. snd x \<le> d) xs @ (p, d) # dropWhile (\<lambda>x. snd x \<le> d) xs"

lemma set_insert_timer [simp]: "set (insert_timer p d xs) = insert (p, d) (set xs)"
  unfolding insert_timer_def by (metis Un_insert_right list.simps(15) set_append takeWhile_dropWhile_id)

lemma wd_advance_shorter_step:
  assumes "sq_path (wdnext s) cur (map fst ((c, now) # (c', t) # xs)) NULL" "wd_lags (wdogs s) now ((c', t) # xs)"
    "0 \<le> now"
  shows "wd_advance_shorter s d now prev cur =
      (if now \<le> d then wd_advance_shorter s d t cur c' else Some (now, prev, cur))"
    and "cur = c" "sq_path (wdnext s) c' (map fst ((c', t) # xs)) NULL" "wd_lags (wdogs s) t xs" "0 \<le> t"
proof -
  from assms have h: "cur = c" "c \<noteq> NULL" "wdnext s c = Some c'" "c' \<noteq> NULL" "now \<le> t" "t < 2 ^ 31" by auto
  from assms obtain w where w: "wdogs s c' = Some w" "lag w = t - now" by auto
  show "wd_advance_shorter s d now prev cur =
      (if now \<le> d then wd_advance_shorter s d t cur c' else Some (now, prev, cur))"
    using h w assms(3) by (subst wd_advance_shorter.simps) (simp add: get_next_def sq_get_def get_wdog_def s32_id)
qed (use assms in auto)

lemma wd_advance_shorter_mid:
  "sq_path (wdnext s) cur (map fst ((c, now) # as @ (b, e) # bs)) NULL \<Longrightarrow>
   wd_lags (wdogs s) now (as @ (b, e) # bs) \<Longrightarrow> 0 \<le> now \<Longrightarrow>
   \<forall>x \<in> set ((c, now) # as). snd x \<le> d \<Longrightarrow> d < e \<Longrightarrow>
   wd_advance_shorter s d now prev cur = Some (e, fst (last ((c, now) # as)), b)"
proof (induction as arbitrary: c now prev cur)
  case Nil
  then have p: "sq_path (wdnext s) cur (map fst ((c, now) # (b, e) # bs)) NULL"
    "wd_lags (wdogs s) now ((b, e) # bs)" "0 \<le> now" by simp_all
  note st = wd_advance_shorter_step [OF this]
  have "wd_advance_shorter s d e cur b = Some (e, cur, b)"
    using st(3) Nil.prems(5) by (subst wd_advance_shorter.simps) (auto simp: get_next_def sq_get_def)
  with st(1,2) Nil.prems(4) show ?case by simp
next
  case (Cons x as)
  obtain c' t where x: "x = (c', t)" by fastforce
  note st = wd_advance_shorter_step [OF Cons.prems(1-3) [unfolded x append_Cons]]
  from Cons.IH [OF st(3-5), of cur] Cons.prems(4,5) st(1,2) show ?case by (simp add: x)
qed

lemma wd_advance_shorter_end:
  "sq_path (wdnext s) cur (map fst ((c, now) # as)) NULL \<Longrightarrow> wd_lags (wdogs s) now as \<Longrightarrow> 0 \<le> now \<Longrightarrow>
   \<forall>x \<in> set ((c, now) # as). snd x \<le> d \<Longrightarrow>
   \<exists>pr. wd_advance_shorter s d now prev cur = Some (last_time now as, pr, fst (last ((c, now) # as)))"
proof (induction as arbitrary: c now prev cur)
  case Nil
  then show ?case by (subst wd_advance_shorter.simps) (auto simp: get_next_def sq_get_def)
next
  case (Cons x as)
  obtain c' t where x: "x = (c', t)" by fastforce
  note st = wd_advance_shorter_step [OF Cons.prems(1-3) [unfolded x]]
  from Cons.IH [OF st(3-5), of cur] Cons.prems(4) st(1,2) show ?case by (simp add: x)
qed

text \<open>The state after the insertion, in terms of the list.\<close>

lemma wd_rep_insert:
  assumes rep: "wd_rep s (as @ bs) fr" and p: "wdogs s p = Some w" "p \<notin> fst ` set (as @ bs)" "p \<notin> set fr"
    and d: "last_time 0 as \<le> d" "d < 2 ^ 31" "bs = [] \<or> d \<le> snd (hd bs)"
    and m: "wdogs s' = (wd_shift bs d (wdogs s))(p \<mapsto> WDOG_SETACTIVE (w\<lparr>lag := d - last_time 0 as\<rparr>))"
    and q: "sq_rep (wdnext s') (g_wdactivelist s') (map fst (as @ (p, d) # bs))"
    and f: "dq_frame (insert p (fst ` set (as @ bs))) (wdnext s) (wdnext s')"
    and e: "g_wdfreelist s' = g_wdfreelist s" "g_wdnfree s' = g_wdnfree s"
  shows "wd_rep s' (as @ (p, d) # bs) fr \<and> wd_kept {p} (wdogs s) (wdogs s')"
proof
  have pb: "p \<notin> fst ` set bs" using p(2) by auto
  show k: "wd_kept {p} (wdogs s) (wdogs s')" unfolding m
    by (rule wd_kept_upd [OF wd_kept_shift, where v = w]) (simp_all add: wd_shift_same [OF pb] p)
  have l: "wd_lags (wdogs s') 0 (as @ (p, d) # bs)" unfolding m
    by (rule wd_lags_insert) (use wd_repD(4,7) [OF rep] p d in simp_all)
  show "wd_rep s' (as @ (p, d) # bs) fr"
  proof (rule wd_repI [OF rep k q f _ l _ _ e])
    show "insert p (fst ` set (as @ bs)) \<inter> set fr = {}" using wd_repD(3) [OF rep] p(3) by auto
    then show "fst ` set (as @ (p, d) # bs) \<inter> set fr = {}" by auto
    fix x v
    assume v: "wdogs s' x = Some v"
    show "WDOG_ISACTIVE v \<longleftrightarrow> x \<in> fst ` set (as @ (p, d) # bs)"
    proof (cases "x = p")
      case True
      with v show ?thesis by (auto simp: m)
    next
      case False
      with v obtain u where u: "wdogs s x = Some u" "WDOG_ISACTIVE v = WDOG_ISACTIVE u"
        by (auto simp: m dest: wd_shift_active)
      with wd_rep_wdog(1) [OF rep u(1)] False show ?thesis by auto
    qed
  qed
qed

lemma wd_advance_positive_head:
  assumes rep: "wd_rep s ((c, t) # xs) fr"
  shows "wd_advance_positive s 0 c c = Some (t, c, c)"
proof -
  have "wd_rep s ([] @ (c, t) # xs) fr" using rep by simp
  note sp = wd_rep_split [OF this]
  then show ?thesis by (subst wd_advance_positive.simps) (auto simp: s32_id)
qed

lemma wd_add_specs:
  assumes q: "sq_rep (wdnext s) (g_wdactivelist s) (map fst (as @ bs))" and p: "p \<notin> fst ` set (as @ bs)" "sq_valid (wdnext s) p"
  shows "as = [] \<Longrightarrow> \<exists>q m. wd_addfirst p s = Some (s\<lparr>g_wdactivelist := q, wdnext := m\<rparr>) \<and>
      sq_rep m q (map fst (as @ (p, d) # bs)) \<and> dq_frame (insert p (fst ` set (as @ bs))) (wdnext s) m"
    and "bs = [] \<Longrightarrow> \<exists>q m. wd_addlast p s = Some (s\<lparr>g_wdactivelist := q, wdnext := m\<rparr>) \<and>
      sq_rep m q (map fst (as @ (p, d) # bs)) \<and> dq_frame (insert p (fst ` set (as @ bs))) (wdnext s) m"
    and "as \<noteq> [] \<Longrightarrow> \<exists>q m. wd_addafter (fst (last as)) p s = Some (s\<lparr>g_wdactivelist := q, wdnext := m\<rparr>) \<and>
      sq_rep m q (map fst (as @ (p, d) # bs)) \<and> dq_frame (insert p (fst ` set (as @ bs))) (wdnext s) m"
proof -
  assume "as = []"
  with sq_addfirst_spec [OF q _ p(2)] p(1) show "\<exists>q m. wd_addfirst p s = Some (s\<lparr>g_wdactivelist := q, wdnext := m\<rparr>) \<and>
      sq_rep m q (map fst (as @ (p, d) # bs)) \<and> dq_frame (insert p (fst ` set (as @ bs))) (wdnext s) m"
    by (auto simp: wd_addfirst_def wd_queue_def)
next
  assume "bs = []"
  with sq_addlast_spec [OF q _ p(2)] p(1) show "\<exists>q m. wd_addlast p s = Some (s\<lparr>g_wdactivelist := q, wdnext := m\<rparr>) \<and>
      sq_rep m q (map fst (as @ (p, d) # bs)) \<and> dq_frame (insert p (fst ` set (as @ bs))) (wdnext s) m"
    by (auto simp: wd_addlast_def wd_queue_def)
next
  assume "as \<noteq> []"
  then obtain ys l where l: "as = ys @ [l]" by (metis rev_exhaust)
  with sq_addafter_spec [of "wdnext s" "g_wdactivelist s" "map fst ys" "fst l" "map fst bs" p] q p
  show "\<exists>q m. wd_addafter (fst (last as)) p s = Some (s\<lparr>g_wdactivelist := q, wdnext := m\<rparr>) \<and>
      sq_rep m q (map fst (as @ (p, d) # bs)) \<and> dq_frame (insert p (fst ` set (as @ bs))) (wdnext s) m"
    by (auto simp: wd_addafter_def wd_queue_def image_Un)
qed

definition inserted :: "addr \<Rightarrow> int \<Rightarrow> timers \<Rightarrow> timers \<Rightarrow> 'a wdstate_scheme \<Rightarrow> bool" where
  "inserted p d as bs s \<longleftrightarrow>
     (\<exists>q m. wd_insert p d s =
         Some (d - last_time 0 as, s\<lparr>wdogs := wd_shift bs d (wdogs s), g_wdactivelist := q, wdnext := m\<rparr>) \<and>
       sq_rep m q (map fst (as @ (p, d) # bs)) \<and> dq_frame (insert p (fst ` set (as @ bs))) (wdnext s) m)"

lemma wd_insert_before:
  assumes rep: "wd_rep s (as @ (b, e) # bs) fr" and p: "wdogs s p \<noteq> None" "p \<notin> fst ` set (as @ (b, e) # bs)"
    and d: "last_time 0 as \<le> d" "d < e" "\<forall>x \<in> set as. snd x \<le> d"
  shows "inserted p d as ((b, e) # bs) s"
proof -
  note sp = wd_rep_split [OF rep]
  then obtain w where w: "wdogs s b = Some w" "lag w = e - last_time 0 as" "get_wdog s b = Some w" by auto
  have q: "sq_rep (wdnext s) (g_wdactivelist s) (map fst (as @ (b, e) # bs))" using wd_repD(1) [OF rep] .
  have v: "sq_valid (wdnext s) p" using p(1) wd_rep_wdog(5) [OF rep] by auto
  define s1 where "s1 = s\<lparr>wdogs := wd_shift ((b, e) # bs) d (wdogs s)\<rparr>"
  have lag: "add_lag b (last_time 0 as - d) s = Some s1"
    unfolding s1_def using w sp(3-6) d by (intro add_lag_shift [where w = w]) (simp_all, linarith?)
  have n: "s32 (e - lag w) = last_time 0 as" "s32 (d - last_time 0 as) = d - last_time 0 as"
    using w sp(4-6) d by (simp_all add: s32_id)
  have q1: "sq_rep (wdnext s1) (g_wdactivelist s1) (map fst (as @ (b, e) # bs))" "sq_valid (wdnext s1) p"
    using q v by (simp_all add: s1_def)
  note add = wd_add_specs [OF q1(1) p(2) q1(2), where d = d]
  show ?thesis
  proof (cases as)
    case Nil
    have h: "sq_head (g_wdactivelist s) = b" using sq_rep_head [OF q] by (simp add: Nil)
    have "wd_advance_shorter s d e b b = Some (e, b, b)"
      using sp(2) d(2) by (subst wd_advance_shorter.simps) simp
    moreover have "wd_advance_positive s 0 b b = Some (e, b, b)"
      using wd_advance_positive_head rep by (simp add: Nil)
    ultimately show ?thesis
      using add(1) [OF Nil] h lag n w(3) sp(3) d(2) by (auto simp: inserted_def wd_insert_def Nil s1_def) blast
  next
    case (Cons a as')
    obtain c t where a: "a = (c, t)" by fastforce
    have h: "sq_head (g_wdactivelist s) = c" "c \<noteq> NULL" "c \<noteq> b"
      using sq_rep_head [OF q] sq_rep_NULL [OF q] sq_rep_distinct [OF q] by (auto simp: Cons a)
    have l: "wd_lags (wdogs s) t (as' @ (b, e) # bs)" "0 \<le> t" using wd_repD(4) [OF rep] by (auto simp: Cons a)
    have "wd_advance_positive s 0 c c = Some (t, c, c)"
      using wd_advance_positive_head rep by (simp add: Cons a)
    moreover have "wd_advance_shorter s d t c c = Some (e, fst (last as), b)"
      using wd_advance_shorter_mid [of s c c t as' b e bs d c] q l d by (simp add: Cons a sq_rep_def)
    ultimately show ?thesis
      using add(3) h lag n w(3) d(2) by (auto simp: inserted_def wd_insert_def Cons s1_def; blast)
  qed
qed

lemma wd_insert_end:
  assumes rep: "wd_rep s as fr" and p: "wdogs s p \<noteq> None" "p \<notin> fst ` set as"
    and d: "0 \<le> d" "d < 2 ^ 31" "\<forall>x \<in> set as. snd x \<le> d"
  shows "inserted p d as [] s"
proof -
  have q: "sq_rep (wdnext s) (g_wdactivelist s) (map fst (as @ []))" using wd_repD(1) [OF rep] by simp
  have v: "sq_valid (wdnext s) p" using p(1) wd_rep_wdog(5) [OF rep] by auto
  have p': "p \<notin> fst ` set (as @ [])" using p(2) by simp
  from wd_add_specs(2) [OF q p' v refl] obtain q' m where
    add: "wd_addlast p s = Some (s\<lparr>g_wdactivelist := q', wdnext := m\<rparr>)" "sq_rep m q' (map fst (as @ [(p, d)]))"
      "dq_frame (insert p (fst ` set (as @ []))) (wdnext s) m" by auto
  show ?thesis
  proof (cases as)
    case Nil
    with sq_rep_head [OF q] have "sq_head (g_wdactivelist s) = NULL" by simp
    with add show ?thesis unfolding inserted_def wd_insert_def by (simp add: Nil wd_shift_def) blast
  next
    case (Cons a as')
    obtain c t where a: "a = (c, t)" by fastforce
    have h: "sq_head (g_wdactivelist s) = c" "c \<noteq> NULL"
      using sq_rep_head [OF q] sq_rep_NULL [OF q] by (auto simp: Cons a)
    have l: "wd_lags (wdogs s) t as'" "0 \<le> t" using wd_repD(4) [OF rep] by (auto simp: Cons a)
    have 1: "wd_advance_positive s 0 c c = Some (t, c, c)"
      using wd_advance_positive_head rep by (simp add: Cons a)
    obtain pr where 2: "wd_advance_shorter s d t c c = Some (last_time 0 as, pr, fst (last as))"
      using wd_advance_shorter_end [of s c c t as' d c] q l d by (auto simp: Cons a sq_rep_def)
    have as: "butlast as @ (fst (last as), snd (last as)) # [] = as" using Cons by simp
    have 3: "get_next s (fst (last as)) = Some NULL"
      using wd_rep_split(2) [of s "butlast as" "fst (last as)" "snd (last as)" "[]" fr] rep unfolding as by simp
    have "last_time 0 as = snd (last as)" "last as \<in> set as" using Cons by (simp_all add: last_time_def)
    with d wd_lags_sorted [OF wd_repD(4) [OF rep]] have 4: "last_time 0 as \<le> d" "0 \<le> last_time 0 as" by auto
    then have 5: "s32 (d - last_time 0 as) = d - last_time 0 as" using d by (simp add: s32_id)
    show ?thesis unfolding inserted_def wd_insert_def
      using h 1 2 3 4 5 add by (simp add: wd_shift_def Let_def) blast
  qed
qed

lemma wd_insert_spec:
  assumes rep: "wd_rep s xs fr" and p: "wdogs s p \<noteq> None" "p \<notin> fst ` set xs" and d: "0 \<le> d" "d < 2 ^ 31"
  shows "inserted p d (takeWhile (\<lambda>x. snd x \<le> d) xs) (dropWhile (\<lambda>x. snd x \<le> d) xs) s"
proof -
  define as bs where ab: "as = takeWhile (\<lambda>x. snd x \<le> d) xs" "bs = dropWhile (\<lambda>x. snd x \<le> d) xs"
  then have xs: "xs = as @ bs" and le: "\<forall>x \<in> set as. snd x \<le> d" by (auto dest: set_takeWhileD)
  have lt: "last_time 0 as \<le> d" using le d last_in_set [of as] by (auto simp: last_time_def)
  show ?thesis unfolding ab [symmetric]
  proof (cases bs)
    case Nil
    with wd_insert_end [of s as fr p d] rep p d le show "inserted p d as bs s" by (simp add: xs)
  next
    case (Cons b cs)
    have "\<not> snd b \<le> d" using ab(2) Cons by (metis dropWhile_eq_Cons_conv)
    with wd_insert_before [of s as "fst b" "snd b" cs fr p d] rep p le lt show "inserted p d as bs s"
      by (simp add: xs Cons)
  qed
qed

lemma insert_timer_pos:
  "0 \<le> e \<Longrightarrow> last_time 0 (takeWhile (\<lambda>x. snd x \<le> e) xs) \<le> e"
  "dropWhile (\<lambda>x. snd x \<le> e) xs = [] \<or> e \<le> snd (hd (dropWhile (\<lambda>x. snd x \<le> e) xs))"
proof -
  show "0 \<le> e \<Longrightarrow> last_time 0 (takeWhile (\<lambda>x. snd x \<le> e) xs) \<le> e"
    using set_takeWhileD [of _ "\<lambda>x. snd x \<le> e" xs] last_in_set [of "takeWhile (\<lambda>x. snd x \<le> e) xs"]
    by (simp add: last_time_def)
  show "dropWhile (\<lambda>x. snd x \<le> e) xs = [] \<or> e \<le> snd (hd (dropWhile (\<lambda>x. snd x \<le> e) xs))"
    using hd_dropWhile [of "\<lambda>x. snd x \<le> e" xs] by (metis dropWhile_eq_Nil_conv linorder_le_cases)
qed

lemma wd_tick_delay_eq:
  "0 \<le> d \<Longrightarrow> d < 2 ^ 31 \<Longrightarrow> wd_tick_delay d = min (d + 1) (2 ^ 31 - 1)"
  by (cases "d = 2 ^ 31 - 1") (auto simp: wd_tick_delay_def s32_id, simp_all add: s32_def)

lemma upd_wdog_some: "wdogs s p = Some w \<Longrightarrow> p \<noteq> NULL \<Longrightarrow> upd_wdog p f s = Some (s\<lparr>wdogs := (wdogs s)(p \<mapsto> f w)\<rparr>)"
  by (simp add: upd_wdog_def get_wdog_def)

text \<open>A change of an inactive watchdog that keeps its flags.\<close>

lemma wd_rep_inactive:
  assumes rep: "wd_rep s xs fr" and p: "wdogs s p = Some w" "p \<notin> fst ` set xs"
    and w: "wdflags w' = wdflags w" "length (parm w') = length (parm w)"
  shows "wd_rep (s\<lparr>wdogs := (wdogs s)(p \<mapsto> w')\<rparr>) xs fr" "wd_kept {p} (wdogs s) ((wdogs s)(p \<mapsto> w'))"
proof -
  have fl: "WDOG_ISACTIVE w' = WDOG_ISACTIVE w" "WDOG_ISALLOCED w' = WDOG_ISALLOCED w" "WDOG_ISSTATIC w' = WDOG_ISSTATIC w"
    using w(1) by (simp_all add: wdog_flags)
  show k: "wd_kept {p} (wdogs s) ((wdogs s)(p \<mapsto> w'))"
    by (rule wd_kept_upd [where v = w]) (simp_all add: p w fl)
  show "wd_rep (s\<lparr>wdogs := (wdogs s)(p \<mapsto> w')\<rparr>) xs fr"
    by (rule wd_repI [OF rep, where T = "{}" and S = "{p}"])
      (use k p fl wd_repD [OF rep] wd_rep_wdog(1) [OF rep] in \<open>auto split: if_splits\<close>)
qed

lemma wd_start_spec:
  assumes rep: "wd_rep s xs fr" and p: "wdogs s p = Some w" "p \<notin> set fr" and d: "0 \<le> d" "d < 2 ^ 31"
    and a: "nat argc \<le> length args" "argc \<le> int CONFIG_MAX_WDOGPARMS"
  shows "\<exists>s' w'. wd_start p d f argc args s = Some (0, s') \<and>
     wd_rep s' (insert_timer p (min (d + 1) (2 ^ 31 - 1)) (drop_timer p xs)) fr \<and>
     wd_kept {p} (wdogs s) (wdogs s') \<and> wframe s s' \<and>
     wdogs s' p = Some w' \<and> wdfunc w' = f \<and> wdargc w' = word_of_int argc \<and>
     parm w' = take (nat argc) args @ drop (nat argc) (parm w)"
proof -
  let ?d = "min (d + 1) (2 ^ 31 - 1)" and ?ys = "drop_timer p xs"
  have n: "p \<noteq> NULL" using wd_rep_wdog(3) [OF rep p(1)] .
  have act: "WDOG_ISACTIVE w \<longleftrightarrow> p \<in> fst ` set xs" using wd_rep_wdog(1) [OF rep p(1)] .
  obtain s1 r where c: "wd_cancel p s = Some (r, s1)" "wd_rep s1 ?ys fr" "wd_kept {p} (wdogs s) (wdogs s1)" "wframe s s1"
      "map_option parm (wdogs s1 p) = map_option parm (wdogs s p)"
    using wd_cancel_refines [OF rep, of p] p(1) by auto
  define s2 where "s2 = (if WDOG_ISACTIVE w then s1 else s)"
  have s2: "(if WDOG_ISACTIVE w then do { (_, s) \<leftarrow> wd_cancel p s; Some s } else Some s) = Some s2"
    "wd_rep s2 ?ys fr" "wd_kept {p} (wdogs s) (wdogs s2)" "wframe s s2"
    using c act rep by (auto simp: s2_def drop_timer_id)
  have ny: "p \<notin> fst ` set ?ys" by auto
  have "\<exists>u. wdogs s2 p = Some u \<and> parm u = parm w" using c(5) p(1) by (auto simp: s2_def)
  then obtain u where u: "wdogs s2 p = Some u" "parm u = parm w" by blast
  define u' where "u' = u\<lparr>wdfunc := f, wdargc := word_of_int argc, parm := take (nat argc) args @ drop (nat argc) (parm u)\<rparr>"
  define s3 where "s3 = s2\<lparr>wdogs := (wdogs s2)(p \<mapsto> u')\<rparr>"
  have lp: "length (parm u) = CONFIG_MAX_WDOGPARMS" using wd_rep_wdog(2) [OF s2(2) u(1)] .
  have "wdflags u' = wdflags u" "length (parm u') = length (parm u)"
    using a lp by (simp_all add: u'_def) linarith?
  from wd_rep_inactive [OF s2(2) u(1) ny this] have s3: "wd_rep s3 ?ys fr" "wd_kept {p} (wdogs s2) (wdogs s3)"
    by (simp_all add: s3_def)
  have w3: "wdogs s3 p = Some u'" by (simp add: s3_def)
  define e where "e = min (d + 1) (2 ^ 31 - 1)"
  have e: "0 \<le> e" "e < 2 ^ 31" using d by (simp_all add: e_def)
  define as bs where ab: "as = takeWhile (\<lambda>x. snd x \<le> e) ?ys" "bs = dropWhile (\<lambda>x. snd x \<le> e) ?ys"
  have ys: "?ys = as @ bs" using ab by simp
  with ny have nb: "p \<notin> fst ` set bs" by (simp add: image_Un)
  have lt: "last_time 0 as \<le> e" "bs = [] \<or> e \<le> snd (hd bs)" unfolding ab using insert_timer_pos e(1) by blast+
  obtain q m where i: "wd_insert p e s3 =
         Some (e - last_time 0 as, s3\<lparr>wdogs := wd_shift bs e (wdogs s3), g_wdactivelist := q, wdnext := m\<rparr>)"
       "sq_rep m q (map fst (as @ (p, e) # bs))" "dq_frame (insert p (fst ` set (as @ bs))) (wdnext s3) m"
    using wd_insert_spec [OF s3(1) _ ny e] w3 unfolding ab [symmetric] inserted_def by auto
  define u4 where "u4 = WDOG_SETACTIVE (u'\<lparr>lag := e - last_time 0 as\<rparr>)"
  define s4 where "s4 = s3\<lparr>wdogs := (wd_shift bs e (wdogs s3))(p \<mapsto> u4), g_wdactivelist := q, wdnext := m\<rparr>"
  have r4: "wd_rep s4 (as @ (p, e) # bs) fr \<and> wd_kept {p} (wdogs s3) (wdogs s4)"
    by (rule wd_rep_insert [of s3 as bs fr p u'])
      (use s3(1) ys w3 ny p(2) lt e i in \<open>simp_all add: s4_def u4_def\<close>)
  have up: "upd_wdog p (\<lambda>v. v\<lparr>wdfunc := f, wdargc := word_of_int argc,
      parm := take (nat argc) args @ drop (nat argc) (parm w)\<rparr>) s2 = Some s3"
    by (simp add: upd_wdog_some [OF u(1) n] s3_def u'_def u(2))
  have 1: "wd_start p d f argc args s = Some (0, s4)"
    using n up d a p(1) s2(1) u i(1) wd_rep_wdog(4) [OF rep p(1)] wd_rep_wdog(4) [OF s2(2) u(1)]
      wd_tick_delay_eq [OF d, folded e_def] wd_shift_same [OF nb, of e "wdogs s3"] w3
    by (simp add: wd_start_def wd_setparms_def upd_wdog_some s4_def u4_def)
  have 2: "wd_rep s4 (insert_timer p e ?ys) fr" using r4 ab by (simp add: insert_timer_def)
  have 3: "wd_kept {p} (wdogs s) (wdogs s4)"
    using s2(3) s3(2) r4 wd_kept_trans by blast
  have "wframe s s4" using s2(4) by (simp add: s4_def s3_def)
  then show ?thesis using 1 2 3 u(2) unfolding e_def by (auto simp: s4_def u4_def u'_def)
qed

section \<open>The timer interrupt\<close>

lemma wd_expire_one_spec:
  assumes rep: "wd_rep s ((p, d) # bs) fr" and w: "wdogs s p = Some w"
  shows "\<exists>s1. wd_rep s1 bs fr \<and> wframe s s1 \<and> wd_kept {p} (wdogs s) (wdogs s1) \<and>
     wd_expire_one call s = do { s' \<leftarrow> wd_call call (WDOG_CLRACTIVE w) s1; Some (p, s') }"
proof -
  have rep': "wd_rep s ([] @ (p, d) # bs) fr" using rep by simp
  note sp = wd_rep_split [OF rep']
  then have w': "lag w = d" "p \<noteq> NULL" using w by auto
  have q: "sq_rep (wdnext s) (g_wdactivelist s) (p # map fst bs)" using wd_repD(1) [OF rep] by simp
  have nb: "p \<notin> fst ` set bs" using wd_repD(7) [OF rep] by auto
  obtain q1 m1 where r: "sq_remfirst (g_wdactivelist s) (wdnext s) = Some (p, q1, m1)" "sq_rep m1 q1 (map fst bs)"
    "dq_frame (set (p # map fst bs)) (wdnext s) m1" using sq_remfirst_spec [OF q] by blast
  define s1 where "s1 = s\<lparr>g_wdactivelist := q1, wdnext := m1\<rparr>"
  have h: "sq_head q1 = first_ptr (map fst bs)" using sq_rep_head [OF r(2)] .
  have sh: "(if first_ptr (map fst bs) \<noteq> NULL then add_lag (first_ptr (map fst bs)) d s1 else Some s1)
    = Some (s1\<lparr>wdogs := wd_shift bs 0 (wdogs s)\<rparr>)"
    by (rule wd_cancel_shift [OF rep', unfolded last_time_simps diff_0_right]) (simp add: s1_def)
  have rf: "wd_remfirst s = Some (p, s1)" using r(1) by (simp add: wd_remfirst_def wd_queue_def s1_def)
  have s1: "wdogs s1 p = Some w" "sq_head (g_wdactivelist s1) = first_ptr (map fst bs)" using w h by (simp_all add: s1_def)
  define s2 where "s2 = s1\<lparr>wdogs := (wd_shift bs 0 (wdogs s))(p \<mapsto> WDOG_CLRACTIVE w)\<rparr>"
  define t where "t = s1\<lparr>wdogs := wd_shift bs 0 (wdogs s)\<rparr>"
  have t: "wdogs t p = Some w" using wd_shift_same [OF nb, of 0 "wdogs s"] w by (simp add: t_def)
  have s2: "s2 = t\<lparr>wdogs := (wdogs t)(p \<mapsto> WDOG_CLRACTIVE w)\<rparr>" by (simp add: s2_def t_def)
  have "wd_rep s2 ([] @ bs) fr \<and> wd_kept {p} (wdogs s) (wdogs s2)"
    by (rule wd_rep_remove [OF rep' w]) (use r in \<open>simp_all add: s2_def s1_def\<close>)
  moreover have "wd_expire_one call s = do { s' \<leftarrow> wd_call call (WDOG_CLRACTIVE w) s2; Some (p, s') }"
    using rf w' sh [folded t_def] s1 t s2
    by (cases "first_ptr (map fst bs) = NULL") (simp_all add: wd_expire_one_def get_wdog_def upd_wdog_def)
  ultimately show ?thesis by (auto simp: s2_def s1_def)
qed

definition tick :: "timers \<Rightarrow> timers" where
  "tick xs = map (\<lambda>x. (fst x, snd x - 1)) xs"

lemma tick_simps [simp]:
  "tick [] = []" "tick ((p, d) # xs) = (p, d - 1) # tick xs" "map fst (tick xs) = map fst xs"
  "tick xs = [] \<longleftrightarrow> xs = []" "fst ` set (tick xs) = fst ` set xs"
  by (simp_all add: tick_def comp_def image_image)

lemma wd_lags_tick: "wd_lags m t xs \<Longrightarrow> wd_lags m (t - 1) (tick xs)"
  by (induction m t xs rule: wd_lags.induct) auto

lemma wd_timer_tick:
  assumes rep: "wd_rep s ((p, d) # xs) fr" and d: "1 \<le> d"
  shows "\<exists>s1. add_lag p (- 1) s = Some s1 \<and> wd_rep s1 (tick ((p, d) # xs)) fr \<and> wframe s s1 \<and>
     wd_kept {} (wdogs s) (wdogs s1) \<and> g_wdactivelist s1 = g_wdactivelist s"
proof -
  have rep': "wd_rep s ([] @ (p, d) # xs) fr" using rep by simp
  note sp = wd_rep_split [OF rep']
  then obtain w where w: "wdogs s p = Some w" "lag w = d" by auto
  let ?s1 = "s\<lparr>wdogs := wd_shift [(p, d - 1)] 0 (wdogs s)\<rparr>"
  have 1: "add_lag p (- 1) s = Some ?s1" using w sp(3,5) d by (intro add_lag_shift) simp_all
  have l: "wd_lags (wdogs ?s1) 0 (tick ((p, d) # xs))"
    using wd_repD(4,7) [OF rep] w d wd_lags_tick [of "wdogs s" d xs] by (auto simp: wd_shift_def)
  have a: "WDOG_ISACTIVE v = (x \<in> fst ` set (tick ((p, d) # xs)))" if "wdogs ?s1 x = Some v" for x v
  proof -
    from that obtain u where u: "wdogs s x = Some u" "WDOG_ISACTIVE v = WDOG_ISACTIVE u"
      by (auto dest: wd_shift_active)
    with wd_rep_wdog(1) [OF rep u(1)] show ?thesis by simp
  qed
  have "wd_rep ?s1 (tick ((p, d) # xs)) fr"
    by (rule wd_repI [OF rep _ _ _ _ l _ a, where S = "{}" and T = "{}"])
      (use wd_repD [OF rep] in \<open>simp_all add: wd_kept_shift\<close>)
  with 1 show ?thesis by (auto simp: wd_kept_shift)
qed

end
