(* ===== verification/SemInv.thy ===== *)
theory SemInv
  imports Sem
begin

text \<open>
  The invariant of the semaphores and the refinement of their operations. The invariant says
  what the count of a semaphore means: a negative count is the number of tasks that wait for
  the semaphore, otherwise no task waits. The tasks that wait for a semaphore, in the order
  in which they will get it, are the members of the prioritized list \<open>g_waitingforsemaphore\<close>
  whose field \<^verbatim>\<open>waitsem\<close> refers to it.
\<close>

section \<open>Abstract state\<close>

abbreviation waitlist :: "asched \<Rightarrow> addr list" where
  "waitlist a \<equiv> a_list a g_waitingforsemaphore"

definition waiters :: "asched \<Rightarrow> addr \<Rightarrow> addr list" where
  "waiters a p = filter (\<lambda>t. waitsem (a_tcb a t) = p) (waitlist a)"

definition sem_count :: "(addr \<rightharpoonup> sem_t) \<Rightarrow> addr \<Rightarrow> int" where
  "sem_count \<sigma> p = semcount (the (\<sigma> p))"

definition sem_upd :: "(addr \<rightharpoonup> sem_t) \<Rightarrow> addr \<Rightarrow> int \<Rightarrow> (addr \<rightharpoonup> sem_t)" where
  "sem_upd \<sigma> p n = \<sigma>(p := map_option (\<lambda>x. x\<lparr>semcount := n\<rparr>) (\<sigma> p))"

text \<open>The meaning of the count of one semaphore.\<close>

definition sem_ok :: "asched \<Rightarrow> addr \<Rightarrow> int \<Rightarrow> bool" where
  "sem_ok a p n \<longleftrightarrow> - (2 ^ 15) \<le> n \<and> n \<le> SEM_VALUE_MAX \<and> length (waiters a p) = nat (- n)"

definition sem_inv :: "asched \<Rightarrow> (addr \<rightharpoonup> sem_t) \<Rightarrow> bool" where
  "sem_inv a \<sigma> \<longleftrightarrow> a_inv a \<and> \<sigma> NULL = None \<and>
     (\<forall>p. \<sigma> p \<noteq> None \<longrightarrow> sem_ok a p (sem_count \<sigma> p)) \<and>
     (\<forall>t. a_live a t \<and> t \<notin> set (waitlist a) \<longrightarrow> waitsem (a_tcb a t) = NULL) \<and>
     (\<forall>t \<in> set (waitlist a). waitsem (a_tcb a t) = NULL \<or> \<sigma> (waitsem (a_tcb a t)) \<noteq> None)"

definition srefines :: "'a semstate_scheme \<Rightarrow> asched \<Rightarrow> (addr \<rightharpoonup> sem_t) \<Rightarrow> bool" where
  "srefines s a \<sigma> \<longleftrightarrow> refines s a \<and> sems s = \<sigma>"

text \<open>What the semaphore operations leave unchanged.\<close>

definition sframe :: "'a semstate_scheme \<Rightarrow> 'a semstate_scheme \<Rightarrow> bool" where
  "sframe s s' \<longleftrightarrow>
     current_regs s' = current_regs s \<and> debug_assertions s' = debug_assertions s \<and>
     g_pidhash s' = g_pidhash s \<and> g_irqerrno s' = g_irqerrno s \<and> semstate.more s' = semstate.more s"

section \<open>Basic lemmas\<close>

lemma kframe_sems: "kframe s s' \<Longrightarrow> sems s' = sems s \<and> sframe s s'"
  by (cases s, cases s') (simp add: kframe_def sframe_def)

lemma sframe_refl [simp]: "sframe s s"
  by (simp add: sframe_def)

lemma sframe_trans: "sframe s s' \<Longrightarrow> sframe s' s'' \<Longrightarrow> sframe s s''"
  by (simp add: sframe_def)

lemma sem_upd_simps [simp]:
  "sem_upd \<sigma> p n q \<noteq> None \<longleftrightarrow> \<sigma> q \<noteq> None"
  "\<sigma> p \<noteq> None \<Longrightarrow> sem_count (sem_upd \<sigma> p n) q = (if q = p then n else sem_count \<sigma> q)"
  by (auto simp: sem_upd_def sem_count_def)

lemma sem_upd_None [simp]: "sem_upd \<sigma> p n q = None \<longleftrightarrow> \<sigma> q = None"
  by (auto simp: sem_upd_def)

lemma sem_invD:
  assumes "sem_inv a \<sigma>"
  shows "a_inv a" "a_core a" "\<sigma> NULL = None" "\<sigma> p \<noteq> None \<Longrightarrow> sem_ok a p (sem_count \<sigma> p)"
    "\<sigma> p \<noteq> None \<Longrightarrow> p \<noteq> NULL"
    "a_live a t \<Longrightarrow> t \<notin> set (waitlist a) \<Longrightarrow> waitsem (a_tcb a t) = NULL"
    "t \<in> set (waitlist a) \<Longrightarrow> waitsem (a_tcb a t) = NULL \<or> \<sigma> (waitsem (a_tcb a t)) \<noteq> None"
  using assms unfolding sem_inv_def a_inv_def by metis+

lemma set_semcount_refines:
  assumes r: "srefines s a \<sigma>" and p: "p \<noteq> NULL" "\<sigma> p \<noteq> None" and n: "- (2 ^ 15) \<le> n" "n \<le> SEM_VALUE_MAX"
  shows "\<exists>s'. set_semcount p n s = Some s' \<and> srefines s' a (sem_upd \<sigma> p n) \<and> sframe s s'"
proof -
  obtain x where x: "\<sigma> p = Some x" using p by auto
  have "s16 n = n" using n by (intro s16_id) (simp_all add: SEM_VALUE_MAX_def)
  with r p x show ?thesis
    by (auto simp: set_semcount_def get_sem_def srefines_def sem_upd_def refines_def sframe_def)
qed

lemma get_sem_refines:
  "srefines s a \<sigma> \<Longrightarrow> p \<noteq> NULL \<Longrightarrow> \<sigma> p \<noteq> None \<Longrightarrow> \<exists>x. get_sem s p = Some x \<and> semcount x = sem_count \<sigma> p"
  by (auto simp: srefines_def get_sem_def sem_count_def)

lemma srefines_upd_tcb:
  assumes "srefines s a \<sigma>" "a_live a t"
  shows "\<exists>s'. upd_tcb t f s = Some s' \<and> srefines s' (a_upd t f a) \<sigma> \<and> sframe s s'"
  using refines_upd_tcb [of s a t f] assms kframe_sems by (fastforce simp: srefines_def)

lemma a_upd_waitsem_same:
  "a_live a t \<Longrightarrow> waitsem (a_tcb a t) = NULL \<Longrightarrow> a_upd t (\<lambda>x. x\<lparr>waitsem := NULL\<rparr>) a = a"
  by (auto simp: a_upd_def a_live_def a_tcb_def fun_upd_idem)

lemma srefinesD:
  assumes "srefines s a \<sigma>"
  shows "refines s a" "sems s = \<sigma>" "this_task s = a_running a" "a_live a t \<Longrightarrow> get_tcb s t = Some (a_tcb a t)"
  using assms refines_running [of s a] refines_get_tcb [of s a t] by (simp_all add: srefines_def)

text \<open>The waiting tasks when only states and lists outside \<open>g_waitingforsemaphore\<close> change.\<close>

lemma waiters_cong:
  assumes "waitlist b = waitlist a" "\<And>t. t \<in> set (waitlist a) \<Longrightarrow> waitsem (a_tcb b t) = waitsem (a_tcb a t)"
  shows "waiters b p = waiters a p"
  unfolding waiters_def assms(1) by (rule filter_cong) (simp_all add: assms(2))

section \<open>Waiting\<close>

text \<open>The caller takes a count.\<close>

lemma sem_inv_take:
  assumes i: "sem_inv a \<sigma>" and p: "\<sigma> p \<noteq> None" "sem_count \<sigma> p > 0"
  shows "sem_inv a (sem_upd \<sigma> p (sem_count \<sigma> p - 1))"
proof -
  have "sem_ok a p (sem_count \<sigma> p)" using sem_invD(4) [OF i p(1)] .
  then have "sem_ok a p (sem_count \<sigma> p - 1)" using p(2) by (auto simp: sem_ok_def)
  with i p show ?thesis unfolding sem_inv_def by auto
qed

text \<open>The caller blocks.\<close>

definition a_sem_block :: "addr \<Rightarrow> asched \<Rightarrow> asched" where
  "a_sem_block p a =
     snd (a_block (a_running a) TSTATE_WAIT_SEM
       (a_upd (a_running a) (\<lambda>t. t\<lparr>pterrno := 0\<rparr>) (a_upd (a_running a) (\<lambda>t. t\<lparr>waitsem := p\<rparr>) a)))"

lemma wait_sem_state: "is_blocked_state TSTATE_WAIT_SEM" "TLIST_BLOCKED TSTATE_WAIT_SEM = Some g_waitingforsemaphore"
  "prioritized_list g_waitingforsemaphore"
  by (simp_all add: is_blocked_state_def tstate_num_def prioritized_list_def)

lemma a_inv_upd_other:
  assumes "a_inv a" "a_live a t" "\<And>x. sched_priority (f x) = sched_priority x"
    "\<And>x. task_state (f x) = task_state x" "\<And>x. lockcount (f x) = lockcount x" "t \<in> set (a_list a L)"
  shows "a_inv (a_upd t f a)"
  by (rule a_inv_upd) (use assms a_core_task [of a t L] in \<open>auto simp: a_inv_def task_ok_def\<close>)

lemma a_upd_prio:
  assumes "\<And>x. sched_priority (f x) = sched_priority x"
  shows "a_prio (a_upd t f a) x = a_prio a x"
  using assms by (auto simp: a_prio_def a_tcb_def map_option_case split: option.split)

lemma a_sem_block_ok:
  assumes i: "a_inv a" and ni: "a_running a \<noteq> a_idle a"
  fixes p
  defines "b \<equiv> a_sem_block p a" and "t \<equiv> a_running a"
  shows "a_inv b" "waitlist b = insert_desc (a_prio a) t (waitlist a)"
    and "a_live b x = a_live a x"
    and "a_live a x \<Longrightarrow> waitsem (a_tcb b x) = (if x = t then p else waitsem (a_tcb a x))"
    and "a_live a x \<Longrightarrow> a_context b x = a_context a x"
    and "a_idle b = a_idle a" "pterrno (a_tcb b t) = 0"
proof -
  have c: "a_core a" using i by (simp add: a_inv_def)
  have tin: "t \<in> set (a_list a g_readytorun)" using a_core_running [OF c] by (simp add: t_def)
  have lv: "a_live a t" using a_core_live [OF c tin] .
  define a1 where "a1 = a_upd t (\<lambda>t. t\<lparr>pterrno := 0\<rparr>) (a_upd t (\<lambda>t. t\<lparr>waitsem := p\<rparr>) a)"
  have i1: "a_inv a1"
    unfolding a1_def using i lv tin by (intro a_inv_upd_other [where L = g_readytorun]) auto
  then have c1: "a_core a1" by (simp add: a_inv_def)
  have t1: "t \<in> set (a_list a1 g_readytorun)" "t \<noteq> a_idle a1"
    using tin ni by (simp_all add: a1_def t_def)
  have b: "b = snd (a_block t TSTATE_WAIT_SEM a1)"
    by (simp add: b_def a_sem_block_def a1_def t_def)
  note ok = a_block_ok [OF i1 t1 wait_sem_state(1)]
  show "a_inv b" "a_idle b = a_idle a" using ok(1,2) by (simp_all add: b a1_def)
  have "a_prio a1 = a_prio a" unfolding a1_def by (simp add: a_upd_prio fun_eq_iff)
  then show "waitlist b = insert_desc (a_prio a) t (waitlist a)"
    using a_block_lists [OF c1 t1 wait_sem_state(2) _ _ wait_sem_state(3)] by (simp add: b a1_def)
  show "a_live b x = a_live a x" by (simp add: b a_block_live a1_def)
  show "waitsem (a_tcb b x) = (if x = t then p else waitsem (a_tcb a x))" if "a_live a x"
    using that a_block_field [OF c1, of waitsem x] lv by (simp add: b a1_def)
  show "pterrno (a_tcb b t) = 0"
    using a_block_field [OF c1, of pterrno t] lv by (simp add: b a1_def)
  have "a_context a1 x = a_context a x" unfolding a1_def by (simp add: a_context_upd)
  then show "a_context b x = a_context a x" if "a_live a x" using that ok(5) [of x] by (simp add: b a1_def)
qed

lemma sem_inv_block:
  assumes i: "sem_inv a \<sigma>" and ni: "a_running a \<noteq> a_idle a"
    and p: "\<sigma> p \<noteq> None" "sem_count \<sigma> p \<le> 0" "- (2 ^ 15) < sem_count \<sigma> p"
  shows "sem_inv (a_sem_block p a) (sem_upd \<sigma> p (sem_count \<sigma> p - 1))"
proof -
  let ?b = "a_sem_block p a" and ?t = "a_running a"
  note d = sem_invD [OF i] and ok = a_sem_block_ok [OF sem_invD(1) [OF i] ni, where p = p]
  have lv: "a_live a x" if "x \<in> set (waitlist a)" for x using a_core_live [OF d(2) that] .
  have tl: "a_live a ?t" using a_core_running_live [OF d(2)] .
  have nt: "?t \<notin> set (waitlist a)"
    using a_core_disjoint [OF d(2) a_core_running [OF d(2)]] by blast
  have ws: "waitsem (a_tcb ?b x) = (if x = ?t then p else waitsem (a_tcb a x))" if "a_live a x" for x
    using ok(4) [OF that] .
  have "filter (\<lambda>x. waitsem (a_tcb ?b x) = q) (waitlist a) = waiters a q" for q
    unfolding waiters_def using ws lv nt by (intro filter_cong) auto
  then have w: "length (waiters ?b q) = length (waiters a q) + (if q = p then 1 else 0)" for q
    unfolding waiters_def [of ?b] ok(2) length_filter_insert_desc using ws [OF tl] by simp
  have "sem_ok ?b q (sem_count (sem_upd \<sigma> p (sem_count \<sigma> p - 1)) q)" if "\<sigma> q \<noteq> None" for q
    using d(4) [OF that] w p that by (auto simp: sem_ok_def)
  moreover have "waitsem (a_tcb ?b x) = NULL" if "a_live ?b x" "x \<notin> set (waitlist ?b)" for x
    using that ok(2,3) ws d(6) by simp
  moreover have "waitsem (a_tcb ?b x) = NULL \<or> \<sigma> (waitsem (a_tcb ?b x)) \<noteq> None" if "x \<in> set (waitlist ?b)" for x
    using that ok(2) ws [of x] lv [of x] tl d(7) [of x] p(1) by (cases "x = ?t") auto
  ultimately show ?thesis using ok(1) d(3) unfolding sem_inv_def by auto
qed

section \<open>Waking\<close>

text \<open>
  A waiting task is taken off its semaphore and restarted; \<open>f\<close> is what happens to its TCB:
  it no longer waits, and possibly learns of an error.
\<close>

definition wake_field :: "(tcb \<Rightarrow> tcb) \<Rightarrow> bool" where
  "wake_field f \<longleftrightarrow> (\<forall>x. sched_priority (f x) = sched_priority x \<and> task_state (f x) = task_state x \<and>
     lockcount (f x) = lockcount x \<and> xcp_regs (f x) = xcp_regs x \<and> waitsem (f x) = NULL)"

lemma a_wake_ok:
  assumes i: "a_inv a" and w: "w \<in> set (waitlist a)" and f: "wake_field f"
  defines "b \<equiv> snd (a_unblock w (a_upd w f a))"
  shows "a_inv b" "waitlist b = remove1 w (waitlist a)" "a_live b x = a_live a x" "a_idle b = a_idle a"
    and "a_live a x \<Longrightarrow> waitsem (a_tcb b x) = (if x = w then NULL else waitsem (a_tcb a x))"
    and "a_live a x \<Longrightarrow> a_context b x = a_context a x"
    and "pterrno (a_tcb b w) = pterrno (f (a_tcb a w))"
proof -
  have c: "a_core a" using i by (simp add: a_inv_def)
  have lv: "a_live a w" using a_core_live [OF c w] .
  let ?a1 = "a_upd w f a"
  have i1: "a_inv ?a1" by (rule a_inv_upd_other [OF i lv _ _ _ w]) (use f in \<open>simp_all add: wake_field_def\<close>)
  then have c1: "a_core ?a1" by (simp add: a_inv_def)
  have w1: "w \<in> set (waitlist ?a1)" using w by simp
  note ok = a_unblock_ok [OF i1 w1] and ls = a_unblock_lists [OF c1 w1]
  show "a_inv b" "a_idle b = a_idle a" using ok(1,2) by (simp_all add: b_def)
  show "waitlist b = remove1 w (waitlist a)" using ls by (simp add: b_def)
  show "a_live b x = a_live a x" by (simp add: b_def a_unblock_live)
  show "waitsem (a_tcb b x) = (if x = w then NULL else waitsem (a_tcb a x))" if "a_live a x"
    using that a_unblock_field [OF c1, of waitsem x] lv f by (simp add: b_def wake_field_def)
  show "pterrno (a_tcb b w) = pterrno (f (a_tcb a w))"
    using a_unblock_field [OF c1, of pterrno w] lv by (simp add: b_def)
  have "a_context ?a1 x = a_context a x" by (rule a_context_upd) (use f in \<open>simp add: wake_field_def\<close>)
  then show "a_context b x = a_context a x" if "a_live a x" using that ok(4) [of x] by (simp add: b_def)
qed

lemma sem_inv_wake:
  assumes i: "sem_inv a \<sigma>" and w: "w \<in> set (waiters a p)" and f: "wake_field f" and p: "\<sigma> p \<noteq> None"
  shows "sem_inv (snd (a_unblock w (a_upd w f a))) (sem_upd \<sigma> p (sem_count \<sigma> p + 1))"
proof -
  let ?b = "snd (a_unblock w (a_upd w f a))"
  note d = sem_invD [OF i]
  have wl: "w \<in> set (waitlist a)" "waitsem (a_tcb a w) = p" using w by (simp_all add: waiters_def)
  note ok = a_wake_ok [OF d(1) wl(1) f]
  have lv: "a_live a x" if "x \<in> set (waitlist a)" for x using a_core_live [OF d(2) that] .
  have dist: "distinct (waitlist a)" using d(2) by (simp add: a_core_def)
  have pn: "p \<noteq> NULL" using d(5) [OF p] .
  have n: "length (waiters a q) = length (waiters ?b q) + (if q = p then 1 else 0)" for q
  proof -
    have "waiters ?b q = filter (\<lambda>x. waitsem (a_tcb a x) = q) (remove1 w (waitlist a))"
      unfolding waiters_def ok(2) using ok(5) lv dist by (intro filter_cong) auto
    then show ?thesis
      using length_filter_remove1 [OF wl(1), of "\<lambda>x. waitsem (a_tcb a x) = q"] wl(2)
      by (auto simp: waiters_def)
  qed
  have neg: "sem_count \<sigma> p < 0" using d(4) [OF p] n [of p] by (auto simp: sem_ok_def)
  have "sem_ok ?b q (sem_count (sem_upd \<sigma> p (sem_count \<sigma> p + 1)) q)" if "\<sigma> q \<noteq> None" for q
    using d(4) [OF that] n [of q] neg p that by (auto simp: sem_ok_def SEM_VALUE_MAX_def)
  moreover have "waitsem (a_tcb ?b x) = NULL" if "a_live ?b x" "x \<notin> set (waitlist ?b)" for x
    using that ok(2,3,5) d(6) dist by (cases "x = w") auto
  moreover have "waitsem (a_tcb ?b x) = NULL \<or> \<sigma> (waitsem (a_tcb ?b x)) \<noteq> None" if "x \<in> set (waitlist ?b)" for x
    using that ok(2) ok(5) [of x] lv [of x] d(7) [of x] dist by auto
  ultimately show ?thesis using ok(1) d(3) unfolding sem_inv_def by auto
qed

section \<open>Posting\<close>

text \<open>The abstract post: the first of the waiting tasks, if any, is restarted.\<close>

definition a_post :: "addr \<Rightarrow> asched \<Rightarrow> asched" where
  "a_post p a =
     (case waiters a p of [] \<Rightarrow> a
      | w # _ \<Rightarrow> snd (a_unblock w (a_upd w (\<lambda>t. t\<lparr>waitsem := NULL\<rparr>) a)))"

lemma first_ptr_filter: "first_ptr (filter P xs) = first_ptr (dropWhile (\<lambda>x. \<not> P x) xs)"
  by (induction xs) auto

lemma sem_search_seg:
  assumes "\<And>x. x \<in> set xs \<Longrightarrow> get_tcb s x = Some (T x)"
  shows "dq_seg (dqm s) b p xs l NULL \<Longrightarrow>
    sem_search s p sem = Some (first_ptr (filter (\<lambda>y. waitsem (T y) = sem) xs))"
  using assms
proof (induction xs arbitrary: b p)
  case Nil
  then show ?case by (simp add: sem_search.simps)
next
  case (Cons x xs)
  then obtain e where e: "p = x" "x \<noteq> NULL" "dqm s x = Some e" "dq_seg (dqm s) x (flink e) xs l NULL"
    by auto
  with Cons.IH [OF e(4)] Cons.prems(2) show ?case
    by (subst sem_search.simps) (simp add: get_flink_def)
qed

lemma sem_search_refines:
  assumes r: "refines s a"
  shows "sem_search s (dq_head (tasklists s g_waitingforsemaphore)) p = Some (first_ptr (waiters a p))"
proof -
  have "dq_seg (dqm s) NULL (dq_head (tasklists s g_waitingforsemaphore)) (waitlist a)
      (dq_tail (tasklists s g_waitingforsemaphore)) NULL"
    using refines_rep [OF r] by (simp add: dq_rep_def)
  then show ?thesis
    unfolding waiters_def
    using refines_get_tcb [OF r refines_listed [OF r]] by (intro sem_search_seg) auto
qed

lemma srefines_sched:
  assumes "srefines s a \<sigma>" "\<exists>s'. R = Some (r, s') \<and> refines s' b \<and> kframe s s'"
  shows "\<exists>s'. R = Some (r, s') \<and> srefines s' b \<sigma> \<and> sframe s s'"
  using assms kframe_sems by (fastforce simp: srefines_def)

lemma wake_refines:
  assumes i: "a_inv a" and w: "w \<in> set (waitlist a)" and f: "wake_field f"
    and u: "srefines s1 (a_upd w f a) \<sigma>"
  shows "\<exists>sw s'. up_unblock_task w s1 = Some (sw, s') \<and>
           srefines s' (snd (a_unblock w (a_upd w f a))) \<sigma> \<and> sframe s1 s'"
proof -
  have c: "a_core a" using i by (simp add: a_inv_def)
  have "a_inv (a_upd w f a)"
    by (rule a_inv_upd_other [OF i a_core_live [OF c w] _ _ _ w]) (use f in \<open>simp_all add: wake_field_def\<close>)
  moreover have "refines s1 (a_upd w f a)" using u by (simp add: srefines_def)
  ultimately have "\<exists>s'. up_unblock_task w s1 = Some (fst (a_unblock w (a_upd w f a)), s') \<and>
      refines s' (snd (a_unblock w (a_upd w f a))) \<and> kframe s1 s'"
    using up_unblock_task_refines [of s1 "a_upd w f a" w g_waitingforsemaphore] w by simp
  from srefines_sched [OF u this] show ?thesis by blast
qed

lemma nxsem_post_refines:
  assumes r: "srefines s a \<sigma>" and i: "sem_inv a \<sigma>" and p: "\<sigma> p \<noteq> None" "sem_count \<sigma> p < SEM_VALUE_MAX"
  defines "\<sigma>' \<equiv> sem_upd \<sigma> p (sem_count \<sigma> p + 1)"
  shows "\<exists>s'. nxsem_post p s = Some (0, s') \<and> srefines s' (a_post p a) \<sigma>' \<and> sframe s s'"
    and "sem_inv (a_post p a) \<sigma>'"
proof -
  note d = sem_invD [OF i]
  let ?f = "\<lambda>t. t\<lparr>waitsem := NULL\<rparr>"
  have f: "wake_field ?f" by (simp add: wake_field_def)
  have pn: "p \<noteq> NULL" using d(5) [OF p(1)] .
  have ok: "sem_ok a p (sem_count \<sigma> p)" using d(4) [OF p(1)] .
  obtain x where x: "get_sem s p = Some x" "semcount x = sem_count \<sigma> p"
    using get_sem_refines [OF r pn p(1)] by blast
  obtain s1 where s1: "set_semcount p (sem_count \<sigma> p + 1) s = Some s1" "srefines s1 a \<sigma>'" "sframe s s1"
    using set_semcount_refines [OF r pn p(1), of "sem_count \<sigma> p + 1"] ok p(2) by (auto simp: \<sigma>'_def sem_ok_def)
  obtain x1 where x1: "get_sem s1 p = Some x1" "semcount x1 = sem_count \<sigma> p + 1"
    using get_sem_refines [OF s1(2) pn] p(1) by (auto simp: \<sigma>'_def)
  have se: "sem_search s1 (dq_head (tasklists s1 g_waitingforsemaphore)) p = Some (first_ptr (waiters a p))"
    using sem_search_refines s1(2) by (auto simp: srefines_def)
  have neg: "sem_count \<sigma> p + 1 \<le> 0 \<longleftrightarrow> waiters a p \<noteq> []"
    using ok by (cases "waiters a p") (auto simp: sem_ok_def)
  have "(\<exists>s'. nxsem_post p s = Some (0, s') \<and> srefines s' (a_post p a) \<sigma>' \<and> sframe s s') \<and>
    sem_inv (a_post p a) \<sigma>'"
  proof (cases "waiters a p")
    case Nil
    then have "nxsem_post p s = Some (0, s1)"
      using neg pn x x1 s1(1) p(2) by (simp add: nxsem_post_def)
    moreover have "sem_inv a \<sigma>'"
    proof -
      have "sem_ok a p (sem_count \<sigma> p + 1)" using Nil neg p(2) by (simp add: sem_ok_def)
      with i p(1) show ?thesis unfolding sem_inv_def \<sigma>'_def by auto
    qed
    ultimately show ?thesis using s1(2,3) Nil by (simp add: a_post_def)
  next
    case (Cons w ws)
    then have wi: "w \<in> set (waiters a p)" and wl: "w \<in> set (waitlist a)" by (auto simp: waiters_def dest: filter_eq_ConsD)
    have lv: "a_live a w" using a_core_live [OF d(2) wl] .
    obtain s2 where s2: "upd_tcb w ?f s1 = Some s2" "srefines s2 (a_upd w ?f a) \<sigma>'" "sframe s1 s2"
      using srefines_upd_tcb [OF s1(2) lv] by blast
    obtain sw s3 where s3: "up_unblock_task w s2 = Some (sw, s3)"
      "srefines s3 (snd (a_unblock w (a_upd w ?f a))) \<sigma>'" "sframe s2 s3"
      using wake_refines [OF d(1) wl f s2(2)] by blast
    have "w \<noteq> NULL" using lv by (simp add: a_live_def)
    then have "nxsem_post p s = Some (0, s3)"
      using Cons neg pn x x1 s1(1) s2(1) s3(1) se p(2) by (simp add: nxsem_post_def)
    moreover have "sem_inv (a_post p a) \<sigma>'"
      using sem_inv_wake [OF i wi f p(1)] Cons by (simp add: a_post_def \<sigma>'_def)
    ultimately show ?thesis
      using s1(3) s2(3) s3(2,3) Cons by (auto simp: a_post_def sframe_def)
  qed
  then show "\<exists>s'. nxsem_post p s = Some (0, s') \<and> srefines s' (a_post p a) \<sigma>' \<and> sframe s s'"
    "sem_inv (a_post p a) \<sigma>'" by auto
qed

section \<open>The waiting operations\<close>

lemma nxsem_take_refines:
  assumes r: "srefines s a \<sigma>" and i: "sem_inv a \<sigma>" and p: "\<sigma> p \<noteq> None" "sem_count \<sigma> p > 0"
    and irq: "\<not> up_interrupt_context s"
  defines "\<sigma>' \<equiv> sem_upd \<sigma> p (sem_count \<sigma> p - 1)"
  shows "\<exists>s'. nxsem_wait p s = Some (Returned 0, s') \<and> nxsem_trywait p s = Some (0, s') \<and>
           srefines s' a \<sigma>' \<and> sframe s s'"
proof -
  note d = sem_invD [OF i]
  have pn: "p \<noteq> NULL" using d(5) [OF p(1)] .
  obtain x where x: "get_sem s p = Some x" "semcount x = sem_count \<sigma> p"
    using get_sem_refines [OF r pn p(1)] by blast
  obtain s1 where s1: "set_semcount p (sem_count \<sigma> p - 1) s = Some s1" "srefines s1 a \<sigma>'" "sframe s s1"
    using set_semcount_refines [OF r pn p(1), of "sem_count \<sigma> p - 1"] d(4) [OF p(1)] p(2)
    by (auto simp: \<sigma>'_def sem_ok_def)
  have lv: "a_live a (a_running a)" using a_core_running_live [OF d(2)] .
  have "a_running a \<notin> set (waitlist a)"
    using a_core_disjoint [OF d(2) a_core_running [OF d(2)]] by blast
  then have "a_upd (a_running a) (\<lambda>t. t\<lparr>waitsem := NULL\<rparr>) a = a"
    using a_upd_waitsem_same [OF lv d(6) [OF lv]] by simp
  then obtain s2 where "upd_tcb (a_running a) (\<lambda>t. t\<lparr>waitsem := NULL\<rparr>) s1 = Some s2" "srefines s2 a \<sigma>'" "sframe s1 s2"
    using srefines_upd_tcb [OF s1(2) lv, of "\<lambda>t. t\<lparr>waitsem := NULL\<rparr>"] by auto
  moreover have "this_task s = a_running a" by (rule srefinesD(3) [OF r])
  ultimately show ?thesis
    using x s1 pn irq p(2) sframe_trans by (auto simp: nxsem_wait_def nxsem_trywait_def Let_def)
qed

lemma nxsem_trywait_fail:
  assumes r: "srefines s a \<sigma>" and i: "sem_inv a \<sigma>" and p: "\<sigma> p \<noteq> None" "sem_count \<sigma> p \<le> 0"
    and irq: "\<not> up_interrupt_context s"
  shows "nxsem_trywait p s = Some (- EAGAIN, s)"
  using get_sem_refines [OF r sem_invD(5) [OF i p(1)] p(1)] p irq sem_invD(5) [OF i p(1)]
  by (auto simp: nxsem_trywait_def Let_def)

lemma a_sem_block_slices:
  assumes i: "a_inv a" and ni: "a_running a \<noteq> a_idle a"
  shows "a_slices True a (a_sem_block p a)"
proof -
  let ?t = "a_running a"
  let ?a = "a_upd ?t (\<lambda>t. t\<lparr>pterrno := 0\<rparr>) (a_upd ?t (\<lambda>t. t\<lparr>waitsem := p\<rparr>) a)"
  have c: "a_core a" using i by (simp add: a_inv_def)
  have tin: "?t \<in> set (a_list a g_readytorun)" and lv: "a_live a ?t"
    using a_core_running [OF c] a_core_running_live [OF c] .
  have "a_inv ?a" using i lv tin by (intro a_inv_upd_other [where L = g_readytorun]) auto
  then have c2: "a_core ?a" by (simp add: a_inv_def)
  have "a_slices (fst (a_block ?t TSTATE_WAIT_SEM ?a)) ?a (a_sem_block p a)"
    unfolding a_sem_block_def using tin ni by (intro a_block_slices [OF c2 _ _ wait_sem_state(1)]) simp_all
  moreover have "fst (a_block ?t TSTATE_WAIT_SEM ?a)"
    by (simp add: a_block_def a_removereadytorun_def case_prod_beta Let_def)
  ultimately show ?thesis using lv by (simp add: a_slices_def)
qed

lemma nxsem_wait_block_refines:
  assumes r: "srefines s a \<sigma>" and i: "sem_inv a \<sigma>" and p: "\<sigma> p \<noteq> None" "sem_count \<sigma> p \<le> 0"
    "- (2 ^ 15) < sem_count \<sigma> p"
    and irq: "\<not> up_interrupt_context s" and ni: "a_running a \<noteq> a_idle a"
  defines "\<sigma>' \<equiv> sem_upd \<sigma> p (sem_count \<sigma> p - 1)"
  shows "\<exists>s'. nxsem_wait p s = Some (Switched (pterrno (a_tcb a (a_running a))), s') \<and> srefines s' (a_sem_block p a) \<sigma>' \<and> sframe s s'"
proof -
  note d = sem_invD [OF i]
  let ?t = "a_running a"
  let ?a1 = "a_upd ?t (\<lambda>t. t\<lparr>waitsem := p\<rparr>) a"
  let ?a2 = "a_upd ?t (\<lambda>t. t\<lparr>pterrno := 0\<rparr>) ?a1"
  have pn: "p \<noteq> NULL" using d(5) [OF p(1)] .
  obtain x where x: "get_sem s p = Some x" "semcount x = sem_count \<sigma> p"
    using get_sem_refines [OF r pn p(1)] by blast
  obtain s1 where s1: "set_semcount p (sem_count \<sigma> p - 1) s = Some s1" "srefines s1 a \<sigma>'" "sframe s s1"
    using set_semcount_refines [OF r pn p(1), of "sem_count \<sigma> p - 1"] d(4) [OF p(1)] p(2,3)
    by (auto simp: \<sigma>'_def sem_ok_def)
  have tin: "?t \<in> set (a_list a g_readytorun)" using a_core_running [OF d(2)] .
  have lv: "a_live a ?t" using a_core_live [OF d(2) tin] .
  have "?t \<notin> set (waitlist a)" using a_core_disjoint [OF d(2) tin] by blast
  then have ws: "waitsem (a_tcb a ?t) = NULL" using d(6) [OF lv] by blast
  obtain s2 where s2: "upd_tcb ?t (\<lambda>t. t\<lparr>waitsem := p\<rparr>) s1 = Some s2" "srefines s2 ?a1 \<sigma>'" "sframe s1 s2"
    using srefines_upd_tcb [OF s1(2) lv] by blast
  have "a_live ?a1 ?t" using lv by simp
  then obtain s3 where s3: "upd_tcb ?t (\<lambda>t. t\<lparr>pterrno := 0\<rparr>) s2 = Some s3" "srefines s3 ?a2 \<sigma>'" "sframe s2 s3"
    using srefines_upd_tcb [OF s2(2)] by blast
  have i2: "a_inv ?a2"
    using d(1) lv tin by (intro a_inv_upd_other [where L = g_readytorun]) auto
  have "refines s3 ?a2" "?t \<in> set (a_list ?a2 g_readytorun)" "?t \<noteq> a_idle ?a2"
    using s3(2) tin ni by (simp_all add: srefines_def)
  from srefines_sched [OF s3(2) up_block_task_refines [OF this(1) i2 this(2,3) wait_sem_state(1)]]
  obtain s4 where s4: "up_block_task ?t TSTATE_WAIT_SEM s3 = Some (fst (a_block ?t TSTATE_WAIT_SEM ?a2), s4)"
    "srefines s4 (a_sem_block p a) \<sigma>'" "sframe s3 s4"
    unfolding a_sem_block_def by blast
  have sw: "fst (a_block ?t TSTATE_WAIT_SEM ?a2)"
    by (simp add: a_block_def a_removereadytorun_def case_prod_beta Let_def)
  have fr: "sframe s s4" using s1(3) s2(3) s3(3) s4(3) by (simp add: sframe_def)
  then have irq4: "\<not> up_interrupt_context s4" using irq by (simp add: sframe_def up_interrupt_context_def)
  have th: "this_task s = ?t" and gt: "get_tcb s ?t = Some (a_tcb a ?t)"
    using srefinesD(3,4) [OF r] lv by auto
  have "nxsem_wait p s = Some (Switched (pterrno (a_tcb a ?t)), s4)"
    using th gt x p(2) pn irq irq4 ws s1(1) s2(1) s3(1) s4(1) sw by (simp add: nxsem_wait_def Let_def)
  with s4(2) fr show ?thesis by blast
qed

lemma nxsem_wait_irq_refines:
  assumes r: "srefines s a \<sigma>" and i: "sem_inv a \<sigma>" and w: "w \<in> set (waiters a p)" and p: "\<sigma> p \<noteq> None"
  fixes e
  defines "\<sigma>' \<equiv> sem_upd \<sigma> p (sem_count \<sigma> p + 1)"
    and "b \<equiv> snd (a_unblock w (a_upd w (\<lambda>t. t\<lparr>waitsem := NULL, pterrno := e\<rparr>) a))"
  shows "\<exists>s'. nxsem_wait_irq w e s = Some s' \<and> srefines s' b \<sigma>' \<and> sframe s s'" "sem_inv b \<sigma>'"
proof -
  note d = sem_invD [OF i]
  let ?f = "\<lambda>t. t\<lparr>waitsem := NULL, pterrno := e\<rparr>"
  have f: "wake_field ?f" by (simp add: wake_field_def)
  have pn: "p \<noteq> NULL" using d(5) [OF p(1)] .
  have wl: "w \<in> set (waitlist a)" "waitsem (a_tcb a w) = p" using w by (simp_all add: waiters_def)
  have lv: "a_live a w" using a_core_live [OF d(2) wl(1)] .
  have st: "task_state (a_tcb a w) = TSTATE_WAIT_SEM"
    using a_core_task [OF d(2) wl(1)] by (cases "task_state (a_tcb a w)") (auto simp: task_ok_def)
  have ok: "sem_ok a p (sem_count \<sigma> p)" using d(4) [OF p] .
  have neg: "sem_count \<sigma> p < 0" using w ok by (cases "waiters a p") (auto simp: sem_ok_def)
  obtain x where x: "get_sem s p = Some x" "semcount x = sem_count \<sigma> p"
    using get_sem_refines [OF r pn p(1)] by blast
  obtain s1 where s1: "set_semcount p (sem_count \<sigma> p + 1) s = Some s1" "srefines s1 a \<sigma>'" "sframe s s1"
    using set_semcount_refines [OF r pn p(1), of "sem_count \<sigma> p + 1"] ok neg
    by (auto simp: \<sigma>'_def sem_ok_def SEM_VALUE_MAX_def)
  obtain s2 where s2: "upd_tcb w (\<lambda>t. t\<lparr>waitsem := NULL\<rparr>) s1 = Some s2"
    "srefines s2 (a_upd w (\<lambda>t. t\<lparr>waitsem := NULL\<rparr>) a) \<sigma>'" "sframe s1 s2"
    using srefines_upd_tcb [OF s1(2) lv] by blast
  have "a_live (a_upd w (\<lambda>t. t\<lparr>waitsem := NULL\<rparr>) a) w" using lv by simp
  from srefines_upd_tcb [OF s2(2) this, of "\<lambda>t. t\<lparr>pterrno := e\<rparr>"]
  obtain s3 where s3: "upd_tcb w (\<lambda>t. t\<lparr>pterrno := e\<rparr>) s2 = Some s3" "srefines s3 (a_upd w ?f a) \<sigma>'" "sframe s2 s3"
    by (auto simp: a_upd_def option.map_comp comp_def)
  obtain sw s4 where s4: "up_unblock_task w s3 = Some (sw, s4)" "srefines s4 b \<sigma>'" "sframe s3 s4"
    using wake_refines [OF d(1) wl(1) f s3(2)] unfolding b_def by blast
  have "get_tcb s w = Some (a_tcb a w)" using srefinesD(4) [OF r lv] .
  then have "nxsem_wait_irq w e s = Some s4"
    using st wl(2) pn x neg s1(1) s2(1) s3(1) s4(1) by (simp add: nxsem_wait_irq_def Let_def)
  then show "\<exists>s'. nxsem_wait_irq w e s = Some s' \<and> srefines s' b \<sigma>' \<and> sframe s s'"
    using s4(2) s1(3) s2(3) s3(3) s4(3) by (simp add: sframe_def)
  show "sem_inv b \<sigma>'" unfolding b_def \<sigma>'_def by (rule sem_inv_wake [OF i w f p])
qed

end
