(* ===== verification/SemThms.thy ===== *)
theory SemThms
  imports SemInv
begin

text \<open>
  The properties of the semaphores: the invariant under every interleaving of semaphore and
  scheduler operations, the order in which waiting tasks are served, and the outcome of a
  wait that is posted, interrupted or timed out.
\<close>

section \<open>The remaining operations\<close>

lemma sem_inv_cong:
  assumes i: "sem_inv a \<sigma>" and b: "a_inv b" "a_live b = a_live a" "mset (waitlist b) = mset (waitlist a)"
    and w: "\<And>x. a_live a x \<Longrightarrow> waitsem (a_tcb b x) = waitsem (a_tcb a x)"
  shows "sem_inv b \<sigma>"
proof -
  note d = sem_invD [OF i]
  have s: "set (waitlist b) = set (waitlist a)" using b(3) mset_eq_setD by blast
  have lv: "a_live a x" if "x \<in> set (waitlist a)" for x using a_core_live [OF d(2) that] .
  have "length (waiters b p) = length (waiters a p)" for p
  proof -
    have "mset (waiters b p) = filter_mset (\<lambda>t. waitsem (a_tcb b t) = p) (mset (waitlist a))"
      by (simp add: waiters_def b(3))
    also have "\<dots> = mset (waiters a p)"
      unfolding waiters_def mset_filter by (rule filter_mset_cong) (use lv w in auto)
    finally show ?thesis by (rule mset_eq_length)
  qed
  then have "sem_ok b p n = sem_ok a p n" for p n by (simp add: sem_ok_def)
  with i b(1,2) s w lv show ?thesis unfolding sem_inv_def by auto
qed

lemma sem_inv_others:
  "sem_inv a \<sigma> \<Longrightarrow> a_inv b \<Longrightarrow> others_kept waitsem a b \<Longrightarrow> sem_inv b \<sigma>"
  by (rule sem_inv_cong [of a]) (auto simp: others_kept_def)

text \<open>Taking the deleted task off its semaphore, while it stays in the list.\<close>

lemma nxsem_recover_refines:
  assumes r: "srefines s a \<sigma>" and i: "sem_inv a \<sigma>" and w: "w \<in> set (waiters a p)" and p: "\<sigma> p \<noteq> None"
  defines "\<sigma>' \<equiv> sem_upd \<sigma> p (sem_count \<sigma> p + 1)" and "b \<equiv> a_upd w (\<lambda>t. t\<lparr>waitsem := NULL\<rparr>) a"
  shows "\<exists>s'. nxsem_recover w s = Some s' \<and> srefines s' b \<sigma>' \<and> sframe s s'" "sem_inv b \<sigma>'"
proof -
  note d = sem_invD [OF i]
  have pn: "p \<noteq> NULL" using d(5) [OF p] .
  have wl: "w \<in> set (waitlist a)" "waitsem (a_tcb a w) = p" using w by (simp_all add: waiters_def)
  have lv: "a_live a w" using a_core_live [OF d(2) wl(1)] .
  have st: "task_state (a_tcb a w) = TSTATE_WAIT_SEM"
    using a_core_task [OF d(2) wl(1)] by (cases "task_state (a_tcb a w)") (auto simp: task_ok_def)
  have ok: "sem_ok a p (sem_count \<sigma> p)" using d(4) [OF p] .
  have neg: "sem_count \<sigma> p < 0" using w ok by (cases "waiters a p") (auto simp: sem_ok_def)
  obtain x where x: "get_sem s p = Some x" "semcount x = sem_count \<sigma> p"
    using get_sem_refines [OF r pn p] by blast
  obtain s1 where s1: "set_semcount p (sem_count \<sigma> p + 1) s = Some s1" "srefines s1 a \<sigma>'" "sframe s s1"
    using set_semcount_refines [OF r pn p, of "sem_count \<sigma> p + 1"] ok neg
    by (auto simp: \<sigma>'_def sem_ok_def SEM_VALUE_MAX_def)
  obtain s2 where s2: "upd_tcb w (\<lambda>t. t\<lparr>waitsem := NULL\<rparr>) s1 = Some s2" "srefines s2 b \<sigma>'" "sframe s1 s2"
    using srefines_upd_tcb [OF s1(2) lv] unfolding b_def by blast
  show "\<exists>s'. nxsem_recover w s = Some s' \<and> srefines s' b \<sigma>' \<and> sframe s s'"
    using srefinesD(4) [OF r lv] st wl(2) pn x neg s1(1) s2 sframe_trans [OF s1(3) s2(3)]
    by (simp add: nxsem_recover_def Let_def)
  have dist: "distinct (waitlist a)" using d(2) by (simp add: a_core_def)
  have ws: "waitsem (a_tcb b x) = (if x = w then NULL else waitsem (a_tcb a x))" for x
    using lv by (simp add: b_def)
  have n: "length (waiters a q) = length (waiters b q) + (if q = p then 1 else 0)" if "q \<noteq> NULL" for q
  proof -
    have "remove1 w (waitlist a) = filter (\<lambda>x. x \<noteq> w) (waitlist a)"
      using dist by (auto simp: distinct_remove1_removeAll removeAll_filter_not_eq intro: filter_cong)
    then have "waiters b q = filter (\<lambda>x. waitsem (a_tcb a x) = q) (remove1 w (waitlist a))"
      using ws that by (simp add: waiters_def) (auto simp: b_def intro: filter_cong)
    then show ?thesis
      using length_filter_remove1 [OF wl(1), of "\<lambda>x. waitsem (a_tcb a x) = q"] wl(2)
      by (auto simp: waiters_def)
  qed
  have "a_inv b" unfolding b_def by (rule a_inv_upd_other [OF d(1) lv _ _ _ wl(1)]) simp_all
  moreover have "sem_ok b q (sem_count \<sigma>' q)" if "\<sigma> q \<noteq> None" for q
    using d(4) [OF that] n [OF d(5) [OF that]] neg p that by (auto simp: \<sigma>'_def sem_ok_def SEM_VALUE_MAX_def)
  moreover have "waitlist b = waitlist a" "a_live b = a_live a" by (simp_all add: b_def fun_eq_iff)
  ultimately show "sem_inv b \<sigma>'"
    using d(3) d(6) d(7) ws unfolding sem_inv_def by (auto simp: \<sigma>'_def)
qed

lemma sem_upd_upd [simp]: "sem_upd (sem_upd \<sigma> p m) p n = sem_upd \<sigma> p n"
  by (auto simp: sem_upd_def option.map_comp comp_def)

lemma sem_upd_same [simp]: "sem_upd \<sigma> p (sem_count \<sigma> p) = \<sigma>"
  by (cases "\<sigma> p") (auto simp: sem_upd_def sem_count_def fun_upd_idem)

lemma sem_inv_set:
  assumes i: "sem_inv a \<sigma>" and p: "\<sigma> p \<noteq> None" "sem_count \<sigma> p \<ge> 0" and n: "0 \<le> n" "n \<le> SEM_VALUE_MAX"
  shows "sem_inv a (sem_upd \<sigma> p n)"
proof -
  have "sem_ok a p n" using sem_invD(4) [OF i p(1)] p(2) n by (simp add: sem_ok_def)
  with i p show ?thesis unfolding sem_inv_def by auto
qed

lemma nxsem_destroy_refines:
  assumes r: "srefines s a \<sigma>" and i: "sem_inv a \<sigma>" and p: "\<sigma> p \<noteq> None"
  defines "\<sigma>' \<equiv> (if sem_count \<sigma> p \<ge> 0 then sem_upd \<sigma> p 1 else \<sigma>)"
  shows "\<exists>s'. nxsem_destroy p s = Some (0, s') \<and> srefines s' a \<sigma>' \<and> sframe s s'" "sem_inv a \<sigma>'"
proof -
  have pn: "p \<noteq> NULL" using sem_invD(5) [OF i p] .
  obtain x where x: "get_sem s p = Some x" "semcount x = sem_count \<sigma> p"
    using get_sem_refines [OF r pn p] by blast
  with set_semcount_refines [OF r pn p, of 1] r pn
  show "\<exists>s'. nxsem_destroy p s = Some (0, s') \<and> srefines s' a \<sigma>' \<and> sframe s s'"
    by (auto simp: nxsem_destroy_def \<sigma>'_def SEM_VALUE_MAX_def)
  show "sem_inv a \<sigma>'" using sem_inv_set [OF i p, of 1] i by (auto simp: \<sigma>'_def SEM_VALUE_MAX_def)
qed

text \<open>The loop of \<^verbatim>\<open>nxsem_reset\<close>: a post for each waiting task, as long as there are counts.\<close>

lemma nxsem_reset_loop_refines:
  assumes "srefines s a \<sigma>" "sem_inv a \<sigma>" "\<sigma> p \<noteq> None"
  fixes n
  defines "m \<equiv> min n (length (waiters a p))"
  shows "\<exists>s'. nxsem_reset_loop p n s = Some (n - m, s') \<and>
           srefines s' ((a_post p ^^ m) a) (sem_upd \<sigma> p (sem_count \<sigma> p + int m)) \<and> sframe s s' \<and>
           sem_inv ((a_post p ^^ m) a) (sem_upd \<sigma> p (sem_count \<sigma> p + int m))"
  using assms(1-3) unfolding m_def
proof (induction n arbitrary: s a \<sigma>)
  case 0
  then show ?case using get_sem_refines [OF 0(1) sem_invD(5) [OF 0(2,3)] 0(3)] by auto
next
  case (Suc n)
  note d = sem_invD [OF Suc.prems(2)]
  have pn: "p \<noteq> NULL" using d(5) [OF Suc.prems(3)] .
  have ok: "sem_ok a p (sem_count \<sigma> p)" using d(4) [OF Suc.prems(3)] .
  obtain x where x: "get_sem s p = Some x" "semcount x = sem_count \<sigma> p"
    using get_sem_refines [OF Suc.prems(1) pn Suc.prems(3)] by blast
  show ?case
  proof (cases "sem_count \<sigma> p < 0")
    case False
    then have "waiters a p = []" using ok by (simp add: sem_ok_def)
    with False x Suc.prems show ?thesis by simp
  next
    case True
    let ?\<sigma> = "sem_upd \<sigma> p (sem_count \<sigma> p + 1)" and ?a = "a_post p a"
    have lt: "sem_count \<sigma> p < SEM_VALUE_MAX" using True by (simp add: SEM_VALUE_MAX_def)
    note post = nxsem_post_refines [OF Suc.prems lt]
    obtain s1 where s1: "nxsem_post p s = Some (0, s1)" "srefines s1 ?a ?\<sigma>" "sframe s s1"
      using post(1) by blast
    have p1: "?\<sigma> p \<noteq> None" using Suc.prems(3) by simp
    have w: "length (waiters a p) = Suc (length (waiters ?a p))"
      using ok sem_invD(4) [OF post(2) p1] Suc.prems(3) True by (simp add: sem_ok_def)
    then have m: "min (Suc n) (length (waiters a p)) = Suc (min n (length (waiters ?a p)))" by simp
    from Suc.IH [OF s1(2) post(2) p1] obtain s2 where s2:
      "nxsem_reset_loop p n s1 = Some (n - min n (length (waiters ?a p)), s2)"
      "srefines s2 ((a_post p ^^ min n (length (waiters ?a p))) ?a)
        (sem_upd ?\<sigma> p (sem_count ?\<sigma> p + int (min n (length (waiters ?a p)))))" "sframe s1 s2"
      "sem_inv ((a_post p ^^ min n (length (waiters ?a p))) ?a)
        (sem_upd ?\<sigma> p (sem_count ?\<sigma> p + int (min n (length (waiters ?a p)))))"
      by blast
    have "nxsem_reset_loop p (Suc n) s = Some (Suc n - min (Suc n) (length (waiters a p)), s2)"
      using x True s1(1) s2(1) unfolding m by (simp add: debugassert_def)
    moreover have "sem_upd ?\<sigma> p (sem_count ?\<sigma> p + int (min n (length (waiters ?a p)))) =
        sem_upd \<sigma> p (sem_count \<sigma> p + int (min (Suc n) (length (waiters a p))))"
      using Suc.prems(3) unfolding m by (simp add: algebra_simps)
    moreover have "(a_post p ^^ min n (length (waiters ?a p))) ?a = (a_post p ^^ min (Suc n) (length (waiters a p))) a"
      unfolding m by (simp add: funpow_swap1)
    ultimately show ?thesis using s2(2-4) sframe_trans [OF s1(3) s2(3)] by simp
  qed
qed

lemma srefines_sched1:
  assumes "srefines s a \<sigma>" "\<exists>s'. R = Some s' \<and> refines s' b \<and> kframe s s'"
  shows "\<exists>s'. R = Some s' \<and> srefines s' b \<sigma> \<and> sframe s s'"
  using assms kframe_sems by (fastforce simp: srefines_def)

text \<open>
  Posting under a pre-emption lock: the first waiting task becomes ready or pending, the
  running task keeps running, and nobody's lock or priority changes.
\<close>

definition runnable :: "asched \<Rightarrow> addr set" where
  "runnable a = set (a_list a g_readytorun) \<union> set (a_list a g_pendingtasks)"

lemma a_unblock_runnable:
  assumes c: "a_core a" and t: "t \<in> set (a_list a L)" "L \<noteq> g_readytorun" "L \<noteq> g_pendingtasks"
  shows "runnable (snd (a_unblock t a)) = insert t (runnable a)"
proof -
  have "TLIST_BLOCKED (task_state (a_tcb a t)) = Some L" using a_core_task [OF c t(1)] by (simp add: task_ok_def)
  then show ?thesis
    using t(2,3) by (auto simp: runnable_def a_unblock_def a_removeblocked_def a_addreadytorun_def a_ready_def)
qed

lemma a_post_locked:
  assumes i: "a_inv a" and p: "p \<noteq> NULL" "waiters a p = w # ws" and lk: "0 < lockcount (a_tcb a (a_running a))"
  shows "a_inv (a_post p a)" "waiters (a_post p a) p = ws" "a_running (a_post p a) = a_running a"
    "runnable (a_post p a) = insert w (runnable a)" "a_live (a_post p a) = a_live a"
    "a_live a x \<Longrightarrow> lockcount (a_tcb (a_post p a) x) = lockcount (a_tcb a x)"
proof -
  have c: "a_core a" using i by (simp add: a_inv_def)
  let ?f = "\<lambda>t. t\<lparr>waitsem := NULL\<rparr>"
  let ?a = "a_upd w ?f a"
  have b: "a_post p a = snd (a_unblock w ?a)" using p(2) by (simp add: a_post_def)
  have w: "w \<in> set (waitlist a)" using p(2) by (auto simp: waiters_def dest: filter_eq_ConsD)
  have lv: "a_live a x" if "x \<in> set (waitlist a)" for x using a_core_live [OF c that] .
  note wk = a_wake_ok [OF i w, of ?f, folded b]
  have f: "wake_field ?f" by (simp add: wake_field_def)
  have i1: "a_inv ?a" by (rule a_inv_upd_other [OF i lv [OF w] _ _ _ w]) simp_all
  then have c1: "a_core ?a" by (simp add: a_inv_def)
  have w1: "w \<in> set (waitlist ?a)" using w by simp
  show "a_inv (a_post p a)" "a_live (a_post p a) = a_live a" using wk(1,3) [OF f] by (simp_all add: fun_eq_iff)
  have "distinct (waitlist a)" using c by (simp add: a_core_def)
  then have "waiters (a_post p a) p = filter (\<lambda>x. waitsem (a_tcb a x) = p) (remove1 w (waitlist a))"
    unfolding waiters_def wk(2) [OF f] using wk(5) [OF f] lv by (intro filter_cong) auto
  also have "\<dots> = remove1 w (waiters a p)" by (simp add: waiters_def filter_remove1)
  finally show "waiters (a_post p a) p = ws" using p(2) by simp
  have lk1: "0 < lockcount (a_tcb ?a (a_running ?a))" using lk lv [OF w] by auto
  then have "\<not> fst (a_unblock w ?a)" using a_unblock_dest(1) [OF c1 w1] by simp
  then show "a_running (a_post p a) = a_running a" using a_unblock_ok(3) [OF i1 w1] unfolding b by simp
  show "runnable (a_post p a) = insert w (runnable a)"
    using a_unblock_runnable [OF c1 w1] unfolding b by (simp add: runnable_def)
  show "lockcount (a_tcb (a_post p a) x) = lockcount (a_tcb a x)" if "a_live a x"
    using that a_unblock_field [OF c1, of lockcount x w] lv [OF w] unfolding b by simp
qed

lemma a_posts_locked:
  assumes "a_inv a" "p \<noteq> NULL" "0 < lockcount (a_tcb a (a_running a))" "m \<le> length (waiters a p)"
  defines "b \<equiv> (a_post p ^^ m) a"
  shows "waiters b p = drop m (waiters a p) \<and> a_running b = a_running a \<and> a_live b = a_live a \<and>
    runnable b = runnable a \<union> set (take m (waiters a p)) \<and>
    (\<forall>x. a_live a x \<longrightarrow> lockcount (a_tcb b x) = lockcount (a_tcb a x))"
  using assms(1-4) unfolding b_def
proof (induction m arbitrary: a)
  case (Suc m)
  obtain w ws where w: "waiters a p = w # ws" using Suc.prems(4) by (cases "waiters a p") auto
  note po = a_post_locked [OF Suc.prems(1,2) w Suc.prems(3)]
  have c: "a_live a (a_running a)" using Suc.prems(1) a_core_running_live by (simp add: a_inv_def)
  then have lk: "0 < lockcount (a_tcb (a_post p a) (a_running (a_post p a)))" using Suc.prems(3) po(3,6) by simp
  have "m \<le> length (waiters (a_post p a) p)" using Suc.prems(4) w po(2) by simp
  from Suc.IH [OF po(1) Suc.prems(2) lk this] po(2-6) w show ?case by (auto simp: funpow_swap1)
qed simp

lemma a_unlock_reset:
  assumes i: "a_inv a"
  shows "set (waiters (snd (a_unlock a)) p) = set (waiters a p)" "runnable (snd (a_unlock a)) = runnable a"
    "lockcount (a_tcb a (a_running a)) \<le> 1 \<Longrightarrow> a_list (snd (a_unlock a)) g_pendingtasks = []"
    "a_live (snd (a_unlock a)) = a_live a"
    "a_live a x \<Longrightarrow> lockcount (a_tcb (snd (a_unlock a)) x) =
       (if x = a_running a then max 0 (lockcount (a_tcb a x) - 1) else lockcount (a_tcb a x))"
proof -
  have c: "a_core a" using i by (simp add: a_inv_def)
  let ?b = "snd (a_unlock a)"
  have k: "others_kept waitsem a ?b" by (rule others_kept_unlock [OF c]) simp
  then have "set (waitlist ?b) = set (waitlist a)"
    using mset_eq_setD [of "waitlist ?b" "waitlist a"] by (simp add: others_kept_def)
  then show "set (waiters ?b p) = set (waiters a p)"
    using k a_core_live [OF c] by (auto simp: waiters_def others_kept_def)
  show "runnable ?b = runnable a"
    using a_unlock_lists(1,2) [OF c] a_unlock_ok(3) [OF i]
    by (cases "lockcount (a_tcb a (a_running a)) \<le> 1") (auto simp: runnable_def)
  show "a_live ?b = a_live a" using a_unlock_lists(3) [OF c] by (simp add: fun_eq_iff)
qed (use a_unlock_ok(3) [OF i] a_unlock_fields(2) i in \<open>auto simp: a_inv_def\<close>)

lemma nxsem_reset_refines:
  assumes r: "srefines s a \<sigma>" and i: "sem_inv a \<sigma>" and p: "\<sigma> p \<noteq> None"
    and irq: "\<not> up_interrupt_context s" and lk: "lockcount (a_tcb a (a_running a)) < MAX_LOCK_COUNT"
    and n: "0 \<le> cnt" "cnt \<le> SEM_VALUE_MAX"
  defines "\<sigma>' \<equiv> sem_upd \<sigma> p (cnt - int (length (waiters a p)))"
  shows "\<exists>s' b. nxsem_reset p cnt s = Some (0, s') \<and> srefines s' b \<sigma>' \<and> sframe s s' \<and> sem_inv b \<sigma>' \<and>
    set (waiters b p) = set (drop (nat cnt) (waiters a p)) \<and>
    runnable b = runnable a \<union> set (take (nat cnt) (waiters a p)) \<and>
    (lockcount (a_tcb a (a_running a)) = 0 \<longrightarrow> a_list b g_pendingtasks = []) \<and> a_live b = a_live a \<and>
    (\<forall>x. a_live a x \<longrightarrow> lockcount (a_tcb b x) = lockcount (a_tcb a x))"
proof -
  note d = sem_invD [OF i]
  have pn: "p \<noteq> NULL" using d(5) [OF p] .
  define w where "w = length (waiters a p)"
  define m where "m = min (nat cnt) w"
  have c: "w = nat (- sem_count \<sigma> p)" using d(4) [OF p] by (simp add: w_def sem_ok_def)
  from srefines_sched1 [OF r sched_lock_refines(1) [OF srefinesD(1) [OF r] d(1) irq lk]]
  obtain s1 where s1: "sched_lock s = Some s1" "srefines s1 (a_lock a) \<sigma>" "sframe s s1" by blast
  have i1: "sem_inv (a_lock a) \<sigma>"
    using sem_inv_others [OF i sched_lock_refines(2) [OF srefinesD(1) [OF r] d(1) irq lk] others_kept_lock] by simp
  have "a_tcb (a_lock a) = (a_tcb a)(a_running a := (a_tcb a (a_running a))\<lparr>lockcount := lockcount (a_tcb a (a_running a)) + 1\<rparr>)"
    using a_core_running_live [OF d(2)] by (simp add: a_lock_def)
  then have w1: "waiters (a_lock a) p = waiters a p"
    by (intro waiters_cong) (auto simp: a_lock_def)
  let ?b = "(a_post p ^^ m) (a_lock a)" and ?\<sigma> = "sem_upd \<sigma> p (sem_count \<sigma> p + int m)"
  obtain s2 where s2: "nxsem_reset_loop p (nat cnt) s1 = Some (nat cnt - m, s2)" "srefines s2 ?b ?\<sigma>" "sframe s1 s2"
    "sem_inv ?b ?\<sigma>"
    using nxsem_reset_loop_refines [OF s1(2) i1 p, of "nat cnt"] w1 by (auto simp: m_def w_def)
  have p2: "?\<sigma> p \<noteq> None" using p by simp
  obtain x where x: "get_sem s2 p = Some x" "semcount x = sem_count \<sigma> p + int m"
    using get_sem_refines [OF s2(2) pn p2] p by auto
  have val: "(if sem_count \<sigma> p + int m \<ge> 0 then int (nat cnt - m) else sem_count \<sigma> p + int m) = cnt - int w"
    using n c by (auto simp: m_def min_def split: if_splits)
  obtain s3 where s3: "(if sem_count \<sigma> p + int m \<ge> 0 then set_semcount p (int (nat cnt - m)) s2 else Some s2) = Some s3"
    "srefines s3 ?b \<sigma>'" "sframe s2 s3" "sem_inv ?b \<sigma>'"
  proof (cases "sem_count \<sigma> p + int m \<ge> 0")
    case True
    have r3: "int (nat cnt - m) \<le> SEM_VALUE_MAX" using n by simp
    have "\<sigma>' = sem_upd ?\<sigma> p (int (nat cnt - m))" using val True by (simp add: \<sigma>'_def w_def)
    with set_semcount_refines [OF s2(2) pn p2 _ r3] sem_inv_set [OF s2(4) p2 _ _ r3] p True that
    show ?thesis by force
  next
    case False
    then have "\<sigma>' = ?\<sigma>" using val by (simp add: \<sigma>'_def w_def)
    with s2(2,4) False that show ?thesis by simp
  qed
  have fr: "sframe s s3" using s1(3) s2(3) s3(3) by (simp add: sframe_def)
  then have irq3: "\<not> up_interrupt_context s3" using irq by (simp add: sframe_def up_interrupt_context_def)
  note d3 = sem_invD [OF s3(4)]
  from srefines_sched [OF s3(2) sched_unlock_refines [OF srefinesD(1) [OF s3(2)] d3(1) irq3]]
  obtain s4 where s4: "sched_unlock s3 = Some (fst (a_unlock ?b), s4)" "srefines s4 (snd (a_unlock ?b)) \<sigma>'" "sframe s3 s4"
    by blast
  have i4: "sem_inv (snd (a_unlock ?b)) \<sigma>'"
    using sem_inv_others [OF s3(4) a_unlock_ok(1) [OF d3(1)] others_kept_unlock [OF d3(2)]] by simp
  have nr: "nxsem_reset p cnt s = Some (0, s4)"
    using n pn s1(1) s2(1) x s3(1) s4(1) by (auto simp: nxsem_reset_def Let_def)
  have l0: "0 \<le> lockcount (a_tcb a (a_running a))"
    using a_core_task [OF d(2) a_core_running [OF d(2)]] by (simp add: task_ok_def lock_ok_def)
  have al: "a_inv (a_lock a)" "a_running (a_lock a) = a_running a" "a_live (a_lock a) = a_live a" "runnable (a_lock a) = runnable a"
    "a_live a y \<Longrightarrow> lockcount (a_tcb (a_lock a) y) = lockcount (a_tcb a y) + (if y = a_running a then 1 else 0)" for y
    using sem_invD(1) [OF i1] a_core_running_live [OF d(2)] by (simp_all add: a_lock_def runnable_def fun_eq_iff)
  have lr: "0 < lockcount (a_tcb (a_lock a) (a_running (a_lock a)))"
    using al(2) al(5) [OF a_core_running_live [OF d(2)]] l0 by simp
  have "m \<le> length (waiters (a_lock a) p)" using w1 by (simp add: m_def w_def)
  note po = a_posts_locked [OF al(1) pn lr this, unfolded w1 al(2-4)]
  have tk: "take m (waiters a p) = take (nat cnt) (waiters a p)" "drop m (waiters a p) = drop (nat cnt) (waiters a p)"
    by (auto simp: m_def w_def min_def)
  note un = a_unlock_reset [OF d3(1)]
  show ?thesis
    using nr s4(2) sframe_trans [OF fr s4(3)] i4 un po tk al(5) a_core_running_live [OF d(2)] l0
    by (intro exI [of _ s4] exI [of _ "snd (a_unlock ?b)"]) (auto split: if_splits)
qed

section \<open>Well-formed states and their steps\<close>

definition kseminv :: "'a semstate_scheme \<Rightarrow> bool" where
  "kseminv s \<longleftrightarrow> (\<exists>a. refines s a \<and> sem_inv a (sems s))"

definition waits_for :: "'a semstate_scheme \<Rightarrow> addr \<Rightarrow> addr \<Rightarrow> bool" where
  "waits_for s p t \<longleftrightarrow> in_list s g_waitingforsemaphore t \<and> (\<exists>x. tcbs s t = Some x \<and> waitsem x = p)"

lemma kseminvI: "srefines s a \<sigma> \<Longrightarrow> sem_inv a \<sigma> \<Longrightarrow> kseminv s"
  by (auto simp: kseminv_def srefines_def)

lemma kseminvE:
  assumes "kseminv s"
  obtains a where "srefines s a (sems s)" "sem_inv a (sems s)"
  using assms by (auto simp: kseminv_def srefines_def)

lemma waits_for_waiters:
  assumes "srefines s a \<sigma>" "sem_inv a \<sigma>"
  shows "waits_for s p t \<longleftrightarrow> t \<in> set (waiters a p)"
proof -
  note r = srefinesD [OF assms(1)] and d = sem_invD [OF assms(2)]
  have "tcbs s t = Some (a_tcb a t)" if "t \<in> set (waitlist a)"
    using refines_tcb [OF r(1) a_core_live [OF d(2) that]] .
  then show ?thesis using refines_in_list [OF r(1)] by (auto simp: waits_for_def waiters_def)
qed

text \<open>
  The steps of the kernel: the semaphore operations, in any task or interrupt handler, and the
  operations of the scheduler on tasks that do not wait for a semaphore. As for the scheduler
  alone, the change of priority that does not sort the list is left out.
\<close>

inductive sem_step :: "'a semstate_scheme \<Rightarrow> 'a semstate_scheme \<Rightarrow> bool" where
  wait: "sems s p = Some x \<Longrightarrow> - (2 ^ 15) < semcount x \<Longrightarrow> \<not> up_interrupt_context s \<Longrightarrow>
    this_task s \<noteq> idle_task s \<Longrightarrow> nxsem_wait p s = Some (ret, s') \<Longrightarrow> sem_step s s'"
| trywait: "sems s p = Some x \<Longrightarrow> \<not> up_interrupt_context s \<Longrightarrow>
    nxsem_trywait p s = Some (ret', s') \<Longrightarrow> sem_step s s'"
| post: "sems s p = Some x \<Longrightarrow> semcount x < SEM_VALUE_MAX \<Longrightarrow>
    nxsem_post p s = Some (ret', s') \<Longrightarrow> sem_step s s'"
| resume: "in_list s L t \<Longrightarrow> nxsem_wait_resume t e s = Some (ret', s') \<Longrightarrow> sem_step s s'"
| interrupt: "waits_for s p t \<Longrightarrow> sems s p \<noteq> None \<Longrightarrow>
    nxsem_wait_irq t e s = Some s' \<Longrightarrow> sem_step s s'"
| recover: "waits_for s p t \<Longrightarrow> sems s p \<noteq> None \<Longrightarrow> nxsem_recover t s = Some s' \<Longrightarrow> sem_step s s'"
| destroy: "sems s p \<noteq> None \<Longrightarrow> nxsem_destroy p s = Some (ret', s') \<Longrightarrow> sem_step s s'"
| reset: "sems s p \<noteq> None \<Longrightarrow> \<not> up_interrupt_context s \<Longrightarrow> tcbs s (this_task s) = Some r \<Longrightarrow>
    lockcount r < MAX_LOCK_COUNT \<Longrightarrow> 0 \<le> cnt \<Longrightarrow> cnt \<le> SEM_VALUE_MAX \<Longrightarrow>
    nxsem_reset p cnt s = Some (ret', s') \<Longrightarrow> sem_step s s'"
| block: "in_list s g_readytorun t \<Longrightarrow> t \<noteq> idle_task s \<Longrightarrow> is_blocked_state st \<Longrightarrow> st \<noteq> TSTATE_WAIT_SEM \<Longrightarrow>
    up_block_task t st s = Some (sw, s') \<Longrightarrow> sem_step s s'"
| unblock: "in_list s L t \<Longrightarrow> L \<noteq> g_readytorun \<Longrightarrow> L \<noteq> g_pendingtasks \<Longrightarrow> L \<noteq> g_waitingforsemaphore \<Longrightarrow>
    up_unblock_task t s = Some (sw, s') \<Longrightarrow> sem_step s s'"
| setpriority: "in_list s L t \<Longrightarrow> t \<noteq> idle_task s \<Longrightarrow> setpriority_sorts s t prio \<Longrightarrow>
    SCHED_PRIORITY_MIN \<le> prio \<Longrightarrow> prio \<le> SCHED_PRIORITY_MAX \<Longrightarrow>
    nxsched_setpriority t prio s = Some (ret', s') \<Longrightarrow> sem_step s s'"
| lock: "tcbs s (this_task s) = Some r \<Longrightarrow> lockcount r < MAX_LOCK_COUNT \<Longrightarrow>
    sched_lock s = Some s' \<Longrightarrow> sem_step s s'"
| unlock: "sched_unlock s = Some (sw, s') \<Longrightarrow> sem_step s s'"
| tick: "tcbs s (this_task s) = Some r \<Longrightarrow> 0 \<le> timeslice r \<Longrightarrow> timeslice r < 2 ^ 31 \<Longrightarrow>
    this_task s \<noteq> idle_task s \<Longrightarrow> sched_cpu_scheduler s = Some s' \<Longrightarrow> sem_step s s'"
| run: "sem_step s (s\<lparr>cpu_regs := c\<rparr>)"
| irq: "sem_step s (s\<lparr>current_regs := b\<rparr>)"

lemma ksemE:
  assumes "kseminv s"
  obtains a where "srefines s a (sems s)" "sem_inv a (sems s)" "refines s a" "a_inv a" "a_core a"
    "idle_task s = a_idle a" "this_task s = a_running a" "\<And>L t. in_list s L t \<longleftrightarrow> t \<in> set (a_list a L)"
    "\<And>t x. tcbs s t = Some x \<Longrightarrow> a_tcb a t = x"
proof -
  obtain a where a: "srefines s a (sems s)" "sem_inv a (sems s)" using assms by (rule kseminvE)
  note r = srefinesD [OF a(1)] and d = sem_invD [OF a(2)]
  have "a_tcb a t = x" if "tcbs s t = Some x" for t x using that refines_tcbs [OF r(1)] by (simp add: a_tcb_def)
  with that a r(1,3) d(1,2) refines_idle [OF r(1) d(2)] refines_in_list [OF r(1)] show ?thesis by blast
qed

lemma ksem_others:
  assumes "srefines s a (sems s)" "sem_inv a (sems s)" "R = Some (x, s')"
    "\<exists>s'. R = Some (x', s') \<and> refines s' b \<and> kframe s s'" "a_inv b" "others_kept waitsem a b"
  shows "kseminv s'"
  using srefines_sched [OF assms(1,4)] assms(3) sem_inv_others [OF assms(2,5,6)] by (auto intro: kseminvI)

lemma sem_step_wait:
  assumes k: "kseminv s" and p: "sems s p = Some x" "- (2 ^ 15) < semcount x"
    and irq: "\<not> up_interrupt_context s" and ni: "this_task s \<noteq> idle_task s"
    and w: "nxsem_wait p s = Some (ret, s')"
  shows "kseminv s'"
proof -
  obtain a where a: "srefines s a (sems s)" "sem_inv a (sems s)" "idle_task s = a_idle a" "this_task s = a_running a"
    using k by (rule ksemE)
  have p': "sems s p \<noteq> None" "- (2 ^ 15) < sem_count (sems s) p" using p by (simp_all add: sem_count_def)
  have ni': "a_running a \<noteq> a_idle a" using ni a(3,4) by simp
  show ?thesis
  proof (cases "sem_count (sems s) p > 0")
    case True
    from nxsem_take_refines [OF a(1,2) p'(1) True irq] w sem_inv_take [OF a(2) p'(1) True]
    show ?thesis by (auto intro: kseminvI)
  next
    case False
    then have le: "sem_count (sems s) p \<le> 0" by simp
    from nxsem_wait_block_refines [OF a(1,2) p'(1) le p'(2) irq ni'] w sem_inv_block [OF a(2) ni' p'(1) le p'(2)]
    show ?thesis by (auto intro: kseminvI)
  qed
qed

lemma sem_step_trywait:
  assumes k: "kseminv s" and p: "sems s p = Some x" and irq: "\<not> up_interrupt_context s"
    and w: "nxsem_trywait p s = Some (ret, s')"
  shows "kseminv s'"
proof -
  obtain a where a: "srefines s a (sems s)" "sem_inv a (sems s)" using k by (rule kseminvE)
  have p': "sems s p \<noteq> None" using p by simp
  show ?thesis
  proof (cases "sem_count (sems s) p > 0")
    case True
    from nxsem_take_refines [OF a p' True irq] w sem_inv_take [OF a(2) p' True]
    show ?thesis by (auto intro: kseminvI)
  next
    case False
    with nxsem_trywait_fail [OF a p' _ irq] w k show ?thesis by simp
  qed
qed

lemma sem_step_resume:
  assumes k: "kseminv s" and t: "in_list s L t" and w: "nxsem_wait_resume t e s = Some (ret, s')"
  shows "kseminv s'"
proof -
  obtain a where a: "srefines s a (sems s)" "sem_inv a (sems s)" "a_core a" "t \<in> set (a_list a L)" "a_inv a"
    using k t by (auto elim!: ksemE)
  have lv: "a_live a t" using a_core_live [OF a(3,4)] .
  let ?f = "\<lambda>x. x\<lparr>pterrno := e\<rparr>"
  obtain s1 where s1: "upd_tcb t ?f s = Some s1" "srefines s1 (a_upd t ?f a) (sems s)"
    using srefines_upd_tcb [OF a(1) lv] by blast
  have "a_inv (a_upd t ?f a)" by (rule a_inv_upd_other [OF a(5) lv _ _ _ a(4)]) simp_all
  moreover have "others_kept waitsem a (a_upd t ?f a)" by (rule others_kept_upd) simp
  ultimately have "sem_inv (a_upd t ?f a) (sems s)" by (rule sem_inv_others [OF a(2)])
  moreover have "s' = s1" using w s1(1) srefinesD(4) [OF a(1) lv] by (simp add: nxsem_wait_resume_def Let_def)
  ultimately show ?thesis using s1(2) by (auto intro: kseminvI)
qed

lemma sem_step_block:
  assumes k: "kseminv s" and t: "in_list s g_readytorun t" "t \<noteq> idle_task s"
    and st: "is_blocked_state st" "st \<noteq> TSTATE_WAIT_SEM" and w: "up_block_task t st s = Some (sw, s')"
  shows "kseminv s'"
proof -
  obtain a where a: "srefines s a (sems s)" "sem_inv a (sems s)" "refines s a" "a_inv a" "a_core a"
      "t \<in> set (a_list a g_readytorun)" "t \<noteq> a_idle a"
    using k t by (auto elim!: ksemE)
  let ?b = "snd (a_block t st a)"
  have nw: "TLIST_BLOCKED st \<noteq> Some g_waitingforsemaphore" using st by (cases st) auto
  have "sem_inv ?b (sems s)"
  proof (rule sem_inv_cong [OF a(2)])
    show "a_inv ?b" by (rule a_block_ok(1) [OF a(4,6,7) st(1)])
    show "a_live ?b = a_live a" by (simp add: a_block_live fun_eq_iff)
    show "mset (waitlist ?b) = mset (waitlist a)" using a_block_other [OF a(5-7) st(1) _ _ nw] by simp
    show "waitsem (a_tcb ?b x) = waitsem (a_tcb a x)" if "a_live a x" for x
      using a_block_field [OF a(5) _ that, of waitsem] by simp
  qed
  with srefines_sched [OF a(1) up_block_task_refines [OF a(3,4,6,7) st(1)]] w show ?thesis
    by (auto intro: kseminvI)
qed

lemma sem_step_unblock:
  assumes k: "kseminv s" and t: "in_list s L t"
    and L: "L \<noteq> g_readytorun" "L \<noteq> g_pendingtasks" "L \<noteq> g_waitingforsemaphore"
    and w: "up_unblock_task t s = Some (sw, s')"
  shows "kseminv s'"
proof -
  obtain a where a: "srefines s a (sems s)" "sem_inv a (sems s)" "refines s a" "a_inv a" "a_core a"
      "t \<in> set (a_list a L)"
    using k t by (auto elim!: ksemE)
  let ?b = "snd (a_unblock t a)"
  have "sem_inv ?b (sems s)"
  proof (rule sem_inv_cong [OF a(2)])
    show "a_inv ?b" by (rule a_unblock_ok(1) [OF a(4,6) L(1,2)])
    show "a_live ?b = a_live a" by (simp add: a_unblock_live fun_eq_iff)
    show "mset (waitlist ?b) = mset (waitlist a)" using a_unblock_lists [OF a(5,6) L(1)] L(3) by simp
    show "waitsem (a_tcb ?b x) = waitsem (a_tcb a x)" if "a_live a x" for x
      using a_unblock_field [OF a(5) _ that, of waitsem] by simp
  qed
  with srefines_sched [OF a(1) up_unblock_task_refines [OF a(3,4,6) L(1,2)]] w show ?thesis
    by (auto intro: kseminvI)
qed

lemma sem_step_setpriority:
  assumes k: "kseminv s" and t: "in_list s L t" "t \<noteq> idle_task s" and db: "setpriority_sorts s t prio"
    and p: "SCHED_PRIORITY_MIN \<le> prio" "prio \<le> SCHED_PRIORITY_MAX"
    and w: "nxsched_setpriority t prio s = Some (ret, s')"
  shows "kseminv s'"
proof -
  obtain a where a: "srefines s a (sems s)" "sem_inv a (sems s)" "refines s a" "a_inv a"
      "t \<in> set (a_list a L)" "t \<noteq> a_idle a"
    using k t by (auto elim!: ksemE)
  note w1 = word_prio(2) [OF p]
  show ?thesis
  proof (rule ksem_others [OF a(1,2) w])
    show "\<exists>s'. nxsched_setpriority t prio s = Some (0, s') \<and>
        refines s' (a_setpriority t (word_of_int prio) a) \<and> kframe s s'"
      by (rule setpriority_refines [OF a(3-6) p db])
  qed (use a_setpriority_ok(1) [OF a(4-6) w1] others_kept_setpriority [OF a(4-6) w1, of waitsem] in simp_all)
qed

lemma sem_step_sched:
  assumes k: "kseminv s"
  shows "sched_unlock s = Some (sw, s') \<Longrightarrow> kseminv s'"
    and "tcbs s (this_task s) = Some r \<Longrightarrow> lockcount r < MAX_LOCK_COUNT \<Longrightarrow> sched_lock s = Some s' \<Longrightarrow> kseminv s'"
    and "tcbs s (this_task s) = Some r \<Longrightarrow> 0 \<le> timeslice r \<Longrightarrow> timeslice r < 2 ^ 31 \<Longrightarrow>
      this_task s \<noteq> idle_task s \<Longrightarrow> sched_cpu_scheduler s = Some s' \<Longrightarrow> kseminv s'"
proof -
  obtain a where a: "srefines s a (sems s)" "sem_inv a (sems s)" "refines s a" "a_inv a" "a_core a"
    "idle_task s = a_idle a" "this_task s = a_running a" "\<And>t x. tcbs s t = Some x \<Longrightarrow> a_tcb a t = x"
    using k by (rule ksemE) blast
  show "kseminv s'" if w: "sched_unlock s = Some (sw, s')"
  proof (cases "up_interrupt_context s")
    case True
    then show ?thesis using w k by (simp add: sched_unlock_def Let_def)
  next
    case False
    show ?thesis
      by (rule ksem_others [OF a(1,2) w sched_unlock_refines [OF a(3,4) False] a_unlock_ok(1) [OF a(4)]
            others_kept_unlock [OF a(5)]]) simp
  qed
  show "kseminv s'" if r: "tcbs s (this_task s) = Some r" "lockcount r < MAX_LOCK_COUNT" and w: "sched_lock s = Some s'"
  proof (cases "up_interrupt_context s")
    case True
    then show ?thesis using w k by (simp add: sched_lock_def Let_def)
  next
    case False
    have "lockcount (a_tcb a (a_running a)) < MAX_LOCK_COUNT" using r a(7) a(8) by force
    note lk = sched_lock_refines [OF a(3,4) False this]
    from srefines_sched1 [OF a(1) lk(1)] w sem_inv_others [OF a(2) lk(2) others_kept_lock] show ?thesis
      by (auto intro: kseminvI)
  qed
  show "kseminv s'" if r: "tcbs s (this_task s) = Some r" "0 \<le> timeslice r" "timeslice r < 2 ^ 31"
    and ni: "this_task s \<noteq> idle_task s" and w: "sched_cpu_scheduler s = Some s'"
  proof -
    have ts: "0 \<le> timeslice (a_tcb a (a_running a))" "timeslice (a_tcb a (a_running a)) < 2 ^ 31"
      and ni': "a_running a \<noteq> a_idle a"
      using r ni a(6,7,8) by force+
    from srefines_sched1 [OF a(1) sched_cpu_scheduler_refines [OF a(3,4) ni' ts]] w
      sem_inv_others [OF a(2) a_inv_cpu_scheduler [OF a(4) ni'] others_kept_cpu_scheduler [OF a(4) ni']]
    show ?thesis by (auto intro: kseminvI)
  qed
qed

lemma sem_step_kseminv:
  assumes "sem_step s s'" "kseminv s"
  shows "kseminv s'"
  using assms
proof (induction rule: sem_step.induct)
  case (post s p x ret' s')
  obtain a where a: "srefines s a (sems s)" "sem_inv a (sems s)" using post(4) by (rule kseminvE)
  have "sems s p \<noteq> None" "sem_count (sems s) p < SEM_VALUE_MAX" using post by (simp_all add: sem_count_def)
  from nxsem_post_refines [OF a this] post(3) show ?case by (auto intro: kseminvI)
next
  case (interrupt s p t e s')
  obtain a where a: "srefines s a (sems s)" "sem_inv a (sems s)" using interrupt(4) by (rule kseminvE)
  then have "t \<in> set (waiters a p)" using waits_for_waiters interrupt(1) by blast
  from nxsem_wait_irq_refines [OF a this interrupt(2), of e] interrupt(3) show ?case by (auto intro: kseminvI)
next
  case (recover s p t s')
  obtain a where a: "srefines s a (sems s)" "sem_inv a (sems s)" using recover(4) by (rule kseminvE)
  then have "t \<in> set (waiters a p)" using waits_for_waiters recover(1) by blast
  from nxsem_recover_refines [OF a this recover(2)] recover(3) show ?case by (auto intro: kseminvI)
next
  case (destroy s p ret' s')
  obtain a where a: "srefines s a (sems s)" "sem_inv a (sems s)" using destroy(3) by (rule kseminvE)
  from nxsem_destroy_refines [OF a destroy(1)] destroy(2) show ?case by (auto intro: kseminvI split: if_splits)
next
  case (reset s p r cnt ret' s')
  obtain a where a: "srefines s a (sems s)" "sem_inv a (sems s)" "this_task s = a_running a"
    "\<And>t x. tcbs s t = Some x \<Longrightarrow> a_tcb a t = x" using reset(8) by (rule ksemE) blast
  have "lockcount (a_tcb a (a_running a)) < MAX_LOCK_COUNT" using reset(3,4) a(3,4) by force
  from nxsem_reset_refines [OF a(1,2) reset(1,2) this reset(5,6)] reset(7) show ?case by (auto intro: kseminvI)
next
  case (run s c)
  then obtain a where a: "refines s a" "sem_inv a (sems s)" by (auto simp: kseminv_def)
  have "sem_inv (a\<lparr>a_cpu := c\<rparr>) (sems s)"
    by (rule sem_inv_cong [OF a(2)]) (use sem_invD(1) [OF a(2)] in \<open>simp_all add: a_inv_def\<close>)
  then show ?case using refines_cpu [OF a(1)] by (auto simp: kseminv_def)
next
  case (irq s b)
  then show ?case by (auto simp: kseminv_def refines_def)
next
  case (wait s p x ret s')
  from sem_step_wait [OF wait(6,1-5)] show ?case .
next
  case (trywait s p x ret' s')
  from sem_step_trywait [OF trywait(4,1-3)] show ?case .
next
  case (resume s L t e ret' s')
  from sem_step_resume [OF resume(3,1,2)] show ?case .
next
  case (block s t st sw s')
  from sem_step_block [OF block(6,1-5)] show ?case .
next
  case (unblock s L t sw s')
  from sem_step_unblock [OF unblock(6,1-5)] show ?case .
next
  case (setpriority s L t prio ret' s')
  from sem_step_setpriority [OF setpriority(7,1-6)] show ?case .
next
  case (lock s r s')
  from sem_step_sched(2) [OF lock(4,1-3)] show ?case .
next
  case (unlock s sw s')
  from sem_step_sched(1) [OF unlock(2,1)] show ?case .
next
  case (tick s r s')
  from sem_step_sched(3) [OF tick(6,1-5)] show ?case .
qed

section \<open>Observations\<close>

lemma refines_kseminv:
  assumes "kseminv s"
  shows "kinv s"
  using assms kinvI sem_invD(1) unfolding kseminv_def by blast

lemma finite_waits:
  assumes "srefines s a \<sigma>" "sem_inv a \<sigma>" "\<sigma> p = Some x"
  shows "card {t. waits_for s p t} = nat (- semcount x)" "- semcount x \<le> 2 ^ 15"
proof -
  have "{t. waits_for s p t} = set (waiters a p)" using waits_for_waiters [OF assms(1,2)] by auto
  moreover have "distinct (waiters a p)" using sem_invD(2) [OF assms(2)] by (simp add: a_core_def waiters_def)
  moreover have "sem_ok a p (semcount x)" using sem_invD(4) [OF assms(2), of p] assms(3) by (simp add: sem_count_def)
  ultimately show "card {t. waits_for s p t} = nat (- semcount x)" "- semcount x \<le> 2 ^ 15"
    by (simp_all add: distinct_card sem_ok_def)
qed

text \<open>A concrete state: task 4 waits for semaphore 100; semaphore 101 is locked, 102 is free.\<close>

definition demo_sem :: semstate where
  "demo_sem = \<lparr>dqm = dqm demo,
     tcbs = (tcbs demo)(4 \<mapsto> (demo_tcb 4 150 TSTATE_WAIT_SEM)\<lparr>waitsem := 100\<rparr>),
     tasklists = tasklists demo, current_regs = False, cpu_regs = 42, debug_assertions = True,
     sems = [100 \<mapsto> \<lparr>semcount = -1\<rparr>, 101 \<mapsto> \<lparr>semcount = 0\<rparr>, 102 \<mapsto> \<lparr>semcount = 1\<rparr>],
     g_pidhash = (\<lambda>n. if n = 4 then \<lparr>ph_tcb = 4, ph_pid = 4\<rparr> else \<lparr>ph_tcb = 0, ph_pid = -1\<rparr>),
     g_irqerrno = 0\<rparr>"

definition demo_sem_a :: asched where
  "demo_sem_a = demo_a\<lparr>a_tcbs := tcbs demo_sem\<rparr>"

lemma demo_sem_refines: "srefines demo_sem demo_sem_a (sems demo_sem)"
proof -
  have "refines demo demo_a" by (rule demo_refines)
  then show ?thesis
    by (auto simp: srefines_def refines_def demo_sem_def demo_sem_a_def) (auto simp: demo_def demo_a_def)
qed

lemma demo_sem_inv: "sem_inv demo_sem_a (sems demo_sem)"
proof -
  have "a_inv demo_sem_a"
    by (auto simp: a_inv_def a_core_def task_ok_def a_live_def a_tcb_def a_prio_def a_running_def a_idle_def
        demo_sem_def demo_sem_a_def demo_def demo_a_def demo_tcb_def lock_ok_def MAX_LOCK_COUNT_def
        prioritized_list_def split: if_splits)
  then show ?thesis
    by (auto simp: sem_inv_def sem_ok_def waiters_def sem_count_def SEM_VALUE_MAX_def a_live_def a_tcb_def
        demo_sem_def demo_sem_a_def demo_def demo_a_def demo_tcb_def split: if_splits)
qed

lemma demo_sem_kseminv: "kseminv demo_sem"
  using kseminvI [OF demo_sem_refines demo_sem_inv] .

lemma demo_sem_observe:
  "this_task demo_sem = 2" "idle_task demo_sem = 1" "\<not> up_interrupt_context demo_sem"
  "sems demo_sem 100 = Some \<lparr>semcount = -1\<rparr>" "sems demo_sem 101 = Some \<lparr>semcount = 0\<rparr>"
  "sems demo_sem 102 = Some \<lparr>semcount = 1\<rparr>"
  by (simp_all add: this_task_def idle_task_def up_interrupt_context_def demo_sem_def demo_def)

section \<open>Properties\<close>

text \<open>
  C11. Whatever tasks and interrupt handlers do with the semaphores and the scheduler, in
  whatever order, the count of a semaphore keeps its meaning: a negative count is the number
  of tasks that wait for the semaphore, and if the count is not negative no task waits. The
  operations are called under the conditions of \<open>sem_step\<close>: the counts stay in range, tasks
  do not wait in interrupt handlers, the idle task does not wait, and the change of priority
  that leaves its list unsorted (without debug assertions, of a ready task that is not
  running, to a priority not above the running task's) does not occur. In the example, task
  4 is released by a post and pre-empts task 2, waits for another semaphore, as task 2 then
  does too, and is released again by an interrupt handler.
\<close>

theorem sem_invariant:
  "sem_step\<^sup>*\<^sup>* s s' \<Longrightarrow> kseminv s \<Longrightarrow>
   kseminv s' \<and> kinv s' \<and> (\<forall>p x. sems s' p = Some x \<longrightarrow> card {t. waits_for s' p t} = nat (- semcount x))"
proof (induction rule: rtranclp_induct)
  case base
  then obtain a where a: "srefines s a (sems s)" "sem_inv a (sems s)" by (rule kseminvE)
  then show ?case using base refines_kseminv finite_waits(1) [OF a] by blast
next
  case (step s1 s2)
  then have k: "kseminv s2" using sem_step_kseminv by blast
  then obtain a where a: "srefines s2 a (sems s2)" "sem_inv a (sems s2)" by (rule kseminvE)
  then show ?case using k refines_kseminv finite_waits(1) [OF a] by blast
qed

theorem sem_invariant_witness:
  "\<exists>s1 s2 s3 s4. nxsem_post 100 demo_sem = Some (0, s1) \<and> nxsem_wait 101 s1 = Some (Switched 2, s2) \<and>
     nxsem_wait 101 s2 = Some (Switched 2, s3) \<and> nxsem_post 101 (s3\<lparr>current_regs := True\<rparr>) = Some (0, s4) \<and>
     this_task s4 = 4 \<and> kseminv s4 \<and> card {t. waits_for s4 101 t} = 1"
proof -
  let ?i = "\<lambda>s. s\<lparr>current_regs := True\<rparr>"
  have "do { (r1, s1) \<leftarrow> nxsem_post 100 demo_sem; (r2, s2) \<leftarrow> nxsem_wait 101 s1; (r3, s3) \<leftarrow> nxsem_wait 101 s2;
          (r4, s4) \<leftarrow> nxsem_post 101 (?i s3);
          Some ((r1, r2, r3, r4), (sems s1 101, this_task s1, idle_task s1, current_regs s1),
            (sems s2 101, this_task s2, idle_task s2, current_regs s2), sems s3 101, sems s4 101, this_task s4) } =
        Some ((0, Switched 2, Switched 2, 0), (Some \<lparr>semcount = 0\<rparr>, 4, 1, False), (Some \<lparr>semcount = -1\<rparr>, 2, 1, False),
          Some \<lparr>semcount = -2\<rparr>, Some \<lparr>semcount = -1\<rparr>, 4)"
    by code_simp
  then obtain s1 s2 s3 s4 where s: "nxsem_post 100 demo_sem = Some (0, s1)" "nxsem_wait 101 s1 = Some (Switched 2, s2)"
      "nxsem_wait 101 s2 = Some (Switched 2, s3)" "nxsem_post 101 (?i s3) = Some (0, s4)"
    and o: "sems s1 101 = Some \<lparr>semcount = 0\<rparr>" "this_task s1 \<noteq> idle_task s1" "\<not> current_regs s1"
      "sems s2 101 = Some \<lparr>semcount = -1\<rparr>" "this_task s2 \<noteq> idle_task s2" "\<not> current_regs s2"
      "sems s3 101 = Some \<lparr>semcount = -2\<rparr>" "sems s4 101 = Some \<lparr>semcount = -1\<rparr>" "this_task s4 = 4"
    by (auto split: bind_splits)
  have 1: "sem_step demo_sem s1"
    by (rule sem_step.post [OF demo_sem_observe(4) _ s(1)]) (simp add: SEM_VALUE_MAX_def)
  have 2: "sem_step s1 s2" by (rule sem_step.wait [OF o(1) _ _ o(2) s(2)]) (use o(3) in \<open>simp_all add: up_interrupt_context_def\<close>)
  have 3: "sem_step s2 s3" by (rule sem_step.wait [OF o(4) _ _ o(5) s(3)]) (use o(6) in \<open>simp_all add: up_interrupt_context_def\<close>)
  have 4: "sem_step s3 (?i s3)" by (rule sem_step.irq)
  have o7: "sems (?i s3) 101 = Some \<lparr>semcount = -2\<rparr>" using o(7) by simp
  have 5: "sem_step (?i s3) s4" by (rule sem_step.post [OF o7 _ s(4)]) (simp add: SEM_VALUE_MAX_def)
  have "sem_step\<^sup>*\<^sup>* demo_sem s4" using 1 2 3 4 5 by (meson rtranclp.rtrancl_refl rtranclp.rtrancl_into_rtrancl)
  from sem_invariant [OF this demo_sem_kseminv] s o(8,9) show ?thesis by auto
qed

text \<open>
  C12. Posting a semaphore always succeeds and adds one to the count. If tasks wait for the
  semaphore, exactly one of them is taken off it and becomes ready or, under a pre-emption
  lock, pending: the first one in the waiting list, which has the highest priority of the
  waiting tasks. Otherwise no task and no list changes. No register context is lost.
\<close>

theorem nxsem_post_correct:
  assumes k: "kseminv s" and p: "sems s p = Some x" "semcount x < SEM_VALUE_MAX"
  shows "\<exists>s'. nxsem_post p s = Some (0, s') \<and> kseminv s' \<and> sframe s s' \<and> same_contexts s s' \<and>
     sems s' = (sems s)(p \<mapsto> x\<lparr>semcount := semcount x + 1\<rparr>) \<and>
     (if semcount x < 0
      then \<exists>w xs. dq_rep (dqm s) (tasklists s g_waitingforsemaphore) xs \<and>
             w = hd (filter (waits_for s p) xs) \<and> waits_for s p w \<and>
             (\<forall>u. waits_for s p u \<longrightarrow> the (task_prio s u) \<le> the (task_prio s w)) \<and>
             (\<forall>u. waits_for s' p u \<longleftrightarrow> waits_for s p u \<and> u \<noteq> w) \<and>
             (in_list s' g_readytorun w \<or> in_list s' g_pendingtasks w)
      else tcbs s' = tcbs s \<and> (\<forall>L u. in_list s' L u = in_list s L u))"
proof -
  obtain a where a: "srefines s a (sems s)" "sem_inv a (sems s)" using k by (rule kseminvE)
  note r = srefinesD [OF a(1)] and d = sem_invD [OF a(2)]
  have p': "sems s p \<noteq> None" "sem_count (sems s) p < SEM_VALUE_MAX" using p by (simp_all add: sem_count_def)
  note po = nxsem_post_refines [OF a p']
  obtain s' where s': "nxsem_post p s = Some (0, s')"
    "srefines s' (a_post p a) (sem_upd (sems s) p (sem_count (sems s) p + 1))" "sframe s s'"
    using po(1) by blast
  have sm: "sems s' = (sems s)(p \<mapsto> x\<lparr>semcount := semcount x + 1\<rparr>)"
    using srefinesD(2) [OF s'(2)] p by (simp add: sem_upd_def sem_count_def)
  have k': "kseminv s'" using kseminvI [OF s'(2) po(2)] .
  note r' = srefinesD [OF s'(2)] and wf = waits_for_waiters [OF a] and wf' = waits_for_waiters [OF s'(2) po(2)]
  have ok: "sem_ok a p (semcount x)" using d(4) [OF p'(1)] p by (simp add: sem_count_def)
  show ?thesis
  proof (cases "waiters a p")
    case Nil
    then have "a_post p a = a" "\<not> semcount x < 0" using ok by (auto simp: a_post_def sem_ok_def)
    moreover from this have "same_contexts s s'" using r'(1) by (intro same_contextsI [OF r(1)]) auto
    ultimately show ?thesis
      using s'(1,3) k' sm refines_tcbs [OF r(1)] refines_tcbs [OF r'(1)] refines_in_list [OF r(1)]
        refines_in_list [OF r'(1)] by auto
  next
    case (Cons w ws)
    let ?f = "\<lambda>t. t\<lparr>waitsem := NULL\<rparr>"
    have f: "wake_field ?f" by (simp add: wake_field_def)
    have neg: "semcount x < 0" using ok Cons by (auto simp: sem_ok_def)
    have w: "w \<in> set (waiters a p)" "w \<in> set (waitlist a)" using Cons by (auto simp: waiters_def dest: filter_eq_ConsD)
    have b: "a_post p a = snd (a_unblock w (a_upd w ?f a))" using Cons by (simp add: a_post_def)
    note wk = a_wake_ok [OF d(1) w(2) f, folded b]
    have ctx: "same_contexts s s'" using wk(3,6) by (intro same_contextsI [OF r(1) r'(1)]) auto
    have "desc (a_prio a) (waiters a p)"
      using a_core_desc [OF d(2), of g_waitingforsemaphore] unfolding waiters_def
      by (intro desc_filter) (simp add: prioritized_list_def)
    then have mx: "a_prio a u \<le> a_prio a w" if "u \<in> set (waiters a p)" for u using that Cons by auto
    have tp: "task_prio s u = Some (a_prio a u)" if "u \<in> set (waiters a p)" for u
      using refines_prio [OF r(1)] a_core_live [OF d(2), of u g_waitingforsemaphore] that by (simp add: waiters_def)
    have "filter (waits_for s p) (waitlist a) = waiters a p"
      unfolding waiters_def using wf by (intro filter_cong) (auto simp: waiters_def)
    then have hd: "w = hd (filter (waits_for s p) (waitlist a))" using Cons by simp
    have dist: "distinct (waitlist a)" using d(2) by (simp add: a_core_def)
    have lv: "a_live a u" if "u \<in> set (waitlist a)" for u using a_core_live [OF d(2) that] .
    have "u \<in> set (waiters (a_post p a) p) \<longleftrightarrow> u \<in> set (waiters a p) \<and> u \<noteq> w" for u
      using dist lv wk(5) by (auto simp: waiters_def wk(2))
    moreover have "w \<in> set (a_list (a_post p a) g_readytorun) \<or> w \<in> set (a_list (a_post p a) g_pendingtasks)"
      unfolding b using a_unblock_dest(2) [of "a_upd w ?f a" w g_waitingforsemaphore] w(2)
        a_inv_upd_other [OF d(1) lv [OF w(2)] _ _ _ w(2), of ?f]
      by (auto simp: a_inv_def split: if_splits)
    ultimately show ?thesis
      using s'(1,3) k' ctx sm neg refines_rep [OF r(1), of g_waitingforsemaphore] hd w(1) wf wf' mx tp
        refines_in_list [OF r'(1)] by auto
  qed
qed

theorem nxsem_post_correct_witness:
  "\<exists>s'. nxsem_post 100 demo_sem = Some (0, s') \<and> kseminv s' \<and>
     sems s' 100 = Some \<lparr>semcount = 0\<rparr> \<and> (\<forall>u. \<not> waits_for s' 100 u)"
proof -
  obtain s' where s': "nxsem_post 100 demo_sem = Some (0, s')" "kseminv s'" "sems s' 100 = Some \<lparr>semcount = 0\<rparr>"
    using nxsem_post_correct [OF demo_sem_kseminv demo_sem_observe(4)] by (auto simp: SEM_VALUE_MAX_def)
  obtain a where a: "srefines s' a (sems s')" "sem_inv a (sems s')" using s'(2) by (rule kseminvE)
  have "waiters a 100 = []" using sem_invD(4) [OF a(2), of 100] s'(3) by (simp add: sem_ok_def sem_count_def)
  with waits_for_waiters [OF a, of 100] s' show ?thesis by auto
qed

text \<open>
  C13. \<^verbatim>\<open>nxsem_wait\<close> by a task other than the idle task: if the count is positive the caller
  takes one count and returns success at once, with nothing else changed; otherwise the
  caller is entered into the waiting tasks of the semaphore and switched out, the count is
  decremented, no register context is lost, and the task that runs instead gets a new time
  slice. The suspended call remembers the \<^verbatim>\<open>errno\<close> of the caller.
\<close>

theorem nxsem_wait_correct:
  assumes k: "kseminv s" and p: "sems s p = Some x" "- (2 ^ 15) < semcount x"
    and irq: "\<not> up_interrupt_context s" and ni: "this_task s \<noteq> idle_task s"
  shows "\<exists>s' ret. nxsem_wait p s = Some (ret, s') \<and> kseminv s' \<and> sframe s s' \<and> same_contexts s s' \<and>
     sems s' = (sems s)(p \<mapsto> x\<lparr>semcount := semcount x - 1\<rparr>) \<and>
     (if semcount x > 0
      then ret = Returned 0 \<and> tcbs s' = tcbs s \<and> (\<forall>L u. in_list s' L u = in_list s L u)
      else (\<exists>r. tcbs s (this_task s) = Some r \<and> ret = Switched (pterrno r)) \<and>
        (\<forall>u. waits_for s' p u \<longleftrightarrow> waits_for s p u \<or> u = this_task s) \<and>
        this_task s' \<noteq> this_task s \<and> slices True s s')"
proof -
  obtain a where a: "srefines s a (sems s)" "sem_inv a (sems s)" "a_core a" "idle_task s = a_idle a" "this_task s = a_running a"
    using k by (rule ksemE)
  note r = srefinesD [OF a(1)]
  have p': "sems s p \<noteq> None" "- (2 ^ 15) < sem_count (sems s) p" "sem_count (sems s) p = semcount x"
    using p by (simp_all add: sem_count_def)
  have ni': "a_running a \<noteq> a_idle a" using ni a(4,5) by simp
  have sm: "sems s' = (sems s)(p \<mapsto> x\<lparr>semcount := semcount x - 1\<rparr>)"
    if "srefines s' b (sem_upd (sems s) p (sem_count (sems s) p - 1))" for s' b
    using srefinesD(2) [OF that] p(1) p'(3) by (simp add: sem_upd_def)
  show ?thesis
  proof (cases "semcount x > 0")
    case True
    then have pos: "sem_count (sems s) p > 0" using p'(3) by simp
    obtain s' where s': "nxsem_wait p s = Some (Returned 0, s')"
      "srefines s' a (sem_upd (sems s) p (sem_count (sems s) p - 1))" "sframe s s'"
      using nxsem_take_refines [OF a(1,2) p'(1) pos irq] by blast
    note r' = srefinesD [OF s'(2)]
    have "kseminv s'" using kseminvI [OF s'(2) sem_inv_take [OF a(2) p'(1) pos]] .
    moreover have "same_contexts s s'" by (intro same_contextsI [OF r(1) r'(1)]) auto
    ultimately show ?thesis
      using s' sm [OF s'(2)] True refines_tcbs [OF r(1)] refines_tcbs [OF r'(1)] refines_in_list [OF r(1)]
        refines_in_list [OF r'(1)] by auto
  next
    case False
    then have le: "sem_count (sems s) p \<le> 0" using p'(3) by simp
    let ?b = "a_sem_block p a"
    obtain s' where s': "nxsem_wait p s = Some (Switched (pterrno (a_tcb a (a_running a))), s')"
      "srefines s' ?b (sem_upd (sems s) p (sem_count (sems s) p - 1))" "sframe s s'"
      using nxsem_wait_block_refines [OF a(1,2) p'(1) le p'(2) irq ni'] by blast
    note r' = srefinesD [OF s'(2)] and ok = a_sem_block_ok [OF sem_invD(1) [OF a(2)] ni', where p = p]
    note i' = sem_inv_block [OF a(2) ni' p'(1) le p'(2)]
    have ctx: "same_contexts s s'" using ok(3,5) by (intro same_contextsI [OF r(1) r'(1)]) auto
    have lv: "a_live a u" if "u \<in> set (waitlist a)" for u using a_core_live [OF a(3) that] .
    have nt: "a_running a \<notin> set (waitlist a)" using a_core_disjoint [OF a(3) a_core_running [OF a(3)]] by blast
    have "u \<in> set (waiters ?b p) \<longleftrightarrow> u \<in> set (waiters a p) \<or> u = a_running a" for u
      using lv ok(4) a_core_running_live [OF a(3)] nt by (auto simp: waiters_def ok(2))
    moreover have "a_running ?b \<noteq> a_running a"
    proof -
      have "a_core ?b" using ok(1) by (simp add: a_inv_def)
      then show ?thesis
        using a_core_disjoint [of ?b "a_running a" g_waitingforsemaphore g_readytorun]
          a_core_running [of ?b] by (auto simp: ok(2))
    qed
    moreover have "slices True s s'"
      using ok(3) by (intro slicesI [OF r(1) r'(1) a_sem_block_slices [OF sem_invD(1) [OF a(2)] ni']]) simp
    ultimately show ?thesis
      using s' sm [OF s'(2)] False kseminvI [OF s'(2) i'] ctx waits_for_waiters [OF a(1,2)]
        waits_for_waiters [OF s'(2) i'] r'(3) a(5) refines_tcb [OF r(1) a_core_running_live [OF a(3)]] by auto
  qed
qed

theorem nxsem_wait_correct_witness:
  "\<exists>s'. nxsem_wait 101 demo_sem = Some (Switched 2, s') \<and> kseminv s' \<and> waits_for s' 101 2"
proof -
  have "tcbs demo_sem (this_task demo_sem) = Some (demo_tcb 2 100 TSTATE_TASK_RUNNING)"
    unfolding demo_sem_observe(1) by (simp add: demo_sem_def demo_def)
  then show ?thesis
    using nxsem_wait_correct [OF demo_sem_kseminv demo_sem_observe(5)] demo_sem_observe by (auto simp: demo_tcb_def)
qed

text \<open>
  C14. A wait that is interrupted leaves no trace: when the blocked caller of \<^verbatim>\<open>nxsem_wait\<close> is
  restarted by \<^verbatim>\<open>nxsem_wait_irq\<close> with an error, by a signal or by the timeout, the semaphore
  has its old count again, the caller no longer waits, its call, which continues with the
  \<^verbatim>\<open>saved_errno\<close> it was suspended with, returns the negated error, and its \<^verbatim>\<open>errno\<close> has the
  value it had before the call.
\<close>

theorem nxsem_wait_interrupted:
  assumes k: "kseminv s" and p: "sems s p = Some x" "- (2 ^ 15) < semcount x" "semcount x \<le> 0"
    and irq: "\<not> up_interrupt_context s" and ni: "this_task s \<noteq> idle_task s"
    and t: "tcbs s (this_task s) = Some r" and e: "e \<noteq> 0"
  shows "\<exists>saved s1 s2 s3 y. nxsem_wait p s = Some (Switched saved, s1) \<and> nxsem_wait_irq (this_task s) e s1 = Some s2 \<and>
     nxsem_wait_resume (this_task s) saved s2 = Some (- e, s3) \<and> kseminv s3 \<and> sems s3 = sems s \<and>
     tcbs s3 (this_task s) = Some y \<and> waitsem y = NULL \<and> pterrno y = pterrno r"
proof -
  obtain a where a: "srefines s a (sems s)" "sem_inv a (sems s)" "a_core a" "idle_task s = a_idle a" "this_task s = a_running a"
    "a_tcb a (this_task s) = r"
    using k t by (auto elim: ksemE)
  let ?t = "a_running a" and ?b = "a_sem_block p a" and ?\<sigma> = "sem_upd (sems s) p (sem_count (sems s) p - 1)"
  have p': "sems s p \<noteq> None" "sem_count (sems s) p \<le> 0" "- (2 ^ 15) < sem_count (sems s) p"
    using p by (simp_all add: sem_count_def)
  have ni': "?t \<noteq> a_idle a" using ni a(4,5) by simp
  note i1 = sem_inv_block [OF a(2) ni' p'] and ok = a_sem_block_ok [OF sem_invD(1) [OF a(2)] ni', where p = p]
  have lv: "a_live a ?t" using a_core_running_live [OF a(3)] .
  have r: "a_tcb a ?t = r" using a(5,6) by simp
  obtain s1 where s1: "nxsem_wait p s = Some (Switched (pterrno r), s1)" "srefines s1 ?b ?\<sigma>" "sframe s s1"
    using nxsem_wait_block_refines [OF a(1,2) p' irq ni'] r by auto
  have w: "?t \<in> set (waiters ?b p)" using ok(4) [OF lv] by (simp add: waiters_def ok(2))
  have p1: "?\<sigma> p \<noteq> None" using p' by simp
  let ?f = "\<lambda>t. t\<lparr>waitsem := NULL, pterrno := e\<rparr>"
  let ?c = "snd (a_unblock ?t (a_upd ?t ?f ?b))"
  have cnt: "sem_upd ?\<sigma> p (sem_count ?\<sigma> p + 1) = sems s" using p'(1) by simp
  obtain s2 where s2: "nxsem_wait_irq ?t e s1 = Some s2" "srefines s2 ?c (sems s)" "sem_inv ?c (sems s)"
    using nxsem_wait_irq_refines [OF s1(2) i1 w p1, of e] unfolding cnt by blast
  have f: "wake_field ?f" by (simp add: wake_field_def)
  have wl: "?t \<in> set (waitlist ?b)" using w by (simp add: waiters_def)
  note wk = a_wake_ok [OF sem_invD(1) [OF i1] wl f]
  have lc: "a_live ?c ?t" using wk(3) ok(3) lv by simp
  obtain s3 where s3: "upd_tcb ?t (\<lambda>t. t\<lparr>pterrno := pterrno r\<rparr>) s2 = Some s3"
    "srefines s3 (a_upd ?t (\<lambda>t. t\<lparr>pterrno := pterrno r\<rparr>) ?c) (sems s)"
    using srefines_upd_tcb [OF s2(2) lc] by blast
  have g2: "get_tcb s2 ?t = Some (a_tcb ?c ?t)" using srefinesD(4) [OF s2(2) lc] .
  have res: "nxsem_wait_resume ?t (pterrno r) s2 = Some (- e, s3)"
    using g2 s3(1) wk(7) e by (simp add: nxsem_wait_resume_def Let_def)
  have "a_live (a_upd ?t (\<lambda>t. t\<lparr>pterrno := pterrno r\<rparr>) ?c) ?t" using lc by simp
  then have "tcbs s3 ?t = Some ((a_tcb ?c ?t)\<lparr>pterrno := pterrno r\<rparr>)"
    using refines_tcb [OF srefinesD(1) [OF s3(2)]] lc by simp
  moreover have "waitsem (a_tcb ?c ?t) = NULL" using wk(5) [of ?t] ok(3) lv by simp
  moreover have "kseminv s3"
  proof -
    have c2: "a_core ?c" using sem_invD(2) [OF s2(3)] .
    have "in_list s2 g_readytorun ?t \<or> in_list s2 g_pendingtasks ?t"
      using a_unblock_dest(2) [of "a_upd ?t ?f ?b" ?t g_waitingforsemaphore] wl
        a_inv_upd_other [OF sem_invD(1) [OF i1] _ _ _ _ wl, of ?f] lv ok(3)
        refines_in_list [OF srefinesD(1) [OF s2(2)]]
      by (auto simp: a_inv_def split: if_splits)
    then show ?thesis using sem_step_resume [OF kseminvI [OF s2(2,3)] _ res] by blast
  qed
  ultimately show ?thesis using s1(1) s2(1) res srefinesD(2) [OF s3(2)] a(5) by auto
qed

theorem nxsem_wait_interrupted_witness:
  "\<exists>saved s1 s2 s3 y. nxsem_wait 101 demo_sem = Some (Switched saved, s1) \<and> nxsem_wait_irq 2 ETIMEDOUT s1 = Some s2 \<and>
     nxsem_wait_resume 2 saved s2 = Some (- ETIMEDOUT, s3) \<and> sems s3 = sems demo_sem \<and>
     tcbs s3 2 = Some y \<and> pterrno y = 2"
proof -
  have "tcbs demo_sem (this_task demo_sem) = Some (demo_tcb 2 100 TSTATE_TASK_RUNNING)"
    unfolding demo_sem_observe(1) by (simp add: demo_sem_def demo_def)
  from nxsem_wait_interrupted [OF demo_sem_kseminv demo_sem_observe(5) _ _ demo_sem_observe(3) _ this, of ETIMEDOUT]
  show ?thesis using demo_sem_observe(1,2) by (auto simp: ETIMEDOUT_def demo_tcb_def)
qed

text \<open>
  C15. \<^verbatim>\<open>nxsem_reset\<close> in thread context hands the new counts to the tasks that wait for the
  semaphore: afterwards the count is the requested one minus the number of tasks that were
  waiting, so that as many tasks as possible have been restarted and the rest still wait. The
  restarted tasks are those of the highest priorities. They are ready or pending, and ready
  if the caller had not locked pre-emption, and nobody's lock count has changed: the lock
  that the operation takes is given back.
\<close>

theorem nxsem_reset_correct:
  assumes k: "kseminv s" and p: "sems s p = Some x" and irq: "\<not> up_interrupt_context s"
    and t: "tcbs s (this_task s) = Some r" "lockcount r < MAX_LOCK_COUNT"
    and n: "0 \<le> cnt" "cnt \<le> SEM_VALUE_MAX"
  shows "\<exists>s'. nxsem_reset p cnt s = Some (0, s') \<and> kseminv s' \<and>
     sems s' = (sems s)(p \<mapsto> x\<lparr>semcount := cnt - int (card {t. waits_for s p t})\<rparr>) \<and>
     int (card {t. waits_for s' p t}) = max 0 (int (card {t. waits_for s p t}) - cnt) \<and>
     (\<forall>u v. waits_for s p u \<and> \<not> waits_for s' p u \<and> waits_for s' p v \<longrightarrow> the (task_prio s v) \<le> the (task_prio s u)) \<and>
     (\<forall>u. in_list s' g_readytorun u \<or> in_list s' g_pendingtasks u \<longleftrightarrow>
        in_list s g_readytorun u \<or> in_list s g_pendingtasks u \<or> waits_for s p u \<and> \<not> waits_for s' p u) \<and>
     (lockcount r = 0 \<longrightarrow> (\<forall>u. \<not> in_list s' g_pendingtasks u)) \<and>
     (\<forall>u. live_task s u \<longrightarrow> task_locks s' u = task_locks s u)"
proof -
  obtain a where a: "srefines s a (sems s)" "sem_inv a (sems s)" "this_task s = a_running a"
    "a_tcb a (this_task s) = r"
    using k t by (auto elim: ksemE)
  have p': "sems s p \<noteq> None" using p by simp
  have w: "length (waiters a p) = card {t. waits_for s p t}"
    using finite_waits(1) [OF a(1,2) p] sem_invD(4) [OF a(2) p'] p by (simp add: sem_ok_def sem_count_def)
  have "lockcount (a_tcb a (a_running a)) < MAX_LOCK_COUNT" using a(3,4) t(2) by simp
  from nxsem_reset_refines [OF a(1,2) p' irq this n]
  obtain s' b where s': "nxsem_reset p cnt s = Some (0, s')"
    "srefines s' b (sem_upd (sems s) p (cnt - int (length (waiters a p))))"
    "sem_inv b (sem_upd (sems s) p (cnt - int (length (waiters a p))))"
    and b: "set (waiters b p) = set (drop (nat cnt) (waiters a p))"
    "runnable b = runnable a \<union> set (take (nat cnt) (waiters a p))"
    "lockcount (a_tcb a (a_running a)) = 0 \<longrightarrow> a_list b g_pendingtasks = []" "a_live b = a_live a"
    "\<forall>x. a_live a x \<longrightarrow> lockcount (a_tcb b x) = lockcount (a_tcb a x)" by blast
  have sm: "sems s' = (sems s)(p \<mapsto> x\<lparr>semcount := cnt - int (card {t. waits_for s p t})\<rparr>)"
    using srefinesD(2) [OF s'(2)] p w by (simp add: sem_upd_def)
  have i': "sem_inv b (sems s')" "srefines s' b (sems s')" using s'(2,3) srefinesD(2) [OF s'(2)] by simp_all
  have "card {t. waits_for s' p t} = nat (- (cnt - int (card {t. waits_for s p t})))"
    using finite_waits(1) [OF i'(2,1)] sm by simp
  then have cd: "int (card {t. waits_for s' p t}) = max 0 (int (card {t. waits_for s p t}) - cnt)" by simp
  note r = srefinesD(1) [OF a(1)] and r' = srefinesD(1) [OF i'(2)]
  note il = refines_in_list [OF r] refines_in_list [OF r'] waits_for_waiters [OF a(1,2)] waits_for_waiters [OF i'(2,1)]
  have c: "a_core a" using sem_invD(2) [OF a(2)] .
  have ds: "desc (a_prio a) (waiters a p)"
    using a_core_desc [OF c, of g_waitingforsemaphore] unfolding waiters_def
    by (intro desc_filter) (simp add: prioritized_list_def)
  have dt: "distinct (waiters a p)" using c by (simp add: waiters_def a_core_def)
  note tk = in_set_take_distinct [OF dt, of _ "nat cnt"]
  have tp: "task_prio s u = Some (a_prio a u)" if "u \<in> set (waiters a p)" for u
    using refines_prio [OF r] a_core_live [OF c, of u g_waitingforsemaphore] that by (simp add: waiters_def)
  have "\<forall>u v. waits_for s p u \<and> \<not> waits_for s' p u \<and> waits_for s' p v \<longrightarrow> the (task_prio s v) \<le> the (task_prio s u)"
    unfolding il b(1) using tk tp desc_take_drop [OF ds, of _ "nat cnt"] in_set_dropD [of _ "nat cnt" "waiters a p"]
    by force
  moreover have "\<forall>u. in_list s' g_readytorun u \<or> in_list s' g_pendingtasks u \<longleftrightarrow>
        in_list s g_readytorun u \<or> in_list s g_pendingtasks u \<or> waits_for s p u \<and> \<not> waits_for s' p u"
    unfolding il b(1) using b(2) tk by (auto simp: runnable_def)
  moreover have "lockcount r = 0 \<longrightarrow> (\<forall>u. \<not> in_list s' g_pendingtasks u)" unfolding il using b(3) a(3,4) by simp
  moreover have "\<forall>u. live_task s u \<longrightarrow> task_locks s' u = task_locks s u"
    using b(4,5) refines_fields(2) [OF r] refines_fields(2) [OF r'] by (simp add: refines_live_task [OF r])
  ultimately show ?thesis using s'(1) kseminvI [OF i'(2,1)] sm cd by (intro exI [of _ s'] conjI)
qed

theorem nxsem_reset_correct_witness:
  "\<exists>s'. nxsem_reset 100 3 demo_sem = Some (0, s') \<and> kseminv s' \<and> sems s' 100 = Some \<lparr>semcount = 2\<rparr> \<and>
     task_locks s' 2 = Some 0 \<and> (\<forall>u. \<not> in_list s' g_pendingtasks u)"
proof -
  have "tcbs demo_sem (this_task demo_sem) = Some (demo_tcb 2 100 TSTATE_TASK_RUNNING)"
    unfolding demo_sem_observe(1) by (simp add: demo_sem_def demo_def)
  moreover have "card {t. waits_for demo_sem 100 t} = 1"
    using finite_waits(1) [OF demo_sem_refines demo_sem_inv demo_sem_observe(4)] by simp
  moreover have "live_task demo_sem 2" "task_locks demo_sem 2 = Some 0"
    by (simp_all add: live_task_def task_locks_def demo_sem_def demo_def demo_tcb_def)
  ultimately show ?thesis
    using nxsem_reset_correct [OF demo_sem_kseminv demo_sem_observe(4,3), of "demo_tcb 2 100 TSTATE_TASK_RUNNING" 3]
    by (auto simp: demo_tcb_def MAX_LOCK_COUNT_def SEM_VALUE_MAX_def)
qed

end
