(* ===== verification/Timeout.thy ===== *)
theory Timeout
  imports SemThms
begin

text \<open>
  The timeout of a semaphore wait: the function \<^verbatim>\<open>nxsem_timeout\<close> that the watchdog of a timed
  wait runs in the timer interrupt. It restarts the task if the task still waits and does
  nothing otherwise, and it keeps the invariants under which it can be run again.
\<close>

section \<open>No task gets lost\<close>

definition listed :: "asched \<Rightarrow> addr set" where
  "listed a = (\<Union>L. set (a_list a L))"

lemma listed_simps [simp]:
  "listed (a_upd t f a) = listed a" "listed (a_state t st a) = listed a"
  "listed (snd (a_switch_if r ba)) = listed (snd ba)"
  by (simp_all add: listed_def a_upd_def a_state_def)

lemma listed_set_list: "listed (a_set_list L xs a) = (\<Union>M \<in> - {L}. set (a_list a M)) \<union> set xs"
  by (auto simp: listed_def a_set_list_def split: if_splits)

lemma listed_insert [simp]: "listed (a_insert L t a) = insert t (listed a)"
  by (auto simp: a_insert_def listed_set_list) (auto simp: listed_def)

lemma listed_remove: "insert t (listed (a_remove L t a)) \<supseteq> listed a"
  by (auto simp: a_remove_def listed_set_list) (auto simp: listed_def)

lemma listed_addreadytorun [simp]: "listed (snd (a_addreadytorun t a)) = insert t (listed a)"
  by (simp add: a_addreadytorun_def a_ready_def)

lemma listed_removeblocked: "insert t (listed (a_removeblocked t a)) \<supseteq> listed a"
  using listed_remove by (auto simp: a_removeblocked_def split: option.split)

lemma listed_unblock: "listed a \<subseteq> listed (snd (a_unblock t a))"
  using listed_removeblocked [of a t] by (simp add: a_unblock_def)

section \<open>The conditions of a timeout\<close>

text \<open>
  Every task in the table of process identifiers is in a task list, and a task that waits for
  a semaphore knows which one: no task is in the middle of being deleted.
\<close>

definition a_timed :: "asched \<Rightarrow> (nat \<Rightarrow> pidhash_s) \<Rightarrow> bool" where
  "a_timed a pids \<longleftrightarrow> (\<forall>t \<in> set (waitlist a). waitsem (a_tcb a t) \<noteq> NULL) \<and>
     (\<forall>h. ph_tcb (pids h) = NULL \<or> ph_tcb (pids h) \<in> listed a)"

definition timed :: "'a semstate_scheme \<Rightarrow> bool" where
  "timed s \<longleftrightarrow> (\<exists>a. refines s a \<and> sem_inv a (sems s) \<and> a_timed a (g_pidhash s))"

lemma timed_kseminv: "timed s \<Longrightarrow> kseminv s"
  by (auto simp: timed_def kseminv_def)

lemma gettcb_listed: "a_timed a (g_pidhash s) \<Longrightarrow> sched_gettcb s p = NULL \<or> sched_gettcb s p \<in> listed a"
  by (auto simp: sched_gettcb_def a_timed_def Let_def)

text \<open>What the timeout does, on the abstract state.\<close>

definition a_timeout :: "addr \<Rightarrow> asched \<Rightarrow> asched" where
  "a_timeout w a =
     (if w \<in> set (waitlist a)
      then snd (a_unblock w (a_upd w (\<lambda>t. t\<lparr>waitsem := NULL, pterrno := ETIMEDOUT\<rparr>) a)) else a)"

lemma nxsem_timeout_refines:
  assumes r: "refines s a" and i: "sem_inv a (sems s)" and t: "a_timed a (g_pidhash s)"
  fixes p
  defines "w \<equiv> sched_gettcb s (s16 p)"
  shows "\<exists>s'. nxsem_timeout p s = Some s' \<and> refines s' (a_timeout w a) \<and> sem_inv (a_timeout w a) (sems s') \<and>
     a_timed (a_timeout w a) (g_pidhash s') \<and> sframe s s' \<and>
     sems s' = (if w \<in> set (waitlist a)
       then sem_upd (sems s) (waitsem (a_tcb a w)) (sem_count (sems s) (waitsem (a_tcb a w)) + 1) else sems s)"
proof -
  note d = sem_invD [OF i]
  have sr: "srefines s a (sems s)" using r by (simp add: srefines_def)
  have nw: "NULL \<notin> set (waitlist a)" using a_core_live [OF d(2), of NULL] by (auto simp: a_live_def)
  show ?thesis
  proof (cases "w \<in> set (waitlist a)")
    case True
    let ?q = "waitsem (a_tcb a w)" and ?f = "\<lambda>t. t\<lparr>waitsem := NULL, pterrno := ETIMEDOUT\<rparr>"
    have lv: "a_live a w" using a_core_live [OF d(2) True] .
    have q: "sems s ?q \<noteq> None" using d(7) [OF True] t True by (auto simp: a_timed_def)
    have ww: "w \<in> set (waiters a ?q)" using True by (simp add: waiters_def)
    obtain s' where s': "nxsem_wait_irq w ETIMEDOUT s = Some s'" "srefines s' (a_timeout w a) (sem_upd (sems s) ?q (sem_count (sems s) ?q + 1))"
        "sframe s s'" "sem_inv (a_timeout w a) (sem_upd (sems s) ?q (sem_count (sems s) ?q + 1))"
      using nxsem_wait_irq_refines [OF sr i ww q, of ETIMEDOUT] True by (auto simp: a_timeout_def)
    have st: "task_state (a_tcb a w) = TSTATE_WAIT_SEM"
      using a_core_task [OF d(2) True] by (cases "task_state (a_tcb a w)") (auto simp: task_ok_def)
    have "nxsem_timeout p s = Some s'"
      using s'(1) st srefinesD(4) [OF sr lv] lv by (simp add: nxsem_timeout_def w_def [symmetric] Let_def a_live_def)
    moreover have "a_timed (a_timeout w a) (g_pidhash s)"
    proof -
      note ok = a_wake_ok [OF d(1) True, of ?f]
      have f: "wake_field ?f" by (simp add: wake_field_def)
      have "waitsem (a_tcb (a_timeout w a) x) \<noteq> NULL" if x: "x \<in> set (waitlist (a_timeout w a))" for x
      proof -
        have wl: "waitlist (a_timeout w a) = remove1 w (waitlist a)" using ok(2) [OF f] True by (simp add: a_timeout_def)
        have "distinct (waitlist a)" using d(2) by (simp add: a_core_def)
        with x wl have "x \<noteq> w" "x \<in> set (waitlist a)" by (auto dest: notin_set_remove1)
        with ok(5) [OF f a_core_live [OF d(2)], of x] t True show ?thesis by (auto simp: a_timeout_def a_timed_def)
      qed
      moreover have "listed a \<subseteq> listed (a_timeout w a)"
        using listed_unblock [of "a_upd w ?f a" w] True by (simp add: a_timeout_def)
      ultimately show ?thesis using t by (auto simp: a_timed_def)
    qed
    ultimately show ?thesis using s' True by (auto simp: srefines_def sframe_def)
  next
    case False
    have "nxsem_timeout p s = Some s"
    proof (cases "w = NULL")
      case True
      then show ?thesis by (simp add: nxsem_timeout_def w_def [symmetric])
    next
      case nn: False
      then obtain L where L: "w \<in> set (a_list a L)" using gettcb_listed [OF t, of "s16 p"] by (auto simp: w_def listed_def)
      have "task_ok a L w" using a_core_task [OF d(2) L] .
      then have "task_state (a_tcb a w) \<noteq> TSTATE_WAIT_SEM" using L False by (auto simp: task_ok_def)
      then show ?thesis
        using nn srefinesD(4) [OF sr a_core_live [OF d(2) L]] by (simp add: nxsem_timeout_def w_def [symmetric] Let_def)
    qed
    then show ?thesis using False r i t by (simp add: a_timeout_def sframe_def)
  qed
qed

lemma nxsem_timeout_ok:
  assumes "timed s"
  shows "\<exists>s'. nxsem_timeout p s = Some s' \<and> timed s' \<and> sframe s s'"
proof -
  obtain a where "refines s a" "sem_inv a (sems s)" "a_timed a (g_pidhash s)" using assms by (auto simp: timed_def)
  from nxsem_timeout_refines [OF this] show ?thesis unfolding timed_def by blast
qed

end
