(* ===== verification/WdogThms.thy ===== *)
theory WdogThms
  imports WdogInv Timeout
begin

text \<open>
  The properties of the watchdog timers: the pool of watchdogs, the times at which watchdogs
  expire, and the timer interrupt under a contract for the functions that expired watchdogs
  run.
\<close>

section \<open>The pool of watchdogs\<close>

lemma wd_rep_nfree:
  assumes "wd_rep s xs fr"
  shows "length fr \<le> CONFIG_PREALLOC_WDOGS"
proof -
  have "length fr = card (set fr)" using wd_repD(12) [OF assms] by (simp add: distinct_card)
  also have "\<dots> \<le> card (pooled s)" using wd_repD(8,9) [OF assms] by (rule card_mono [rotated])
  finally show ?thesis using wd_repD(10) [OF assms] by simp
qed

lemma pooled_upd:
  "wdogs s p = Some w \<Longrightarrow> WDOG_ISALLOCED w' = WDOG_ISALLOCED w \<Longrightarrow> WDOG_ISSTATIC w' = WDOG_ISSTATIC w \<Longrightarrow>
   pooled (s'\<lparr>wdogs := (wdogs s)(p \<mapsto> w')\<rparr>) = pooled s"
  by (auto simp: pooled_def)

lemma wd_create_pool:
  assumes rep: "wd_rep s xs (p # fr)" and c: "length fr \<ge> CONFIG_WDOG_INTRESERVE \<or> up_interrupt_context s"
  shows "\<exists>s'. wd_create blk cont s = Some (p, s') \<and> wd_rep s' xs fr \<and> wframe s s' \<and>
     p \<in> pooled s \<and> wd_kept {p} (wdogs s) (wdogs s')"
proof -
  obtain w where w: "wdogs s p = Some w" "\<not> WDOG_ISALLOCED w" "\<not> WDOG_ISSTATIC w" "p \<in> pooled s"
    using wd_repD(8) [OF rep] by (auto simp: pooled_def)
  have n: "p \<noteq> NULL" "p \<notin> fst ` set xs" "p \<notin> set fr" using wd_rep_wdog(3) [OF rep w(1)] wd_repD(3,12) [OF rep] by auto
  obtain q m where r: "sq_remfirst (g_wdfreelist s) (wdnext s) = Some (p, q, m)" "sq_rep m q fr"
    "dq_frame (set (p # fr)) (wdnext s) m" "m p = Some NULL" using sq_remfirst_spec [OF wd_repD(2) [OF rep]] by blast
  have nf: "unat (g_wdnfree s) = Suc (length fr)" using wd_repD(11) [OF rep] by simp
  then have ne: "g_wdnfree s \<noteq> 0" by auto
  then have pos: "g_wdnfree s > 0" by (simp add: word_gt_0)
  have nf': "unat (g_wdnfree s - 1) = length fr" using nf unat_minus_one [OF ne] by simp
  have mp: "m(p \<mapsto> NULL) = m" using r(4) by auto
  have cond: "unat (g_wdnfree s) > CONFIG_WDOG_INTRESERVE \<or> up_interrupt_context s" using c nf by auto
  let ?w = "w\<lparr>wdflags := 0\<rparr>"
  let ?s = "s\<lparr>g_wdfreelist := q, wdnext := m, g_wdnfree := g_wdnfree s - 1, wdogs := (wdogs s)(p \<mapsto> ?w)\<rparr>"
  have fl: "\<not> WDOG_ISACTIVE ?w" "\<not> WDOG_ISALLOCED ?w" "\<not> WDOG_ISSTATIC ?w" by (simp_all add: wdog_flags)
  have "wd_create blk cont s = Some (p, ?s)"
    using cond r(1) n(1) pos mp w(1) r(4)
    by (simp add: wd_create_def debugassert_def set_next_def sq_set_def sq_valid_def upd_wdog_def get_wdog_def)
  moreover have k: "wd_kept {p} (wdogs s) (wdogs ?s)"
    using wd_kept_upd [of "{p}" "wdogs s" "wdogs s" p w ?w] w fl by simp
  moreover have "wd_rep ?s xs fr"
  proof -
    have "sq_rep m (g_wdactivelist s) (map fst xs)"
      using sq_rep_frame [OF r(3)] wd_repD(1,3) [OF rep] by auto
    moreover have "dom m = dom ((wdogs s)(p \<mapsto> ?w))" using r(3) wd_repD(5) [OF rep] w(1) by (auto simp: dq_frame_def)
    moreover have "pooled ?s = pooled s" by (rule wd_kept_pooled [OF k])
    ultimately show ?thesis
      using r(2) nf' wd_repD [OF rep] wd_rep_wdog [OF rep] w n fl
      unfolding wd_rep_def by (auto split: if_splits)
  qed
  ultimately show ?thesis using w(4) by (intro exI [of _ ?s]) simp
qed

lemma wd_create_empty:
  assumes rep: "wd_rep s xs []" and c: "up_interrupt_context s"
  shows "wd_create blk cont s = Some (NULL, s)"
proof -
  have "unat (g_wdnfree s) = 0" using wd_repD(11) [OF rep] by simp
  then have "g_wdnfree s = 0" by (simp add: unat_eq_zero)
  moreover have "sq_remfirst (g_wdfreelist s) (wdnext s) = Some (NULL, g_wdfreelist s, wdnext s)"
    using wd_repD(2) [OF rep] by (rule sq_remfirst_empty)
  ultimately show ?thesis using c by (simp add: wd_create_def debugassert_def)
qed

lemma wd_create_heap:
  assumes rep: "wd_rep s xs fr" and c: "length fr \<le> CONFIG_WDOG_INTRESERVE" "\<not> up_interrupt_context s"
    and b: "blk = NULL \<or> wdogs s blk = None \<and> length (parm cont) = CONFIG_MAX_WDOGPARMS"
  shows "\<exists>s'. wd_create blk cont s = Some (blk, s') \<and> wd_rep s' xs fr \<and> wframe s s' \<and> pooled s' = pooled s \<and>
     (blk \<noteq> NULL \<longrightarrow> wdogs s' = (wdogs s)(blk \<mapsto> cont\<lparr>wdflags := WDOGF_ALLOCED\<rparr>))"
proof (cases "blk = NULL")
  case True
  with rep c wd_repD(11) [OF rep] show ?thesis by (simp add: wd_create_def)
next
  case False
  let ?w = "cont\<lparr>wdflags := WDOGF_ALLOCED\<rparr>"
  let ?s = "s\<lparr>wdnext := (wdnext s)(blk \<mapsto> NULL), wdogs := (wdogs s)(blk \<mapsto> ?w)\<rparr>"
  have fl: "\<not> WDOG_ISACTIVE ?w" "WDOG_ISALLOCED ?w" by (simp_all add: wdog_flags)
  have new: "wdogs s blk = None" using False b by simp
  then have new: "wdogs s blk = None" "wdnext s blk = None" "blk \<notin> fst ` set xs" "blk \<notin> set fr"
    using wd_repD(5,8) [OF rep] wd_lags_some [OF wd_repD(4) [OF rep], of blk]
    by (simp, metis domIff, blast, auto simp: pooled_def)
  have pl: "pooled ?s = pooled s" using new(1) fl by (auto simp: pooled_def)
  have "wd_rep ?s xs fr"
    using wd_repD [OF rep] wd_rep_wdog [OF rep] new b False fl
    unfolding wd_rep_def pl by (auto simp: sq_rep_def)
  moreover have "wd_create blk cont s = Some (blk, ?s)"
    using c False wd_repD(11) [OF rep] by (simp add: wd_create_def)
  ultimately show ?thesis using pl by (intro exI [of _ ?s]) simp
qed

lemma wd_delete_spec:
  assumes rep: "wd_rep s xs fr" and p: "wdogs s p = Some w" "p \<notin> set fr"
  shows "\<exists>s'. wd_delete p s = Some (0, s') \<and>
     wd_rep s' (drop_timer p xs) (if WDOG_ISALLOCED w \<or> WDOG_ISSTATIC w then fr else fr @ [p]) \<and> wframe s s' \<and>
     (if WDOG_ISALLOCED w then wdogs s' p = None else wd_kept {p} (wdogs s) (wdogs s')) \<and>
     dom (wdogs s') = dom (wdogs s) - (if WDOG_ISALLOCED w then {p} else {})"
proof -
  obtain s1 r where c: "wd_cancel p s = Some (r, s1)" "wd_rep s1 (drop_timer p xs) fr"
      "wd_kept {p} (wdogs s) (wdogs s1)" "wframe s s1"
    using wd_cancel_refines [OF rep, of p] p(1) by auto
  define s2 where "s2 = (if WDOG_ISACTIVE w then s1 else s)"
  have s2: "(if WDOG_ISACTIVE w then do { (_, s) \<leftarrow> wd_cancel p s; Some s } else Some s) = Some s2"
    "wd_rep s2 (drop_timer p xs) fr" "wd_kept {p} (wdogs s) (wdogs s2)" "wframe s s2"
    using c wd_rep_wdog(1) [OF rep p(1)] rep by (auto simp: s2_def drop_timer_id)
  obtain u where u: "wdogs s2 p = Some u" "WDOG_ISALLOCED u = WDOG_ISALLOCED w" "WDOG_ISSTATIC u = WDOG_ISSTATIC w"
    using wd_keptD(2) [OF s2(3) p(1)] by auto
  have g: "get_wdog s p = Some w" "get_wdog s2 p = Some u" "p \<noteq> NULL"
    using wd_rep_wdog(3,4) [OF rep p(1)] wd_rep_wdog(4) [OF s2(2) u(1)] by auto
  have ny: "p \<notin> fst ` set (drop_timer p xs)" by auto
  have dm: "dom (wdogs s2) = dom (wdogs s)" using wd_kept_pooled(2) [OF s2(3)] .
  consider "WDOG_ISALLOCED w" | "\<not> WDOG_ISALLOCED w" "WDOG_ISSTATIC w" | "\<not> WDOG_ISALLOCED w" "\<not> WDOG_ISSTATIC w" by blast
  then show ?thesis
  proof cases
    case 1
    let ?s = "s2\<lparr>wdogs := (wdogs s2)(p := None), wdnext := (wdnext s2)(p := None)\<rparr>"
    have pl: "pooled ?s = pooled s2" using u 1 by (auto simp: pooled_def)
    have "wd_rep ?s (drop_timer p xs) fr"
      using wd_repD [OF s2(2)] wd_rep_wdog [OF s2(2)] ny p(2)
      unfolding wd_rep_def pl by (auto simp: sq_rep_def split: if_splits)
    moreover have "wd_delete p s = Some (0, ?s)"
      using g s2(1) u 1 by (simp add: wd_delete_def debugassert_def)
    ultimately show ?thesis using 1 s2(4) dm by (intro exI [of _ ?s]) simp
  next
    case 2
    then show ?thesis
      using g s2 u dm by (intro exI [of _ s2]) (simp add: wd_delete_def debugassert_def)
  next
    case 3
    obtain q m where q: "sq_addlast p (g_wdfreelist s2) (wdnext s2) = Some (q, m)" "sq_rep m q (fr @ [p])"
        "dq_frame (insert p (set fr)) (wdnext s2) m"
      using sq_addlast_spec [OF wd_repD(2) [OF s2(2)] p(2) wd_rep_wdog(5) [OF s2(2) u(1)]] by blast
    have pp: "p \<in> pooled s2" using u 3 by (auto simp: pooled_def)
    have "length (fr @ [p]) = card (set (fr @ [p]))" using wd_repD(12) [OF s2(2)] p(2) by (simp add: distinct_card)
    also have "\<dots> \<le> card (pooled s2)" using wd_repD(8,9) [OF s2(2)] pp by (intro card_mono) auto
    finally have len: "Suc (length fr) \<le> CONFIG_PREALLOC_WDOGS" using wd_repD(10) [OF s2(2)] by simp
    then have nf: "unat (g_wdnfree s2 + 1) = Suc (length fr)"
      using wd_repD(11) [OF s2(2)] by (simp add: unat_word_ariths CONFIG_PREALLOC_WDOGS_def)
    let ?s = "s2\<lparr>g_wdfreelist := q, wdnext := m, g_wdnfree := g_wdnfree s2 + 1\<rparr>"
    have "sq_rep m (g_wdactivelist s2) (map fst (drop_timer p xs))"
      using sq_rep_frame [OF q(3)] wd_repD(1,3) [OF s2(2)] ny by auto
    then have "wd_rep ?s (drop_timer p xs) (fr @ [p])"
      using wd_repD [OF s2(2)] wd_rep_wdog [OF s2(2)] ny pp q nf
      unfolding wd_rep_def by (auto simp: dq_frame_def pooled_def)
    moreover have "wd_delete p s = Some (0, ?s)"
      using g s2(1) u 3 q(1) nf len by (simp add: wd_delete_def debugassert_def)
    ultimately show ?thesis using 3 s2(3,4) dm by (intro exI [of _ ?s]) simp
  qed
qed

section \<open>The contract of the functions that watchdogs run\<close>

text \<open>Every active watchdog has a function and arguments that satisfy \<open>ok\<close>.\<close>

definition wd_funcs_ok :: "(addr \<Rightarrow> wdparm_t list \<Rightarrow> bool) \<Rightarrow> 'a wdstate_scheme \<Rightarrow> bool" where
  "wd_funcs_ok ok s \<longleftrightarrow> (\<forall>p w. wdogs s p = Some w \<and> WDOG_ISACTIVE w \<longrightarrow>
     unat (wdargc w) \<le> CONFIG_MAX_WDOGPARMS \<and> ok (wdfunc w) (take (unat (wdargc w)) (parm w)))"

abbreviation expired :: "timers \<Rightarrow> timers" where
  "expired xs \<equiv> filter (\<lambda>x. snd x \<le> 0) xs"

lemma expired_none: "expired xs = [] \<Longrightarrow> filter (\<lambda>x. 0 < snd x) xs = xs"
  by (rule filter_True) (force simp: filter_empty_conv)

lemma wd_funcs_ok_kept:
  assumes ok: "wd_funcs_ok ok s" and k: "wd_kept S (wdogs s) (wdogs s')"
    and a: "\<And>p w. wdogs s' p = Some w \<Longrightarrow> WDOG_ISACTIVE w \<Longrightarrow> p \<notin> S"
  shows "wd_funcs_ok ok s'"
  unfolding wd_funcs_ok_def
proof (intro allI impI)
  fix p w
  assume w: "wdogs s' p = Some w \<and> WDOG_ISACTIVE w"
  with wd_keptD(3) [OF k, of p w] a [of p w] obtain v n where "wdogs s p = Some v" "w = v\<lparr>lag := n\<rparr>" by auto
  with w ok show "unat (wdargc w) \<le> CONFIG_MAX_WDOGPARMS \<and> ok (wdfunc w) (take (unat (wdargc w)) (parm w))"
    unfolding wd_funcs_ok_def by fastforce
qed

lemma wd_timer_eq:
  assumes rep: "wd_rep s xs fr" and q: "expired xs = []"
  shows "\<exists>s1. wd_timer call s = wd_expire_loop call s1 \<and> wd_rep s1 (tick xs) fr \<and> wframe s s1 \<and> wd_kept {} (wdogs s) (wdogs s1)"
proof (cases xs)
  case Nil
  have h: "sq_head (g_wdactivelist s) = NULL" using sq_rep_head [OF wd_repD(1) [OF rep]] Nil by simp
  then have "wd_expire_loop call s = Some ([], s)" by (subst wd_expire_loop.simps) simp
  then show ?thesis using rep Nil h by (intro exI [of _ s]) (simp add: wd_timer_def)
next
  case (Cons x ys)
  obtain p d where x: "x = (p, d)" by fastforce
  have d: "1 \<le> d" using q by (auto simp: Cons x split: if_splits)
  obtain s1 where s1: "add_lag p (- 1) s = Some s1" "wd_rep s1 (tick ((p, d) # ys)) fr" "wframe s s1"
    "wd_kept {} (wdogs s) (wdogs s1)" "g_wdactivelist s1 = g_wdactivelist s"
    using wd_timer_tick [OF rep [unfolded Cons x] d] by blast
  have h: "sq_head (g_wdactivelist s) = p" "p \<noteq> NULL"
    using sq_rep_head [OF wd_repD(1) [OF rep]] sq_rep_NULL [OF wd_repD(1) [OF rep]] by (auto simp: Cons x)
  have "wd_rep s1 ([] @ (p, d - 1) # tick ys) fr" using s1(2) by simp
  from wd_rep_split(1) [OF this] obtain w where w: "get_wdog s1 p = Some w" "lag w = d - 1" by auto
  have "wd_timer call s = wd_expire_loop call s1"
  proof (cases "d - 1 \<le> 0")
    case True
    then show ?thesis using h s1(1,5) w by (simp add: wd_timer_def wd_expiration_def)
  next
    case False
    then have "wd_expire_loop call s1 = Some ([], s1)" using h s1(5) w by (subst wd_expire_loop.simps) simp
    with False show ?thesis using h s1(1,5) w by (simp add: wd_timer_def wd_expiration_def)
  qed
  with s1 show ?thesis by (auto simp: Cons x)
qed

text \<open>The call that a watchdog makes.\<close>

definition wd_runs :: "'a wdstate_scheme \<Rightarrow> addr \<Rightarrow> addr \<Rightarrow> wdparm_t list \<Rightarrow> bool" where
  "wd_runs s p f args \<longleftrightarrow> (\<exists>w. wdogs s p = Some w \<and> f = wdfunc w \<and> args = take (unat (wdargc w)) (parm w))"

lemma wd_runs_kept: "wd_kept S (wdogs s) (wdogs s') \<Longrightarrow> p \<notin> S \<Longrightarrow> wd_runs s p f args \<Longrightarrow> wd_runs s' p f args"
  by (fastforce simp: wd_runs_def dest: wd_keptD(2))

lemma wd_runs_back: "wd_kept S (wdogs s) (wdogs s') \<Longrightarrow> p \<notin> S \<Longrightarrow> wd_runs s' p f args \<Longrightarrow> wd_runs s p f args"
  by (fastforce simp: wd_runs_def dest: wd_keptD(3))

lemma wd_runs_unique: "wd_runs s p f args \<Longrightarrow> wd_runs s p f' args' \<Longrightarrow> f' = f \<and> args' = args"
  by (auto simp: wd_runs_def)

locale wd_callbacks =
  fixes call :: "'a wcall" and ok :: "addr \<Rightarrow> wdparm_t list \<Rightarrow> bool" and I :: "'a wdstate_scheme \<Rightarrow> bool"
  assumes I_frame: "wframe s s' \<Longrightarrow> I s \<Longrightarrow> I s'"
    and call_ok: "ok f args \<Longrightarrow> I s \<Longrightarrow> wd_rep s xs fr \<Longrightarrow> wd_funcs_ok ok s \<Longrightarrow>
      \<exists>s' xs' fr'. call f args s = Some s' \<and> I s' \<and> wd_rep s' xs' fr' \<and> wd_funcs_ok ok s' \<and>
        length (expired xs') \<le> length (expired xs)"
begin

lemma expire_one:
  assumes "wd_rep s ((p, d) # xs) fr" "I s" "wd_funcs_ok ok s"
  obtains s1 f args where "wd_rep s1 xs fr" "I s1" "wd_funcs_ok ok s1" "ok f args" "wframe s s1"
    "wd_kept {p} (wdogs s) (wdogs s1)" "wd_expire_one call s = do { s' \<leftarrow> call f args s1; Some (p, s') }"
    "wd_runs s p f args"
proof -
  obtain w where w: "wdogs s p = Some w" "WDOG_ISACTIVE w"
    using wd_rep_active [OF assms(1), of p] by auto
  then have fo: "unat (wdargc w) \<le> CONFIG_MAX_WDOGPARMS" "ok (wdfunc w) (take (unat (wdargc w)) (parm w))"
    using assms(3) by (auto simp: wd_funcs_ok_def)
  obtain s1 where s1: "wd_rep s1 xs fr" "wframe s s1" "wd_kept {p} (wdogs s) (wdogs s1)"
     "wd_expire_one call s = do { s' \<leftarrow> wd_call call (WDOG_CLRACTIVE w) s1; Some (p, s') }"
    using wd_expire_one_spec [OF assms(1) w(1)] by blast
  have "p \<notin> fst ` set xs" using wd_repD(7) [OF assms(1)] by auto
  then have "wd_funcs_ok ok s1"
    using wd_funcs_ok_kept [OF assms(3) s1(3)] wd_rep_wdog(1) [OF s1(1)] by blast
  moreover have "I s1" using I_frame [OF s1(2) assms(2)] .
  ultimately show thesis using that [OF s1(1)] s1 fo w(1) by (simp add: wd_call_def wd_runs_def)
qed

lemma loop_stops:
  assumes "wd_rep s xs fr" "expired xs = []"
  shows "wd_expire_loop call s = Some ([], s)"
proof (cases xs)
  case Nil
  then show ?thesis using sq_rep_head [OF wd_repD(1) [OF assms(1)]]
    by (subst wd_expire_loop.simps) simp
next
  case (Cons x ys)
  obtain p d where x: "x = (p, d)" by fastforce
  have "wd_rep s ([] @ (p, d) # ys) fr" using assms(1) by (simp add: Cons x)
  note sp = wd_rep_split [OF this]
  then show ?thesis using sq_rep_head [OF wd_repD(1) [OF assms(1)]] assms(2)
    by (subst wd_expire_loop.simps) (auto simp: Cons x split: if_splits)
qed

lemma loop_step:
  assumes "wd_rep s xs fr" "expired xs \<noteq> []" "I s" "wd_funcs_ok ok s"
  obtains s1 f args p ys where "xs = (p, 0) # ys" "wd_rep s1 ys fr" "I s1" "wd_funcs_ok ok s1" "ok f args"
    "wframe s s1" "wd_kept {p} (wdogs s) (wdogs s1)"
    "wd_expire_loop call s = do { s' \<leftarrow> call f args s1; (ps, s') \<leftarrow> wd_expire_loop call s'; Some (p # ps, s') }"
    "wd_runs s p f args"
proof -
  obtain p d ys where xs: "xs = (p, d) # ys" using assms(2) by (cases xs) auto
  have "wd_rep s ([] @ (p, d) # ys) fr" using assms(1) by (simp add: xs)
  note sp = wd_rep_split [OF this]
  have all: "\<forall>x \<in> set xs. d \<le> snd x"
    using wd_repD(4) [OF assms(1)] wd_lags_sorted [of "wdogs s" d ys] by (auto simp: xs)
  obtain z where "z \<in> set xs" "snd z \<le> 0" using assms(2) by (auto simp: filter_empty_conv)
  with all sp(4) have d: "d = 0" by force
  obtain s1 f args where s1: "wd_rep s1 ys fr" "I s1" "wd_funcs_ok ok s1" "ok f args" "wframe s s1"
    "wd_kept {p} (wdogs s) (wdogs s1)" "wd_expire_one call s = do { s' \<leftarrow> call f args s1; Some (p, s') }"
    "wd_runs s p f args"
    by (rule expire_one [OF assms(1) [unfolded xs] assms(3,4)])
  have "wd_expire_loop call s = do { s' \<leftarrow> call f args s1; (ps, s') \<leftarrow> wd_expire_loop call s'; Some (p # ps, s') }"
    using sp sq_rep_head [OF wd_repD(1) [OF assms(1)]] s1(7) d
    by (subst wd_expire_loop.simps) (auto simp: xs)
  with that [of p ys s1 f args] s1 xs d show thesis by blast
qed

lemma expire_loop_terminates:
  assumes "wd_rep s xs fr" "I s" "wd_funcs_ok ok s"
  shows "\<exists>ps s' xs' fr'. wd_expire_loop call s = Some (ps, s') \<and> I s' \<and> wd_rep s' xs' fr' \<and> wd_funcs_ok ok s' \<and> expired xs' = []"
  using assms
proof (induction "length (expired xs)" arbitrary: s xs fr rule: less_induct)
  case less
  show ?case
  proof (cases "expired xs = []")
    case True
    with loop_stops [OF less.prems(1) True] less.prems show ?thesis
      by (intro exI [of _ "[]"] exI [of _ s] exI [of _ xs] exI [of _ fr]) simp
  next
    case False
    obtain s1 f args p ys where st: "xs = (p, 0) # ys" "wd_rep s1 ys fr" "I s1" "wd_funcs_ok ok s1" "ok f args"
      "wframe s s1" "wd_kept {p} (wdogs s) (wdogs s1)"
      "wd_expire_loop call s = do { s' \<leftarrow> call f args s1; (ps, s') \<leftarrow> wd_expire_loop call s'; Some (p # ps, s') }"
      "wd_runs s p f args"
      by (rule loop_step [OF less.prems(1) False less.prems(2,3)])
    obtain s2 xs2 fr2 where c: "call f args s1 = Some s2" "I s2" "wd_rep s2 xs2 fr2" "wd_funcs_ok ok s2"
      "length (expired xs2) \<le> length (expired ys)" using call_ok [OF st(5,3,2,4)] by blast
    with st(1) have "length (expired xs2) < length (expired xs)" by simp
    from less.hyps [OF this c(3,2,4)] obtain ps s' xs' fr' where
      "wd_expire_loop call s2 = Some (ps, s')" "I s'" "wd_rep s' xs' fr'" "wd_funcs_ok ok s'" "expired xs' = []" by blast
    with c(1) st(8) show ?thesis
      by (intro exI [of _ "p # ps"] exI [of _ s'] exI [of _ xs'] exI [of _ fr']) simp
  qed
qed

lemma timer_terminates:
  assumes rep: "wd_rep s xs fr" and I: "I s" "wd_funcs_ok ok s" and q: "expired xs = []"
  shows "\<exists>ps s' xs' fr'. wd_timer call s = Some (ps, s') \<and> I s' \<and> wd_rep s' xs' fr' \<and> wd_funcs_ok ok s' \<and> expired xs' = []"
proof -
  obtain s1 where s1: "wd_timer call s = wd_expire_loop call s1" "wd_rep s1 (tick xs) fr" "wframe s s1"
    "wd_kept {} (wdogs s) (wdogs s1)" using wd_timer_eq [OF rep q] by blast
  have f: "wd_funcs_ok ok s1" by (rule wd_funcs_ok_kept [OF I(2) s1(4)]) simp
  show ?thesis using expire_loop_terminates [OF s1(2) I_frame [OF s1(3) I(1)] f] s1(1) by simp
qed

end

text \<open>
  Functions that do not use watchdogs themselves, such as the timeouts of the kernel: they
  satisfy the contract, and one tick runs exactly the watchdogs whose time has come.
\<close>

definition wd_part :: "'a wdstate_scheme \<Rightarrow> _" where
  "wd_part s = (wdogs s, wdnext s, g_wdfreelist s, g_wdactivelist s, g_wdnfree s)"

lemma wd_part_rep: "wd_part s' = wd_part s \<Longrightarrow> wd_rep s' xs fr = wd_rep s xs fr \<and> wd_funcs_ok ok s' = wd_funcs_ok ok s"
  by (simp add: wd_part_def wd_rep_def pooled_def wd_funcs_ok_def)

locale wd_passive =
  fixes call :: "'a wcall" and ok :: "addr \<Rightarrow> wdparm_t list \<Rightarrow> bool" and I :: "'a wdstate_scheme \<Rightarrow> bool"
  assumes inv_frame: "wframe s s' \<Longrightarrow> I s \<Longrightarrow> I s'"
    and call_total: "ok f args \<Longrightarrow> I s \<Longrightarrow> \<exists>s'. call f args s = Some s' \<and> I s' \<and> wd_part s' = wd_part s"

sublocale wd_passive \<subseteq> wd_callbacks
proof
  fix f args s xs fr
  assume a: "ok f args" "I s" "wd_rep s xs fr" "wd_funcs_ok ok s"
  then show "\<exists>s' xs' fr'. call f args s = Some s' \<and> I s' \<and> wd_rep s' xs' fr' \<and> wd_funcs_ok ok s' \<and>
        length (expired xs') \<le> length (expired xs)"
    using call_total [OF a(1,2)] wd_part_rep by blast
qed (rule inv_frame)

fun wd_ticks :: "'a wcall \<Rightarrow> nat \<Rightarrow> ('a, addr list list) wop" where
  "wd_ticks call 0 s = Some ([], s)"
| "wd_ticks call (Suc n) s = do {
     (ps, s) \<leftarrow> wd_timer call s;
     (pss, s) \<leftarrow> wd_ticks call n s;
     Some (ps # pss, s)
   }"

context wd_passive
begin

lemma expire_loop_exact:
  assumes "wd_rep s xs fr" "I s" "wd_funcs_ok ok s"
  shows "\<exists>s'. wd_expire_loop call s = Some (map fst (expired xs), s') \<and> I s' \<and>
     wd_rep s' (filter (\<lambda>x. 0 < snd x) xs) fr \<and> wd_funcs_ok ok s' \<and>
     wd_kept (fst ` set (expired xs)) (wdogs s) (wdogs s')"
  using assms
proof (induction xs arbitrary: s)
  case Nil
  then show ?case using loop_stops [OF Nil.prems(1)] by simp
next
  case (Cons x xs)
  show ?case
  proof (cases "expired (x # xs) = []")
    case True
    then have "filter (\<lambda>x. 0 < snd x) (x # xs) = x # xs" by (rule expired_none)
    with loop_stops [OF Cons.prems(1) True] Cons.prems True show ?thesis by simp
  next
    case False
    obtain s1 f args p ys where st: "x # xs = (p, 0) # ys" "wd_rep s1 ys fr" "I s1" "wd_funcs_ok ok s1" "ok f args"
      "wframe s s1" "wd_kept {p} (wdogs s) (wdogs s1)"
      "wd_expire_loop call s = do { s' \<leftarrow> call f args s1; (ps, s') \<leftarrow> wd_expire_loop call s'; Some (p # ps, s') }"
      "wd_runs s p f args"
      by (rule loop_step [OF Cons.prems(1) False Cons.prems(2,3)])
    then have eq: "x = (p, 0)" "ys = xs" by simp_all
    obtain s2 where c: "call f args s1 = Some s2" "I s2" "wd_part s2 = wd_part s1" using call_total [OF st(5,3)] by blast
    have k: "wd_kept {p} (wdogs s) (wdogs s2)" using c(3) st(7) by (simp add: wd_part_def)
    from Cons.IH [of s2] c(2) st(2,4) wd_part_rep [OF c(3)] obtain s' where s':
      "wd_expire_loop call s2 = Some (map fst (expired xs), s')" "I s'"
      "wd_rep s' (filter (\<lambda>x. 0 < snd x) xs) fr" "wd_funcs_ok ok s'" "wd_kept (fst ` set (expired xs)) (wdogs s2) (wdogs s')"
      unfolding eq by blast
    have "wd_kept (insert p (fst ` set (expired xs))) (wdogs s) (wdogs s')"
      by (rule wd_kept_trans [OF wd_kept_mono [OF k] wd_kept_mono [OF s'(5)]]) auto
    then show ?thesis using s' c(1) st(8) by (simp add: eq)
  qed
qed

lemma timer_exact:
  assumes rep: "wd_rep s xs fr" and I: "I s" "wd_funcs_ok ok s" and q: "expired xs = []"
  shows "\<exists>s'. wd_timer call s = Some (map fst (filter (\<lambda>x. snd x = 1) xs), s') \<and> I s' \<and>
     wd_rep s' (tick (filter (\<lambda>x. 1 < snd x) xs)) fr \<and> wd_funcs_ok ok s' \<and>
     wd_kept (fst ` set (filter (\<lambda>x. snd x = 1) xs)) (wdogs s) (wdogs s')"
proof -
  obtain s1 where s1: "wd_timer call s = wd_expire_loop call s1" "wd_rep s1 (tick xs) fr" "wframe s s1"
    "wd_kept {} (wdogs s) (wdogs s1)" using wd_timer_eq [OF rep q] by blast
  have f: "wd_funcs_ok ok s1" by (rule wd_funcs_ok_kept [OF I(2) s1(4)]) simp
  have "\<forall>x \<in> set xs. 1 \<le> snd x" using q by (force simp: filter_empty_conv)
  then have e: "map fst (expired (tick xs)) = map fst (filter (\<lambda>x. snd x = 1) xs)"
    "filter (\<lambda>x. 0 < snd x) (tick xs) = tick (filter (\<lambda>x. 1 < snd x) xs)"
    by (induction xs) (auto simp: tick_def)
  obtain s' where s': "wd_expire_loop call s1 = Some (map fst (expired (tick xs)), s')" "I s'"
     "wd_rep s' (filter (\<lambda>x. 0 < snd x) (tick xs)) fr" "wd_funcs_ok ok s'"
     "wd_kept (fst ` set (expired (tick xs))) (wdogs s1) (wdogs s')"
    using expire_loop_exact [OF s1(2) I_frame [OF s1(3) I(1)] f] by blast
  have e': "fst ` set (expired (tick xs)) = fst ` set (filter (\<lambda>x. snd x = 1) xs)" using e(1) by (metis set_map)
  have "wd_kept (fst ` set (expired (tick xs))) (wdogs s) (wdogs s')"
    by (rule wd_kept_trans [OF wd_kept_mono [OF s1(4)] s'(5)]) simp
  with s' s1(1) show ?thesis unfolding e e' by simp
qed

text \<open>A condition that the functions keep and that the call of one expired watchdog establishes.\<close>

lemma expire_loop_keeps:
  assumes J: "\<And>s s'. wframe s s' \<Longrightarrow> J s \<Longrightarrow> J s'"
      "\<And>f args s s'. ok f args \<Longrightarrow> good f args \<Longrightarrow> I s \<Longrightarrow> J s \<Longrightarrow> call f args s = Some s' \<Longrightarrow> J s'"
    and s: "wd_rep s xs fr" "I s" "wd_funcs_ok ok s" "J s" "wd_expire_loop call s = Some (ps, s')"
    and g: "\<And>q f args. (q, 0) \<in> set xs \<Longrightarrow> wd_runs s q f args \<Longrightarrow> good f args"
  shows "J s'"
  using s g
proof (induction xs arbitrary: s ps)
  case Nil
  then show ?case using loop_stops [OF Nil.prems(1)] by simp
next
  case (Cons x xs)
  show ?case
  proof (cases "expired (x # xs) = []")
    case True
    with loop_stops [OF Cons.prems(1) True] Cons.prems show ?thesis by simp
  next
    case False
    obtain s1 f args p ys where st: "x # xs = (p, 0) # ys" "wd_rep s1 ys fr" "I s1" "wd_funcs_ok ok s1" "ok f args"
      "wframe s s1" "wd_kept {p} (wdogs s) (wdogs s1)"
      "wd_expire_loop call s = do { s' \<leftarrow> call f args s1; (ps, s') \<leftarrow> wd_expire_loop call s'; Some (p # ps, s') }"
      "wd_runs s p f args"
      by (rule loop_step [OF Cons.prems(1) False Cons.prems(2,3)])
    obtain s2 where c: "call f args s1 = Some s2" "I s2" "wd_part s2 = wd_part s1" using call_total [OF st(5,3)] by blast
    have "good f args" using Cons.prems(6) [of p] st(1,9) by simp
    then have j: "J s2" using J(2) [OF st(5) _ st(3) J(1) [OF st(6) Cons.prems(4)] c(1)] by blast
    obtain qs where l: "wd_expire_loop call s2 = Some (qs, s')"
      using Cons.prems(5) st(8) c(1) by (auto split: bind_splits)
    have "distinct (map fst (x # xs))" using wd_repD(7) [OF Cons.prems(1)] .
    then have np: "q \<noteq> p" if "(q, 0) \<in> set xs" for q using that st(1) by force
    have "good g as" if q: "(q, 0) \<in> set xs" "wd_runs s2 q g as" for q g as
    proof -
      have "wd_runs s1 q g as" using q(2) c(3) by (simp add: wd_runs_def wd_part_def)
      then have "wd_runs s q g as"
        using wd_runs_back [OF st(7)] np [OF q(1)] by simp
      then show ?thesis using Cons.prems(6) [of q g as] q(1) by simp
    qed
    moreover have "wd_rep s2 xs fr" "wd_funcs_ok ok s2" using st(1,2,4) wd_part_rep [OF c(3)] by simp_all
    ultimately show ?thesis using Cons.IH [OF _ c(2) _ j l] by blast
  qed
qed

lemma expire_loop_establishes:
  assumes J: "\<And>s s'. wframe s s' \<Longrightarrow> J s \<Longrightarrow> J s'"
      "\<And>f args s s'. ok f args \<Longrightarrow> I s \<Longrightarrow> J s \<Longrightarrow> call f args s = Some s' \<Longrightarrow> J s'"
      "\<And>s s'. I s \<Longrightarrow> call f0 args0 s = Some s' \<Longrightarrow> J s'"
    and s: "wd_rep s xs fr" "I s" "wd_funcs_ok ok s" "wd_expire_loop call s = Some (ps, s')"
    and q: "(q, 0) \<in> set xs" "wd_runs s q f0 args0"
  shows "J s'"
  using s q
proof (induction xs arbitrary: s ps)
  case Nil
  then show ?case by simp
next
  case (Cons x xs)
  have False: "expired (x # xs) \<noteq> []" using Cons.prems(5) unfolding filter_empty_conv by force
  obtain s1 f args p ys where st: "x # xs = (p, 0) # ys" "wd_rep s1 ys fr" "I s1" "wd_funcs_ok ok s1" "ok f args"
    "wframe s s1" "wd_kept {p} (wdogs s) (wdogs s1)"
    "wd_expire_loop call s = do { s' \<leftarrow> call f args s1; (ps, s') \<leftarrow> wd_expire_loop call s'; Some (p # ps, s') }"
    "wd_runs s p f args"
    by (rule loop_step [OF Cons.prems(1) False Cons.prems(2,3)])
  obtain s2 where c: "call f args s1 = Some s2" "I s2" "wd_part s2 = wd_part s1" using call_total [OF st(5,3)] by blast
  have r2: "wd_rep s2 xs fr" "wd_funcs_ok ok s2" using st(1,2,4) wd_part_rep [OF c(3)] by simp_all
  obtain qs where l: "wd_expire_loop call s2 = Some (qs, s')"
    using Cons.prems(4) st(8) c(1) by (auto split: bind_splits)
  show ?case
  proof (cases "q = p")
    case True
    then have "f = f0" "args = args0" using wd_runs_unique [OF Cons.prems(6)] st(9) by auto
    then have j: "J s2" using J(3) [OF st(3)] c(1) by simp
    show ?thesis by (rule expire_loop_keeps [where J = J and good = "\<lambda>_ _. True", OF J(1) J(2) r2(1) c(2) r2(2) j l]) simp_all
  next
    case False
    have "wd_runs s2 q f0 args0"
      using wd_runs_kept [OF st(7) _ Cons.prems(6)] False c(3) by (simp add: wd_runs_def wd_part_def)
    moreover have "(q, 0) \<in> set xs" using Cons.prems(5) st(1) False by auto
    ultimately show ?thesis using Cons.IH [OF r2(1) c(2) r2(2) l] by blast
  qed
qed

lemma timer_keeps:
  assumes J: "\<And>s s'. wframe s s' \<Longrightarrow> J s \<Longrightarrow> J s'"
      "\<And>f args s s'. ok f args \<Longrightarrow> good f args \<Longrightarrow> I s \<Longrightarrow> J s \<Longrightarrow> call f args s = Some s' \<Longrightarrow> J s'"
    and s: "wd_rep s xs fr" "I s" "wd_funcs_ok ok s" "expired xs = []" "wd_timer call s = Some (ps, s')" "J s"
    and g: "\<And>q f args. (q, 1) \<in> set xs \<Longrightarrow> wd_runs s q f args \<Longrightarrow> good f args"
  shows "J s'"
proof -
  obtain s1 where s1: "wd_timer call s = wd_expire_loop call s1" "wd_rep s1 (tick xs) fr" "wframe s s1"
    "wd_kept {} (wdogs s) (wdogs s1)" using wd_timer_eq [OF s(1,4)] by blast
  have f: "wd_funcs_ok ok s1" by (rule wd_funcs_ok_kept [OF s(3) s1(4)]) simp
  have l: "wd_expire_loop call s1 = Some (ps, s')" using s1(1) s(5) by simp
  have g1: "good f args" if q: "(q, 0) \<in> set (tick xs)" "wd_runs s1 q f args" for q f args
  proof -
    have "wd_runs s q f args" using wd_runs_back [OF s1(4)] q(2) by simp
    moreover have "(q, 1) \<in> set xs" using q(1) by (auto simp: tick_def)
    ultimately show ?thesis using g by blast
  qed
  show ?thesis
    by (rule expire_loop_keeps [where J = J and good = good,
        OF J(1) J(2) s1(2) I_frame [OF s1(3) s(2)] f J(1) [OF s1(3) s(6)] l g1])
qed

lemma timer_establishes:
  assumes J: "\<And>s s'. wframe s s' \<Longrightarrow> J s \<Longrightarrow> J s'"
      "\<And>f args s s'. ok f args \<Longrightarrow> I s \<Longrightarrow> J s \<Longrightarrow> call f args s = Some s' \<Longrightarrow> J s'"
      "\<And>s s'. I s \<Longrightarrow> call f0 args0 s = Some s' \<Longrightarrow> J s'"
    and s: "wd_rep s xs fr" "I s" "wd_funcs_ok ok s" "expired xs = []" "wd_timer call s = Some (ps, s')"
    and q: "(q, 1) \<in> set xs" "wd_runs s q f0 args0"
  shows "J s'"
proof -
  obtain s1 where s1: "wd_timer call s = wd_expire_loop call s1" "wd_rep s1 (tick xs) fr" "wframe s s1"
    "wd_kept {} (wdogs s) (wdogs s1)" using wd_timer_eq [OF s(1,4)] by blast
  have f: "wd_funcs_ok ok s1" by (rule wd_funcs_ok_kept [OF s(3) s1(4)]) simp
  have l: "wd_expire_loop call s1 = Some (ps, s')" using s1(1) s(5) by simp
  have q': "(q, 0) \<in> set (tick xs)" "wd_runs s1 q f0 args0"
    using q wd_runs_kept [OF s1(4)] by (force simp: tick_def)+
  show ?thesis
    by (rule expire_loop_establishes [where J = J, OF J(1) J(2) J(3) s1(2) I_frame [OF s1(3) s(2)] f l q'])
qed

lemma ticks_exact:
  assumes "wd_rep s xs fr" "I s" "wd_funcs_ok ok s" "expired xs = []"
  shows "\<exists>pss s'. wd_ticks call n s = Some (pss, s') \<and>
     pss = map (\<lambda>k. map fst (filter (\<lambda>x. snd x = int k + 1) xs)) [0..<n] \<and> I s' \<and> wd_funcs_ok ok s' \<and>
     wd_rep s' (map (\<lambda>x. (fst x, snd x - int n)) (filter (\<lambda>x. int n < snd x) xs)) fr"
  using assms
proof (induction n arbitrary: s xs)
  case 0
  then have "filter (\<lambda>x. 0 < snd x) xs = xs" by (intro expired_none)
  with 0 show ?case by simp
next
  case (Suc n)
  let ?ys = "tick (filter (\<lambda>x. 1 < snd x) xs)"
  obtain s1 where s1: "wd_timer call s = Some (map fst (filter (\<lambda>x. snd x = 1) xs), s1)" "I s1"
     "wd_rep s1 ?ys fr" "wd_funcs_ok ok s1" using timer_exact [OF Suc.prems] by blast
  have "expired ?ys = []" by (auto simp: tick_def filter_empty_conv)
  from Suc.IH [OF s1(3,2,4) this] obtain s2 where s2:
    "wd_ticks call n s1 = Some (map (\<lambda>k. map fst (filter (\<lambda>x. snd x = int k + 1) ?ys)) [0..<n], s2)" "I s2"
    "wd_funcs_ok ok s2" "wd_rep s2 (map (\<lambda>x. (fst x, snd x - int n)) (filter (\<lambda>x. int n < snd x) ?ys)) fr" by blast
  have 1: "map fst (filter (\<lambda>x. snd x = int k + 1) ?ys) = map fst (filter (\<lambda>x. snd x = int (Suc k) + 1) xs)" for k
    by (induction xs) (auto simp: tick_def)
  have 2: "map (\<lambda>x. (fst x, snd x - int n)) (filter (\<lambda>x. int n < snd x) ?ys) =
     map (\<lambda>x. (fst x, snd x - int (Suc n))) (filter (\<lambda>x. int (Suc n) < snd x) xs)"
    by (induction xs) (auto simp: tick_def)
  have 3: "[0..<Suc n] = 0 # map Suc [0..<n]" by (simp add: map_Suc_upt upt_conv_Cons del: upt_Suc)
  show ?case using s1(1) s2 unfolding 1 2 3 by (simp add: comp_def)
qed

end

section \<open>Starting with a function that satisfies the contract\<close>

lemma wd_start_funcs:
  assumes rep: "wd_rep s xs fr" and I: "wd_funcs_ok ok s"
    and p: "wdogs s p = Some w" "p \<notin> set fr" and d: "0 \<le> delay" "delay < 2 ^ 31"
    and a: "length args \<le> CONFIG_MAX_WDOGPARMS" "ok f args"
  shows "\<exists>s1. wd_start p delay f (int (length args)) args s = Some (0, s1) \<and>
     wd_rep s1 (insert_timer p (min (delay + 1) (2 ^ 31 - 1)) (drop_timer p xs)) fr \<and> wd_kept {p} (wdogs s) (wdogs s1) \<and>
     wframe s s1 \<and> wd_funcs_ok ok s1 \<and> wd_runs s1 p f args"
proof -
  have ar: "nat (int (length args)) \<le> length args" "int (length args) \<le> int CONFIG_MAX_WDOGPARMS" using a by simp_all
  obtain s1 w1 where s1: "wd_start p delay f (int (length args)) args s = Some (0, s1)"
      "wd_rep s1 (insert_timer p (min (delay + 1) (2 ^ 31 - 1)) (drop_timer p xs)) fr" "wd_kept {p} (wdogs s) (wdogs s1)" "wframe s s1"
      "wdogs s1 p = Some w1" "wdfunc w1 = f" "wdargc w1 = word_of_int (int (length args))"
      "parm w1 = args @ drop (length args) (parm w)"
    using wd_start_spec [OF rep p d ar, of f] by auto
  have arg: "unat (wdargc w1) = length args"
    using a(1) by (simp add: s1(7) CONFIG_MAX_WDOGPARMS_def unat_of_nat)
  have "unat (wdargc v) \<le> CONFIG_MAX_WDOGPARMS \<and> ok (wdfunc v) (take (unat (wdargc v)) (parm v))"
    if v: "wdogs s1 x = Some v \<and> WDOG_ISACTIVE v" for x v
  proof (cases "x = p")
    case True
    then have "v = w1" using v s1(5) by simp
    then show ?thesis using a arg s1(6,8) by simp
  next
    case False
    with wd_keptD(3) [OF s1(3), of x v] v obtain u k where u: "wdogs s x = Some u" "v = u\<lparr>lag := k\<rparr>" by auto
    with v I show ?thesis by (auto simp: wd_funcs_ok_def)
  qed
  then have "wd_funcs_ok ok s1" unfolding wd_funcs_ok_def by blast
  moreover have "wd_runs s1 p f args" using s1(5,6,8) arg by (simp add: wd_runs_def)
  ultimately show ?thesis using s1(1-4) by blast
qed

lemma wd_start_ready:
  assumes rep: "wd_rep s xs fr" and I: "wd_funcs_ok ok s" and q: "\<forall>x \<in> set xs. 1 \<le> snd x"
    and p: "wdogs s p = Some w" "p \<notin> set fr" and d: "delay + 1 < 2 ^ 31"
    and a: "length args \<le> CONFIG_MAX_WDOGPARMS" "ok f args"
  shows "\<exists>s1. wd_start p (int delay) f (int (length args)) args s = Some (0, s1) \<and>
     wd_rep s1 (insert_timer p (int delay + 1) (drop_timer p xs)) fr \<and> wd_kept {p} (wdogs s) (wdogs s1) \<and> wframe s s1 \<and>
     wd_funcs_ok ok s1 \<and> wd_runs s1 p f args \<and> expired (insert_timer p (int delay + 1) (drop_timer p xs)) = []"
proof -
  have dl: "0 \<le> int delay" "int delay < 2 ^ 31" using d by simp_all
  have md: "min (int delay + 1) (2 ^ 31 - 1) = int delay + 1" using d by simp
  have "expired (insert_timer p (int delay + 1) (drop_timer p xs)) = []" using q by (force simp: filter_empty_conv)
  then show ?thesis using wd_start_funcs [where ok = ok, OF rep I p dl a] unfolding md by blast
qed

section \<open>Functions that use watchdogs\<close>

text \<open>
  The function of a watchdog may itself start and cancel watchdogs, also the one that runs it.
  It is given by what it does apart from that, \<open>call\<close>, and by the watchdog operations \<open>prog\<close> that
  it then calls, which depend on its arguments and on the state.
\<close>

datatype wd_act = Start addr int addr "wdparm_t list" | Cancel addr

fun run_acts :: "wd_act list \<Rightarrow> 'a wproc" where
  "run_acts [] s = Some s"
| "run_acts (Start p delay f args # as) s = do {
     (_, s) \<leftarrow> wd_start p delay f (int (length args)) args s; run_acts as s }"
| "run_acts (Cancel p # as) s = do { (_, s) \<leftarrow> wd_cancel p s; run_acts as s }"

definition active_call :: "'a wcall \<Rightarrow> (addr \<Rightarrow> wdparm_t list \<Rightarrow> 'a wdstate_scheme \<Rightarrow> wd_act list) \<Rightarrow> 'a wcall" where
  "active_call call prog f args s = do { s \<leftarrow> call f args s; run_acts (prog f args s) s }"

text \<open>An operation is called on a watchdog that exists; a watchdog that is started is not free.\<close>

fun act_ok :: "(addr \<Rightarrow> wdparm_t list \<Rightarrow> bool) \<Rightarrow> addr set \<Rightarrow> addr list \<Rightarrow> wd_act \<Rightarrow> bool" where
  "act_ok ok W fr (Start p delay f args) \<longleftrightarrow>
     p \<in> W \<and> p \<notin> set fr \<and> delay < 2 ^ 31 \<and> length args \<le> CONFIG_MAX_WDOGPARMS \<and> ok f args"
| "act_ok ok W fr (Cancel p) \<longleftrightarrow> p = NULL \<or> p \<in> W"

lemma expired_drop: "length (expired (drop_timer p xs)) \<le> length (expired xs)"
  by (induction xs) (auto simp: drop_timer_def)

lemma expired_insert: "1 \<le> d \<Longrightarrow> expired (insert_timer p d xs) = expired xs"
proof -
  assume "1 \<le> d"
  then have "expired (insert_timer p d xs) = expired (takeWhile (\<lambda>x. snd x \<le> d) xs @ dropWhile (\<lambda>x. snd x \<le> d) xs)"
    unfolding insert_timer_def filter_append by simp
  then show ?thesis by simp
qed

lemma run_acts_ok:
  assumes "wd_rep s xs fr" "wd_funcs_ok ok s" "\<forall>a \<in> set as. act_ok ok (dom (wdogs s)) fr a"
  shows "\<exists>s' xs'. run_acts as s = Some s' \<and> wd_rep s' xs' fr \<and> wd_funcs_ok ok s' \<and> wframe s s' \<and>
     length (expired xs') \<le> length (expired xs)"
  using assms
proof (induction as arbitrary: s xs)
  case Nil
  then show ?case by (intro exI [of _ s] exI [of _ xs]) simp
next
  case (Cons a as)
  have step: ?case if "\<exists>s1 xs1. run_acts (a # as) s = run_acts as s1 \<and> wd_rep s1 xs1 fr \<and> wd_funcs_ok ok s1 \<and>
      wframe s s1 \<and> dom (wdogs s1) = dom (wdogs s) \<and> length (expired xs1) \<le> length (expired xs)"
  proof -
    from that obtain s1 xs1 where s1: "run_acts (a # as) s = run_acts as s1" "wd_rep s1 xs1 fr" "wd_funcs_ok ok s1"
      "wframe s s1" "dom (wdogs s1) = dom (wdogs s)" "length (expired xs1) \<le> length (expired xs)" by blast
    have "\<forall>a \<in> set as. act_ok ok (dom (wdogs s1)) fr a" using Cons.prems(3) s1(5) by simp
    from Cons.IH [OF s1(2,3) this] show ?thesis using s1 wframe_trans [OF s1(4)] order_trans [OF _ s1(6)] by metis
  qed
  show ?case
  proof (cases a)
    case (Start p delay f args)
    have ok: "p \<in> dom (wdogs s)" "p \<notin> set fr" "delay < 2 ^ 31" "length args \<le> CONFIG_MAX_WDOGPARMS" "ok f args"
      using Cons.prems(3) Start by simp_all
    then obtain w where w: "wdogs s p = Some w" by blast
    show ?thesis
    proof (cases "delay < 0")
      case True
      then have "run_acts (a # as) s = run_acts as s" by (simp add: Start wd_start_def)
      with Cons.prems show ?thesis by (intro step) (auto intro!: exI [of _ s])
    next
      case False
      let ?d = "min (delay + 1) (2 ^ 31 - 1)"
      have "0 \<le> delay" using False by simp
      from wd_start_funcs [where ok = ok, OF Cons.prems(1,2) w ok(2) this ok(3-5)] obtain s1 where s1:
        "wd_start p delay f (int (length args)) args s = Some (0, s1)" "wd_rep s1 (insert_timer p ?d (drop_timer p xs)) fr"
        "wd_kept {p} (wdogs s) (wdogs s1)" "wframe s s1" "wd_funcs_ok ok s1" by blast
      have "1 \<le> ?d" using False by simp
      then have "length (expired (insert_timer p ?d (drop_timer p xs))) \<le> length (expired xs)"
        using expired_drop [of p xs] by (simp only: expired_insert)
      moreover have "run_acts (a # as) s = run_acts as s1" using s1(1) by (simp add: Start)
      ultimately show ?thesis using s1 wd_kept_pooled(2) [OF s1(3)] by (intro step) blast
    qed
  next
    case (Cancel p)
    then consider "p = NULL" | "wdogs s p \<noteq> None" using Cons.prems(3) by auto
    then show ?thesis
    proof cases
      case 1
      then have "run_acts (a # as) s = run_acts as s" by (simp add: Cancel wd_cancel_def)
      with Cons.prems show ?thesis by (intro step) (auto intro!: exI [of _ s])
    next
      case 2
      obtain s1 r where s1: "wd_cancel p s = Some (r, s1)" "wd_rep s1 (drop_timer p xs) fr" "wd_kept {p} (wdogs s) (wdogs s1)"
        "wframe s s1" using wd_cancel_refines [OF Cons.prems(1) 2] by blast
      have "wd_funcs_ok ok s1"
        by (rule wd_funcs_ok_kept [OF Cons.prems(2) s1(3)]) (use wd_rep_wdog(1) [OF s1(2)] in auto)
      moreover have "run_acts (a # as) s = run_acts as s1" using s1(1) by (simp add: Cancel)
      ultimately show ?thesis
        using s1 expired_drop [of p xs] wd_kept_pooled(2) [OF s1(3)] by (intro step) blast
    qed
  qed
qed

lemma active_callbacks:
  assumes c: "wd_passive call ok I"
    and a: "\<And>f args s xs fr. ok f args \<Longrightarrow> I s \<Longrightarrow> wd_rep s xs fr \<Longrightarrow> \<forall>a \<in> set (prog f args s). act_ok ok (dom (wdogs s)) fr a"
  shows "wd_callbacks (active_call call prog) ok I"
proof
  fix f args s xs fr
  assume h: "ok f args" "I s" "wd_rep s xs fr" "wd_funcs_ok ok s"
  obtain s1 where s1: "call f args s = Some s1" "I s1" "wd_part s1 = wd_part s"
    using wd_passive.call_total [OF c h(1,2)] by blast
  have r: "wd_rep s1 xs fr" "wd_funcs_ok ok s1" using h(3,4) wd_part_rep [OF s1(3)] by blast+
  from run_acts_ok [OF r a [OF h(1) s1(2) r(1)]] obtain s2 xs2 where s2:
    "run_acts (prog f args s1) s1 = Some s2" "wd_rep s2 xs2 fr" "wd_funcs_ok ok s2" "wframe s1 s2"
    "length (expired xs2) \<le> length (expired xs)" by blast
  have "active_call call prog f args s = Some s2" using s1(1) s2(1) by (simp add: active_call_def)
  then show "\<exists>s' xs' fr'. active_call call prog f args s = Some s' \<and> I s' \<and> wd_rep s' xs' fr' \<and> wd_funcs_ok ok s' \<and>
        length (expired xs') \<le> length (expired xs)"
    using s2 wd_passive.inv_frame [OF c s2(4) s1(2)] by blast
qed (rule wd_passive.inv_frame [OF c])

section \<open>The functions of the kernel\<close>

text \<open>
  The modelled kernel starts watchdogs with one function, \<^verbatim>\<open>nxsem_timeout\<close>; its address is the
  first argument. A jump to any other address is a fault.
\<close>

definition kernel_call :: "addr \<Rightarrow> 'a wcall" where
  "kernel_call timeout_p f args s =
     (case args of [arg] \<Rightarrow> if f = timeout_p then nxsem_timeout (uint arg) s else None | _ \<Rightarrow> None)"

definition kernel_ok :: "addr \<Rightarrow> addr \<Rightarrow> wdparm_t list \<Rightarrow> bool" where
  "kernel_ok timeout_p f args \<longleftrightarrow> f = timeout_p \<and> length args = 1"

lemma timed_frame: "wframe s s' \<Longrightarrow> timed s \<Longrightarrow> timed s'"
  by (simp add: timed_def wframe_def refines_def)

lemma sframe_wd_part: "sframe s s' \<Longrightarrow> wd_part s' = wd_part s"
  by (cases s, cases s') (simp add: sframe_def wd_part_def)

lemma kernel_passive: "wd_passive (kernel_call tp) (kernel_ok tp) timed"
proof
  fix f args and s :: "'a wdstate_scheme"
  assume a: "kernel_ok tp f args" "timed s"
  then obtain arg where args: "args = [arg]" "f = tp" by (auto simp: kernel_ok_def length_Suc_conv)
  from nxsem_timeout_ok [OF a(2), of "uint arg"] obtain s' where
    "nxsem_timeout (uint arg) s = Some s'" "timed s'" "sframe s s'" by blast
  then show "\<exists>s'. kernel_call tp f args s = Some s' \<and> timed s' \<and> wd_part s' = wd_part s"
    using sframe_wd_part by (auto simp: kernel_call_def args)
qed (rule timed_frame)

interpretation kt: wd_passive "kernel_call tp" "kernel_ok tp" timed
  for tp
  by (rule kernel_passive)

section \<open>The remaining times in terms of the list\<close>

lemma map_of_insert_timer: "p \<notin> fst ` set xs \<Longrightarrow> map_of (insert_timer p d xs) = (map_of xs)(p \<mapsto> d)"
  by (induction xs) (auto simp: insert_timer_def fun_eq_iff)

lemma map_of_drop_timer: "map_of (drop_timer p xs) = (map_of xs)(p := None)"
  by (induction xs) (auto simp: drop_timer_def fun_eq_iff)

lemma map_of_tick: "map_of (tick xs) p = map_option (\<lambda>d. d - 1) (map_of xs p)"
  by (induction xs) (auto simp: tick_def)

definition time_of :: "timers \<Rightarrow> addr \<Rightarrow> int" where
  "time_of xs p = (case map_of xs p of None \<Rightarrow> 0 | Some d \<Rightarrow> d)"

lemma wd_gettime_time:
  assumes rep: "wd_rep s xs fr"
  shows "wd_gettime p s = (if p = NULL then Some 0 else map_option (\<lambda>_. time_of xs p) (wdogs s p))"
proof (cases "map_of xs p")
  case None
  then have "p \<notin> fst ` set xs" by (simp add: map_of_eq_None_iff)
  with wd_gettime_spec(2) [OF rep this] None show ?thesis
    by (cases "wdogs s p") (auto simp: time_of_def wd_gettime_def get_wdog_def)
next
  case (Some d)
  then have m: "(p, d) \<in> set xs" by (rule map_of_SomeD)
  then have "p \<in> fst ` set xs" by force
  then obtain w where "wdogs s p = Some w" using wd_rep_active [OF rep] by blast
  with wd_gettime_spec(1) [OF rep m] wd_rep_wdog(3) [OF rep] Some show ?thesis by (simp add: time_of_def)
qed

lemma time_of_insert: "p \<notin> fst ` set xs \<Longrightarrow> time_of (insert_timer p d xs) q = (if q = p then d else time_of xs q)"
  by (simp add: time_of_def map_of_insert_timer)

lemma time_of_drop: "time_of (drop_timer p xs) q = (if q = p then 0 else time_of xs q)"
  by (simp add: time_of_def map_of_drop_timer)

lemma map_of_filter_distinct:
  "distinct (map fst xs) \<Longrightarrow> map_of (filter (\<lambda>x. P (snd x)) xs) p =
     (case map_of xs p of None \<Rightarrow> None | Some d \<Rightarrow> if P d then Some d else None)"
proof (induction xs)
  case (Cons x xs)
  then show ?case
    by (cases x) (auto split: option.split dest: map_of_SomeD, metis fst_conv image_eqI map_of_SomeD)
qed simp

lemma time_of_tick:
  "distinct (map fst xs) \<Longrightarrow> expired xs = [] \<Longrightarrow>
   time_of (tick (filter (\<lambda>x. 1 < snd x) xs)) q = max 0 (time_of xs q - 1)"
proof -
  assume d: "distinct (map fst xs)" and e: "expired xs = []"
  have "map_of xs q = Some t \<Longrightarrow> 1 \<le> t" for t using e by (force simp: filter_empty_conv dest: map_of_SomeD)
  then show ?thesis
    by (auto simp: time_of_def map_of_tick map_of_filter_distinct [OF d] split: option.split)
qed

lemma count_list_zero: "p \<notin> set xs \<Longrightarrow> count_list xs p = 0"
  by (simp add: count_list_0_iff)

lemma count_insert_timer:
  assumes "p \<notin> fst ` set xs"
  shows "count_list (map fst (filter (\<lambda>x. snd x = t) (insert_timer p d xs))) p = (if t = d then 1 else 0)"
proof -
  have "count_list (map fst (filter P (takeWhile Q xs))) p = 0" "count_list (map fst (filter P (dropWhile Q xs))) p = 0" for P Q
    using assms by (force intro!: count_list_zero dest: set_takeWhileD set_dropWhileD)+
  then show ?thesis by (auto simp: insert_timer_def)
qed

section \<open>A concrete state\<close>

text \<open>
  Watchdogs 201 and 202 expire in 3 and 7 ticks; 203 to 205 are free and
  206 is statically allocated. The function 300 is the
  timeout of the task with identifier 4, which waits for a semaphore.
\<close>

definition demo_wdog :: "int \<Rightarrow> 8 word \<Rightarrow> wdog_s" where
  "demo_wdog n fl = \<lparr>wdfunc = 300, lag = n, wdflags = fl, wdargc = 1, parm = [4, 0]\<rparr>"

definition demo_wd :: wdstate where
  "demo_wd = \<lparr>dqm = dqm demo_sem, tcbs = tcbs demo_sem, tasklists = tasklists demo_sem,
     current_regs = False, cpu_regs = 42, debug_assertions = True, sems = sems demo_sem,
     g_pidhash = g_pidhash demo_sem, g_irqerrno = 0,
     wdogs = [201 \<mapsto> demo_wdog 3 1, 202 \<mapsto> demo_wdog 4 1, 203 \<mapsto> demo_wdog 0 0, 204 \<mapsto> demo_wdog 0 0,
       205 \<mapsto> demo_wdog 0 0, 206 \<mapsto> demo_wdog 0 4],
     wdnext = [201 \<mapsto> 202, 202 \<mapsto> 0, 203 \<mapsto> 204, 204 \<mapsto> 205, 205 \<mapsto> 0, 206 \<mapsto> 0],
     g_wdfreelist = \<lparr>sq_head = 203, sq_tail = 205\<rparr>, g_wdactivelist = \<lparr>sq_head = 201, sq_tail = 202\<rparr>,
     g_wdnfree = 3, g_system_timer = 1000\<rparr>"

lemma demo_wd_rep: "wd_rep demo_wd [(201, 3), (202, 7)] [203, 204, 205]"
proof -
  have "pooled demo_wd = {201, 202, 203, 204, 205}"
    by (auto simp: pooled_def demo_wd_def demo_wdog_def wdog_flags split: if_splits)
  moreover have "WDOG_ISACTIVE (demo_wdog n fl) \<longleftrightarrow> and fl 1 \<noteq> 0" for n fl
    by (simp add: demo_wdog_def wdog_flags)
  ultimately show ?thesis
    by (auto simp: wd_rep_def sq_rep_def demo_wd_def CONFIG_PREALLOC_WDOGS_def CONFIG_MAX_WDOGPARMS_def split: if_splits)
      (auto simp: demo_wdog_def)
qed

lemma demo_wd_ok: "timed demo_wd" "wd_funcs_ok (kernel_ok 300) demo_wd"
proof -
  have "refines demo_wd demo_sem_a" "sem_inv demo_sem_a (sems demo_wd)"
    using demo_sem_refines demo_sem_inv by (auto simp: srefines_def refines_def demo_wd_def demo_sem_def)
  moreover have "a_timed demo_sem_a (g_pidhash demo_wd)"
    by (auto simp: a_timed_def listed_def a_tcb_def demo_wd_def demo_sem_a_def demo_sem_def demo_a_def demo_def demo_tcb_def
        split: if_splits)
  ultimately show "timed demo_wd" by (auto simp: timed_def)
  show "wd_funcs_ok (kernel_ok 300) demo_wd"
    by (auto simp: wd_funcs_ok_def kernel_ok_def demo_wd_def demo_wdog_def CONFIG_MAX_WDOGPARMS_def split: if_splits)
qed

text \<open>A function that restarts the statically allocated watchdog 206 without delay.\<close>

definition demo_restart :: "addr \<Rightarrow> wdparm_t list \<Rightarrow> wdstate \<Rightarrow> wd_act list" where
  "demo_restart f args s = (case wdogs s 206 of
      Some w \<Rightarrow> if WDOG_ISSTATIC w then [Start 206 0 300 [4]] else [] | None \<Rightarrow> [])"

section \<open>Properties\<close>

text \<open>
  C16. \<^verbatim>\<open>wd_start\<close> sets the remaining time of the watchdog to one tick more than the requested
  delay, or to the largest representable time, and changes the remaining time of no other
  watchdog, although only differences of times are stored. A watchdog that is already running
  is restarted.
\<close>

theorem wd_start_correct:
  assumes rep: "wd_rep s xs fr" and p: "wdogs s p \<noteq> None" "p \<notin> set fr" and d: "0 \<le> delay" "delay < 2 ^ 31"
    and a: "nat argc \<le> length args" "argc \<le> int CONFIG_MAX_WDOGPARMS"
  shows "\<exists>s'. wd_start p delay f argc args s = Some (0, s') \<and>
     wd_rep s' (insert_timer p (min (delay + 1) (2 ^ 31 - 1)) (drop_timer p xs)) fr \<and> wframe s s' \<and>
     wd_gettime p s' = Some (min (delay + 1) (2 ^ 31 - 1)) \<and>
     (\<forall>q. q \<noteq> p \<longrightarrow> wd_gettime q s' = wd_gettime q s)"
proof -
  obtain w where w: "wdogs s p = Some w" using p by blast
  let ?d = "min (delay + 1) (2 ^ 31 - 1)"
  obtain s' where s': "wd_start p delay f argc args s = Some (0, s')" "wd_rep s' (insert_timer p ?d (drop_timer p xs)) fr"
     "wd_kept {p} (wdogs s) (wdogs s')" "wframe s s'"
    using wd_start_spec [OF rep w p(2) d a] by blast
  have n: "p \<notin> fst ` set (drop_timer p xs)" "p \<noteq> NULL" using wd_rep_wdog(3) [OF rep w] by auto
  have k: "wdogs s' q = None \<longleftrightarrow> wdogs s q = None" for q using wd_keptD(1) [OF s'(3)] .
  have "wd_gettime q s' = (if q = NULL then Some 0 else map_option (\<lambda>_. if q = p then ?d else time_of xs q) (wdogs s q))" for q
    using k [of q] by (cases "wdogs s q"; cases "wdogs s' q")
      (simp_all add: wd_gettime_time [OF s'(2)] time_of_insert [OF n(1)] time_of_drop)
  then show ?thesis using s' n(2) w by (auto simp: wd_gettime_time [OF rep])
qed

theorem wd_start_correct_witness:
  "\<exists>s'. wd_start 206 4 300 1 [9] demo_wd = Some (0, s') \<and> wd_gettime 206 s' = Some 5 \<and> wd_gettime 202 s' = Some 7"
proof -
  have "wdogs demo_wd 206 \<noteq> None" "206 \<notin> set [203, 204, 205 :: addr]" by (simp_all add: demo_wd_def)
  from wd_start_correct [OF demo_wd_rep this, of 4 1 "[9]" 300] show ?thesis
    by (auto simp: CONFIG_MAX_WDOGPARMS_def wd_gettime_spec(1) [OF demo_wd_rep])
qed

text \<open>
  C20. \<^verbatim>\<open>wd_cancel\<close> succeeds exactly on active watchdogs; afterwards the watchdog is inactive and
  the remaining time of every other watchdog is what it was.
\<close>

theorem wd_cancel_correct:
  assumes rep: "wd_rep s xs fr" and p: "wdogs s p = Some w"
  shows "\<exists>s'. wd_cancel p s = Some (if WDOG_ISACTIVE w then 0 else - EINVAL, s') \<and>
     wd_rep s' (drop_timer p xs) fr \<and> wframe s s' \<and> wd_gettime p s' = Some 0 \<and>
     (\<forall>q. q \<noteq> p \<longrightarrow> wd_gettime q s' = wd_gettime q s)"
proof -
  have p': "wdogs s p \<noteq> None" using p by simp
  obtain s' r where s': "wd_cancel p s = Some (r, s')" "wd_rep s' (drop_timer p xs) fr" "wd_kept {p} (wdogs s) (wdogs s')"
     "wframe s s'" "r = (if p \<in> fst ` set xs then 0 else - EINVAL)" using wd_cancel_refines [OF rep p'] by blast
  have k: "wdogs s' q = None \<longleftrightarrow> wdogs s q = None" for q using wd_keptD(1) [OF s'(3)] .
  have "wd_gettime q s' = (if q = NULL then Some 0 else map_option (\<lambda>_. if q = p then 0 else time_of xs q) (wdogs s q))" for q
    using k [of q] by (cases "wdogs s q"; cases "wdogs s' q")
      (simp_all add: wd_gettime_time [OF s'(2)] time_of_drop)
  then show ?thesis using s' p wd_rep_wdog(1) [OF rep p] by (auto simp: wd_gettime_time [OF rep])
qed

theorem wd_cancel_correct_witness:
  "\<exists>s'. wd_cancel 201 demo_wd = Some (0, s') \<and> wd_gettime 201 s' = Some 0 \<and> wd_gettime 202 s' = Some 7"
proof -
  have w: "wdogs demo_wd 201 = Some (demo_wdog 3 1)" by (simp add: demo_wd_def)
  have "WDOG_ISACTIVE (demo_wdog 3 1)" by (simp add: demo_wdog_def wdog_flags)
  then show ?thesis using wd_cancel_correct [OF demo_wd_rep w] by (auto simp: wd_gettime_spec(1) [OF demo_wd_rep])
qed

text \<open>
  C21. The pool of watchdogs: a thread never takes the last \<^verbatim>\<open>CONFIG_WDOG_INTRESERVE\<close> free
  watchdogs, an interrupt handler fails only if no watchdog is free, creation never disturbs a
  running watchdog, and deleting the created watchdog gives back what was taken: the free list
  has its old length and the same watchdogs run with the same times.
\<close>

theorem wd_create_delete:
  assumes rep: "wd_rep s xs fr"
    and b: "wdogs s blk = None" "length (parm cont) = CONFIG_MAX_WDOGPARMS"
  shows "\<exists>p s1 fr1. wd_create blk cont s = Some (p, s1) \<and> wd_rep s1 xs fr1 \<and> wframe s s1 \<and>
     (\<not> up_interrupt_context s \<longrightarrow> min (length fr) CONFIG_WDOG_INTRESERVE \<le> length fr1) \<and>
     (up_interrupt_context s \<longrightarrow> (p = NULL \<longleftrightarrow> fr = [])) \<and>
     (p \<noteq> NULL \<longrightarrow> p \<notin> fst ` set xs \<and> p \<notin> set fr1 \<and>
       (\<exists>s2 fr2. wd_delete p s1 = Some (0, s2) \<and> wd_rep s2 xs fr2 \<and> mset fr2 = mset fr \<and> dom (wdogs s2) = dom (wdogs s)))"
proof -
  consider p fr' where "fr = p # fr'" "length fr' \<ge> CONFIG_WDOG_INTRESERVE \<or> up_interrupt_context s"
    | "fr = []" "up_interrupt_context s"
    | "length fr \<le> CONFIG_WDOG_INTRESERVE" "\<not> up_interrupt_context s"
    by (cases fr; cases "up_interrupt_context s"; cases "length fr \<le> CONFIG_WDOG_INTRESERVE") auto
  then show ?thesis
  proof cases
    case (1 p fr')
    obtain s1 where s1: "wd_create blk cont s = Some (p, s1)" "wd_rep s1 xs fr'" "wframe s s1" "p \<in> pooled s"
        "wd_kept {p} (wdogs s) (wdogs s1)" using wd_create_pool [OF rep [unfolded 1(1)] 1(2)] by blast
    obtain w where w: "wdogs s p = Some w" "\<not> WDOG_ISALLOCED w" "\<not> WDOG_ISSTATIC w" using s1(4) by (auto simp: pooled_def)
    with wd_keptD(2) [OF s1(5) w(1)] obtain w1 where w1: "wdogs s1 p = Some w1" "\<not> WDOG_ISALLOCED w1" "\<not> WDOG_ISSTATIC w1" by auto
    have n: "p \<notin> fst ` set xs" "p \<notin> set fr'" "p \<noteq> NULL"
      using wd_repD(3,12) [OF rep] wd_rep_wdog(3) [OF rep w(1)] 1 by auto
    obtain s2 where s2: "wd_delete p s1 = Some (0, s2)" "wd_rep s2 xs (fr' @ [p])" "wd_kept {p} (wdogs s1) (wdogs s2)"
      using wd_delete_spec [OF s1(2) w1(1) n(2)] w1 n(1) by (auto simp: drop_timer_id)
    have "dom (wdogs s2) = dom (wdogs s)" using wd_kept_pooled(2) [OF s1(5)] wd_kept_pooled(2) [OF s2(3)] by simp
    with s1 s2 n 1 show ?thesis
      by (intro exI [of _ p] exI [of _ s1] exI [of _ fr']) auto
  next
    case 2
    then show ?thesis using wd_create_empty [OF rep [unfolded 2(1)] 2(2)] rep by auto
  next
    case 3
    have b': "blk = NULL \<or> wdogs s blk = None \<and> length (parm cont) = CONFIG_MAX_WDOGPARMS" using b by simp
    obtain s1 where s1: "wd_create blk cont s = Some (blk, s1)" "wd_rep s1 xs fr" "wframe s s1"
        "blk \<noteq> NULL \<longrightarrow> wdogs s1 = (wdogs s)(blk \<mapsto> cont\<lparr>wdflags := WDOGF_ALLOCED\<rparr>)"
      using wd_create_heap [OF rep 3 b'] by blast
    have n: "blk \<notin> fst ` set xs" "blk \<notin> set fr"
      using wd_lags_some [OF wd_repD(4) [OF rep], of blk] wd_repD(8) [OF rep] b(1) by (auto simp: pooled_def)
    have "\<exists>s2 fr2. wd_delete blk s1 = Some (0, s2) \<and> wd_rep s2 xs fr2 \<and> mset fr2 = mset fr \<and> dom (wdogs s2) = dom (wdogs s)"
      if nz: "blk \<noteq> NULL"
    proof -
      have w: "wdogs s1 blk = Some (cont\<lparr>wdflags := WDOGF_ALLOCED\<rparr>)" using s1(4) nz by simp
      have "WDOG_ISALLOCED (cont\<lparr>wdflags := WDOGF_ALLOCED\<rparr>)" by (simp add: wdog_flags)
      moreover have "dom (wdogs s1) - {blk} = dom (wdogs s)" using s1(4) nz b(1) by auto
      ultimately show ?thesis
        using wd_delete_spec [OF s1(2) w n(2)] by (auto simp: drop_timer_id [OF n(1)])
    qed
    with s1 n 3 show ?thesis
      by (intro exI [of _ blk] exI [of _ s1] exI [of _ fr]) auto
  qed
qed

theorem wd_create_delete_witness:
  "\<exists>s1 s2 fr2. wd_create 400 (demo_wdog 0 0) demo_wd = Some (203, s1) \<and> wd_delete 203 s1 = Some (0, s2) \<and>
     wd_rep s2 [(201, 3), (202, 7)] fr2 \<and> mset fr2 = mset [203, 204, 205]"
proof -
  have "wdogs demo_wd 400 = None" "length (parm (demo_wdog 0 0)) = CONFIG_MAX_WDOGPARMS"
    by (simp_all add: demo_wd_def demo_wdog_def CONFIG_MAX_WDOGPARMS_def)
  from wd_create_delete [OF demo_wd_rep this] obtain p s1 where
    c: "wd_create 400 (demo_wdog 0 0) demo_wd = Some (p, s1)"
    "p \<noteq> NULL \<longrightarrow> (\<exists>s2 fr2. wd_delete p s1 = Some (0, s2) \<and> wd_rep s2 [(201, 3), (202, 7)] fr2 \<and>
       mset fr2 = mset [203, 204, 205])" by blast
  have "map_option fst (wd_create 400 (demo_wdog 0 0) demo_wd) = Some 203" by code_simp
  with c show ?thesis by auto
qed

text \<open>
  C19. The timer interrupt always returns: the functions of expired watchdogs may start, restart
  and cancel any watchdogs, in any number and with any delay, also themselves with delay
  zero, and still the loop that runs them ends, because \<^verbatim>\<open>wd_start\<close> never lets a watchdog
  expire before the next tick. Afterwards every active watchdog has at least one tick to go.
  The watchdogs that a function names must exist, those it starts must not be free, and what
  else the function does must terminate and leave the watchdogs alone. In the example the
  statically allocated watchdog 206 runs a function that restarts it with delay zero.
\<close>

theorem wd_timer_terminates:
  assumes c: "wd_passive call ok I"
    and a: "\<And>f args s xs fr. ok f args \<Longrightarrow> I s \<Longrightarrow> wd_rep s xs fr \<Longrightarrow> \<forall>a \<in> set (prog f args s). act_ok ok (dom (wdogs s)) fr a"
    and rep: "wd_rep s xs fr" and I: "I s" "wd_funcs_ok ok s" and q: "\<forall>x \<in> set xs. 1 \<le> snd x"
  shows "\<exists>ps s' xs' fr'. wd_timer (active_call call prog) s = Some (ps, s') \<and> I s' \<and> wd_rep s' xs' fr' \<and> (\<forall>x \<in> set xs'. 1 \<le> snd x)"
proof -
  have cb: "wd_callbacks (active_call call prog) ok I" by (rule active_callbacks [OF c]) (rule a)
  have "expired xs = []" using q by (force simp: filter_empty_conv)
  from wd_callbacks.timer_terminates [OF cb rep I this] obtain ps s' xs' fr' where
    "wd_timer (active_call call prog) s = Some (ps, s')" "I s'" "wd_rep s' xs' fr'" "expired xs' = []" by blast
  then show ?thesis by (force simp: filter_empty_conv)
qed

theorem wd_timer_terminates_witness:
  "\<exists>s1 s' xs' fr'. wd_start 206 0 300 1 [4] demo_wd = Some (0, s1) \<and>
     wd_timer (active_call (kernel_call 300) demo_restart) s1 = Some ([206], s') \<and> timed s' \<and> wd_rep s' xs' fr' \<and>
     (\<forall>x \<in> set xs'. 1 \<le> snd x)"
proof -
  have o: "wdogs demo_wd 206 = Some (demo_wdog 0 4)" "206 \<notin> set [203, 204, 205 :: addr]" by (simp_all add: demo_wd_def)
  obtain s1 where s1: "wd_start 206 0 300 1 [4] demo_wd = Some (0, s1)" "wframe demo_wd s1" "wd_funcs_ok (kernel_ok 300) s1"
      "wd_rep s1 (insert_timer 206 1 (drop_timer 206 [(201, 3), (202, 7)])) [203, 204, 205]"
    using wd_start_ready [where ok = "kernel_ok 300", OF demo_wd_rep demo_wd_ok(2) _ o, of 0 "[4]" 300]
    by (auto simp: CONFIG_MAX_WDOGPARMS_def kernel_ok_def)
  have a: "\<forall>a \<in> set (demo_restart f args s). act_ok (kernel_ok 300) (dom (wdogs s)) fr a"
    if "wd_rep s xs fr" for f args xs fr and s :: wdstate
    using wd_repD(8) [OF that]
    by (cases "wdogs s 206") (auto simp: demo_restart_def pooled_def kernel_ok_def CONFIG_MAX_WDOGPARMS_def)
  have "\<forall>x \<in> set (insert_timer 206 1 (drop_timer 206 [(201, 3), (202, 7)])). (1 :: int) \<le> snd x" by auto
  then have "\<exists>ps s' xs' fr'. wd_timer (active_call (kernel_call 300) demo_restart) s1 = Some (ps, s') \<and> timed s' \<and>
      wd_rep s' xs' fr' \<and> (\<forall>x \<in> set xs'. 1 \<le> snd x)"
    by (intro wd_timer_terminates [OF kernel_passive [of 300] a s1(4) timed_frame [OF s1(2) demo_wd_ok(1)] s1(3)])
  then obtain ps s' xs' fr' where s': "wd_timer (active_call (kernel_call 300) demo_restart) s1 = Some (ps, s')" "timed s'"
    "wd_rep s' xs' fr'" "\<forall>x \<in> set xs'. 1 \<le> snd x" by blast
  have "do { (_, s) \<leftarrow> wd_start 206 0 300 1 [4] demo_wd; (ps, _) \<leftarrow> wd_timer (active_call (kernel_call 300) demo_restart) s; Some ps } =
      Some [206]" by code_simp
  with s1(1) s' show ?thesis by auto
qed

text \<open>
  C18. One timer interrupt runs exactly the watchdogs whose remaining time is one tick, those
  with the same time in the order in which they were started, and takes one tick from the
  remaining time of every other one, provided the functions they run do not use watchdogs
  themselves.
\<close>

theorem wd_timer_correct:
  assumes c: "wd_passive call ok I" and rep: "wd_rep s xs fr" and I: "I s" "wd_funcs_ok ok s"
    and q: "\<forall>x \<in> set xs. 1 \<le> snd x"
  shows "\<exists>s'. wd_timer call s = Some (map fst (filter (\<lambda>x. snd x = 1) xs), s') \<and> I s' \<and>
     wd_rep s' (tick (filter (\<lambda>x. 1 < snd x) xs)) fr \<and>
     (\<forall>p. wd_gettime p s' = map_option (\<lambda>t. max 0 (t - 1)) (wd_gettime p s))"
proof -
  have e: "expired xs = []" using q by (force simp: filter_empty_conv)
  from wd_passive.timer_exact [OF c rep I e] obtain s' where
    s': "wd_timer call s = Some (map fst (filter (\<lambda>x. snd x = 1) xs), s')" "I s'"
       "wd_rep s' (tick (filter (\<lambda>x. 1 < snd x) xs)) fr"
       "wd_kept (fst ` set (filter (\<lambda>x. snd x = 1) xs)) (wdogs s) (wdogs s')" by blast
  have k: "wdogs s' p = None \<longleftrightarrow> wdogs s p = None" for p using wd_keptD(1) [OF s'(4)] .
  have "wd_gettime p s' = map_option (\<lambda>t. max 0 (t - 1)) (wd_gettime p s)" for p
    using k [of p] time_of_tick [OF wd_repD(7) [OF rep] e, of p]
    by (cases "wdogs s p"; cases "wdogs s' p") (simp_all add: wd_gettime_time [OF rep] wd_gettime_time [OF s'(3)])
  with s' show ?thesis by blast
qed

theorem wd_timer_correct_witness:
  "\<exists>s'. wd_timer (kernel_call 300) demo_wd = Some ([], s') \<and> timed s' \<and>
     wd_rep s' [(201, 2), (202, 6)] [203, 204, 205] \<and> wd_gettime 202 s' = Some 6"
proof -
  have "wd_gettime 202 demo_wd = Some 7" by (simp add: wd_gettime_spec(1) [OF demo_wd_rep])
  then show ?thesis using wd_timer_correct [OF kernel_passive [of 300] demo_wd_rep demo_wd_ok] by auto
qed

text \<open>
  C17. A watchdog fires, and fires on time: after \<^verbatim>\<open>wd_start\<close> with a delay, the following ticks run
  the watchdog exactly once, in the tick with number delay plus one, provided that nobody
  starts or cancels watchdogs meanwhile: nothing but ticks happens, and the functions that
  expired watchdogs run, of this and of other watchdogs, do not use watchdogs themselves. (A
  function that restarts its own watchdog would make it fire again.)
\<close>

theorem wd_start_fires:
  assumes c: "wd_passive call ok I" and rep: "wd_rep s xs fr" and I: "I s" "wd_funcs_ok ok s"
    and q: "\<forall>x \<in> set xs. 1 \<le> snd x"
    and p: "wdogs s p \<noteq> None" "p \<notin> set fr" and d: "delay + 1 < 2 ^ 31"
    and a: "length args \<le> CONFIG_MAX_WDOGPARMS" "ok f args"
    and n: "delay < n"
  shows "\<exists>s1 pss s'. wd_start p (int delay) f (int (length args)) args s = Some (0, s1) \<and>
     wd_ticks call n s1 = Some (pss, s') \<and> length pss = n \<and>
     (\<forall>k < n. count_list (pss ! k) p = (if k = delay then 1 else 0))"
proof -
  obtain w where w: "wdogs s p = Some w" using p(1) by blast
  let ?d = "int delay + 1" and ?ys = "drop_timer p xs"
  obtain s1 where s1: "wd_start p (int delay) f (int (length args)) args s = Some (0, s1)"
      "wd_rep s1 (insert_timer p ?d ?ys) fr" "wframe s s1" "wd_funcs_ok ok s1" "expired (insert_timer p ?d ?ys) = []"
    using wd_start_ready [where ok = ok, OF rep I(2) q w p(2) d a] by blast
  have I1: "I s1" using wd_passive.inv_frame [OF c s1(3) I(1)] .
  have cnt: "count_list (map fst (filter (\<lambda>x. snd x = t) (insert_timer p ?d ?ys))) p = (if t = ?d then 1 else 0)" for t
    by (rule count_insert_timer) auto
  from wd_passive.ticks_exact [OF c s1(2) I1 s1(4,5), of n] s1(1) show ?thesis
    by (auto simp: cnt)
qed

theorem wd_start_fires_witness:
  "\<exists>s1 pss s'. wd_start 206 2 300 1 [4] demo_wd = Some (0, s1) \<and> wd_ticks (kernel_call 300) 5 s1 = Some (pss, s') \<and>
     count_list (pss ! 2) 206 = 1 \<and> count_list (pss ! 1) 206 = 0"
proof -
  have "wdogs demo_wd 206 \<noteq> None" "206 \<notin> set [203, 204, 205 :: addr]" by (simp_all add: demo_wd_def)
  from wd_start_fires [OF kernel_passive [of 300] demo_wd_rep demo_wd_ok _ this, of 2 "[4]" 300 5] show ?thesis
    by (auto simp: CONFIG_MAX_WDOGPARMS_def kernel_ok_def)
qed

end
