(* ===== verification/Ticks.thy ===== *)
theory Ticks
  imports WdogThms
begin

text \<open>
  The timer interrupt as a whole, \<^verbatim>\<open>sched_process_timer\<close>, and the timed wait for a semaphore that
  depends on it, \<^verbatim>\<open>nxsem_tickwait\<close>. The properties span the scheduler, the semaphores, the
  watchdogs and the clock: a timed wait ends on time.
\<close>

section \<open>The timer interrupt\<close>

definition clock_timer :: "'a wdstate_scheme \<Rightarrow> 'a wdstate_scheme" where
  "clock_timer s = s\<lparr>g_system_timer := g_system_timer s + 1\<rparr>"

definition clock_systimer :: "'a wdstate_scheme \<Rightarrow> 32 word" where
  "clock_systimer s = g_system_timer s"

definition sched_process_timer :: "'a wcall \<Rightarrow> ('a, addr list) wop" where
  "sched_process_timer call s = do {
     s \<leftarrow> sched_cpu_scheduler (clock_timer s);
     wd_timer call s
   }"

fun process_timers :: "'a wcall \<Rightarrow> nat \<Rightarrow> 'a wproc" where
  "process_timers call 0 s = Some s"
| "process_timers call (Suc n) s = do { (_, s) \<leftarrow> sched_process_timer call s; process_timers call n s }"

section \<open>The timed wait\<close>

definition ENOMEM :: int where "ENOMEM = 12"

definition getpid :: "'a kstate_scheme \<Rightarrow> int option" where
  "getpid s = (if this_task s \<noteq> NULL then do { r \<leftarrow> get_tcb s (this_task s); Some (pid r) } else Some 0)"

text \<open>The common exit.\<close>

definition nxsem_tickwait_exit :: "addr \<Rightarrow> int \<Rightarrow> ('a, int) wop" where
  "nxsem_tickwait_exit rtcb ret s = do {
     r \<leftarrow> get_tcb s rtcb;
     (_, s) \<leftarrow> wd_delete (waitdog r) s;
     s \<leftarrow> upd_tcb rtcb (\<lambda>t. t\<lparr>waitdog := NULL\<rparr>) s;
     Some (ret, s)
   }"

text \<open>What follows the return of \<^verbatim>\<open>nxsem_wait\<close>.\<close>

definition nxsem_tickwait_waited :: "addr \<Rightarrow> int \<Rightarrow> ('a, int) wop" where
  "nxsem_tickwait_waited rtcb ret s =
     (if ret < 0 then nxsem_tickwait_exit rtcb ret s
      else do {
        r \<leftarrow> get_tcb s rtcb;
        (_, s) \<leftarrow> wd_cancel (waitdog r) s;
        nxsem_tickwait_exit rtcb ret s
      })"

text \<open>
  The first arguments are the address of \<^verbatim>\<open>nxsem_timeout\<close> and what the kernel heap returns. A
  caller that is switched out continues with \<open>nxsem_tickwait_resume\<close>.
\<close>

definition nxsem_tickwait :: "addr \<Rightarrow> addr \<Rightarrow> wdog_s \<Rightarrow> addr \<Rightarrow> 32 word \<Rightarrow> 32 word \<Rightarrow> ('a, wait_result) wop" where
  "nxsem_tickwait nxsem_timeout_p blk cont sem start delay s = do {
     let rtcb = this_task s;
     r \<leftarrow> get_tcb s rtcb;
     debugassert s (sem \<noteq> NULL \<and> \<not> up_interrupt_context s \<and> waitdog r = NULL);
     (wd, s) \<leftarrow> wd_create blk cont s;
     s \<leftarrow> upd_tcb rtcb (\<lambda>t. t\<lparr>waitdog := wd\<rparr>) s;
     if wd = NULL then Some (Returned (- ENOMEM), s)
     else do {
       (ret, s) \<leftarrow> nxsem_trywait sem s;
       let elapsed = clock_systimer s - start;
       if ret = 0 then do { (ret, s) \<leftarrow> nxsem_tickwait_exit rtcb ret s; Some (Returned ret, s) }
       else if delay = 0 then do { (ret, s) \<leftarrow> nxsem_tickwait_exit rtcb ret s; Some (Returned ret, s) }
       else if elapsed \<ge> delay
       then do { (ret, s) \<leftarrow> nxsem_tickwait_exit rtcb (- ETIMEDOUT) s; Some (Returned ret, s) }
       else do {
         p \<leftarrow> getpid s;
         r \<leftarrow> get_tcb s rtcb;
         (_, s) \<leftarrow> wd_start (waitdog r) (sint (delay - elapsed)) nxsem_timeout_p 1 [word_of_int p] s;
         (ret, s) \<leftarrow> nxsem_wait sem s;
         case ret of
           Switched saved_errno \<Rightarrow> Some (Switched saved_errno, s)
         | Returned ret \<Rightarrow> do { (ret, s) \<leftarrow> nxsem_tickwait_waited rtcb ret s; Some (Returned ret, s) }
       }
     }
   }"

definition nxsem_tickwait_resume :: "addr \<Rightarrow> int \<Rightarrow> ('a, int) wop" where
  "nxsem_tickwait_resume rtcb saved_errno s = do {
     (ret, s) \<leftarrow> nxsem_wait_resume rtcb saved_errno s;
     nxsem_tickwait_waited rtcb ret s
   }"

section \<open>What a tick keeps\<close>

lemma listed_ready_all: "listed a \<subseteq> listed (snd (a_ready_all ps b a)) \<and> set ps \<subseteq> listed (snd (a_ready_all ps b a))"
proof (induction ps arbitrary: b a)
  case (Cons p ps)
  have "listed (snd (a_ready p a)) = insert p (listed a)" by (simp add: a_ready_def)
  with Cons.IH [of "snd (a_ready p a)" "b \<or> fst (a_ready p a)"] show ?case by (auto simp: case_prod_beta)
qed simp

lemma listed_mergepending: "listed a \<subseteq> listed (snd (a_mergepending a))"
proof -
  have "listed a \<subseteq> listed (a_set_list g_pendingtasks [] a) \<union> set (a_list a g_pendingtasks)"
    by (auto simp: listed_set_list) (auto simp: listed_def)
  then show ?thesis
    using listed_ready_all [of "a_set_list g_pendingtasks [] a" "a_list a g_pendingtasks" False] by (auto simp: a_mergepending_def)
qed

lemma listed_removereadytorun: "insert t (listed (snd (a_removereadytorun t a))) \<supseteq> listed a"
  using listed_remove by (auto simp: a_removereadytorun_def Let_def)

lemma listed_reprioritize: "listed a \<subseteq> listed (snd (a_reprioritize t p a))"
proof -
  let ?a2 = "a_addreadytorun t (a_set_prio t p (snd (a_removereadytorun t a)))"
  have "listed a \<subseteq> listed (snd ?a2)" using listed_removereadytorun [of a t] by (simp add: a_set_prio_def)
  also have "\<dots> \<subseteq> listed (snd (a_reprioritize t p a))"
    using listed_mergepending [of "snd ?a2"]
    by (simp add: a_reprioritize_def case_prod_beta Let_def del: listed_addreadytorun)
  finally show ?thesis .
qed

lemma listed_cpu_scheduler: "listed a \<subseteq> listed (a_cpu_scheduler a)"
  using listed_reprioritize [of "a_slice (a_running a) RR_TICKS a" "a_running a" "a_prio a (a_running a)"]
  by (auto simp: a_cpu_scheduler_def a_roundrobin_def Let_def a_slice_def)

text \<open>The time slices are in range, and the idle task is not scheduled round robin.\<close>

definition a_sliced :: "asched \<Rightarrow> bool" where
  "a_sliced a \<longleftrightarrow> (\<forall>t. a_live a t \<longrightarrow> 0 \<le> timeslice (a_tcb a t) \<and> timeslice (a_tcb a t) < 2 ^ 31) \<and>
     and (tcb_flags (a_tcb a (a_idle a))) TCB_FLAG_POLICY_MASK \<noteq> TCB_FLAG_SCHED_RR"

lemma a_cpu_scheduler_idle: "a_sliced a \<Longrightarrow> a_running a = a_idle a \<Longrightarrow> a_cpu_scheduler a = a"
  by (simp add: a_sliced_def a_cpu_scheduler_def)

lemma a_cpu_scheduler_idle_kept:
  assumes i: "a_inv a" and ni: "a_running a \<noteq> a_idle a"
  shows "a_idle (a_cpu_scheduler a) = a_idle a"
proof -
  have c: "a_core a" using i by (simp add: a_inv_def)
  have tin: "a_running a \<in> set (a_list a g_readytorun)" using a_core_running [OF c] .
  show ?thesis
    using a_reprioritize_ok(2) [OF a_inv_slice [OF i tin, of RR_TICKS], of "a_running a" "a_prio a (a_running a)"]
      tin ni a_core_prio_ge1 [OF c tin ni]
    by (simp add: a_cpu_scheduler_def a_roundrobin_def Let_def)
qed

lemma a_sliced_cpu_scheduler:
  assumes i: "a_inv a" and sl: "a_sliced a"
  shows "a_sliced (a_cpu_scheduler a)"
proof (cases "a_running a = a_idle a")
  case True
  with a_cpu_scheduler_idle [OF sl] sl show ?thesis by simp
next
  case False
  have c: "a_core a" using i by (simp add: a_inv_def)
  let ?t = "a_running a"
  have tin: "?t \<in> set (a_list a g_readytorun)" using a_core_running [OF c] .
  have lv: "a_live a ?t" using a_core_live [OF c tin] .
  note si = a_inv_slice [OF i tin]
  have sl1: "a_live a x \<Longrightarrow> timeslice (a_tcb (a_slice ?t n a) x) = (if x = ?t then n else timeslice (a_tcb a x))" for x n
    using a_slice_fields(3) [OF lv] by (auto simp: a_slice_def a_upd_def a_tcb_def)
  have rp: "timeslice (a_tcb (snd (a_reprioritize ?t (a_prio a ?t) (a_slice ?t RR_TICKS a))) x) \<in>
      {RR_TICKS, timeslice (a_tcb (a_slice ?t RR_TICKS a) x)}" if "a_live a x" for x
    using a_reprioritize_slices [OF si, of ?t] tin False a_core_prio_ge1 [OF c tin False] that
    by (simp add: a_slices_def)
  have lives: "a_live (a_cpu_scheduler a) = a_live a"
    using others_kept_cpu_scheduler [OF i False, of waitsem] by (simp add: others_kept_def)
  have ts: "0 \<le> timeslice (a_tcb a ?t)" "timeslice (a_tcb a ?t) < 2 ^ 31" using sl lv by (auto simp: a_sliced_def)
  have rr: "0 \<le> RR_TICKS" "RR_TICKS < 2 ^ 31" by (simp_all add: RR_TICKS_def)
  have "0 \<le> timeslice (a_tcb (a_cpu_scheduler a) x) \<and> timeslice (a_tcb (a_cpu_scheduler a) x) < 2 ^ 31" if x: "a_live a x" for x
  proof -
    have "timeslice (a_tcb (a_cpu_scheduler a) x) \<in>
        {timeslice (a_tcb a x), RR_TICKS, timeslice (a_tcb a ?t) - min (timeslice (a_tcb a ?t)) 1}"
      using rp [OF x] sl1 [OF x] by (auto simp: a_cpu_scheduler_def a_roundrobin_def Let_def)
    moreover have "0 \<le> timeslice (a_tcb a x) \<and> timeslice (a_tcb a x) < 2 ^ 31" using sl x by (simp add: a_sliced_def)
    ultimately show ?thesis using ts rr by auto
  qed
  moreover have "a_live a (a_idle a)" using a_core_live [OF c a_core_idle [OF c]] .
  then have "tcb_flags (a_tcb (a_cpu_scheduler a) (a_idle a)) = tcb_flags (a_tcb a (a_idle a))"
    using others_kept_cpu_scheduler [OF i False, of tcb_flags] by (simp add: others_kept_def)
  ultimately show ?thesis using sl lives a_cpu_scheduler_idle_kept [OF i False] by (simp add: a_sliced_def)
qed

lemma a_timeout_field:
  assumes i: "a_inv a" and F: "sched_field F" and x: "a_live a x"
  shows "F (a_tcb (a_timeout w a) x) =
     F (a_tcb (if w \<in> set (waitlist a) then a_upd w (\<lambda>t. t\<lparr>waitsem := NULL, pterrno := ETIMEDOUT\<rparr>) a else a) x)"
proof (cases "w \<in> set (waitlist a)")
  case True
  let ?a = "a_upd w (\<lambda>t. t\<lparr>waitsem := NULL, pterrno := ETIMEDOUT\<rparr>) a"
  have "a_live a w" using a_core_live [OF _ True] i by (simp add: a_inv_def)
  then have "a_inv ?a" by (rule a_inv_upd_other [OF i _ _ _ _ True]) simp_all
  then have "a_core ?a" by (simp add: a_inv_def)
  from a_unblock_field [OF this F, of x] x True show ?thesis by (simp add: a_timeout_def)
qed (simp add: a_timeout_def)

lemma a_timeout_keeps:
  assumes i: "a_inv a"
  shows "a_live (a_timeout w a) = a_live a" "waitlist (a_timeout w a) = remove1 w (waitlist a)"
    "a_idle (a_timeout w a) = a_idle a"
    and "sched_field F \<Longrightarrow> (\<And>x. F (x\<lparr>waitsem := NULL, pterrno := ETIMEDOUT\<rparr>) = F x) \<Longrightarrow> a_live a x \<Longrightarrow>
      F (a_tcb (a_timeout w a) x) = F (a_tcb a x)"
    and "a_live a x \<Longrightarrow> waitsem (a_tcb (a_timeout w a) x) =
      (if x = w \<and> w \<in> set (waitlist a) then NULL else waitsem (a_tcb a x))"
    and "a_live a x \<Longrightarrow> pterrno (a_tcb (a_timeout w a) x) =
      (if x = w \<and> w \<in> set (waitlist a) then ETIMEDOUT else pterrno (a_tcb a x))"
proof -
  let ?f = "\<lambda>t. t\<lparr>waitsem := NULL, pterrno := ETIMEDOUT\<rparr>"
  have f: "wake_field ?f" by (simp add: wake_field_def)
  note fld = a_timeout_field [OF i, where w = w]
  have up: "a_live a x \<Longrightarrow> a_tcb (a_upd w ?f a) x = (if x = w then ?f (a_tcb a x) else a_tcb a x)" for x
    by (auto simp: a_tcb_def a_upd_def a_live_def)
  show "sched_field F \<Longrightarrow> (\<And>x. F (?f x) = F x) \<Longrightarrow> a_live a x \<Longrightarrow> F (a_tcb (a_timeout w a) x) = F (a_tcb a x)"
    using fld [of F x] up [of x] by simp
  show "a_live a x \<Longrightarrow> waitsem (a_tcb (a_timeout w a) x) =
      (if x = w \<and> w \<in> set (waitlist a) then NULL else waitsem (a_tcb a x))"
    using fld [of waitsem x] up [of x] by (cases "x = w") simp_all
  show "a_live a x \<Longrightarrow> pterrno (a_tcb (a_timeout w a) x) =
      (if x = w \<and> w \<in> set (waitlist a) then ETIMEDOUT else pterrno (a_tcb a x))"
    using fld [of pterrno x] up [of x] by (cases "x = w") simp_all
  show "a_live (a_timeout w a) = a_live a" "waitlist (a_timeout w a) = remove1 w (waitlist a)" "a_idle (a_timeout w a) = a_idle a"
    using a_wake_ok(2,3,4) [OF i _ f, of w] by (auto simp: a_timeout_def fun_eq_iff remove1_idem)
qed

text \<open>
  A task in a timed wait: it waits for the semaphore, or its wait has been ended by the
  timeout. Its watchdog is \<open>wd\<close>.
\<close>

definition ending :: "addr \<Rightarrow> addr \<Rightarrow> asched \<Rightarrow> bool" where
  "ending t p a \<longleftrightarrow> t \<in> set (waitlist a) \<and> waitsem (a_tcb a t) = p \<or>
     t \<notin> set (waitlist a) \<and> pterrno (a_tcb a t) = ETIMEDOUT"

definition ticking :: "addr \<Rightarrow> addr \<Rightarrow> addr \<Rightarrow> 'a semstate_scheme \<Rightarrow> bool" where
  "ticking t p wd s \<longleftrightarrow> (\<exists>a. refines s a \<and> sem_inv a (sems s) \<and> a_timed a (g_pidhash s) \<and> a_sliced a \<and>
     a_live a t \<and> ending t p a \<and> waitdog (a_tcb a t) = wd)"

definition timed_out :: "addr \<Rightarrow> 'a semstate_scheme \<Rightarrow> bool" where
  "timed_out t s \<longleftrightarrow> (\<exists>a. refines s a \<and> a_inv a \<and> a_live a t \<and> t \<notin> set (waitlist a) \<and> pterrno (a_tcb a t) = ETIMEDOUT)"

lemma a_timeout_ending:
  assumes i: "a_inv a" and e: "ending t p a" "a_live a t"
  shows "ending t p (a_timeout w a)" "waitdog (a_tcb (a_timeout w a) t) = waitdog (a_tcb a t)"
    and "t \<notin> set (waitlist (a_timeout t a)) \<and> pterrno (a_tcb (a_timeout t a) t) = ETIMEDOUT"
proof -
  note k = a_timeout_keeps [OF i]
  have d: "distinct (waitlist a)" using i by (simp add: a_inv_def a_core_def)
  show "waitdog (a_tcb (a_timeout w a) t) = waitdog (a_tcb a t)" by (rule k(4) [OF _ _ e(2)]) simp_all
  show "ending t p (a_timeout w a)"
    using e k(2,5,6) d by (auto simp: ending_def dest: notin_set_remove1)
  show "t \<notin> set (waitlist (a_timeout t a)) \<and> pterrno (a_tcb (a_timeout t a) t) = ETIMEDOUT"
    using e k(2,6) d by (auto simp: ending_def dest: notin_set_remove1)
qed

text \<open>A switch gives a legal time slice to the task it switches to.\<close>

lemma a_sliced_switch:
  assumes s: "a_sliced a" and b: "a_slices sw a b" "a_live b = a_live a" "a_idle b = a_idle a"
    and f: "tcb_flags (a_tcb b (a_idle a)) = tcb_flags (a_tcb a (a_idle a))"
  shows "a_sliced b"
  using s b f by (auto simp: a_sliced_def a_slices_def RR_TICKS_def)

lemma a_timeout_slices: "a_inv a \<Longrightarrow> \<exists>sw. a_slices sw a (a_timeout w a)"
proof (cases "w \<in> set (waitlist a)")
  case True
  assume i: "a_inv a"
  let ?a = "a_upd w (\<lambda>t. t\<lparr>waitsem := NULL, pterrno := ETIMEDOUT\<rparr>) a"
  have lv: "a_live a w" using a_core_live [OF _ True] i by (simp add: a_inv_def)
  then have "a_inv ?a" by (rule a_inv_upd_other [OF i _ _ _ _ True]) simp_all
  then have "a_core ?a" by (simp add: a_inv_def)
  from a_unblock_slices [OF this, of w g_waitingforsemaphore] True lv show ?thesis
    by (auto simp: a_timeout_def a_slices_def)
qed (auto simp: a_timeout_def a_slices_def)

lemma a_timeout_sliced:
  assumes i: "a_inv a" and s: "a_sliced a"
  shows "a_sliced (a_timeout w a)"
proof -
  note k = a_timeout_keeps [OF i]
  have "a_live a (a_idle a)" using i a_core_live a_core_idle by (auto simp: a_inv_def)
  then have "tcb_flags (a_tcb (a_timeout w a) (a_idle a)) = tcb_flags (a_tcb a (a_idle a))" by (intro k(4)) simp_all
  then show ?thesis using a_sliced_switch [OF s] a_timeout_slices [OF i] k(1,3) by blast
qed

lemma nxsem_timeout_ticking:
  assumes "ticking t p wd s"
  shows "\<exists>s'. nxsem_timeout n s = Some s' \<and> ticking t p wd s' \<and> sframe s s' \<and>
     (timed_out t s \<longrightarrow> timed_out t s') \<and> (sched_gettcb s (s16 n) = t \<longrightarrow> timed_out t s') \<and>
     (waits_for s p t \<longrightarrow> sched_gettcb s (s16 n) \<noteq> t \<longrightarrow> waits_for s' p t)"
proof -
  obtain a where a: "refines s a" "sem_inv a (sems s)" "a_timed a (g_pidhash s)" "a_sliced a" "a_live a t"
    "ending t p a" "waitdog (a_tcb a t) = wd" using assms by (auto simp: ticking_def)
  let ?w = "sched_gettcb s (s16 n)"
  have i: "a_inv a" using sem_invD(1) [OF a(2)] .
  obtain s' where s': "nxsem_timeout n s = Some s'" "refines s' (a_timeout ?w a)" "sem_inv (a_timeout ?w a) (sems s')"
     "a_timed (a_timeout ?w a) (g_pidhash s')" "sframe s s'"
    using nxsem_timeout_refines [OF a(1-3), of n] by blast
  note k = a_timeout_keeps [OF i] and e = a_timeout_ending [OF i a(6,5)]
  have "ticking t p wd s'" unfolding ticking_def
    using s' e(1,2) a_timeout_sliced [OF i a(4)] a(5,7) k(1) by (intro exI [of _ "a_timeout ?w a"]) simp
  moreover have "timed_out t s'" if "timed_out t s"
  proof -
    have "t \<notin> set (waitlist a)" "pterrno (a_tcb a t) = ETIMEDOUT"
      using that refines_unique [OF a(1)] by (auto simp: timed_out_def)
    then have "t \<notin> set (waitlist (a_timeout ?w a))" "pterrno (a_tcb (a_timeout ?w a) t) = ETIMEDOUT"
      using k(2,6) a(5) by (auto dest: notin_set_remove1)
    with s'(2) k(1) a(5) sem_invD(1) [OF s'(3)] show ?thesis by (auto simp: timed_out_def)
  qed
  moreover have "timed_out t s'" if "?w = t"
    using that e(3) s'(2) k(1) a(5) sem_invD(1) [OF s'(3)] by (auto simp: timed_out_def)
  moreover have "waits_for s' p t" if "waits_for s p t" "?w \<noteq> t"
  proof -
    have wf: "waits_for s p t \<longleftrightarrow> t \<in> set (waiters a p)" "waits_for s' p t \<longleftrightarrow> t \<in> set (waiters (a_timeout ?w a) p)"
      using waits_for_waiters [of s a "sems s"] waits_for_waiters [of s' "a_timeout ?w a" "sems s'"] a(1,2) s'(2,3)
      by (simp_all add: srefines_def)
    show ?thesis using that k(2) k(5) [OF a(5)] unfolding wf by (simp add: waiters_def)
  qed
  ultimately show ?thesis using s'(1,5) by blast
qed

lemma ticking_frame: "wframe s s' \<Longrightarrow> ticking t p wd s \<Longrightarrow> ticking t p wd s'"
  by (simp add: ticking_def wframe_def refines_def)

lemma timed_out_frame: "wframe s s' \<Longrightarrow> timed_out t s \<Longrightarrow> timed_out t s'"
  by (simp add: timed_out_def wframe_def refines_def)

lemma waits_for_frame: "wframe s s' \<Longrightarrow> waits_for s p t \<Longrightarrow> waits_for s' p t"
  by (simp add: waits_for_def in_list_def wframe_def)

text \<open>A fixed table of process identifiers is part of the condition.\<close>

interpretation tk: wd_passive "kernel_call tp" "kernel_ok tp" "\<lambda>s. ticking t p wd s \<and> g_pidhash s = pids"
  for tp t p wd pids
proof
  fix s s' :: "'a wdstate_scheme"
  assume a: "wframe s s'" "ticking t p wd s \<and> g_pidhash s = pids"
  have "g_pidhash s' = g_pidhash s" using a(1) by (simp add: wframe_def)
  then show "ticking t p wd s' \<and> g_pidhash s' = pids" using a(2) ticking_frame [OF a(1)] by simp
next
  fix f args and s :: "'a wdstate_scheme"
  assume a: "kernel_ok tp f args" "ticking t p wd s \<and> g_pidhash s = pids"
  then obtain arg where args: "args = [arg]" "f = tp" by (auto simp: kernel_ok_def length_Suc_conv)
  obtain s' where "nxsem_timeout (uint arg) s = Some s'" "ticking t p wd s'" "sframe s s'"
    using nxsem_timeout_ticking [OF conjunct1 [OF a(2)], of "uint arg"] by blast
  then show "\<exists>s'. kernel_call tp f args s = Some s' \<and> (ticking t p wd s' \<and> g_pidhash s' = pids) \<and> wd_part s' = wd_part s"
    using sframe_wd_part a(2) by (auto simp: kernel_call_def args sframe_def)
qed

section \<open>One timer interrupt\<close>

lemma cpu_scheduler_refines:
  assumes r: "refines s a" and i: "a_inv a" and sl: "a_sliced a"
  shows "\<exists>s'. sched_cpu_scheduler s = Some s' \<and> refines s' (a_cpu_scheduler a) \<and> kframe s s'"
    "a_inv (a_cpu_scheduler a)" "api_field F \<Longrightarrow> others_kept F a (a_cpu_scheduler a)"
proof -
  have lv: "a_live a (a_running a)" using i a_core_running_live by (simp add: a_inv_def)
  show "\<exists>s'. sched_cpu_scheduler s = Some s' \<and> refines s' (a_cpu_scheduler a) \<and> kframe s s'"
  proof (cases "a_running a = a_idle a")
    case True
    have "sched_cpu_scheduler s = Some s"
      using refines_get_tcb [OF r lv] refines_running [OF r] sl True
      by (simp add: sched_cpu_scheduler_def a_sliced_def Let_def)
    then show ?thesis using r a_cpu_scheduler_idle [OF sl True] by (simp add: kframe_def)
  next
    case False
    then show ?thesis using sched_cpu_scheduler_refines [OF r i False] sl lv by (simp add: a_sliced_def)
  qed
  show "a_inv (a_cpu_scheduler a)"
    using a_cpu_scheduler_idle [OF sl] i a_inv_cpu_scheduler [OF i] by (cases "a_running a = a_idle a") simp_all
  show "api_field F \<Longrightarrow> others_kept F a (a_cpu_scheduler a)"
    using a_cpu_scheduler_idle [OF sl] others_kept_cpu_scheduler [OF i] by (cases "a_running a = a_idle a") simp_all
qed

lemma others_waitlist: "others_kept F a b \<Longrightarrow> set (waitlist b) = set (waitlist a)"
  using mset_eq_setD [of "waitlist b" "waitlist a"] by (simp add: others_kept_def)

lemma a_timed_others:
  assumes t: "a_timed a pids" and k: "others_kept waitsem a b" and l: "listed a \<subseteq> listed b" and c: "a_core a"
  shows "a_timed b pids"
proof -
  have "waitsem (a_tcb b x) = waitsem (a_tcb a x)" if "x \<in> set (waitlist a)" for x
    using k a_core_live [OF c that] by (simp add: others_kept_def)
  then show ?thesis using t others_waitlist [OF k] l by (auto simp: a_timed_def)
qed

lemma cpu_scheduler_ticking:
  assumes "ticking t p wd s"
  shows "\<exists>s'. sched_cpu_scheduler s = Some s' \<and> ticking t p wd s' \<and> kframe s s' \<and>
     (timed_out t s \<longrightarrow> timed_out t s') \<and> (waits_for s p t \<longrightarrow> waits_for s' p t)"
proof -
  obtain a where a: "refines s a" "sem_inv a (sems s)" "a_timed a (g_pidhash s)" "a_sliced a" "a_live a t"
    "ending t p a" "waitdog (a_tcb a t) = wd" using assms by (auto simp: ticking_def)
  let ?b = "a_cpu_scheduler a"
  note d = sem_invD [OF a(2)] and cs = cpu_scheduler_refines [OF a(1) sem_invD(1) [OF a(2)] a(4)]
  obtain s' where s': "sched_cpu_scheduler s = Some s'" "refines s' ?b" "kframe s s'" using cs(1) by blast
  have eq: "sems s' = sems s" "g_pidhash s' = g_pidhash s"
    using s'(3) kframe_sems [OF s'(3)] by (simp_all add: sframe_def)
  have lv: "a_live ?b = a_live a" using cs(3) [of waitsem] by (simp add: others_kept_def)
  have f: "waitsem (a_tcb ?b t) = waitsem (a_tcb a t)" "pterrno (a_tcb ?b t) = pterrno (a_tcb a t)"
    "waitdog (a_tcb ?b t) = waitdog (a_tcb a t)"
    using cs(3) [of waitsem] cs(3) [of pterrno] cs(3) [of waitdog] a(5) by (simp_all add: others_kept_def)
  have wl: "set (waitlist ?b) = set (waitlist a)" using others_waitlist [OF cs(3) [of waitsem]] by simp
  have "sem_inv ?b (sems s)" using sem_inv_others [OF a(2) cs(2) cs(3)] by simp
  moreover have "a_timed ?b (g_pidhash s)" using a_timed_others [OF a(3) cs(3) listed_cpu_scheduler d(2)] by simp
  moreover have "ending t p ?b" using a(6) f wl by (simp add: ending_def)
  ultimately have "ticking t p wd s'"
    unfolding ticking_def using s'(2) eq a_sliced_cpu_scheduler [OF d(1) a(4)] a(5,7) f(3) lv
    by (intro exI [of _ ?b]) simp
  moreover have "timed_out t s'" if "timed_out t s"
  proof -
    have "t \<notin> set (waitlist a)" "pterrno (a_tcb a t) = ETIMEDOUT"
      using that refines_unique [OF a(1)] by (auto simp: timed_out_def)
    then show ?thesis using s'(2) cs(2) a(5) lv wl f(2) by (auto simp: timed_out_def)
  qed
  moreover have "waits_for s' p t" if "waits_for s p t"
    using that refines_in_list [OF a(1)] refines_in_list [OF s'(2)] wl refines_tcb [OF a(1,5)] refines_tcb [OF s'(2), of t] lv a(5) f(1)
    by (auto simp: waits_for_def)
  ultimately show ?thesis using s'(1,3) by blast
qed

lemma kframe_wd_part: "kframe s s' \<Longrightarrow> wd_part s' = wd_part s"
  by (cases s, cases s') (simp add: kframe_def wd_part_def)

lemma clock_timer_keeps:
  "ticking t p wd (clock_timer s) = ticking t p wd s" "timed_out t (clock_timer s) = timed_out t s"
  "wd_part (clock_timer s) = wd_part s" "waits_for (clock_timer s) p t = waits_for s p t"
  by (simp_all add: clock_timer_def ticking_def timed_out_def refines_def wd_part_def waits_for_def in_list_def)

text \<open>The arguments of the timeout of task \<open>t\<close>.\<close>

definition names_task :: "'a semstate_scheme \<Rightarrow> addr \<Rightarrow> wdparm_t \<Rightarrow> bool" where
  "names_task s t arg \<longleftrightarrow> sched_gettcb s (s16 (uint arg)) = t"

lemma sched_gettcb_cong: "g_pidhash s' = g_pidhash s \<Longrightarrow> sched_gettcb s' n = sched_gettcb s n"
  by (simp add: sched_gettcb_def)

lemma timer_ticking:
  assumes t: "ticking t p wd s" and rep: "wd_rep s xs fr" and f: "wd_funcs_ok (kernel_ok tp) s" and q: "expired xs = []"
  shows "\<exists>s'. wd_timer (kernel_call tp) s = Some (map fst (filter (\<lambda>x. snd x = 1) xs), s') \<and> ticking t p wd s' \<and>
     g_pidhash s' = g_pidhash s \<and> wd_rep s' (tick (filter (\<lambda>x. 1 < snd x) xs)) fr \<and> wd_funcs_ok (kernel_ok tp) s' \<and>
     wd_kept (fst ` set (filter (\<lambda>x. snd x = 1) xs)) (wdogs s) (wdogs s') \<and>
     (timed_out t s \<longrightarrow> timed_out t s') \<and>
     (\<forall>q arg. (q, 1) \<in> set xs \<longrightarrow> wd_runs s q tp [arg] \<longrightarrow> names_task s t arg \<longrightarrow> timed_out t s') \<and>
     (waits_for s p t \<longrightarrow> (\<forall>q arg. (q, 1) \<in> set xs \<longrightarrow> wd_runs s q tp [arg] \<longrightarrow> \<not> names_task s t arg) \<longrightarrow> waits_for s' p t)"
proof -
  have tp: "ticking t p wd s \<and> g_pidhash s = g_pidhash s" using t by simp
  obtain s' where s': "wd_timer (kernel_call tp) s = Some (map fst (filter (\<lambda>x. snd x = 1) xs), s')"
     "ticking t p wd s'" "g_pidhash s' = g_pidhash s" "wd_rep s' (tick (filter (\<lambda>x. 1 < snd x) xs)) fr"
     "wd_funcs_ok (kernel_ok tp) s'" "wd_kept (fst ` set (filter (\<lambda>x. snd x = 1) xs)) (wdogs s) (wdogs s')"
    using tk.timer_exact [OF rep tp f q] by blast
  have J: "timed_out t v'" if "kernel_ok tp g args" "ticking t p wd v \<and> g_pidhash v = g_pidhash s" "timed_out t v"
      "kernel_call tp g args v = Some v'" for g args and v v' :: "'a wdstate_scheme"
  proof -
    from that(1) obtain arg where args: "args = [arg]" "g = tp" by (auto simp: kernel_ok_def length_Suc_conv)
    from nxsem_timeout_ticking [OF conjunct1 [OF that(2)], of "uint arg"] that(3,4) show ?thesis
      by (auto simp: kernel_call_def args)
  qed
  have H: "timed_out t v'" if "names_task s t arg" "ticking t p wd v \<and> g_pidhash v = g_pidhash s"
      "kernel_call tp tp [arg] v = Some v'" for arg and v v' :: "'a wdstate_scheme"
  proof -
    have "sched_gettcb v (s16 (uint arg)) = t"
      using that(1,2) sched_gettcb_cong [of v s] by (simp add: names_task_def)
    with nxsem_timeout_ticking [OF conjunct1 [OF that(2)], of "uint arg"] that(3) show ?thesis
      by (auto simp: kernel_call_def)
  qed
  have "timed_out t s'" if "timed_out t s"
    by (rule tk.timer_keeps [where J = "timed_out t" and good = "\<lambda>_ _. True", OF timed_out_frame J rep tp f q s'(1) that]) simp_all
  moreover have "timed_out t s'" if h: "(x, 1) \<in> set xs" "wd_runs s x tp [arg]" "names_task s t arg" for x arg
    by (rule tk.timer_establishes [where J = "timed_out t", OF timed_out_frame J H [OF h(3)] rep tp f q s'(1) h(1,2)])
  moreover have "waits_for s' p t"
    if h: "waits_for s p t" "\<forall>q arg. (q, 1) \<in> set xs \<longrightarrow> wd_runs s q tp [arg] \<longrightarrow> \<not> names_task s t arg"
  proof (rule tk.timer_keeps [where J = "\<lambda>s. waits_for s p t" and
        good = "\<lambda>f args. \<forall>arg. f = tp \<longrightarrow> args = [arg] \<longrightarrow> \<not> names_task s t arg", OF waits_for_frame _ rep tp f q s'(1) h(1)])
    fix g args and v v' :: "'a wdstate_scheme"
    assume a: "kernel_ok tp g args" "\<forall>arg. g = tp \<longrightarrow> args = [arg] \<longrightarrow> \<not> names_task s t arg"
      "ticking t p wd v \<and> g_pidhash v = g_pidhash s" "waits_for v p t" "kernel_call tp g args v = Some v'"
    from a(1) obtain arg where args: "args = [arg]" "g = tp" by (auto simp: kernel_ok_def length_Suc_conv)
    have "sched_gettcb v (s16 (uint arg)) \<noteq> t"
      using a(2,3) args sched_gettcb_cong [of v s] by (simp add: names_task_def)
    with nxsem_timeout_ticking [OF conjunct1 [OF a(3)], of "uint arg"] a(4,5) show "waits_for v' p t"
      by (auto simp: kernel_call_def args)
  qed (use h(2) in auto)
  ultimately show ?thesis using s' by blast
qed

lemma process_timer_ticking:
  assumes t: "ticking t p wd s" and rep: "wd_rep s xs fr" and f: "wd_funcs_ok (kernel_ok tp) s" and q: "expired xs = []"
  shows "\<exists>s'. sched_process_timer (kernel_call tp) s = Some (map fst (filter (\<lambda>x. snd x = 1) xs), s') \<and> ticking t p wd s' \<and>
     g_pidhash s' = g_pidhash s \<and> wd_rep s' (tick (filter (\<lambda>x. 1 < snd x) xs)) fr \<and> wd_funcs_ok (kernel_ok tp) s' \<and>
     wd_kept (fst ` set (filter (\<lambda>x. snd x = 1) xs)) (wdogs s) (wdogs s') \<and>
     (timed_out t s \<longrightarrow> timed_out t s') \<and>
     (\<forall>q arg. (q, 1) \<in> set xs \<longrightarrow> wd_runs s q tp [arg] \<longrightarrow> names_task s t arg \<longrightarrow> timed_out t s') \<and>
     (waits_for s p t \<longrightarrow> (\<forall>q arg. (q, 1) \<in> set xs \<longrightarrow> wd_runs s q tp [arg] \<longrightarrow> \<not> names_task s t arg) \<longrightarrow> waits_for s' p t)"
proof -
  have t0: "ticking t p wd (clock_timer s)" using t by (simp add: clock_timer_keeps)
  obtain s1 where s1: "sched_cpu_scheduler (clock_timer s) = Some s1" "ticking t p wd s1" "kframe (clock_timer s) s1"
    "timed_out t (clock_timer s) \<longrightarrow> timed_out t s1" "waits_for (clock_timer s) p t \<longrightarrow> waits_for s1 p t"
    using cpu_scheduler_ticking [OF t0] by blast
  have pt: "wd_part s1 = wd_part s" using kframe_wd_part [OF s1(3)] clock_timer_keeps(3) by simp
  have w: "wd_rep s1 xs fr" "wd_funcs_ok (kernel_ok tp) s1" using rep f wd_part_rep [OF pt] by blast+
  have e: "wdogs s1 = wdogs s" using pt by (simp add: wd_part_def)
  have "g_pidhash s1 = g_pidhash (clock_timer s)" using kframe_sems [OF s1(3)] by (simp add: sframe_def)
  then have g: "g_pidhash s1 = g_pidhash s" by (simp add: clock_timer_def)
  have c: "wd_runs s1 x tp [arg] = wd_runs s x tp [arg]" "names_task s1 t arg = names_task s t arg" for x arg
    using e sched_gettcb_cong [OF g] by (simp_all add: wd_runs_def names_task_def)
  obtain s' where s': "wd_timer (kernel_call tp) s1 = Some (map fst (filter (\<lambda>x. snd x = 1) xs), s')" "ticking t p wd s'"
     "g_pidhash s' = g_pidhash s1" "wd_rep s' (tick (filter (\<lambda>x. 1 < snd x) xs)) fr" "wd_funcs_ok (kernel_ok tp) s'"
     "wd_kept (fst ` set (filter (\<lambda>x. snd x = 1) xs)) (wdogs s1) (wdogs s')" "timed_out t s1 \<longrightarrow> timed_out t s'"
     "\<forall>q arg. (q, 1) \<in> set xs \<longrightarrow> wd_runs s1 q tp [arg] \<longrightarrow> names_task s1 t arg \<longrightarrow> timed_out t s'"
     "waits_for s1 p t \<longrightarrow> (\<forall>q arg. (q, 1) \<in> set xs \<longrightarrow> wd_runs s1 q tp [arg] \<longrightarrow> \<not> names_task s1 t arg) \<longrightarrow> waits_for s' p t"
    using timer_ticking [OF s1(2) w q] by blast
  have "sched_process_timer (kernel_call tp) s = Some (map fst (filter (\<lambda>x. snd x = 1) xs), s')"
    using s1(1) s'(1) by (simp add: sched_process_timer_def)
  moreover have "timed_out t s \<longrightarrow> timed_out t s'" using s1(4) s'(7) clock_timer_keeps(2) by blast
  moreover have "\<forall>q arg. (q, 1) \<in> set xs \<longrightarrow> wd_runs s q tp [arg] \<longrightarrow> names_task s t arg \<longrightarrow> timed_out t s'"
    using s'(8) c by blast
  moreover have "waits_for s p t \<longrightarrow> (\<forall>q arg. (q, 1) \<in> set xs \<longrightarrow> wd_runs s q tp [arg] \<longrightarrow> \<not> names_task s t arg) \<longrightarrow> waits_for s' p t"
    using s'(9) s1(5) c clock_timer_keeps(4) by blast
  ultimately show ?thesis using s' g e by auto
qed

text \<open>Every tick has a timer interrupt, so the timeout ends the wait when its time has come.\<close>

lemma process_timers_keep:
  assumes "ticking t p wd s" "wd_rep s xs fr" "wd_funcs_ok (kernel_ok tp) s" "expired xs = []"
  shows "\<exists>s' ys. process_timers (kernel_call tp) n s = Some s' \<and> ticking t p wd s' \<and> g_pidhash s' = g_pidhash s \<and>
     wd_rep s' ys fr \<and> wd_funcs_ok (kernel_ok tp) s' \<and> expired ys = [] \<and> fst ` set ys \<subseteq> fst ` set xs \<and>
     wd_kept (fst ` set xs) (wdogs s) (wdogs s') \<and> (timed_out t s \<longrightarrow> timed_out t s')"
  using assms
proof (induction n arbitrary: s xs)
  case (Suc n)
  let ?ys = "tick (filter (\<lambda>x. 1 < snd x) xs)" and ?p = "fst ` set (filter (\<lambda>x. snd x = 1) xs)"
  obtain s1 where s1: "sched_process_timer (kernel_call tp) s = Some (map fst (filter (\<lambda>x. snd x = 1) xs), s1)"
     "ticking t p wd s1" "g_pidhash s1 = g_pidhash s" "wd_rep s1 ?ys fr" "wd_funcs_ok (kernel_ok tp) s1"
     "wd_kept ?p (wdogs s) (wdogs s1)" "timed_out t s \<longrightarrow> timed_out t s1"
    using process_timer_ticking [OF Suc.prems] by blast
  have e: "expired ?ys = []" by (auto simp: tick_def filter_empty_conv)
  have sub: "fst ` set ?ys \<subseteq> fst ` set xs" "?p \<subseteq> fst ` set xs" by (force simp: tick_def)+
  obtain s2 zs where s2: "process_timers (kernel_call tp) n s1 = Some s2" "ticking t p wd s2" "g_pidhash s2 = g_pidhash s1"
     "wd_rep s2 zs fr" "wd_funcs_ok (kernel_ok tp) s2" "expired zs = []" "fst ` set zs \<subseteq> fst ` set ?ys"
     "wd_kept (fst ` set ?ys) (wdogs s1) (wdogs s2)" "timed_out t s1 \<longrightarrow> timed_out t s2"
    using Suc.IH [OF s1(2,4,5) e] by blast
  have "wd_kept (fst ` set xs) (wdogs s) (wdogs s2)"
    using wd_kept_trans [OF wd_kept_mono [OF s1(6) sub(2)] wd_kept_mono [OF s2(8) sub(1)]] by simp
  moreover have "process_timers (kernel_call tp) (Suc n) s = Some s2" using s1(1) s2(1) by simp
  ultimately show ?case using s2 s1(3,7) sub(1) by (intro exI [of _ s2] exI [of _ zs]) auto
qed auto

lemma process_timers_time_out:
  assumes "ticking t p wd s" "wd_rep s xs fr" "wd_funcs_ok (kernel_ok tp) s" "expired xs = []"
    and "(q, int d + 1) \<in> set xs" "wd_runs s q tp [arg]" "names_task s t arg" "d < n"
  shows "\<exists>s' ys. process_timers (kernel_call tp) n s = Some s' \<and> ticking t p wd s' \<and> g_pidhash s' = g_pidhash s \<and>
     wd_rep s' ys fr \<and> wd_funcs_ok (kernel_ok tp) s' \<and> expired ys = [] \<and> wd_kept (fst ` set xs) (wdogs s) (wdogs s') \<and> timed_out t s'"
  using assms
proof (induction n arbitrary: s xs d)
  case (Suc n)
  let ?ys = "tick (filter (\<lambda>x. 1 < snd x) xs)" and ?p = "fst ` set (filter (\<lambda>x. snd x = 1) xs)"
  obtain s1 where s1: "sched_process_timer (kernel_call tp) s = Some (map fst (filter (\<lambda>x. snd x = 1) xs), s1)"
     "ticking t p wd s1" "g_pidhash s1 = g_pidhash s" "wd_rep s1 ?ys fr" "wd_funcs_ok (kernel_ok tp) s1"
     "wd_kept ?p (wdogs s) (wdogs s1)"
     "\<forall>q arg. (q, 1) \<in> set xs \<longrightarrow> wd_runs s q tp [arg] \<longrightarrow> names_task s t arg \<longrightarrow> timed_out t s1"
    using process_timer_ticking [OF Suc.prems(1-4)] by blast
  have e: "expired ?ys = []" by (auto simp: tick_def filter_empty_conv)
  have sub: "fst ` set ?ys \<subseteq> fst ` set xs" "?p \<subseteq> fst ` set xs" by (force simp: tick_def)+
  have step: "process_timers (kernel_call tp) (Suc n) s = process_timers (kernel_call tp) n s1" using s1(1) by simp
  have tr: "wd_kept (fst ` set xs) (wdogs s) (wdogs s2)" if "wd_kept (fst ` set ?ys) (wdogs s1) (wdogs s2)"
    for s2 :: "'a wdstate_scheme"
    using wd_kept_trans [OF wd_kept_mono [OF s1(6) sub(2)] wd_kept_mono [OF that sub(1)]] by simp
  show ?case
  proof (cases d)
    case 0
    then have "timed_out t s1" using s1(7) Suc.prems(5-7) by auto
    with process_timers_keep [OF s1(2,4,5) e, of n] show ?thesis unfolding step s1(3) using tr by blast
  next
    case (Suc d')
    have d: "distinct (map fst xs)" using wd_repD(7) [OF Suc.prems(2)] .
    have "q \<notin> ?p"
    proof
      assume "q \<in> ?p"
      then have "(q, 1) \<in> set xs" by auto
      with Suc.prems(5) d \<open>d = Suc d'\<close> show False by (auto dest: eq_key_imp_eq_value)
    qed
    then have r: "wd_runs s1 q tp [arg]" using wd_runs_kept [OF s1(6)] Suc.prems(6) by blast
    have m: "(q, int d' + 1) \<in> set ?ys" using Suc.prems(5) \<open>d = Suc d'\<close> by (force simp: tick_def)
    have g: "names_task s1 t arg" using Suc.prems(7) sched_gettcb_cong [OF s1(3)] by (simp add: names_task_def)
    from Suc.IH [OF s1(2,4,5) e m r g] Suc.prems(8) \<open>d = Suc d'\<close> show ?thesis unfolding step s1(3) using tr by fastforce
  qed
qed simp

text \<open>As long as no timeout that names the task has expired, the task waits.\<close>

lemma process_timers_wait:
  assumes "ticking t p wd s" "wd_rep s xs fr" "wd_funcs_ok (kernel_ok tp) s" "expired xs = []" "waits_for s p t"
    and "\<And>q d arg. (q, d) \<in> set xs \<Longrightarrow> d \<le> int n \<Longrightarrow> wd_runs s q tp [arg] \<Longrightarrow> \<not> names_task s t arg"
  shows "\<exists>s'. process_timers (kernel_call tp) n s = Some s' \<and> waits_for s' p t"
  using assms
proof (induction n arbitrary: s xs)
  case (Suc n)
  let ?ys = "tick (filter (\<lambda>x. 1 < snd x) xs)" and ?p = "fst ` set (filter (\<lambda>x. snd x = 1) xs)"
  have "\<not> names_task s t arg" if "(q, 1) \<in> set xs" "wd_runs s q tp [arg]" for q arg
    using Suc.prems(6) [OF that(1) _ that(2)] by simp
  with process_timer_ticking [OF Suc.prems(1-4)] Suc.prems(5) obtain s1 where s1:
     "sched_process_timer (kernel_call tp) s = Some (map fst (filter (\<lambda>x. snd x = 1) xs), s1)"
     "ticking t p wd s1" "g_pidhash s1 = g_pidhash s" "wd_rep s1 ?ys fr" "wd_funcs_ok (kernel_ok tp) s1"
     "wd_kept ?p (wdogs s) (wdogs s1)" "waits_for s1 p t" by blast
  have e: "expired ?ys = []" by (auto simp: tick_def filter_empty_conv)
  have d: "distinct (map fst xs)" using wd_repD(7) [OF Suc.prems(2)] .
  have "\<not> names_task s1 t arg" if q: "(q, k) \<in> set ?ys" "k \<le> int n" "wd_runs s1 q tp [arg]" for q k arg
  proof -
    have m: "(q, k + 1) \<in> set xs" "0 < k" using q(1) by (auto simp: tick_def)
    then have "q \<notin> ?p" using d by (auto dest: eq_key_imp_eq_value)
    then have "wd_runs s q tp [arg]" using wd_runs_back [OF s1(6)] q(3) by blast
    then show ?thesis using Suc.prems(6) [OF m(1)] q(2) sched_gettcb_cong [OF s1(3)] by (simp add: names_task_def)
  qed
  from Suc.IH [OF s1(2,4,5) e s1(7) this] s1(1) show ?case by simp
qed simp

section \<open>The caller of the timed wait\<close>

text \<open>The conditions under which ticks can be processed.\<close>

definition tickable :: "'a semstate_scheme \<Rightarrow> bool" where
  "tickable s \<longleftrightarrow> (\<exists>a. refines s a \<and> sem_inv a (sems s) \<and> a_timed a (g_pidhash s) \<and> a_sliced a)"

lemma tickable_frame: "wframe s s' \<Longrightarrow> tickable s \<Longrightarrow> tickable s'"
  by (simp add: tickable_def wframe_def refines_def)

lemma listed_block: "listed a \<subseteq> listed (snd (a_block t st a))"
  if "TLIST_BLOCKED st \<noteq> None" "TLIST_ISPRIORITIZED st"
proof -
  have "listed a \<subseteq> listed (a_addblocked t st (snd (a_removereadytorun t a)))"
    using that subsetD [OF listed_removereadytorun [of a t]] by (auto simp: a_addblocked_def)
  then show ?thesis using listed_mergepending by (fastforce simp: a_block_def case_prod_beta Let_def)
qed

lemma a_upd_tcb: "a_live a x \<Longrightarrow> a_tcb (a_upd t f a) x = (if x = t then f (a_tcb a x) else a_tcb a x)"
  by (auto simp: a_tcb_def a_upd_def a_live_def)

lemma a_sem_block_field:
  assumes i: "a_inv a" and F: "sched_field F" "\<And>x n. F (x\<lparr>pterrno := n\<rparr>) = F x" "\<And>x p. F (x\<lparr>waitsem := p\<rparr>) = F x" and x: "a_live a x"
  shows "F (a_tcb (a_sem_block p a) x) = F (a_tcb a x)"
proof -
  let ?t = "a_running a"
  let ?a1 = "a_upd ?t (\<lambda>t. t\<lparr>pterrno := 0\<rparr>) (a_upd ?t (\<lambda>t. t\<lparr>waitsem := p\<rparr>) a)"
  have c: "a_core a" using i by (simp add: a_inv_def)
  have tin: "?t \<in> set (a_list a g_readytorun)" using a_core_running [OF c] .
  have "a_inv ?a1" using i a_core_live [OF c tin] tin by (intro a_inv_upd_other [where L = g_readytorun]) auto
  then have "a_core ?a1" by (simp add: a_inv_def)
  from a_block_field [OF this F(1), of x ?t TSTATE_WAIT_SEM] x show ?thesis
    by (cases "x = ?t") (simp_all add: a_sem_block_def a_upd_tcb F)
qed

lemma a_sem_block_ticking:
  assumes i: "sem_inv a \<sigma>" and ni: "a_running a \<noteq> a_idle a" and p: "\<sigma> p \<noteq> None"
    and t: "a_timed a pids" and sl: "a_sliced a"
  shows "a_timed (a_sem_block p a) pids" "a_sliced (a_sem_block p a)" "ending (a_running a) p (a_sem_block p a)"
    "waitdog (a_tcb (a_sem_block p a) (a_running a)) = waitdog (a_tcb a (a_running a))"
proof -
  let ?b = "a_sem_block p a" and ?t = "a_running a"
  note d = sem_invD [OF i] and ok = a_sem_block_ok [OF sem_invD(1) [OF i] ni, where p = p]
  have lv: "a_live a x" if "x \<in> set (waitlist a)" for x using a_core_live [OF d(2) that] .
  have tl: "a_live a ?t" using a_core_running_live [OF d(2)] .
  have pn: "p \<noteq> NULL" using d(5) [OF p] .
  have "waitsem (a_tcb ?b x) \<noteq> NULL" if "x \<in> set (waitlist ?b)" for x
    using that ok(2) ok(4) [of x] lv [of x] tl t pn by (cases "x = ?t") (auto simp: a_timed_def)
  moreover have "listed a \<subseteq> listed ?b"
    using listed_block [of TSTATE_WAIT_SEM "a_upd ?t (\<lambda>t. t\<lparr>pterrno := 0\<rparr>) (a_upd ?t (\<lambda>t. t\<lparr>waitsem := p\<rparr>) a)" ?t]
    by (simp add: a_sem_block_def TLIST_ISPRIORITIZED_iff [OF wait_sem_state(2)] wait_sem_state(3))
  ultimately show "a_timed ?b pids" using t by (auto simp: a_timed_def)
  have "a_live a (a_idle a)" using a_core_live [OF d(2) a_core_idle [OF d(2)]] .
  moreover have "tcb_flags (a_tcb ?b x) = tcb_flags (a_tcb a x)" "waitdog (a_tcb ?b x) = waitdog (a_tcb a x)"
    if "a_live a x" for x by (rule a_sem_block_field [OF d(1) _ _ _ that]; simp)+
  moreover have "a_live ?b = a_live a" using ok(3) by (simp add: fun_eq_iff)
  ultimately show "a_sliced ?b" "waitdog (a_tcb ?b ?t) = waitdog (a_tcb a ?t)"
    using a_sliced_switch [OF sl a_sem_block_slices [OF d(1) ni]] tl ok(6) by auto
  show "ending ?t p ?b" using ok(2) ok(4) [OF tl] by (simp add: ending_def)
qed

lemma nxsem_wait_ticking:
  assumes k: "tickable s" and p: "sems s p = Some x" "- (2 ^ 15) < semcount x" "semcount x \<le> 0"
    and irq: "\<not> up_interrupt_context s" and ni: "this_task s \<noteq> idle_task s"
    and t: "tcbs s (this_task s) = Some r"
  shows "\<exists>s'. nxsem_wait p s = Some (Switched (pterrno r), s') \<and> sframe s s' \<and> waits_for s' p (this_task s) \<and>
    ticking (this_task s) p (waitdog r) s'"
proof -
  obtain a where a: "refines s a" "sem_inv a (sems s)" "a_timed a (g_pidhash s)" "a_sliced a"
    using k by (auto simp: tickable_def)
  note d = sem_invD [OF a(2)]
  let ?b = "a_sem_block p a" and ?\<sigma> = "sem_upd (sems s) p (sem_count (sems s) p - 1)" and ?t = "a_running a"
  have sr: "srefines s a (sems s)" using a(1) by (simp add: srefines_def)
  have p': "sems s p \<noteq> None" "sem_count (sems s) p \<le> 0" "- (2 ^ 15) < sem_count (sems s) p"
    using p by (simp_all add: sem_count_def)
  have rt: "this_task s = ?t" using refines_running [OF a(1)] .
  have ni': "?t \<noteq> a_idle a" using ni rt refines_idle [OF a(1) d(2)] by simp
  have lv: "a_live a ?t" using a_core_running_live [OF d(2)] .
  have r: "a_tcb a ?t = r" using refines_tcb [OF a(1) lv] t rt by simp
  obtain s' where s': "nxsem_wait p s = Some (Switched (pterrno r), s')" "srefines s' ?b ?\<sigma>" "sframe s s'"
    using nxsem_wait_block_refines [OF sr a(2) p' irq ni'] unfolding r by blast
  note i = sem_inv_block [OF a(2) ni' p'] and ok = a_sem_block_ok [OF d(1) ni', where p = p]
    and tk = a_sem_block_ticking [OF a(2) ni' p'(1) a(3,4)]
  have w: "waits_for s' p ?t" using waits_for_waiters [OF s'(2) i] ok(2) ok(4) [OF lv] by (simp add: waiters_def)
  have "ticking ?t p (waitdog r) s'"
    unfolding ticking_def using s'(2,3) i tk ok(3) lv r by (intro exI [of _ ?b]) (auto simp: srefines_def sframe_def)
  then show ?thesis using s' w rt by auto
qed

text \<open>Changes of a TCB that nothing in the scheduler depends on.\<close>

lemma upd_tcb_same: "get_tcb s t = Some r \<Longrightarrow> upd_tcb t f s = Some (s\<lparr>tcbs := (tcbs s)(t \<mapsto> f r)\<rparr>)"
  by (auto simp: upd_tcb_def get_tcb_def split: if_splits)

lemma tickable_upd_tcb:
  assumes k: "tickable s" and t: "tcbs s t = Some r" "in_list s L t"
    and f: "sched_priority y = sched_priority r" "task_state y = task_state r" "lockcount y = lockcount r"
      "waitsem y = waitsem r" "timeslice y = timeslice r" "tcb_flags y = tcb_flags r"
  shows "get_tcb s t = Some r" "tickable (s\<lparr>tcbs := (tcbs s)(t \<mapsto> y)\<rparr>)"
proof -
  obtain a where a: "refines s a" "sem_inv a (sems s)" "a_timed a (g_pidhash s)" "a_sliced a"
    using k by (auto simp: tickable_def)
  note d = sem_invD [OF a(2)]
  let ?f = "\<lambda>u. if u = r then y else u"
  let ?b = "a_upd t ?f a" and ?s = "s\<lparr>tcbs := (tcbs s)(t \<mapsto> y)\<rparr>"
  have tin: "t \<in> set (a_list a L)" using t(2) refines_in_list [OF a(1)] by simp
  have lv: "a_live a t" using a_core_live [OF d(2) tin] .
  have r: "a_tcb a t = r" using refines_tcb [OF a(1) lv] t(1) by simp
  show g: "get_tcb s t = Some r" using refines_get_tcb [OF a(1) lv] r by simp
  have "\<exists>s'. upd_tcb t ?f s = Some s' \<and> refines s' ?b" using refines_upd_tcb [OF a(1) lv] by blast
  then have s': "refines ?s ?b" using upd_tcb_same [OF g, of ?f] by simp
  have i: "a_inv ?b" by (rule a_inv_upd_other [OF d(1) lv _ _ _ tin]) (simp_all add: f)
  have keep: "waitsem (a_tcb ?b x) = waitsem (a_tcb a x)" "timeslice (a_tcb ?b x) = timeslice (a_tcb a x)"
    "tcb_flags (a_tcb ?b x) = tcb_flags (a_tcb a x)" if "a_live a x" for x
    using that by (simp_all add: a_upd_tcb f)
  have "sem_inv ?b (sems s)" by (rule sem_inv_cong [OF a(2) i]) (use keep in auto)
  moreover have "a_timed ?b (g_pidhash s)" using a(3) keep a_core_live [OF d(2)] by (simp add: a_timed_def)
  moreover have "a_sliced ?b"
    using a(4) keep a_core_live [OF d(2) a_core_idle [OF d(2)]] by (simp add: a_sliced_def)
  ultimately show "tickable ?s" unfolding tickable_def using s' by (intro exI [of _ ?b]) simp
qed

text \<open>The caller is the current task of a thread, its watchdog comes from the pool.\<close>

definition tickwait_caller :: "'a wdstate_scheme \<Rightarrow> timers \<Rightarrow> addr \<Rightarrow> addr list \<Rightarrow> tcb \<Rightarrow> bool" where
  "tickwait_caller s xs w fr r \<longleftrightarrow> tickable s \<and> wd_rep s xs (w # fr) \<and> CONFIG_WDOG_INTRESERVE \<le> length fr \<and>
     \<not> up_interrupt_context s \<and> this_task s \<noteq> idle_task s \<and> tcbs s (this_task s) = Some r \<and> waitdog r = NULL"

lemma upd_tcbs_wd_part [simp]: "wd_part (s\<lparr>tcbs := m\<rparr>) = wd_part s"
  by (simp add: wd_part_def)

lemma running_in_list: "kseminv s \<Longrightarrow> in_list s g_readytorun (this_task s)"
  by (erule ksemE) (use refines_in_list srefinesD(1) a_core_running in metis)

lemma tickable_kseminv: "tickable s \<Longrightarrow> kseminv s"
  by (auto simp: tickable_def kseminv_def)

lemma nxsem_tickwait_prologue:
  assumes c: "tickwait_caller s xs w fr r" and p: "sems s p = Some x" "semcount x \<le> 0"
    and d: "g_system_timer s - start < delay" and t: "t = this_task s"
  shows "\<exists>s2. nxsem_tickwait tp blk cont p start delay s = do {
       (_, s) \<leftarrow> wd_start w (sint (delay - (g_system_timer s - start))) tp 1 [word_of_int (pid r)] s2;
       (ret, s) \<leftarrow> nxsem_wait p s;
       case ret of
         Switched saved_errno \<Rightarrow> Some (Switched saved_errno, s)
       | Returned ret \<Rightarrow> do { (ret, s) \<leftarrow> nxsem_tickwait_waited t ret s; Some (Returned ret, s) }
     } \<and> tickable s2 \<and> wd_rep s2 xs fr \<and> wd_kept {w} (wdogs s) (wdogs s2) \<and> w \<in> pooled s \<and> w \<notin> set fr \<and>
     this_task s2 = this_task s \<and> idle_task s2 = idle_task s \<and> tcbs s2 (this_task s) = Some (r\<lparr>waitdog := w\<rparr>) \<and>
     sems s2 = sems s \<and> g_pidhash s2 = g_pidhash s \<and> \<not> up_interrupt_context s2"
proof -
  let ?t = "this_task s"
  have c': "tickable s" "wd_rep s xs (w # fr)" "CONFIG_WDOG_INTRESERVE \<le> length fr" "\<not> up_interrupt_context s"
    "?t \<noteq> idle_task s" "tcbs s ?t = Some r" "waitdog r = NULL" using c by (simp_all add: tickwait_caller_def)
  obtain s1 where s1: "wd_create blk cont s = Some (w, s1)" "wd_rep s1 xs fr" "wframe s s1" "w \<in> pooled s"
     "wd_kept {w} (wdogs s) (wdogs s1)" using wd_create_pool [OF c'(2)] c'(3) by blast
  have il: "in_list s g_readytorun ?t" by (rule running_in_list [OF tickable_kseminv [OF c'(1)]])
  have e1: "tcbs s1 = tcbs s" "this_task s1 = ?t" "idle_task s1 = idle_task s" "in_list s1 g_readytorun ?t" "sems s1 = sems s"
    "g_pidhash s1 = g_pidhash s" "g_system_timer s1 = g_system_timer s" "\<not> up_interrupt_context s1"
    using s1(3) c'(4) il by (simp_all add: wframe_def this_task_def idle_task_def in_list_def up_interrupt_context_def)
  have k1: "tickable s1" using tickable_frame [OF s1(3) c'(1)] .
  let ?r = "r\<lparr>waitdog := w\<rparr>"
  let ?s2 = "s1\<lparr>tcbs := (tcbs s1)(?t \<mapsto> ?r)\<rparr>"
  have t1: "tcbs s1 ?t = Some r" using e1(1) c'(6) by simp
  have s2: "get_tcb s1 ?t = Some r" "tickable ?s2"
    using tickable_upd_tcb [OF k1 t1 e1(4), of ?r] by simp_all
  have tn: "?t \<noteq> NULL" using s2(1) by (cases "?t = NULL") (simp_all add: get_tcb_def)
  then have g: "get_tcb s ?t = Some r" using c'(6) by (simp add: get_tcb_def)
  have g2: "get_tcb ?s2 ?t = Some ?r" using tn by (simp add: get_tcb_def)
  have wn: "w \<noteq> NULL" "w \<notin> set fr" using s1(4) wd_rep_wdog(3) [OF c'(2)] wd_repD(12) [OF c'(2)] by (auto simp: pooled_def)
  have rep: "wd_rep ?s2 xs fr" using s1(2) wd_part_rep [of ?s2 s1] by simp
  have th: "this_task ?s2 = ?t" "idle_task ?s2 = idle_task s" "\<not> up_interrupt_context ?s2"
    using e1 by (simp_all add: this_task_def idle_task_def up_interrupt_context_def)
  have pn: "p \<noteq> NULL" using sem_invD(5) p(1) tickable_kseminv [OF c'(1)] by (auto simp: kseminv_def)
  have tw: "nxsem_trywait p ?s2 = Some (- EAGAIN, ?s2)"
    using p pn th(1,3) e1(5) by (simp add: nxsem_trywait_def debugassert_def get_sem_def Let_def)
  have gp: "getpid ?s2 = Some (pid r)" using th(1) g2 tn by (simp add: getpid_def)
  have ea: "- EAGAIN \<noteq> 0" by (simp add: EAGAIN_def)
  have dl: "delay \<noteq> 0" "\<not> delay \<le> g_system_timer s - start" using d by auto
  have "nxsem_tickwait tp blk cont p start delay s = do {
       (_, s) \<leftarrow> wd_start w (sint (delay - (g_system_timer s - start))) tp 1 [word_of_int (pid r)] ?s2;
       (ret, s) \<leftarrow> nxsem_wait p s;
       case ret of
         Switched saved_errno \<Rightarrow> Some (Switched saved_errno, s)
       | Returned ret \<Rightarrow> do { (ret, s) \<leftarrow> nxsem_tickwait_waited t ret s; Some (Returned ret, s) }
     }"
    unfolding t
    using g pn c'(4,7) s1(1) upd_tcb_same [OF s2(1), of "\<lambda>t. t\<lparr>waitdog := w\<rparr>"] wn(1) tw ea dl gp g2 th(1) e1(7)
    by (simp add: nxsem_tickwait_def Let_def debugassert_def clock_systimer_def)
  then show ?thesis
    using s2(2) rep s1(4,5) wn(2) th e1(5,6) by (intro exI [of _ ?s2]) simp
qed

text \<open>The return of a wait that the timeout has ended.\<close>

lemma ticking_tickable: "ticking t p wd s \<Longrightarrow> tickable s"
  by (auto simp: ticking_def tickable_def)

lemma ticking_tcb:
  assumes "ticking t p wd s" "timed_out t s"
  shows "\<exists>r. tcbs s t = Some r \<and> waitdog r = wd \<and> pterrno r = ETIMEDOUT \<and> (\<forall>q. \<not> waits_for s q t) \<and> t \<noteq> NULL"
proof -
  obtain a where a: "refines s a" "sem_inv a (sems s)" "a_live a t" "waitdog (a_tcb a t) = wd"
    using assms(1) by (auto simp: ticking_def)
  have "t \<notin> set (waitlist a)" "pterrno (a_tcb a t) = ETIMEDOUT"
    using assms(2) refines_unique [OF a(1)] by (auto simp: timed_out_def)
  then show ?thesis using a refines_tcb [OF a(1,3)] refines_in_list [OF a(1)] by (auto simp: waits_for_def a_live_def)
qed

lemma names_task_listed:
  assumes "tickable s" "names_task s t arg" "tcbs s t = Some r" "t \<noteq> NULL"
  shows "\<exists>L. in_list s L t"
proof -
  obtain a where a: "refines s a" "a_timed a (g_pidhash s)" using assms(1) by (auto simp: tickable_def)
  have "t \<in> listed a" using gettcb_listed [OF a(2), of "s16 (uint arg)"] assms(2,4) by (simp add: names_task_def)
  then show ?thesis using refines_in_list [OF a(1)] by (auto simp: listed_def)
qed

lemma nxsem_tickwait_resume_timed_out:
  assumes t: "ticking t p wd s" "timed_out t s" "names_task s t arg" and rep: "wd_rep s xs fr"
    and w: "wdogs s wd = Some v" "wd \<notin> set fr" "\<not> WDOG_ISALLOCED v" "\<not> WDOG_ISSTATIC v"
  shows "\<exists>s' y. nxsem_tickwait_resume t e s = Some (- ETIMEDOUT, s') \<and> tickable s' \<and> wd_rep s' (drop_timer wd xs) (fr @ [wd]) \<and>
     tcbs s' t = Some y \<and> waitdog y = NULL \<and> pterrno y = e \<and> (\<forall>q. \<not> waits_for s' q t)"
proof -
  have k: "tickable s" using ticking_tickable [OF t(1)] .
  obtain r where r: "tcbs s t = Some r" "waitdog r = wd" "pterrno r = ETIMEDOUT" "\<forall>q. \<not> waits_for s q t" "t \<noteq> NULL"
    using ticking_tcb [OF t(1,2)] by blast
  note tn = r(5)
  obtain L where L: "in_list s L t" using names_task_listed [OF k t(3) r(1) tn] by blast
  have et: "ETIMEDOUT \<noteq> 0" "- ETIMEDOUT < 0" by (simp_all add: ETIMEDOUT_def)
  let ?r = "r\<lparr>pterrno := e\<rparr>"
  let ?s1 = "s\<lparr>tcbs := (tcbs s)(t \<mapsto> ?r)\<rparr>"
  have s1: "get_tcb s t = Some r" "tickable ?s1" using tickable_upd_tcb [OF k r(1) L, of ?r] by simp_all
  have res: "nxsem_wait_resume t e s = Some (- ETIMEDOUT, ?s1)"
    using s1(1) r(3) et upd_tcb_same [OF s1(1), of "\<lambda>t. t\<lparr>pterrno := e\<rparr>"] by (simp add: nxsem_wait_resume_def)
  have g1: "get_tcb ?s1 t = Some ?r" using tn by (simp add: get_tcb_def)
  have rep1: "wd_rep ?s1 xs fr" using rep wd_part_rep [of ?s1 s] by simp
  have w1: "wdogs ?s1 wd = Some v" using w(1) by simp
  obtain s2 where s2: "wd_delete wd ?s1 = Some (0, s2)" "wd_rep s2 (drop_timer wd xs) (fr @ [wd])" "wframe ?s1 s2"
    using wd_delete_spec [OF rep1 w1 w(2)] w(3,4) by auto
  have k2: "tickable s2" using tickable_frame [OF s2(3) s1(2)] .
  have t2: "tcbs s2 t = Some ?r" using s2(3) by (simp add: wframe_def)
  have L2: "in_list s2 M u = in_list s M u" for M u using s2(3) by (simp add: wframe_def in_list_def)
  let ?y = "?r\<lparr>waitdog := NULL\<rparr>"
  let ?s3 = "s2\<lparr>tcbs := (tcbs s2)(t \<mapsto> ?y)\<rparr>"
  have s3: "get_tcb s2 t = Some ?r" "tickable ?s3"
    using tickable_upd_tcb [OF k2 t2, of L ?y] L L2 by simp_all
  have "nxsem_tickwait_resume t e s = Some (- ETIMEDOUT, ?s3)"
    using res et g1 r(2) s2(1) upd_tcb_same [OF s3(1), of "\<lambda>t. t\<lparr>waitdog := NULL\<rparr>"]
    by (simp add: nxsem_tickwait_resume_def nxsem_tickwait_waited_def nxsem_tickwait_exit_def)
  moreover have "wd_rep ?s3 (drop_timer wd xs) (fr @ [wd])" using s2(2) wd_part_rep [of ?s3 s2] by simp
  moreover have "\<not> waits_for ?s3 q t" for q
    using r(1,4) L2 by (auto simp: waits_for_def in_list_def)
  ultimately show ?thesis using s3(2) by (intro exI [of _ ?s3] exI [of _ ?y]) simp
qed

lemma sint_unat32:
  fixes v :: "32 word"
  shows "sint v = (if unat v < 2 ^ 31 then int (unat v) else int (unat v) - 2 ^ 32)"
proof -
  have v: "uint v < 2 ^ 32" "0 \<le> uint v" using uint_lt2p [of v] by simp_all
  have "sint v = (uint v + 2 ^ 31) mod 2 ^ 32 - 2 ^ 31"
    by (simp add: sint_uint signed_take_bit_eq_take_bit_shift take_bit_eq_mod)
  also have "(uint v + 2 ^ 31) mod 2 ^ 32 = (if uint v < 2 ^ 31 then uint v + 2 ^ 31 else uint v - 2 ^ 31)"
  proof (cases "uint v < 2 ^ 31")
    case False
    have "(uint v + 2 ^ 31) mod 2 ^ 32 = (uint v + 2 ^ 31 - 2 ^ 32) mod 2 ^ 32" by (rule minus_mod_self2 [symmetric])
    also have "\<dots> = uint v - 2 ^ 31" using False v by (subst mod_pos_pos_trivial) simp_all
    finally show ?thesis using False by simp
  qed (use v in simp)
  finally have e: "sint v = (if uint v < 2 ^ 31 then uint v + 2 ^ 31 else uint v - 2 ^ 31) - 2 ^ 31" .
  have u: "int (unat v) = uint v" by simp
  have "unat v < 2 ^ 31 \<longleftrightarrow> int (unat v) < int (2 ^ 31)" by (simp only: of_nat_less_iff)
  then have l: "unat v < 2 ^ 31 \<longleftrightarrow> uint v < 2 ^ 31" by (simp only: u) simp
  show ?thesis unfolding e u l by simp
qed

lemma nxsem_tickwait_armed:
  fixes s :: "'a wdstate_scheme"
  assumes c: "tickwait_caller s xs w fr r" and f: "wd_funcs_ok (kernel_ok tp) s" and q: "\<forall>x \<in> set xs. 1 \<le> snd x"
    and p: "sems s p = Some x" "semcount x \<le> 0" "- (2 ^ 15) < semcount x"
    and d: "g_system_timer s - start < delay" "unat (delay - (g_system_timer s - start)) + 1 < 2 ^ 31"
    and t: "sched_gettcb s (pid r) = this_task s" "0 \<le> pid r" "pid r < 2 ^ 15"
  defines "rem \<equiv> unat (delay - (g_system_timer s - start))"
  shows "\<exists>s' ys arg v. nxsem_tickwait tp blk cont p start delay s = Some (Switched (pterrno r), s') \<and> waits_for s' p (this_task s) \<and>
     ticking (this_task s) p w s' \<and> wd_rep s' ys fr \<and> wd_funcs_ok (kernel_ok tp) s' \<and> expired ys = [] \<and>
     (w, int rem + 1) \<in> set ys \<and> wd_runs s' w tp [arg] \<and> names_task s' (this_task s) arg \<and>
     wdogs s' w = Some v \<and> \<not> WDOG_ISALLOCED v \<and> \<not> WDOG_ISSTATIC v \<and> w \<notin> set fr \<and> g_pidhash s' = g_pidhash s \<and>
     (\<forall>q d. (q, d) \<in> set ys \<longrightarrow> (q, d) = (w, int rem + 1) \<or>
        q \<in> fst ` set xs \<and> (\<forall>arg. wd_runs s' q tp [arg] \<longrightarrow> wd_runs s q tp [arg]))"
proof -
  define arg :: wdparm_t where "arg = word_of_int (pid r)"
  let ?t = "this_task s"
  obtain s2 where s2: "nxsem_tickwait tp blk cont p start delay s = do {
       (_, s) \<leftarrow> wd_start w (sint (delay - (g_system_timer s - start))) tp 1 [arg] s2;
       (ret, s) \<leftarrow> nxsem_wait p s;
       case ret of
         Switched saved_errno \<Rightarrow> Some (Switched saved_errno, s)
       | Returned ret \<Rightarrow> do { (ret, s) \<leftarrow> nxsem_tickwait_waited ?t ret s; Some (Returned ret, s) }
     }" "tickable s2" "wd_rep s2 xs fr" "wd_kept {w} (wdogs s) (wdogs s2)" "w \<in> pooled s" "w \<notin> set fr"
     "this_task s2 = this_task s" "idle_task s2 = idle_task s" "tcbs s2 ?t = Some (r\<lparr>waitdog := w\<rparr>)"
     "sems s2 = sems s" "g_pidhash s2 = g_pidhash s" "\<not> up_interrupt_context s2"
    using nxsem_tickwait_prologue [OF c p(1,2) d(1) refl, of tp blk cont] unfolding arg_def by blast
  have sd: "sint (delay - (g_system_timer s - start)) = int rem"
    using d(2) by (simp add: rem_def sint_unat32)
  obtain v where v: "wdogs s2 w = Some v" "\<not> WDOG_ISALLOCED v" "\<not> WDOG_ISSTATIC v"
    using s2(5) wd_keptD(2) [OF s2(4), of w] by (auto simp: pooled_def)
  have wx: "w \<notin> fst ` set xs" using c wd_repD(3) [of s xs "w # fr"] by (simp add: tickwait_caller_def)
  have f2: "wd_funcs_ok (kernel_ok tp) s2"
    by (rule wd_funcs_ok_kept [OF f s2(4)]) (use wx wd_rep_wdog(1) [OF s2(3)] in auto)
  let ?ys = "insert_timer w (int rem + 1) (drop_timer w xs)"
  obtain s3 where s3: "wd_start w (int rem) tp 1 [arg] s2 = Some (0, s3)" "wd_rep s3 ?ys fr"
      "wd_kept {w} (wdogs s2) (wdogs s3)" "wframe s2 s3" "wd_funcs_ok (kernel_ok tp) s3" "wd_runs s3 w tp [arg]" "expired ?ys = []"
    using wd_start_ready [where ok = "kernel_ok tp" and args = "[arg]" and delay = rem and f = tp, OF s2(3) f2 q v(1) s2(6)] d(2)
    by (auto simp: rem_def CONFIG_MAX_WDOGPARMS_def kernel_ok_def)
  have e3: "tickable s3" "sems s3 p = Some x" "\<not> up_interrupt_context s3" "this_task s3 = ?t" "this_task s3 \<noteq> idle_task s3"
    "tcbs s3 (this_task s3) = Some (r\<lparr>waitdog := w\<rparr>)" "g_pidhash s3 = g_pidhash s"
    using tickable_frame [OF s3(4) s2(2)] s3(4) s2 c p(1)
    by (simp_all add: wframe_def this_task_def idle_task_def up_interrupt_context_def tickwait_caller_def)
  obtain s4 where s4: "nxsem_wait p s3 = Some (Switched (pterrno r), s4)" "sframe s3 s4" "waits_for s4 p ?t" "ticking ?t p w s4"
    using nxsem_wait_ticking [OF e3(1,2) p(3,2) e3(3,5,6)] e3(4) by auto
  have pt: "wd_part s4 = wd_part s3" by (rule sframe_wd_part [OF s4(2)])
  have w4: "wd_rep s4 ?ys fr" "wd_funcs_ok (kernel_ok tp) s4" "wd_runs s4 w tp [arg]"
    using s3(2,5,6) wd_part_rep [OF pt] pt by (simp_all add: wd_part_def wd_runs_def)
  have g4: "g_pidhash s4 = g_pidhash s" using s4(2) e3(7) by (simp add: sframe_def)
  have "uint arg = pid r" using t(2,3) by (simp add: arg_def uint_word_of_int)
  then have "s16 (uint arg) = pid r" using t(2,3) by (simp add: s16_id)
  then have nm: "names_task s4 ?t arg" using t(1) sched_gettcb_cong [OF g4] by (simp add: names_task_def)
  have "wdogs s4 = wdogs s3" using pt by (simp add: wd_part_def)
  then obtain v4 where v4: "wdogs s4 w = Some v4" "\<not> WDOG_ISALLOCED v4" "\<not> WDOG_ISSTATIC v4"
    using wd_keptD(2) [OF s3(3) v(1)] v by auto
  have "nxsem_tickwait tp blk cont p start delay s = Some (Switched (pterrno r), s4)" using s2(1) s3(1) s4(1) unfolding sd by simp
  moreover have "(w, int rem + 1) \<in> set ?ys" by simp
  moreover have "wd_runs s q tp [a]" if "q \<noteq> w" "wd_runs s4 q tp [a]" for q a
    using wd_runs_back [OF s2(4)] wd_runs_back [OF s3(3)] that \<open>wdogs s4 = wdogs s3\<close> by (simp add: wd_runs_def)
  then have "\<forall>q d. (q, d) \<in> set ?ys \<longrightarrow> (q, d) = (w, int rem + 1) \<or>
        q \<in> fst ` set xs \<and> (\<forall>arg. wd_runs s4 q tp [arg] \<longrightarrow> wd_runs s q tp [arg])" by force
  ultimately show ?thesis using s4(3,4) w4 s3(7) nm v4 s2(6) g4 by blast
qed

section \<open>A concrete state\<close>

text \<open>The state of the watchdogs' example, with all its tasks in the table of process identifiers.\<close>

definition demo_tick :: wdstate where
  "demo_tick = demo_wd\<lparr>tcbs := (tcbs demo_wd)(1 \<mapsto> (demo_tcb 0 0 TSTATE_TASK_READYTORUN)\<lparr>tcb_flags := 0\<rparr>),
     g_pidhash := (\<lambda>n. if 2 \<le> n \<and> n \<le> 5 then \<lparr>ph_tcb = n, ph_pid = int n\<rparr> else \<lparr>ph_tcb = 0, ph_pid = -1\<rparr>)\<rparr>"

lemma demo_tick_caller:
  "tickwait_caller demo_tick [(201, 3), (202, 7)] 203 [204, 205] (demo_tcb 2 100 TSTATE_TASK_RUNNING)"
  "wd_funcs_ok (kernel_ok 300) demo_tick" "this_task demo_tick = 2"
proof -
  let ?a = "a_upd 1 (\<lambda>t. t\<lparr>tcb_flags := 0\<rparr>) demo_sem_a"
  have r: "refines demo_tick ?a" using demo_sem_refines
    by (auto simp: srefines_def refines_def demo_tick_def demo_wd_def demo_sem_def a_upd_def demo_sem_a_def)
      (auto simp: demo_def)
  have l: "a_live demo_sem_a 1" "1 \<in> set (a_list demo_sem_a g_readytorun)"
    by (simp_all add: a_live_def demo_sem_a_def demo_sem_def demo_def demo_a_def)
  have "a_inv ?a" by (rule a_inv_upd_other [OF sem_invD(1) [OF demo_sem_inv] l(1) _ _ _ l(2)]) simp_all
  then have "sem_inv ?a (sems demo_sem)" by (rule sem_inv_cong [OF demo_sem_inv]) (simp_all add: a_upd_tcb fun_eq_iff)
  then have "sem_inv ?a (sems demo_tick)" by (simp add: demo_tick_def demo_wd_def)
  moreover have "a_timed ?a (g_pidhash demo_tick)"
  proof -
    have "2 \<in> set (a_list demo_sem_a g_readytorun)" "3 \<in> set (a_list demo_sem_a g_readytorun)"
      "5 \<in> set (a_list demo_sem_a g_readytorun)" "4 \<in> set (a_list demo_sem_a g_waitingforsemaphore)"
      by (simp_all add: demo_sem_a_def demo_a_def)
    then have l: "{2, 3, 4, 5} \<subseteq> listed demo_sem_a" by (auto simp: listed_def)
    have "h \<in> listed demo_sem_a" if "2 \<le> h" "h \<le> 5" for h
    proof -
      have "h = 2 \<or> h = 3 \<or> h = 4 \<or> h = 5" using that by arith
      then show ?thesis using l by auto
    qed
    moreover have "waitlist ?a = [4]" "waitsem (a_tcb ?a 4) = 100"
      by (simp_all add: demo_sem_a_def demo_a_def a_tcb_def a_upd_def demo_sem_def)
    ultimately show ?thesis by (simp add: a_timed_def demo_tick_def)
  qed
  moreover have "a_sliced ?a"
    by (auto simp: a_sliced_def TCB_FLAG_SCHED_RR_def a_idle_def a_live_def a_tcb_def a_upd_def demo_sem_def demo_sem_a_def
        demo_def demo_a_def demo_tcb_def)
  ultimately have "tickable demo_tick" using r by (auto simp: tickable_def)
  moreover have pt: "wd_part demo_tick = wd_part demo_wd" by (simp add: demo_tick_def wd_part_def)
  ultimately show "tickwait_caller demo_tick [(201, 3), (202, 7)] 203 [204, 205] (demo_tcb 2 100 TSTATE_TASK_RUNNING)"
    "wd_funcs_ok (kernel_ok 300) demo_tick"
    using demo_wd_rep demo_wd_ok(2) wd_part_rep [OF pt]
    by (simp_all add: tickwait_caller_def CONFIG_WDOG_INTRESERVE_def)
      (simp add: up_interrupt_context_def this_task_def idle_task_def demo_tick_def demo_wd_def demo_sem_def demo_def demo_tcb_def)
  show "this_task demo_tick = 2"
    by (simp add: this_task_def demo_tick_def demo_wd_def demo_sem_def demo_def)
qed

section \<open>Properties\<close>



text \<open>
  C23. The delay of a timed wait is unsigned, the delay of a watchdog is signed, and the result of
  \<^verbatim>\<open>wd_start\<close> is not tested: if more than half the range of the clock remains, the task blocks
  and no watchdog runs for it. The active watchdogs are those that were active before the call,
  so that the timeout never comes.
\<close>

theorem nxsem_tickwait_never_times_out:
  assumes c: "tickwait_caller s xs w fr r"
    and p: "sems s p = Some x" "semcount x \<le> 0" "- (2 ^ 15) < semcount x"
    and d: "g_system_timer s - start < delay" "2 ^ 31 \<le> unat (delay - (g_system_timer s - start))"
  shows "\<exists>saved s' v. nxsem_tickwait tp blk cont p start delay s = Some (Switched saved, s') \<and> waits_for s' p (this_task s) \<and>
     wd_rep s' xs fr \<and> wdogs s' w = Some v \<and> \<not> WDOG_ISACTIVE v \<and>
     (\<exists>y. tcbs s' (this_task s) = Some y \<and> waitdog y = w)"
proof -
  let ?t = "this_task s"
  obtain s2 where s2: "nxsem_tickwait tp blk cont p start delay s = do {
       (_, s) \<leftarrow> wd_start w (sint (delay - (g_system_timer s - start))) tp 1 [word_of_int (pid r)] s2;
       (ret, s) \<leftarrow> nxsem_wait p s;
       case ret of
         Switched saved_errno \<Rightarrow> Some (Switched saved_errno, s)
       | Returned ret \<Rightarrow> do { (ret, s) \<leftarrow> nxsem_tickwait_waited ?t ret s; Some (Returned ret, s) }
     }" "tickable s2" "wd_rep s2 xs fr" "wd_kept {w} (wdogs s) (wdogs s2)" "w \<in> pooled s"
     "this_task s2 = this_task s" "idle_task s2 = idle_task s" "tcbs s2 ?t = Some (r\<lparr>waitdog := w\<rparr>)"
     "sems s2 = sems s" "\<not> up_interrupt_context s2"
    using nxsem_tickwait_prologue [OF c p(1,2) d(1) refl, of tp blk cont] by blast
  obtain v where v: "wdogs s2 w = Some v" using s2(5) wd_keptD(2) [OF s2(4), of w] by (auto simp: pooled_def)
  have "sint (delay - (g_system_timer s - start)) < 0"
    using d(2) uint_lt2p [of "delay - (g_system_timer s - start)"] by (simp add: sint_unat32)
  then have st: "wd_start w (sint (delay - (g_system_timer s - start))) tp 1 [word_of_int (pid r)] s2 = Some (- EINVAL, s2)"
    by (simp add: wd_start_def)
  have c2: "sems s2 p = Some x" "this_task s2 \<noteq> idle_task s2" "tcbs s2 (this_task s2) = Some (r\<lparr>waitdog := w\<rparr>)"
    using s2(6-9) p(1) c by (simp_all add: tickwait_caller_def)
  obtain s3 where s3: "nxsem_wait p s2 = Some (Switched (pterrno r), s3)" "sframe s2 s3" "waits_for s3 p ?t" "ticking ?t p w s3"
    using nxsem_wait_ticking [OF s2(2) c2(1) p(3,2) s2(10) c2(2,3)] s2(6) by auto
  have pt: "wd_part s3 = wd_part s2" by (rule sframe_wd_part [OF s3(2)])
  then have w3: "wd_rep s3 xs fr" "wdogs s3 w = Some v" using s2(3) v wd_part_rep [OF pt] by (simp_all add: wd_part_def)
  have "w \<notin> fst ` set xs" using c wd_repD(3) [of s xs "w # fr"] by (simp add: tickwait_caller_def)
  then have "\<not> WDOG_ISACTIVE v" using wd_rep_wdog(1) [OF w3] by simp
  moreover have "\<exists>y. tcbs s3 ?t = Some y \<and> waitdog y = w" using s3(4) refines_tcb by (fastforce simp: ticking_def)
  ultimately show ?thesis using s2(1) st s3(1,3) w3 by auto
qed

theorem nxsem_tickwait_never_times_out_witness:
  "\<exists>saved s' v. nxsem_tickwait 300 0 (demo_wdog 0 0) 101 1000 (2 ^ 31) demo_tick = Some (Switched saved, s') \<and> waits_for s' 101 2 \<and>
     wdogs s' 203 = Some v \<and> \<not> WDOG_ISACTIVE v"
proof -
  have "sems demo_tick 101 = Some \<lparr>semcount = 0\<rparr>" "g_system_timer demo_tick = 1000"
    by (simp_all add: demo_tick_def demo_wd_def demo_sem_def)
  with nxsem_tickwait_never_times_out [OF demo_tick_caller(1), of 101 "\<lparr>semcount = 0\<rparr>" 1000 "2 ^ 31" 300 0 "demo_wdog 0 0"]
  show ?thesis by (auto simp: demo_tick_caller(3))
qed

end
