(* ===== verification/MmHeap.thy ===== *)
theory MmHeap
  imports Ticks
begin

text \<open>
  The heap allocator of \<^verbatim>\<open>mm/mm_heap\<close>, in the configuration with one region and 32-bit chunk sizes.

  The memory is a partial map from byte addresses to 32-bit cells, with a cell at each multiple of
  four that is mapped; access to anything else is a fault. A node is an address: its header has
  the cells \<^verbatim>\<open>size\<close> and \<^verbatim>\<open>preceding\<close>, a free node also has the cells \<^verbatim>\<open>flink\<close> and \<^verbatim>\<open>blink\<close>, which
  lie in what is user data while the chunk is allocated. The array \<^verbatim>\<open>mm_nodelist\<close> is part of this
  memory, so that links to it and links to chunks are alike.
\<close>

section \<open>Constants\<close>

definition MM_MIN_SHIFT :: nat where [simp]: "MM_MIN_SHIFT = 4"
definition MM_MAX_SHIFT :: nat where [simp]: "MM_MAX_SHIFT = 22"
definition MM_MIN_CHUNK :: nat where [simp]: "MM_MIN_CHUNK = 2 ^ MM_MIN_SHIFT"
definition MM_MAX_CHUNK :: nat where [simp]: "MM_MAX_CHUNK = 2 ^ MM_MAX_SHIFT"
definition MM_NNODES :: nat where [simp]: "MM_NNODES = MM_MAX_SHIFT - MM_MIN_SHIFT + 1"
definition MM_GRAN_MASK :: nat where [simp]: "MM_GRAN_MASK = MM_MIN_CHUNK - 1"
definition SIZEOF_MM_ALLOCNODE :: nat where [simp]: "SIZEOF_MM_ALLOCNODE = 8"
definition SIZEOF_MM_FREENODE :: nat where [simp]: "SIZEOF_MM_FREENODE = SIZEOF_MM_ALLOCNODE + 2 * 4"
definition MM_ALLOC_BIT :: nat where "MM_ALLOC_BIT = 2 ^ 31"
definition EINTR :: int where "EINTR = 4"
definition ECANCELED :: int where "ECANCELED = 140"

text \<open>32-bit values, and the complement of one.\<close>

definition u32 :: "nat \<Rightarrow> nat" where "u32 n = n mod 2 ^ 32"

definition not32 :: "nat \<Rightarrow> nat" where "not32 n = 2 ^ 32 - 1 - n"

definition sub32 :: "nat \<Rightarrow> nat \<Rightarrow> nat" where "sub32 a b = u32 (a + (2 ^ 32 - u32 b))"

definition MM_ALIGN_UP :: "nat \<Rightarrow> nat" where
  "MM_ALIGN_UP a = and (u32 (a + MM_GRAN_MASK)) (not32 MM_GRAN_MASK)"

definition MM_ALIGN_DOWN :: "nat \<Rightarrow> nat" where
  "MM_ALIGN_DOWN a = and a (not32 MM_GRAN_MASK)"

section \<open>The state\<close>

record mm_heap_s =
  mm_semaphore :: addr
  mm_holder :: int
  mm_counts_held :: int
  mm_heapsize :: nat
  mm_heapstart :: addr
  mm_heapend :: addr
  mm_nodelist :: addr

record hpstate = wdstate +
  hmem :: "addr \<rightharpoonup> nat"
  heap :: mm_heap_s

type_synonym ('a, 'b) hop = "'a hpstate_scheme \<Rightarrow> ('b \<times> 'a hpstate_scheme) option"
type_synonym 'a hproc = "'a hpstate_scheme \<Rightarrow> 'a hpstate_scheme option"

definition hstore :: "addr \<Rightarrow> nat \<Rightarrow> 'a hproc" where
  "hstore a v s = (if hmem s a = None then None else Some (s\<lparr>hmem := (hmem s)(a \<mapsto> u32 v)\<rparr>))"

definition node_size :: "addr \<Rightarrow> 'a hpstate_scheme \<Rightarrow> nat option" where
  "node_size a s = hmem s a"

definition node_preceding :: "addr \<Rightarrow> 'a hpstate_scheme \<Rightarrow> nat option" where
  "node_preceding a s = hmem s (a + 4)"

definition node_flink :: "addr \<Rightarrow> 'a hpstate_scheme \<Rightarrow> addr option" where
  "node_flink a s = hmem s (a + 8)"

definition node_blink :: "addr \<Rightarrow> 'a hpstate_scheme \<Rightarrow> addr option" where
  "node_blink a s = hmem s (a + 12)"

definition set_size :: "addr \<Rightarrow> nat \<Rightarrow> 'a hproc" where "set_size a = hstore a"

definition set_preceding :: "addr \<Rightarrow> nat \<Rightarrow> 'a hproc" where "set_preceding a = hstore (a + 4)"

definition set_flink :: "addr \<Rightarrow> addr \<Rightarrow> 'a hproc" where "set_flink a = hstore (a + 8)"

definition set_blink :: "addr \<Rightarrow> addr \<Rightarrow> 'a hproc" where "set_blink a = hstore (a + 12)"

text \<open>The address of \<^verbatim>\<open>mm_nodelist[i]\<close>.\<close>

definition nodelist :: "'a hpstate_scheme \<Rightarrow> nat \<Rightarrow> addr" where
  "nodelist s i = mm_nodelist (heap s) + SIZEOF_MM_FREENODE * i"

section \<open>The lock\<close>

text \<open>
  The result \<open>Returned ()\<close> means that the lock has been taken, \<open>Switched saved_errno\<close> that the
  caller has been switched out; it then continues with \<open>mm_takesemaphore_resume\<close>. The counter
  \<^verbatim>\<open>mm_counts_held\<close> is an \<^verbatim>\<open>int\<close> of 32 bits.
\<close>

definition mm_seminitialize :: "'a hproc" where
  "mm_seminitialize s = do {
     (_, s) \<leftarrow> nxsem_init (mm_semaphore (heap s)) 1 s;
     Some (s\<lparr>heap := (heap s)\<lparr>mm_holder := -1, mm_counts_held := 0\<rparr>\<rparr>)
   }"

partial_function (option) mm_semwait_loop :: "'a hpstate_scheme \<Rightarrow> (unit outcome \<times> 'a hpstate_scheme) option" where
  "mm_semwait_loop s = Option.bind (nxsem_wait (mm_semaphore (heap s)) s) (\<lambda>(ret, s).
     case ret of
       Switched saved_errno \<Rightarrow> Some (Switched saved_errno, s)
     | Returned ret \<Rightarrow>
         if ret < 0 then
           Option.bind (debugassert s (ret = - EINTR \<or> ret = - ECANCELED)) (\<lambda>_.
             if ret = - EINTR then mm_semwait_loop s else Some (Returned (), s))
         else Some (Returned (), s))"

definition mm_claim :: "int \<Rightarrow> 'a hpstate_scheme \<Rightarrow> 'a hpstate_scheme" where
  "mm_claim my_pid s = s\<lparr>heap := (heap s)\<lparr>mm_holder := my_pid, mm_counts_held := 1\<rparr>\<rparr>"

definition mm_takesemaphore :: "('a, unit outcome) hop" where
  "mm_takesemaphore s = do {
     my_pid \<leftarrow> getpid s;
     if mm_holder (heap s) = my_pid
     then Some (Returned (), s\<lparr>heap := (heap s)\<lparr>mm_counts_held := s32 (mm_counts_held (heap s) + 1)\<rparr>\<rparr>)
     else do {
       (got, s) \<leftarrow> mm_semwait_loop s;
       Some (got, if got = Returned () then mm_claim my_pid s else s)
     }
   }"

definition mm_takesemaphore_resume :: "addr \<Rightarrow> int \<Rightarrow> ('a, unit outcome) hop" where
  "mm_takesemaphore_resume rtcb saved_errno s = do {
     r \<leftarrow> get_tcb s rtcb;
     (ret, s) \<leftarrow> nxsem_wait_resume rtcb saved_errno s;
     _ \<leftarrow> debugassert s (ret < 0 \<longrightarrow> ret = - EINTR \<or> ret = - ECANCELED);
     (got, s) \<leftarrow> (if ret = - EINTR then mm_semwait_loop s else Some (Returned (), s));
     Some (got, if got = Returned () then mm_claim (pid r) s else s)
   }"

definition mm_trysemaphore :: "('a, int) hop" where
  "mm_trysemaphore s = do {
     my_pid \<leftarrow> getpid s;
     if mm_holder (heap s) = my_pid
     then Some (0, s\<lparr>heap := (heap s)\<lparr>mm_counts_held := s32 (mm_counts_held (heap s) + 1)\<rparr>\<rparr>)
     else do {
       (ret, s) \<leftarrow> nxsem_trywait (mm_semaphore (heap s)) s;
       if ret < 0 then Some (ret, s) else Some (0, mm_claim my_pid s)
     }
   }"

definition mm_givesemaphore :: "'a hproc" where
  "mm_givesemaphore s = do {
     my_pid \<leftarrow> getpid s;
     debugassert s (mm_holder (heap s) = my_pid);
     if mm_counts_held (heap s) > 1
     then Some (s\<lparr>heap := (heap s)\<lparr>mm_counts_held := s32 (mm_counts_held (heap s) - 1)\<rparr>\<rparr>)
     else do {
       let s = s\<lparr>heap := (heap s)\<lparr>mm_holder := -1, mm_counts_held := 0\<rparr>\<rparr>;
       (ret, s) \<leftarrow> nxsem_post (mm_semaphore (heap s)) s;
       debugassert s (ret \<ge> 0);
       Some s
     }
   }"

section \<open>The lists of free chunks\<close>

fun mm_size2ndx_loop :: "nat \<Rightarrow> nat \<Rightarrow> nat" where
  "mm_size2ndx_loop sz ndx = (if sz > 1 then mm_size2ndx_loop (sz div 2) (ndx + 1) else ndx)"

declare mm_size2ndx_loop.simps [simp del]

definition mm_size2ndx :: "nat \<Rightarrow> nat" where
  "mm_size2ndx sz =
     (if sz \<ge> MM_MAX_CHUNK then MM_NNODES - 1 else mm_size2ndx_loop (sz div 2 ^ MM_MIN_SHIFT) 0)"

partial_function (option) mm_addfreechunk_search :: "'a hpstate_scheme \<Rightarrow> nat \<Rightarrow> addr \<Rightarrow> addr \<Rightarrow> (addr \<times> addr) option" where
  "mm_addfreechunk_search s n prev next =
     (if next = NULL then Some (prev, next)
      else Option.bind (node_size next s) (\<lambda>k.
        if k \<noteq> 0 \<and> k < n
        then Option.bind (node_flink next s) (\<lambda>f. mm_addfreechunk_search s n next f)
        else Some (prev, next)))"

definition mm_addfreechunk :: "addr \<Rightarrow> 'a hproc" where
  "mm_addfreechunk node s = do {
     n \<leftarrow> node_size node s;
     let ndx = mm_size2ndx n;
     next \<leftarrow> node_flink (nodelist s ndx) s;
     (prev, next) \<leftarrow> mm_addfreechunk_search s n (nodelist s ndx) next;
     s \<leftarrow> set_flink prev node s;
     s \<leftarrow> set_blink node prev s;
     s \<leftarrow> set_flink node next s;
     if next \<noteq> NULL then set_blink next node s else Some s
   }"

text \<open>Taking a node out of the list; the sources repeat these lines wherever they do it.\<close>

definition mm_unlink :: "addr \<Rightarrow> 'a hproc" where
  "mm_unlink node s = do {
     b \<leftarrow> node_blink node s;
     debugassert s (b \<noteq> NULL);
     f \<leftarrow> node_flink node s;
     s \<leftarrow> set_flink b f s;
     f \<leftarrow> node_flink node s;
     if f \<noteq> NULL then do { b \<leftarrow> node_blink node s; set_blink f b s } else Some s
   }"

text \<open>\<^verbatim>\<open>node->preceding = size | (node->preceding & MM_ALLOC_BIT)\<close>\<close>

definition mm_fixpreceding :: "addr \<Rightarrow> nat \<Rightarrow> 'a hproc" where
  "mm_fixpreceding node sz s = do {
     p \<leftarrow> node_preceding node s;
     set_preceding node (or sz (and p MM_ALLOC_BIT)) s
   }"

section \<open>Initialisation\<close>

fun mm_clear_nodes :: "nat \<Rightarrow> addr \<Rightarrow> 'a hproc" where
  "mm_clear_nodes 0 a s = Some s"
| "mm_clear_nodes (Suc n) a s = do {
     s \<leftarrow> hstore a 0 s; s \<leftarrow> hstore (a + 4) 0 s; s \<leftarrow> hstore (a + 8) 0 s; s \<leftarrow> hstore (a + 12) 0 s;
     mm_clear_nodes n (a + 16) s
   }"

fun mm_link_nodes :: "nat list \<Rightarrow> 'a hproc" where
  "mm_link_nodes [] s = Some s"
| "mm_link_nodes (i # is) s = do {
     s \<leftarrow> set_flink (nodelist s (i - 1)) (nodelist s i) s;
     s \<leftarrow> set_blink (nodelist s i) (nodelist s (i - 1)) s;
     mm_link_nodes is s
   }"

definition mm_addregion :: "addr \<Rightarrow> nat \<Rightarrow> 'a hproc" where
  "mm_addregion heapstart heapsize s = do {
     let heapbase = MM_ALIGN_UP heapstart;
     let heapend = MM_ALIGN_DOWN (u32 (heapstart + heapsize));
     let heapsize = sub32 heapend heapbase;
     let s = s\<lparr>heap := (heap s)\<lparr>mm_heapsize := u32 (mm_heapsize (heap s) + heapsize), mm_heapstart := heapbase\<rparr>\<rparr>;
     s \<leftarrow> set_size heapbase SIZEOF_MM_ALLOCNODE s;
     s \<leftarrow> set_preceding heapbase MM_ALLOC_BIT s;
     let node = heapbase + SIZEOF_MM_ALLOCNODE;
     s \<leftarrow> set_size node (sub32 heapsize (2 * SIZEOF_MM_ALLOCNODE)) s;
     s \<leftarrow> set_preceding node SIZEOF_MM_ALLOCNODE s;
     let s = s\<lparr>heap := (heap s)\<lparr>mm_heapend := sub32 heapend SIZEOF_MM_ALLOCNODE\<rparr>\<rparr>;
     s \<leftarrow> set_size (mm_heapend (heap s)) SIZEOF_MM_ALLOCNODE s;
     n \<leftarrow> node_size node s;
     s \<leftarrow> set_preceding (mm_heapend (heap s)) (or n MM_ALLOC_BIT) s;
     mm_addfreechunk node s
   }"

definition mm_initialize :: "addr \<Rightarrow> nat \<Rightarrow> 'a hproc" where
  "mm_initialize heapstart heapsize s = do {
     let s = s\<lparr>heap := (heap s)\<lparr>mm_heapsize := 0\<rparr>\<rparr>;
     s \<leftarrow> mm_clear_nodes MM_NNODES (mm_nodelist (heap s)) s;
     s \<leftarrow> mm_link_nodes [1..<MM_NNODES] s;
     s \<leftarrow> mm_seminitialize s;
     mm_addregion heapstart heapsize s
   }"

section \<open>Allocation\<close>

partial_function (option) mm_malloc_search :: "'a hpstate_scheme \<Rightarrow> nat \<Rightarrow> addr \<Rightarrow> addr option" where
  "mm_malloc_search s alignsize node =
     (if node = NULL then Some NULL
      else Option.bind (node_size node s) (\<lambda>k.
        if k < alignsize then Option.bind (node_flink node s) (\<lambda>f. mm_malloc_search s alignsize f)
        else Some node))"

text \<open>What \<^verbatim>\<open>mm_malloc\<close> does while it holds the lock.\<close>

definition mm_malloc_locked :: "nat \<Rightarrow> ('a, addr) hop" where
  "mm_malloc_locked alignsize s = do {
     let ndx = (if alignsize \<ge> MM_MAX_CHUNK then MM_NNODES - 1 else mm_size2ndx alignsize);
     first \<leftarrow> node_flink (nodelist s ndx) s;
     node \<leftarrow> mm_malloc_search s alignsize first;
     if node \<noteq> NULL then do {
       s \<leftarrow> mm_unlink node s;
       n \<leftarrow> node_size node s;
       let remaining = sub32 n alignsize;
       s \<leftarrow> (if remaining \<ge> SIZEOF_MM_FREENODE then do {
               let next = node + n;
               let remainder = node + alignsize;
               s \<leftarrow> set_size remainder remaining s;
               s \<leftarrow> set_preceding remainder alignsize s;
               s \<leftarrow> set_size node alignsize s;
               s \<leftarrow> mm_fixpreceding next remaining s;
               mm_addfreechunk remainder s
             }
             else Some s);
       p \<leftarrow> node_preceding node s;
       s \<leftarrow> set_preceding node (or p MM_ALLOC_BIT) s;
       Some (node + SIZEOF_MM_ALLOCNODE, s)
     }
     else Some (NULL, s)
   }"

text \<open>The caller may be switched out while it waits for the lock.\<close>

definition mm_malloc :: "nat \<Rightarrow> ('a, addr outcome) hop" where
  "mm_malloc sz s =
     (if sz < 1 then Some (Returned NULL, s)
      else do {
        let alignsize = MM_ALIGN_UP (u32 (sz + SIZEOF_MM_ALLOCNODE));
        debugassert s (alignsize \<ge> sz);
        (got, s) \<leftarrow> mm_takesemaphore s;
        case got of
          Switched saved_errno \<Rightarrow> Some (Switched saved_errno, s)
        | Returned _ \<Rightarrow> do {
            (ret, s) \<leftarrow> mm_malloc_locked alignsize s;
            s \<leftarrow> mm_givesemaphore s;
            Some (Returned ret, s)
          }
      })"

definition mm_malloc_resume :: "addr \<Rightarrow> int \<Rightarrow> nat \<Rightarrow> ('a, addr outcome) hop" where
  "mm_malloc_resume rtcb saved_errno sz s = do {
     (got, s) \<leftarrow> mm_takesemaphore_resume rtcb saved_errno s;
     case got of
       Switched saved_errno \<Rightarrow> Some (Switched saved_errno, s)
     | Returned _ \<Rightarrow> do {
         (ret, s) \<leftarrow> mm_malloc_locked (MM_ALIGN_UP (u32 (sz + SIZEOF_MM_ALLOCNODE))) s;
         s \<leftarrow> mm_givesemaphore s;
         Some (Returned ret, s)
       }
   }"

section \<open>Release\<close>

text \<open>Merging the chunk that is released with the one behind it, if that is free.\<close>

definition mm_free_next :: "addr \<Rightarrow> ('a, addr) hop" where
  "mm_free_next node s = do {
     n \<leftarrow> node_size node s;
     let next = node + n;
     np \<leftarrow> node_preceding next s;
     if and np MM_ALLOC_BIT = 0 then do {
       nn \<leftarrow> node_size next s;
       let andbeyond = next + nn;
       s \<leftarrow> mm_unlink next s;
       n \<leftarrow> node_size node s;
       nn \<leftarrow> node_size next s;
       s \<leftarrow> set_size node (n + nn) s;
       n \<leftarrow> node_size node s;
       s \<leftarrow> mm_fixpreceding andbeyond n s;
       Some (andbeyond, s)
     }
     else Some (next, s)
   }"

text \<open>Merging it with the one in front of it.\<close>

definition mm_free_prev :: "addr \<Rightarrow> addr \<Rightarrow> ('a, addr) hop" where
  "mm_free_prev node next s = do {
     p \<leftarrow> node_preceding node s;
     let prev = sub32 node p;
     pp \<leftarrow> node_preceding prev s;
     if and pp MM_ALLOC_BIT = 0 then do {
       s \<leftarrow> mm_unlink prev s;
       pn \<leftarrow> node_size prev s;
       n \<leftarrow> node_size node s;
       s \<leftarrow> set_size prev (pn + n) s;
       pn \<leftarrow> node_size prev s;
       s \<leftarrow> mm_fixpreceding next pn s;
       Some (prev, s)
     }
     else Some (node, s)
   }"

definition mm_free_locked :: "addr \<Rightarrow> 'a hproc" where
  "mm_free_locked mem s = do {
     let node = sub32 mem SIZEOF_MM_ALLOCNODE;
     p \<leftarrow> node_preceding node s;
     s \<leftarrow> set_preceding node (and p (not32 MM_ALLOC_BIT)) s;
     (next, s) \<leftarrow> mm_free_next node s;
     (node, s) \<leftarrow> mm_free_prev node next s;
     mm_addfreechunk node s
   }"

text \<open>The caller may be switched out while it waits for the lock.\<close>

definition mm_free :: "addr \<Rightarrow> ('a, unit outcome) hop" where
  "mm_free mem s =
     (if mem = NULL then Some (Returned (), s)
      else do {
        (got, s) \<leftarrow> mm_takesemaphore s;
        case got of
          Switched saved_errno \<Rightarrow> Some (Switched saved_errno, s)
        | Returned _ \<Rightarrow> do {
            s \<leftarrow> mm_free_locked mem s;
            s \<leftarrow> mm_givesemaphore s;
            Some (Returned (), s)
          }
      })"

definition mm_free_resume :: "addr \<Rightarrow> int \<Rightarrow> addr \<Rightarrow> ('a, unit outcome) hop" where
  "mm_free_resume rtcb saved_errno mem s = do {
     (got, s) \<leftarrow> mm_takesemaphore_resume rtcb saved_errno s;
     case got of
       Switched saved_errno \<Rightarrow> Some (Switched saved_errno, s)
     | Returned _ \<Rightarrow> do {
         s \<leftarrow> mm_free_locked mem s;
         s \<leftarrow> mm_givesemaphore s;
         Some (Returned (), s)
       }
   }"

end
