(* ===== verification/MmInv.thy ===== *)
theory MmInv
  imports MmHeap
begin

text \<open>
  The representation of a heap by the list of its chunks, and what the routines of the allocator
  do to this list.
\<close>

section \<open>Bits\<close>

lemma and_push_bit_nat: "and x (push_bit k y) = push_bit k (and (drop_bit k x) y)" for x y :: nat
  by (rule bit_eqI) (auto simp: bit_simps)

text \<open>The \<^verbatim>\<open>preceding\<close> field: the size of the preceding chunk, and whether the chunk is allocated.\<close>

definition prec :: "bool \<Rightarrow> nat \<Rightarrow> nat" where
  "prec b p = (if b then p + 2 ^ 31 else p)"

lemma and_alloc_bit: "and x MM_ALLOC_BIT = 2 ^ 31 * (x div 2 ^ 31 mod 2)"
  using and_push_bit_nat [of x 31 1] by (simp add: MM_ALLOC_BIT_def push_bit_eq_mult drop_bit_eq_div and_one_eq)

lemma or_alloc_bit: "p < 2 ^ 31 \<Longrightarrow> or p MM_ALLOC_BIT = p + 2 ^ 31"
proof -
  assume "p < 2 ^ 31"
  then have "and p MM_ALLOC_BIT = 0" by (simp add: and_alloc_bit)
  then show ?thesis using disjunctive_add_eq_or [of p MM_ALLOC_BIT] by (simp add: MM_ALLOC_BIT_def)
qed

lemma prec_simps [simp]:
  assumes "p < 2 ^ 31"
  shows "and (prec b p) MM_ALLOC_BIT = 0 \<longleftrightarrow> \<not> b" "u32 (prec b p) = prec b p"
    "and (prec b p) (not32 MM_ALLOC_BIT) = p" "or (prec b p) MM_ALLOC_BIT = prec True p"
proof -
  show "and (prec b p) MM_ALLOC_BIT = 0 \<longleftrightarrow> \<not> b"
    using assms by (auto simp: prec_def and_alloc_bit)
  show "u32 (prec b p) = prec b p" using assms by (simp add: prec_def u32_def)
  have "not32 MM_ALLOC_BIT = mask 31" by (simp add: not32_def MM_ALLOC_BIT_def mask_eq_exp_minus_1)
  then show "and (prec b p) (not32 MM_ALLOC_BIT) = p"
    using assms by (simp add: prec_def take_bit_eq_mod flip: take_bit_eq_mask)
  have "or (p + 2 ^ 31) MM_ALLOC_BIT = p + 2 ^ 31"
    unfolding or_alloc_bit [OF assms, symmetric] by (simp only: or.assoc or.idem)
  then show "or (prec b p) MM_ALLOC_BIT = prec True p" using assms by (simp add: prec_def or_alloc_bit)
qed

lemma or_prec: "p < 2 ^ 31 \<Longrightarrow> n < 2 ^ 31 \<Longrightarrow> or n (and (prec b p) MM_ALLOC_BIT) = prec b n"
proof -
  assume "p < 2 ^ 31" "n < 2 ^ 31"
  then have "and (prec b p) MM_ALLOC_BIT = (if b then 2 ^ 31 else 0)"
    using div_add_self2 [of "2 ^ 31" p] by (simp add: prec_def and_alloc_bit)
  then have "and (prec b p) MM_ALLOC_BIT = (if b then MM_ALLOC_BIT else 0)" by (simp add: MM_ALLOC_BIT_def)
  then show ?thesis using \<open>n < 2 ^ 31\<close> by (simp add: prec_def or_alloc_bit)
qed

lemma and_gran: "x < 2 ^ 32 \<Longrightarrow> and x (not32 MM_GRAN_MASK) = x div 16 * 16"
proof -
  assume x: "x < 2 ^ 32"
  have "not32 MM_GRAN_MASK = push_bit 4 (mask 28)" by (simp add: not32_def push_bit_eq_mult mask_eq_exp_minus_1)
  then have "and x (not32 MM_GRAN_MASK) = push_bit 4 (and (drop_bit 4 x) (mask 28))" by (simp only: and_push_bit_nat)
  also have "\<dots> = x div 16 * 16"
    using x by (simp add: push_bit_eq_mult drop_bit_eq_div take_bit_eq_mod flip: take_bit_eq_mask)
  finally show ?thesis .
qed

lemma MM_ALIGN_UP_eq: "MM_ALIGN_UP a = u32 (a + 15) div 16 * 16"
  by (simp add: MM_ALIGN_UP_def and_gran u32_def del: MM_GRAN_MASK_def) (simp add: and_gran [unfolded MM_GRAN_MASK_def] u32_def)

section \<open>Doubly linked lists of nodes\<close>

type_synonym hm = "addr \<rightharpoonup> nat"

text \<open>\<open>dll m p xs q\<close>: the nodes \<open>xs\<close> are linked in both directions, between \<open>p\<close> and \<open>q\<close>.\<close>

fun dll :: "hm \<Rightarrow> addr \<Rightarrow> addr list \<Rightarrow> addr \<Rightarrow> bool" where
  "dll m p [] q \<longleftrightarrow> True"
| "dll m p (x # xs) q \<longleftrightarrow> m (x + 12) = Some p \<and> m (x + 8) = Some (hd (xs @ [q])) \<and> dll m x xs q"

definition lcells :: "addr list \<Rightarrow> addr set" where
  "lcells xs = (\<lambda>x. x + 8) ` set xs \<union> (\<lambda>x. x + 12) ` set xs"

lemma lcells_simps [simp]:
  "lcells [] = {}" "lcells (x # xs) = {x + 8, x + 12} \<union> lcells xs" "lcells (xs @ ys) = lcells xs \<union> lcells ys"
  by (auto simp: lcells_def)

lemma dll_cong: "(\<And>c. c \<in> lcells xs \<Longrightarrow> m' c = m c) \<Longrightarrow> dll m' p xs q = dll m p xs q"
  by (induction xs arbitrary: p) auto

lemma dll_upd [simp]: "c \<notin> lcells xs \<Longrightarrow> dll (m(c \<mapsto> v)) p xs q = dll m p xs q"
  by (rule dll_cong) auto

lemma dll_append: "dll m p (xs @ ys) q \<longleftrightarrow> dll m p xs (hd (ys @ [q])) \<and> dll m (last (p # xs)) ys q"
  by (induction xs arbitrary: p) (auto simp: hd_append)

text \<open>The nodes of a list have different link cells.\<close>

definition links_ok :: "addr list \<Rightarrow> bool" where
  "links_ok xs \<longleftrightarrow> distinct xs \<and> (\<forall>x \<in> set xs. x + 4 \<notin> set xs \<and> 0 < x \<and> x < 2 ^ 32)"

lemma links_ok_sub: "links_ok xs \<Longrightarrow> set ys \<subseteq> set xs \<Longrightarrow> distinct ys \<Longrightarrow> links_ok ys"
  unfolding links_ok_def by blast

lemma links_okD: "links_ok xs \<Longrightarrow> distinct xs" "links_ok xs \<Longrightarrow> x \<in> set xs \<Longrightarrow> 0 < x \<and> x < 2 ^ 32"
  unfolding links_ok_def by blast+

lemma links_ok_parts:
  assumes "links_ok (xs @ b # x # ys)"
  shows "links_ok (xs @ [b])" "links_ok ys" "links_ok (xs @ b # ys)" "0 < b" "b < 2 ^ 32" "0 < x" "x < 2 ^ 32"
proof -
  show "0 < b" "b < 2 ^ 32" "0 < x" "x < 2 ^ 32"
    using links_okD(2) [OF assms, of b] links_okD(2) [OF assms, of x] by simp_all
  show "links_ok (xs @ [b])" "links_ok ys" "links_ok (xs @ b # ys)"
    using links_okD(1) [OF assms] by (intro links_ok_sub [OF assms]; force)+
qed

lemma links_ok_cells:
  assumes "links_ok (xs @ x # ys)"
  shows "x + 8 \<notin> lcells xs" "x + 8 \<notin> lcells ys" "x + 12 \<notin> lcells xs" "x + 12 \<notin> lcells ys"
  using assms by (auto simp: links_ok_def lcells_def add.commute)

text \<open>The link that leaves a segment, and the link that enters it.\<close>

lemma dll_set_next:
  assumes "dll m p (xs @ [b]) q" "links_ok (xs @ [b])"
  shows "dll (m(b + 8 \<mapsto> q')) p (xs @ [b]) q'" "m (b + 8) = Some q"
proof -
  have b: "b + 8 \<notin> lcells xs" using links_ok_cells(1) [of xs b "[]"] assms(2) by simp
  then show "dll (m(b + 8 \<mapsto> q')) p (xs @ [b]) q'" "m (b + 8) = Some q" using assms(1) by (auto simp: dll_append)
qed

lemma dll_set_prev:
  assumes "dll m p (f # xs) q" "links_ok (f # xs)"
  shows "dll (m(f + 12 \<mapsto> p')) p' (f # xs) q"
proof -
  have f: "f + 12 \<notin> lcells xs" using links_ok_cells(4) [of "[]" f xs] assms(2) by simp
  then show ?thesis using assms(1) by auto
qed

lemmas heap_fields = node_size_def node_preceding_def node_flink_def node_blink_def
  set_size_def set_preceding_def set_flink_def set_blink_def

lemma hstore_eq: "hmem s a \<noteq> None \<Longrightarrow> v < 2 ^ 32 \<Longrightarrow> hstore a v s = Some (s\<lparr>hmem := (hmem s)(a \<mapsto> v)\<rparr>)"
  by (auto simp: hstore_def u32_def)

lemma mm_unlink_dll:
  assumes d: "dll (hmem s) p (xs @ b # x # ys) 0" and ok: "links_ok (xs @ b # x # ys)"
  shows "\<exists>m. mm_unlink x s = Some (s\<lparr>hmem := m\<rparr>) \<and> dll m p (xs @ b # ys) 0 \<and>
     (\<forall>c. c \<notin> lcells (xs @ b # ys) \<longrightarrow> m c = hmem s c) \<and> dom m = dom (hmem s)"
proof -
  let ?m = "hmem s"
  have l: "dll ?m p (xs @ [b]) x" "?m (x + 12) = Some b" "?m (x + 8) = Some (hd (ys @ [0]))" "dll ?m x ys 0"
    using d dll_append [of ?m p "xs @ [b]" "x # ys" 0] by auto
  note okl = links_ok_parts [OF ok]
  have bx: "b + 8 \<noteq> x + 8" "b + 8 \<noteq> x + 12" "b + 8 \<notin> lcells ys"
    using links_ok_cells(2) [OF ok] by simp_all
  have bm: "?m (b + 8) = Some x" using dll_set_next(2) [OF l(1) okl(1)] .
  show ?thesis
  proof (cases ys)
    case Nil
    have "mm_unlink x s = Some (s\<lparr>hmem := ?m(b + 8 \<mapsto> 0)\<rparr>)"
      using l(2,3) okl bx bm Nil by (simp add: mm_unlink_def heap_fields debugassert_def hstore_eq)
    moreover have "dll (?m(b + 8 \<mapsto> 0)) p (xs @ [b]) 0" by (rule dll_set_next(1) [OF l(1) okl(1)])
    moreover have "dom (?m(b + 8 \<mapsto> 0)) = dom ?m" using bm by (simp add: insert_absorb domI)
    ultimately show ?thesis using Nil by (intro exI [of _ "?m(b + 8 \<mapsto> 0)"]) simp
  next
    case (Cons f zs)
    let ?m1 = "?m(b + 8 \<mapsto> f)"
    let ?m2 = "?m1(f + 12 \<mapsto> b)"
    have ok': "links_ok ((xs @ [b, x]) @ f # zs)" using ok Cons by simp
    have f: "f \<noteq> 0" "f < 2 ^ 32" "f + 12 \<notin> lcells (xs @ [b])" "f + 12 \<noteq> x + 8"
      using links_okD(2) [OF ok', of f] links_ok_cells(3) [OF ok'] by simp_all
    have fm: "?m (f + 12) = Some x" using l(4) Cons by simp
    have "mm_unlink x s = Some (s\<lparr>hmem := ?m2\<rparr>)"
      using l(2,3) okl bx bm Cons f fm by (simp add: mm_unlink_def heap_fields debugassert_def hstore_eq)
    moreover have "dll ?m1 x ys 0" using l(4) bx(3) by simp
    then have "dll ?m2 b ys 0" using dll_set_prev [of ?m1 x f zs 0 b] okl(2) Cons by simp
    moreover have "dll ?m2 p (xs @ [b]) f" using f(3) dll_set_next(1) [OF l(1) okl(1)] by simp
    ultimately have "mm_unlink x s = Some (s\<lparr>hmem := ?m2\<rparr>)" "dll ?m2 p (xs @ b # ys) 0"
      using Cons dll_append [of ?m2 p "xs @ [b]" ys 0] by simp_all
    moreover have "dom ?m2 = dom ?m" using bm fm by (simp add: insert_absorb domI)
    moreover have "\<forall>c. c \<notin> lcells (xs @ b # ys) \<longrightarrow> ?m2 c = ?m c" using Cons by simp
    ultimately show ?thesis by blast
  qed
qed

lemma mm_link_dll:
  assumes d: "dll (hmem s) p (xs @ b # ys) 0" and ok: "links_ok (xs @ b # x # ys)"
    and x: "hmem s (x + 8) \<noteq> None" "hmem s (x + 12) \<noteq> None"
  defines "f \<equiv> hd (ys @ [0])"
  shows "\<exists>m. do { s \<leftarrow> set_flink b x s; s \<leftarrow> set_blink x b s; s \<leftarrow> set_flink x f s;
         if f \<noteq> NULL then set_blink f x s else Some s } = Some (s\<lparr>hmem := m\<rparr>) \<and>
     dll m p (xs @ b # x # ys) 0 \<and> (\<forall>c. c \<notin> lcells (xs @ b # x # ys) \<longrightarrow> m c = hmem s c) \<and> dom m = dom (hmem s)"
proof -
  let ?m = "hmem s"
  have l: "dll ?m p (xs @ [b]) f" "dll ?m b ys 0"
    using d dll_append [of ?m p "xs @ [b]" ys 0] by (auto simp: f_def)
  note okl = links_ok_parts [OF ok]
  have c: "b + 8 \<notin> lcells (x # ys)" "x + 8 \<notin> lcells (xs @ [b])" "x + 12 \<notin> lcells (xs @ [b])"
    "x + 8 \<notin> lcells ys" "x + 12 \<notin> lcells ys" "x + 8 \<noteq> x + 12"
  proof -
    have ok': "links_ok ((xs @ [b]) @ x # ys)" using ok by simp
    show "b + 8 \<notin> lcells (x # ys)" by (rule links_ok_cells(2) [OF ok])
    show "x + 8 \<notin> lcells (xs @ [b])" "x + 12 \<notin> lcells (xs @ [b])" "x + 8 \<notin> lcells ys" "x + 12 \<notin> lcells ys"
      by (rule links_ok_cells(1,3,2,4) [OF ok'])+
  qed simp
  have bm: "?m (b + 8) = Some f" using dll_set_next(2) [OF l(1) okl(1)] .
  let ?m1 = "?m(b + 8 \<mapsto> x, x + 12 \<mapsto> b, x + 8 \<mapsto> f)"
  have d1: "dll ?m1 p (xs @ [b]) x" using dll_set_next(1) [OF l(1) okl(1), of x] c by simp
  have e1: "dll ?m1 b ys 0" "?m1 (x + 8) = Some f" "?m1 (x + 12) = Some b" using l(2) c by simp_all
  have f32: "f < 2 ^ 32" using links_okD(2) [OF okl(2), of f] by (cases ys) (simp_all add: f_def)
  show ?thesis
  proof (cases ys)
    case Nil
    have "dll ?m1 p (xs @ b # x # ys) 0" using d1 e1 Nil dll_append [of ?m1 p "xs @ [b]" "[x]" 0] by (simp add: f_def)
    moreover have "dom ?m1 = dom ?m" using bm x by (simp add: insert_absorb domI domIff)
    moreover have "do { s \<leftarrow> set_flink b x s; s \<leftarrow> set_blink x b s; s \<leftarrow> set_flink x f s;
         if f \<noteq> NULL then set_blink f x s else Some s } = Some (s\<lparr>hmem := ?m1\<rparr>)"
      using bm x c okl f32 Nil by (simp add: heap_fields hstore_eq f_def)
    moreover have "\<forall>c. c \<notin> lcells (xs @ b # x # ys) \<longrightarrow> ?m1 c = ?m c" by simp
    ultimately show ?thesis by blast
  next
    case (Cons g zs)
    let ?m2 = "?m1(f + 12 \<mapsto> x)"
    have g: "f = g" "f \<noteq> 0" "f + 12 \<notin> lcells (xs @ [b])" "f + 12 \<noteq> x + 8" "f + 12 \<noteq> x + 12" "f + 12 \<noteq> b + 8"
    proof -
      show g: "f = g" using Cons by (simp add: f_def)
      have ok': "links_ok ((xs @ [b, x]) @ f # zs)" using ok Cons g by simp
      then show "f \<noteq> 0" using links_okD(2) [of _ f] by fastforce
      have "f + 12 \<notin> lcells (xs @ [b, x])" by (rule links_ok_cells(3) [OF ok'])
      then show "f + 12 \<notin> lcells (xs @ [b])" "f + 12 \<noteq> x + 8" "f + 12 \<noteq> x + 12" "f + 12 \<noteq> b + 8" by simp_all
    qed
    have fm: "?m (f + 12) = Some b" using l(2) Cons g by simp
    have "dll ?m2 x ys 0" using dll_set_prev [of ?m1 b f zs 0 x] e1(1) okl(2) Cons g(1) by simp
    moreover have "dll ?m2 p (xs @ [b]) x" using d1 g(3) by simp
    ultimately have "dll ?m2 p (xs @ b # x # ys) 0"
      using e1 g dll_append [of ?m2 p "xs @ [b]" "x # ys" 0] Cons by (simp add: f_def)
    moreover have "do { s \<leftarrow> set_flink b x s; s \<leftarrow> set_blink x b s; s \<leftarrow> set_flink x f s;
         if f \<noteq> NULL then set_blink f x s else Some s } = Some (s\<lparr>hmem := ?m2\<rparr>)"
      using bm x c okl f32 g fm by (simp add: heap_fields hstore_eq)
    moreover have "\<forall>c. c \<notin> lcells (xs @ b # x # ys) \<longrightarrow> ?m2 c = ?m c" using Cons g(1) by simp
    moreover have "dom ?m2 = dom ?m" using bm x fm by (simp add: insert_absorb domI domIff)
    ultimately show ?thesis by blast
  qed
qed

section \<open>Searching\<close>

lemma search_end:
  "mm_addfreechunk_search s n prev NULL = Some (prev, NULL)" "mm_malloc_search s n NULL = Some NULL"
  by (simp_all add: mm_addfreechunk_search.simps [of s n prev NULL] mm_malloc_search.simps [of s n NULL])

lemma mm_addfreechunk_search_eq:
  assumes "dll (hmem s) prev xs 0" "\<forall>x \<in> set xs. 0 < x \<and> hmem s x = Some (f x)"
  fixes n
  defines "P \<equiv> \<lambda>x. f x \<noteq> 0 \<and> f x < n"
  shows "mm_addfreechunk_search s n prev (hd (xs @ [0])) =
     Some (last (prev # takeWhile P xs), hd (dropWhile P xs @ [0]))"
  using assms(1,2)
proof (induction xs arbitrary: prev)
  case Nil
  then show ?case by (simp add: search_end)
next
  case (Cons x xs)
  then have "mm_addfreechunk_search s n x (hd (xs @ [0])) = Some (last (x # takeWhile P xs), hd (dropWhile P xs @ [0]))"
    by simp
  with Cons.prems show ?case
    by (subst mm_addfreechunk_search.simps) (simp add: heap_fields P_def)
qed

lemma mm_malloc_search_eq:
  assumes "dll (hmem s) prev xs 0" "\<forall>x \<in> set xs. 0 < x \<and> hmem s x = Some (f x)"
  shows "mm_malloc_search s n (hd (xs @ [0])) = Some (hd (dropWhile (\<lambda>x. f x < n) xs @ [0]))"
  using assms
proof (induction xs arbitrary: prev)
  case Nil
  then show ?case by (simp add: search_end)
next
  case (Cons x xs)
  then have "mm_malloc_search s n (hd (xs @ [0])) = Some (hd (dropWhile (\<lambda>x. f x < n) xs @ [0]))"
    using Cons.IH [of x] by simp
  with Cons.prems show ?case by (subst mm_malloc_search.simps) (simp add: heap_fields)
qed

section \<open>The lists of free nodes\<close>

text \<open>\<open>B i\<close> are the free nodes between \<^verbatim>\<open>mm_nodelist[i]\<close> and its successor.\<close>

definition flist :: "addr \<Rightarrow> (nat \<Rightarrow> addr list) \<Rightarrow> nat list \<Rightarrow> addr list" where
  "flist nl B is = concat (map (\<lambda>i. (nl + 16 * i) # B i) is)"

lemma flist_simps [simp]:
  "flist nl B [] = []" "flist nl B (i # is) = (nl + 16 * i) # B i @ flist nl B is"
  "flist nl B (is @ js) = flist nl B is @ flist nl B js"
  by (simp_all add: flist_def)

lemma flist_cong: "(\<And>i. i \<in> set is \<Longrightarrow> B i = C i) \<Longrightarrow> flist nl B is = flist nl C is"
  by (simp add: flist_def cong: map_cong)

lemma flist_upd [simp]: "i \<notin> set is \<Longrightarrow> flist nl (B(i := xs)) is = flist nl B is"
  by (rule flist_cong) auto

lemma flist_split: "i < n \<Longrightarrow> flist nl B [0..<n] = flist nl B [0..<i] @ (nl + 16 * i) # B i @ flist nl B [Suc i..<n]"
proof -
  assume "i < n"
  then have "[0..<n] = [0..<i] @ i # [Suc i..<n]"
    by (metis less_imp_add_positive upt_add_eq_append upt_conv_Cons zero_le less_imp_le_nat le0)
  then show ?thesis by simp
qed

lemma set_flist: "set (flist nl B is) = (\<lambda>i. nl + 16 * i) ` set is \<union> (\<Union>i \<in> set is. set (B i))"
  by (auto simp: flist_def)

text \<open>
  \<open>free_rep s B F\<close>: the free lists hold the nodes of \<open>F\<close>, a set of addresses and sizes, each in the
  list for its size and each list in the order of the sizes.
\<close>

definition arena_ok :: "'a hpstate_scheme \<Rightarrow> bool" where
  "arena_ok s \<longleftrightarrow> (let st = mm_heapstart (heap s); e = mm_heapend (heap s); nl = mm_nodelist (heap s) in
     0 < st \<and> st mod 16 = 0 \<and> e mod 16 = 8 \<and> st < e \<and> e + 8 < 2 ^ 32 \<and> e - st < 2 ^ 31 \<and>
     0 < nl \<and> nl mod 4 = 0 \<and> nl + 16 * MM_NNODES < 2 ^ 32 \<and> (nl + 16 * MM_NNODES \<le> st \<or> e + 8 \<le> nl) \<and>
     (\<forall>c. c mod 4 = 0 \<and> (st \<le> c \<and> c < e + 8 \<or> nl \<le> c \<and> c < nl + 16 * MM_NNODES) \<longrightarrow> hmem s c \<noteq> None))"

definition in_arena :: "'a hpstate_scheme \<Rightarrow> addr \<Rightarrow> bool" where
  "in_arena s x \<longleftrightarrow> x mod 16 = 8 \<and> mm_heapstart (heap s) < x \<and> x < mm_heapend (heap s)"

definition free_lists :: "'a hpstate_scheme \<Rightarrow> (nat \<Rightarrow> addr list) \<Rightarrow> (addr \<times> nat) set \<Rightarrow> bool" where
  "free_lists s B F \<longleftrightarrow>
     (\<forall>i < MM_NNODES. distinct (B i) \<and> sorted (map (\<lambda>x. the (hmem s x)) (B i)) \<and>
        set (B i) = {x. \<exists>n. (x, n) \<in> F \<and> mm_size2ndx n = i}) \<and>
     (\<forall>(x, n) \<in> F. in_arena s x \<and> hmem s x = Some n \<and> 0 < n)"

definition free_rep :: "'a hpstate_scheme \<Rightarrow> (nat \<Rightarrow> addr list) \<Rightarrow> (addr \<times> nat) set \<Rightarrow> bool" where
  "free_rep s B F \<longleftrightarrow> free_lists s B F \<and>
     dll (hmem s) 0 (flist (mm_nodelist (heap s)) B [0..<MM_NNODES]) 0 \<and>
     (\<forall>i < MM_NNODES. hmem s (nodelist s i) = Some 0)"

text \<open>Chunks begin eight bytes behind a multiple of sixteen.\<close>

lemma mod16E:
  fixes x :: nat
  assumes "x mod 16 = 8"
  obtains q where "x = 16 * q + 8"
  using assms mult_div_mod_eq [of 16 x] by metis

lemma mod16_less:
  fixes x y :: nat
  assumes "x mod 16 = 8" "y mod 16 = 8" "x < y"
  shows "x + 16 \<le> y"
proof -
  obtain q r where "x = 16 * q + 8" "y = 16 * r + 8" using mod16E [OF assms(1)] mod16E [OF assms(2)] by metis
  then show ?thesis using assms(3) by simp
qed

lemma arena_mem:
  assumes "arena_ok s" "in_arena s x"
  shows "0 < x" "x < 2 ^ 32" "k \<in> {0, 4, 8, 12} \<Longrightarrow> hmem s (x + k) \<noteq> None"
    "i < MM_NNODES \<Longrightarrow> k < 16 \<Longrightarrow> x + j \<noteq> nodelist s i + k \<or> 16 \<le> j"
proof -
  let ?st = "mm_heapstart (heap s)" and ?e = "mm_heapend (heap s)" and ?nl = "mm_nodelist (heap s)"
  have a: "?e mod 16 = 8" "?e + 8 < 2 ^ 32" "?nl + 16 * MM_NNODES \<le> ?st \<or> ?e + 8 \<le> ?nl"
    "\<And>c. c mod 4 = 0 \<Longrightarrow> ?st \<le> c \<Longrightarrow> c < ?e + 8 \<Longrightarrow> hmem s c \<noteq> None"
    using assms(1) unfolding arena_ok_def Let_def by simp_all
  have x: "x mod 16 = 8" "?st < x" "x < ?e" using assms(2) by (simp_all add: in_arena_def)
  have g: "x + 16 \<le> ?e" by (rule mod16_less [OF x(1) a(1) x(3)])
  show "0 < x" "x < 2 ^ 32" using x a(2) by simp_all
  show "hmem s (x + k) \<noteq> None" if "k \<in> {0, 4, 8, 12}"
  proof (rule a(4))
    obtain q where "x = 16 * q + 8" by (rule mod16E [OF x(1)])
    then have "4 dvd x" by (simp add: dvd_add dvd_mult2)
    moreover have "4 dvd k" using that by auto
    ultimately show "(x + k) mod 4 = 0" by (simp add: mod_eq_0_iff_dvd)
    show "?st \<le> x + k" "x + k < ?e + 8" using x g that by auto
  qed
  show "i < MM_NNODES \<Longrightarrow> k < 16 \<Longrightarrow> x + j \<noteq> nodelist s i + k \<or> 16 \<le> j"
    using a(3) x g by (auto simp: nodelist_def)
qed

lemma free_listsD:
  assumes "free_lists s B F"
  shows "i < MM_NNODES \<Longrightarrow> distinct (B i)" "i < MM_NNODES \<Longrightarrow> sorted (map (\<lambda>x. the (hmem s x)) (B i))"
    "i < MM_NNODES \<Longrightarrow> x \<in> set (B i) \<Longrightarrow> \<exists>n. (x, n) \<in> F \<and> mm_size2ndx n = i"
    "(x, n) \<in> F \<Longrightarrow> mm_size2ndx n < MM_NNODES \<Longrightarrow> x \<in> set (B (mm_size2ndx n))"
    "(x, n) \<in> F \<Longrightarrow> in_arena s x" "(x, n) \<in> F \<Longrightarrow> hmem s x = Some n" "(x, n) \<in> F \<Longrightarrow> 0 < n"
  using assms unfolding free_lists_def by (blast | auto)+

lemma free_listsI:
  assumes "\<And>j. j < MM_NNODES \<Longrightarrow> set (B j) = {y. \<exists>k. (y, k) \<in> F \<and> mm_size2ndx k = j}"
    "\<And>j. j < MM_NNODES \<Longrightarrow> distinct (B j) \<and> sorted (map (\<lambda>x. the (hmem s x)) (B j))"
    "\<And>y k. (y, k) \<in> F \<Longrightarrow> in_arena s y \<and> hmem s y = Some k \<and> 0 < k"
  shows "free_lists s B F"
  using assms unfolding free_lists_def by blast

lemma mm_size2ndx_loop_bound: "n < 2 ^ Suc k \<Longrightarrow> mm_size2ndx_loop n j \<le> j + k"
proof (induction n j arbitrary: k rule: mm_size2ndx_loop.induct)
  case (1 n j)
  show ?case
  proof (cases "n > 1")
    case True
    then obtain l where k: "k = Suc l" using 1(2) by (cases k) auto
    have "mm_size2ndx_loop (n div 2) (j + 1) \<le> (j + 1) + l" by (rule 1(1) [OF True]) (use 1(2) k in auto)
    then show ?thesis using True k by (subst mm_size2ndx_loop.simps) simp
  qed (subst mm_size2ndx_loop.simps, simp)
qed

lemma mm_size2ndx_bound: "mm_size2ndx n < MM_NNODES"
proof (cases "n < 2 ^ 22")
  case True
  then have "mm_size2ndx_loop (n div 16) 0 \<le> 0 + 17" by (intro mm_size2ndx_loop_bound) simp
  then show ?thesis using True by (simp add: mm_size2ndx_def)
qed (simp add: mm_size2ndx_def)

lemma free_flist_cases:
  assumes "free_lists s B F" "x \<in> set (flist (mm_nodelist (heap s)) B [0..<MM_NNODES])"
  obtains i where "i < MM_NNODES" "x = nodelist s i" | n where "(x, n) \<in> F"
proof -
  consider i where "i < MM_NNODES" "x = nodelist s i" | i where "i < MM_NNODES" "x \<in> set (B i)"
    using assms(2) by (auto simp: set_flist nodelist_def)
  then show thesis by cases (use that free_listsD(3) [OF assms(1)] in blast)+
qed

lemma distinct_flist:
  assumes "distinct is" "\<And>i. i \<in> set is \<Longrightarrow> distinct (B i)"
    "\<And>i j. i \<in> set is \<Longrightarrow> j \<in> set is \<Longrightarrow> i \<noteq> j \<Longrightarrow> set (B i) \<inter> set (B j) = {}"
    "\<And>i j. i \<in> set is \<Longrightarrow> j \<in> set is \<Longrightarrow> nl + 16 * i \<notin> set (B j)"
  shows "distinct (flist nl B is)"
  using assms
proof (induction "is")
  case (Cons i "is")
  then have "distinct (flist nl B is)" by simp
  moreover have "nl + 16 * i \<notin> set (flist nl B is)" using Cons.prems by (auto simp: set_flist)
  moreover have "set (B i) \<inter> set (flist nl B is) = {}" using Cons.prems by (fastforce simp: set_flist)
  ultimately show ?case using Cons.prems by simp
qed simp

lemma nodelist_ok:
  assumes "arena_ok s" "i < MM_NNODES"
  shows "0 < nodelist s i" "nodelist s i < 2 ^ 32" "nodelist s i + 4 \<noteq> nodelist s j"
    "k \<in> {0, 4, 8, 12} \<Longrightarrow> hmem s (nodelist s i + k) \<noteq> None"
proof -
  let ?nl = "mm_nodelist (heap s)"
  have a: "0 < ?nl" "?nl mod 4 = 0" "?nl + 16 * MM_NNODES < 2 ^ 32"
    "\<And>c. c mod 4 = 0 \<Longrightarrow> ?nl \<le> c \<Longrightarrow> c < ?nl + 16 * MM_NNODES \<Longrightarrow> hmem s c \<noteq> None"
    using assms(1) unfolding arena_ok_def Let_def by simp_all
  show "0 < nodelist s i" "nodelist s i < 2 ^ 32" using a assms(2) by (simp_all add: nodelist_def)
  show "nodelist s i + 4 \<noteq> nodelist s j" unfolding nodelist_def SIZEOF_MM_FREENODE_def SIZEOF_MM_ALLOCNODE_def by presburger
  show "hmem s (nodelist s i + k) \<noteq> None" if "k \<in> {0, 4, 8, 12}"
  proof (rule a(4))
    have "k = 0 \<or> k = 4 \<or> k = 8 \<or> k = 12" using that by blast
    then show "(nodelist s i + k) mod 4 = 0"
      using a(2) unfolding nodelist_def SIZEOF_MM_FREENODE_def SIZEOF_MM_ALLOCNODE_def by presburger
    show "?nl \<le> nodelist s i + k" "nodelist s i + k < ?nl + 16 * MM_NNODES"
      using that assms(2) by (auto simp: nodelist_def)
  qed
qed

lemma free_lists_disjoint:
  assumes f: "free_lists s B F" and i: "i < MM_NNODES" "j < MM_NNODES" "x \<in> set (B i)" "x \<in> set (B j)"
  shows "i = j"
proof -
  obtain n k where "(x, n) \<in> F" "mm_size2ndx n = i" "(x, k) \<in> F" "mm_size2ndx k = j"
    using free_listsD(3) [OF f i(1,3)] free_listsD(3) [OF f i(2,4)] by blast
  then show ?thesis using free_listsD(6) [OF f] by (metis option.inject)
qed

lemma free_node_nodelist:
  assumes "arena_ok s" "free_lists s B F" "(x, n) \<in> F" "i < MM_NNODES" "k < 16" "j < 16"
  shows "x + j \<noteq> nodelist s i + k"
  using arena_mem(4) [OF assms(1) free_listsD(5) [OF assms(2,3)] assms(4,5), of j] assms(6) by simp

lemma free_links_ok:
  assumes a: "arena_ok s" and f: "free_lists s B F"
  shows "links_ok (flist (mm_nodelist (heap s)) B [0..<MM_NNODES])"
proof -
  let ?L = "flist (mm_nodelist (heap s)) B [0..<MM_NNODES]"
  note fl = free_listsD [OF f] and nn = free_node_nodelist [OF a f]
  have d: "distinct ?L"
  proof (rule distinct_flist)
    show "set (B i) \<inter> set (B j) = {}" if "i \<in> set [0..<MM_NNODES]" "j \<in> set [0..<MM_NNODES]" "i \<noteq> j" for i j
      using that free_lists_disjoint [OF f, of i j] by auto
    show "mm_nodelist (heap s) + 16 * i \<notin> set (B j)" if i: "i \<in> set [0..<MM_NNODES]" "j \<in> set [0..<MM_NNODES]" for i j
    proof
      assume x: "mm_nodelist (heap s) + 16 * i \<in> set (B j)"
      obtain n where "(mm_nodelist (heap s) + 16 * i, n) \<in> F" using fl(3) [OF _ x] i(2) by auto
      from nn [OF this, of i 0 0] i(1) show False by (simp add: nodelist_def)
    qed
  qed (use fl(1) in auto)
  have "x + 4 \<notin> set ?L \<and> 0 < x \<and> x < 2 ^ 32" if x: "x \<in> set ?L" for x
  proof (rule free_flist_cases [OF f x])
    fix i assume i: "i < MM_NNODES" "x = nodelist s i"
    have "x + 4 \<notin> set ?L"
    proof
      assume y: "x + 4 \<in> set ?L"
      show False
        by (rule free_flist_cases [OF f y]) (use i nodelist_ok(3) [OF a i(1)] nn [OF _ i(1), of "x + 4" _ 4 0] in auto)
    qed
    then show ?thesis using nodelist_ok(1,2) [OF a i(1)] i(2) by simp
  next
    fix n assume n: "(x, n) \<in> F"
    have "x + 4 \<notin> set ?L"
    proof
      assume y: "x + 4 \<in> set ?L"
      show False
      proof (rule free_flist_cases [OF f y])
        fix i assume "i < MM_NNODES" "x + 4 = nodelist s i"
        then show False using nn [OF n, of i 0 4] by simp
      next
        fix k assume k: "(x + 4, k) \<in> F"
        have "x mod 16 = 8" "(x + 4) mod 16 = 8" using fl(5) [OF n] fl(5) [OF k] by (simp_all add: in_arena_def)
        then show False using mod16_less [of x "x + 4"] by simp
      qed
    qed
    then show ?thesis using arena_mem(1,2) [OF a fl(5) [OF n]] by simp
  qed
  with d show ?thesis by (simp add: links_ok_def)
qed

text \<open>The cells that changes of the lists may write, and the cells of the headers, which they do not.\<close>

definition link_cells :: "'a hpstate_scheme \<Rightarrow> (addr \<times> nat) set \<Rightarrow> addr set" where
  "link_cells s F = {c. \<exists>i < MM_NNODES. c = nodelist s i + 8 \<or> c = nodelist s i + 12} \<union>
     {c. \<exists>(x, n) \<in> F. c = x + 8 \<or> c = x + 12}"

definition header_cell :: "'a hpstate_scheme \<Rightarrow> addr \<Rightarrow> bool" where
  "header_cell s c \<longleftrightarrow> (\<exists>x k. c = x + k \<and> (k = 0 \<or> k = 4) \<and>
     ((x mod 16 = 8 \<and> mm_heapstart (heap s) < x \<and> x \<le> mm_heapend (heap s)) \<or> x = mm_heapstart (heap s) \<or>
      (\<exists>i < MM_NNODES. x = nodelist s i)))"

lemma lcells_flist:
  assumes "free_lists s B F" "c \<in> lcells (flist (mm_nodelist (heap s)) B [0..<MM_NNODES])"
  shows "c \<in> link_cells s F"
proof -
  obtain x where x: "x \<in> set (flist (mm_nodelist (heap s)) B [0..<MM_NNODES])" "c = x + 8 \<or> c = x + 12"
    using assms(2) by (auto simp: lcells_def)
  show ?thesis
    by (rule free_flist_cases [OF assms(1) x(1)]) (use x(2) in \<open>auto simp: link_cells_def\<close>)
qed

lemma nodelist_outside:
  assumes "arena_ok s" "i < MM_NNODES" "mm_heapstart (heap s) \<le> c" "c < mm_heapend (heap s) + 8" "k < 16"
  shows "nodelist s i + k \<noteq> c"
  using assms unfolding arena_ok_def Let_def nodelist_def by auto

lemma header_cell_cases:
  assumes "arena_ok s" "header_cell s c"
  obtains "mm_heapstart (heap s) \<le> c" "c < mm_heapend (heap s) + 8" "c mod 16 = 8 \<or> c mod 16 = 12 \<or> c < mm_heapstart (heap s) + 8"
    | i k where "i < MM_NNODES" "c = nodelist s i + k" "k = 0 \<or> k = 4"
proof -
  have st: "mm_heapstart (heap s) < mm_heapend (heap s)" using assms(1) by (simp add: arena_ok_def Let_def)
  from assms(2) obtain x k where x: "c = x + k" "k = 0 \<or> k = 4"
    "(x mod 16 = 8 \<and> mm_heapstart (heap s) < x \<and> x \<le> mm_heapend (heap s)) \<or> x = mm_heapstart (heap s) \<or>
      (\<exists>i < MM_NNODES. x = nodelist s i)"
    unfolding header_cell_def by blast
  from x(3) show thesis
  proof (elim disjE exE conjE)
    assume h: "x mod 16 = 8" "mm_heapstart (heap s) < x" "x \<le> mm_heapend (heap s)"
    obtain q where "x = 16 * q + 8" using mod16E [OF h(1)] .
    then have "c mod 16 = 8 \<or> c mod 16 = 12" using x(1,2) by auto
    then show thesis using h x(1,2) that(1) by auto
  next
    assume "x = mm_heapstart (heap s)"
    then show thesis using x(1,2) st that(1) by auto
  next
    fix i assume "i < MM_NNODES" "x = nodelist s i"
    then show thesis using x(1,2) that(2) by blast
  qed
qed

lemma link_cells_cases:
  assumes "free_lists s B F" "c \<in> link_cells s F"
  obtains i k where "i < MM_NNODES" "c = nodelist s i + k" "k = 8 \<or> k = 12"
    | y n k where "(y, n) \<in> F" "c = y + k" "k = 8 \<or> k = 12"
  using assms(2) that unfolding link_cells_def by blast

lemma header_cell_not_link:
  assumes a: "arena_ok s" and f: "free_lists s B F" and h: "header_cell s c"
  shows "c \<notin> link_cells s F"
proof
  assume c: "c \<in> link_cells s F"
  show False
  proof (rule link_cells_cases [OF f c])
    fix i k assume l: "i < MM_NNODES" "c = nodelist s i + k" "k = 8 \<or> k = 12"
    show False
    proof (rule header_cell_cases [OF a h])
      assume "mm_heapstart (heap s) \<le> c" "c < mm_heapend (heap s) + 8"
      then show False using nodelist_outside [OF a l(1), of c k] l(2,3) by auto
    next
      fix j k' assume "c = nodelist s j + k'" "k' = 0 \<or> k' = 4"
      then have "16 * j + k' = 16 * i + k" using l(2) by (simp add: nodelist_def)
      then have "(16 * j + k') mod 16 = (16 * i + k) mod 16" by simp
      then show False using \<open>k' = 0 \<or> k' = 4\<close> l(3) by auto
    qed
  next
    fix y n k assume l: "(y, n) \<in> F" "c = y + k" "k = 8 \<or> k = 12"
    have y: "y mod 16 = 8" "mm_heapstart (heap s) < y" using free_listsD(5) [OF f l(1)] by (simp_all add: in_arena_def)
    show False
    proof (rule header_cell_cases [OF a h])
      assume "c mod 16 = 8 \<or> c mod 16 = 12 \<or> c < mm_heapstart (heap s) + 8"
      moreover have "\<not> c < mm_heapstart (heap s) + 8" using y(2) l(2,3) by auto
      moreover obtain q where "y = 16 * q + 8" using mod16E [OF y(1)] .
      ultimately show False using l(2,3) by auto
    next
      fix i k' assume "i < MM_NNODES" "c = nodelist s i + k'" "k' = 0 \<or> k' = 4"
      then show False using free_node_nodelist [OF a f l(1), of i k' k] l(2,3) by auto
    qed
  qed
qed

lemma header_cellI:
  "in_arena s x \<Longrightarrow> header_cell s x" "in_arena s x \<Longrightarrow> header_cell s (x + 4)"
  "i < MM_NNODES \<Longrightarrow> header_cell s (nodelist s i)"
  unfolding header_cell_def in_arena_def by (metis add_0_right less_imp_le)+

text \<open>A change outside the headers keeps the order of the lists.\<close>

lemma free_lists_cong:
  assumes "free_lists s B F" "\<And>x n. (x, n) \<in> F \<Longrightarrow> hmem s' x = hmem s x" "heap s' = heap s"
  shows "free_lists s' B F"
proof -
  note f = free_listsD [OF assms(1)]
  have "map (\<lambda>x. the (hmem s' x)) (B i) = map (\<lambda>x. the (hmem s x)) (B i)" if "i < MM_NNODES" for i
    using f(3) [OF that] assms(2) by (intro map_cong refl) metis
  then have "sorted (map (\<lambda>x. the (hmem s' x)) (B i))" if "i < MM_NNODES" for i using f(2) [OF that] that by metis
  moreover have "in_arena s' = in_arena s" using assms(3) by (simp add: in_arena_def fun_eq_iff)
  moreover have "in_arena s x \<and> hmem s' x = Some n \<and> 0 < n" if "(x, n) \<in> F" for x n using f(5-7) [OF that] assms(2) [OF that] by simp
  moreover have "set (B i) = {x. \<exists>n. (x, n) \<in> F \<and> mm_size2ndx n = i}" if "i < MM_NNODES" for i
    using assms(1) that unfolding free_lists_def by blast
  ultimately show ?thesis using f(1) unfolding free_lists_def by auto
qed

lemma free_rep_frame:
  assumes r: "free_rep s B F" and a: "arena_ok s"
    and m: "\<And>c. c \<notin> link_cells s G \<Longrightarrow> m c = hmem s c" and g: "free_lists s B' G"
    and d: "dll m 0 (flist (mm_nodelist (heap s)) B' [0..<MM_NNODES]) 0"
  shows "free_rep (s\<lparr>hmem := m\<rparr>) B' G"
proof -
  have h: "m c = hmem s c" if "header_cell s c" for c using m header_cell_not_link [OF a g that] by blast
  have "free_lists (s\<lparr>hmem := m\<rparr>) B' G"
    by (rule free_lists_cong [OF g]) (use h header_cellI(1) [OF free_listsD(5) [OF g]] in auto)
  moreover have "m (nodelist s i) = Some 0" if "i < MM_NNODES" for i
    using h header_cellI(3) [OF that, of s] r that by (simp add: free_rep_def)
  ultimately show ?thesis using d by (simp add: free_rep_def nodelist_def)
qed

lemma free_lists_remove:
  assumes f: "free_lists s B F" and x: "(x, n) \<in> F"
  defines "i \<equiv> mm_size2ndx n"
  shows "free_lists s (B(i := remove1 x (B i))) (F - {(x, n)})"
proof -
  note fl = free_listsD [OF f]
  have i: "i < MM_NNODES" using mm_size2ndx_bound by (simp add: i_def)
  have u: "k = n" if "(x, k) \<in> F" for k using fl(6) [OF that] fl(6) [OF x] by simp
  have B: "y \<in> set (B j) \<longleftrightarrow> (\<exists>k. (y, k) \<in> F \<and> mm_size2ndx k = j)" if "j < MM_NNODES" for y j
    using f that unfolding free_lists_def by blast
  have "y \<in> set ((B(i := remove1 x (B i))) j) \<longleftrightarrow> (\<exists>k. (y, k) \<in> F - {(x, n)} \<and> mm_size2ndx k = j)"
    if j: "j < MM_NNODES" for y j
  proof (cases "j = i")
    case True
    then have "y \<in> set ((B(i := remove1 x (B i))) j) \<longleftrightarrow> y \<noteq> x \<and> y \<in> set (B i)" using fl(1) [OF i] by auto
    then show ?thesis using B [OF i] u True by blast
  next
    case False
    then show ?thesis using B [OF j] i_def by auto
  qed
  then have "set ((B(i := remove1 x (B i))) j) = {y. \<exists>k. (y, k) \<in> F - {(x, n)} \<and> mm_size2ndx k = j}"
    if "j < MM_NNODES" for j using that by blast
  moreover have "distinct ((B(i := remove1 x (B i))) j) \<and> sorted (map (\<lambda>x. the (hmem s x)) ((B(i := remove1 x (B i))) j))"
    if "j < MM_NNODES" for j
    using fl(1,2) [OF that] fl(1,2) [OF i] sorted_map_remove1 [of "\<lambda>x. the (hmem s x)" "B i" x] by simp
  moreover have "in_arena s y \<and> hmem s y = Some k \<and> 0 < k" if "(y, k) \<in> F - {(x, n)}" for y k
    using that fl(5-7) [of y k] by blast
  ultimately show ?thesis by (rule free_listsI)
qed

lemma mm_unlink_free:
  assumes a: "arena_ok s" and r: "free_rep s B F" and x: "(x, n) \<in> F"
  shows "\<exists>m B'. mm_unlink x s = Some (s\<lparr>hmem := m\<rparr>) \<and> free_rep (s\<lparr>hmem := m\<rparr>) B' (F - {(x, n)}) \<and>
     (\<forall>c. c \<notin> link_cells s (F - {(x, n)}) \<longrightarrow> m c = hmem s c) \<and> dom m = dom (hmem s)"
proof -
  let ?nl = "mm_nodelist (heap s)"
  define i where "i = mm_size2ndx n"
  have f: "free_lists s B F" and d: "dll (hmem s) 0 (flist ?nl B [0..<MM_NNODES]) 0"
    using r by (simp_all add: free_rep_def)
  have i: "i < MM_NNODES" using mm_size2ndx_bound by (simp add: i_def)
  have "x \<in> set (B i)" using free_listsD(4) [OF f x] i by (simp add: i_def)
  then obtain us vs where B: "B i = us @ x # vs" "x \<notin> set us" by (meson split_list_first)
  obtain xs b where zs: "flist ?nl B [0..<i] @ (?nl + 16 * i) # us = xs @ [b]"
    by (metis append_is_Nil_conv list.distinct(1) rev_exhaust)
  define ys where "ys = vs @ flist ?nl B [Suc i..<MM_NNODES]"
  have L: "flist ?nl B [0..<MM_NNODES] = xs @ b # x # ys"
    using flist_split [OF i, of ?nl B] B(1) arg_cong [OF zs, of "\<lambda>l. l @ x # ys"] by (simp add: ys_def)
  let ?B = "B(i := remove1 x (B i))"
  have "remove1 x (B i) = us @ vs" using B by (simp add: remove1_append)
  then have L': "flist ?nl ?B [0..<MM_NNODES] = xs @ b # ys"
    using flist_split [OF i, of ?nl ?B] arg_cong [OF zs, of "\<lambda>l. l @ ys"] by (simp add: ys_def)
  have g: "free_lists s ?B (F - {(x, n)})" using free_lists_remove [OF f x] by (simp add: i_def)
  obtain m where m: "mm_unlink x s = Some (s\<lparr>hmem := m\<rparr>)" "dll m 0 (xs @ b # ys) 0"
     "\<forall>c. c \<notin> lcells (xs @ b # ys) \<longrightarrow> m c = hmem s c" "dom m = dom (hmem s)"
    using mm_unlink_dll [of s 0 xs b x ys] d free_links_ok [OF a f] unfolding L by blast
  have fr: "m c = hmem s c" if "c \<notin> link_cells s (F - {(x, n)})" for c
    using m(3) that lcells_flist [OF g, of c] unfolding L' by blast
  have "free_rep (s\<lparr>hmem := m\<rparr>) ?B (F - {(x, n)})"
    by (rule free_rep_frame [OF r a fr g]) (use m(2) L' in simp_all)
  then show ?thesis using m(1,4) fr by blast
qed

lemma set_insert_before: "set (takeWhile P xs @ x # dropWhile P xs) = insert x (set xs)"
  by (metis Un_insert_right list.simps(15) set_append takeWhile_dropWhile_id)

lemma sorted_insert_before:
  assumes "sorted (map f xs)"
  shows "sorted (map f (takeWhile (\<lambda>y. f y < f x) xs @ x # dropWhile (\<lambda>y. f y < f x) xs))"
  using assms
proof (induction xs)
  case (Cons y xs)
  show ?case
  proof (cases "f y < f x")
    case True
    let ?l = "takeWhile (\<lambda>y. f y < f x) xs @ x # dropWhile (\<lambda>y. f y < f x) xs"
    have "\<forall>z \<in> set ?l. f y \<le> f z" unfolding set_insert_before using Cons.prems True by simp
    moreover have "sorted (map f ?l)" using Cons by simp
    ultimately have "sorted (map f (y # ?l))" by (simp only: list.map sorted_simps(2) set_map ball_simps)
    then show ?thesis using True by simp
  next
    case False
    then show ?thesis using Cons.prems by auto
  qed
qed simp

lemma free_lists_insert:
  assumes f: "free_lists s B F" and x: "in_arena s x" "hmem s x = Some n" "0 < n" "\<And>k. (x, k) \<notin> F"
  defines "i \<equiv> mm_size2ndx n" and "P \<equiv> \<lambda>y. the (hmem s y) < n"
  shows "free_lists s (B(i := takeWhile P (B i) @ x # dropWhile P (B i))) (insert (x, n) F)"
proof -
  note fl = free_listsD [OF f]
  let ?l = "takeWhile P (B i) @ x # dropWhile P (B i)"
  define C where "C = B(i := ?l)"
  have i: "i < MM_NNODES" using mm_size2ndx_bound by (simp add: i_def)
  note sl = set_insert_before [of P "B i" x]
  have dl: "distinct ?l"
  proof -
    have "distinct (takeWhile P (B i) @ dropWhile P (B i))" using fl(1) [OF i] by simp
    moreover have "x \<notin> set (takeWhile P (B i) @ dropWhile P (B i))" using fl(3) [OF i] x(4) by fastforce
    ultimately show ?thesis by (metis distinct_append distinct.simps(2) disjoint_insert(1) list.simps(15) set_append Un_iff)
  qed
  have "P = (\<lambda>y. the (hmem s y) < the (hmem s x))" using x(2) by (simp add: P_def)
  then have so: "sorted (map (\<lambda>x. the (hmem s x)) ?l)"
    using sorted_insert_before [OF fl(2) [OF i], of x] by simp
  have B: "y \<in> set (B j) \<longleftrightarrow> (\<exists>k. (y, k) \<in> F \<and> mm_size2ndx k = j)" if "j < MM_NNODES" for y j
    using f that unfolding free_lists_def by blast
  have "y \<in> set (C j) \<longleftrightarrow> (\<exists>k. (y, k) \<in> insert (x, n) F \<and> mm_size2ndx k = j)" if j: "j < MM_NNODES" for y j
  proof (cases "j = i")
    case True
    then have "y \<in> set (C j) \<longleftrightarrow> y = x \<or> y \<in> set (B i)" using sl by (simp add: C_def)
    then show ?thesis using B [OF i] True i_def by blast
  next
    case False
    then show ?thesis using B [OF j] i_def by (auto simp: C_def)
  qed
  then have "set (C j) = {y. \<exists>k. (y, k) \<in> insert (x, n) F \<and> mm_size2ndx k = j}" if "j < MM_NNODES" for j
    using that by blast
  moreover have "distinct (C j) \<and> sorted (map (\<lambda>x. the (hmem s x)) (C j))" if "j < MM_NNODES" for j
    using fl(1,2) [OF that] dl so by (simp add: C_def)
  moreover have "in_arena s y \<and> hmem s y = Some k \<and> 0 < k" if "(y, k) \<in> insert (x, n) F" for y k
  proof (cases "(y, k) \<in> F")
    case True
    then show ?thesis using fl(5-7) by blast
  next
    case False
    then show ?thesis using that x(1-3) by simp
  qed
  ultimately have "free_lists s C (insert (x, n) F)" by (rule free_listsI)
  then show ?thesis by (simp add: C_def)
qed

text \<open>The search for the place of a free node stops at the next node of the array.\<close>

lemma takeWhile_flist:
  assumes h: "\<And>j. j < n \<Longrightarrow> \<not> P (nl + 16 * j)"
  shows "takeWhile P (xs @ flist nl B [Suc i..<n]) = takeWhile P xs"
    "dropWhile P (xs @ flist nl B [Suc i..<n]) = dropWhile P xs @ flist nl B [Suc i..<n]"
proof -
  have e: "takeWhile P (flist nl B [Suc i..<n]) = [] \<and> dropWhile P (flist nl B [Suc i..<n]) = flist nl B [Suc i..<n]"
    using h [of "Suc i"] by (cases "Suc i < n") (simp_all add: upt_conv_Cons)
  show "takeWhile P (xs @ flist nl B [Suc i..<n]) = takeWhile P xs"
    "dropWhile P (xs @ flist nl B [Suc i..<n]) = dropWhile P xs @ flist nl B [Suc i..<n]"
    using e by (induction xs) auto
qed

lemma mm_addfreechunk_free:
  assumes a: "arena_ok s" and r: "free_rep s B F"
    and x: "in_arena s x" "hmem s x = Some n" "0 < n" "\<And>k. (x, k) \<notin> F"
  shows "\<exists>m B'. mm_addfreechunk x s = Some (s\<lparr>hmem := m\<rparr>) \<and> free_rep (s\<lparr>hmem := m\<rparr>) B' (insert (x, n) F) \<and>
     (\<forall>c. c \<notin> link_cells s (insert (x, n) F) \<longrightarrow> m c = hmem s c) \<and> dom m = dom (hmem s)"
proof -
  let ?nl = "mm_nodelist (heap s)"
  define i where "i = mm_size2ndx n"
  define f where "f y = the (hmem s y)" for y
  define P where "P y \<longleftrightarrow> f y \<noteq> 0 \<and> f y < n" for y
  define us vs where uv: "us = takeWhile (\<lambda>y. f y < n) (B i)" "vs = dropWhile (\<lambda>y. f y < n) (B i)"
  let ?rest = "flist ?nl B [Suc i..<MM_NNODES]"
  have fr: "free_lists s B F" and d: "dll (hmem s) 0 (flist ?nl B [0..<MM_NNODES]) 0"
    and hz: "\<And>j. j < MM_NNODES \<Longrightarrow> hmem s (?nl + 16 * j) = Some 0"
    using r by (simp_all add: free_rep_def nodelist_def)
  note fl = free_listsD [OF fr]
  have i: "i < MM_NNODES" using mm_size2ndx_bound by (simp add: i_def)
  have Bi: "B i = us @ vs" by (simp add: uv)
  have pos: "f y \<noteq> 0" if "y \<in> set (B i)" for y using fl(3) [OF i that] fl(6,7) by (fastforce simp: f_def)
  have tw: "takeWhile P (B i) = us" "dropWhile P (B i) = vs"
    unfolding uv P_def using pos by (auto intro!: takeWhile_cong dropWhile_cong)
  have L: "flist ?nl B [0..<MM_NNODES] = (flist ?nl B [0..<i] @ [?nl + 16 * i]) @ B i @ ?rest"
    using flist_split [OF i, of ?nl B] by simp
  have dn: "dll (hmem s) (?nl + 16 * i) (B i @ ?rest) 0" "hmem s (?nl + 16 * i + 8) = Some (hd ((B i @ ?rest) @ [0]))"
    using d unfolding L dll_append by auto
  have mem: "\<forall>y \<in> set (B i @ ?rest). 0 < y \<and> hmem s y = Some (f y)"
  proof
    fix y assume "y \<in> set (B i @ ?rest)"
    then have y: "y \<in> set (flist ?nl B [0..<MM_NNODES])" unfolding L by simp
    have "hmem s y \<noteq> None" by (rule free_flist_cases [OF fr y]) (use hz fl(6) in \<open>auto simp: nodelist_def\<close>)
    then show "0 < y \<and> hmem s y = Some (f y)" using links_okD(2) [OF free_links_ok [OF a fr] y] by (auto simp: f_def)
  qed
  have nP: "\<not> P (?nl + 16 * j)" if "j < MM_NNODES" for j using hz [OF that] by (simp add: P_def f_def)
  have tf: "takeWhile P (B i @ ?rest) = us" "dropWhile P (B i @ ?rest) = vs @ ?rest"
    using takeWhile_flist [of MM_NNODES P ?nl "B i" B i] nP tw by auto
  define b where "b = last ((?nl + 16 * i) # us)"
  define g where "g = hd ((vs @ ?rest) @ [0])"
  have se: "mm_addfreechunk_search s n (?nl + 16 * i) (hd ((B i @ ?rest) @ [0])) = Some (b, g)"
    using mm_addfreechunk_search_eq [OF dn(1) mem, of n] unfolding P_def [symmetric] tf by (simp add: b_def g_def)
  obtain xs where zs: "flist ?nl B [0..<i] @ (?nl + 16 * i) # us = xs @ [b]"
    unfolding b_def by (metis append_butlast_last_id append_is_Nil_conv last_appendR list.distinct(1))
  let ?B = "B(i := us @ x # vs)"
  have Lx: "flist ?nl B [0..<MM_NNODES] = xs @ b # vs @ ?rest"
    using arg_cong [OF zs, of "\<lambda>l. l @ vs @ ?rest"] unfolding L Bi by simp
  have L': "flist ?nl ?B [0..<MM_NNODES] = xs @ b # x # vs @ ?rest"
    using flist_split [OF i, of ?nl ?B] arg_cong [OF zs, of "\<lambda>l. l @ x # vs @ ?rest"] by simp
  have gl: "free_lists s ?B (insert (x, n) F)"
    using free_lists_insert [OF fr x] unfolding uv f_def i_def by simp
  have xm: "hmem s (x + 8) \<noteq> None" "hmem s (x + 12) \<noteq> None" using arena_mem(3) [OF a x(1)] by simp_all
  obtain m where m: "do { s \<leftarrow> set_flink b x s; s \<leftarrow> set_blink x b s; s \<leftarrow> set_flink x g s;
         if g \<noteq> NULL then set_blink g x s else Some s } = Some (s\<lparr>hmem := m\<rparr>)"
     "dll m 0 (xs @ b # x # vs @ ?rest) 0" "\<forall>c. c \<notin> lcells (xs @ b # x # vs @ ?rest) \<longrightarrow> m c = hmem s c" "dom m = dom (hmem s)"
    using mm_link_dll [of s 0 xs b "vs @ ?rest" x] d free_links_ok [OF a gl] xm unfolding Lx L' g_def by blast
  have frm: "m c = hmem s c" if "c \<notin> link_cells s (insert (x, n) F)" for c
    using m(3) that lcells_flist [OF gl, of c] unfolding L' by blast
  have "mm_addfreechunk x s = Some (s\<lparr>hmem := m\<rparr>)"
    using x(2) dn(2) se m(1) unfolding mm_addfreechunk_def by (simp add: node_size_def node_flink_def nodelist_def i_def)
  moreover have "free_rep (s\<lparr>hmem := m\<rparr>) ?B (insert (x, n) F)"
    by (rule free_rep_frame [OF r a frm gl]) (use m(2) L' in simp_all)
  ultimately show ?thesis using m(4) frm by blast
qed

end
