(* ===== verification/MmChunks.thy ===== *)
theory MmChunks
  imports MmInv
begin

text \<open>
  The heap as a list of chunks that tile the region between its two guard nodes, and the effect
  of the operations on this list.
\<close>

section \<open>Chunks\<close>

text \<open>A chunk has an address, a size, and is allocated or free.\<close>

type_synonym chunk = "addr \<times> nat \<times> bool"

fun contig :: "addr \<Rightarrow> chunk list \<Rightarrow> addr \<Rightarrow> bool" where
  "contig a [] e \<longleftrightarrow> a = e"
| "contig a ((x, n, b) # cs) e \<longleftrightarrow> x = a \<and> 8 \<le> n \<and> contig (a + n) cs e"

fun headers :: "hm \<Rightarrow> nat \<Rightarrow> chunk list \<Rightarrow> bool" where
  "headers m p [] \<longleftrightarrow> True"
| "headers m p ((x, n, b) # cs) \<longleftrightarrow> m x = Some n \<and> m (x + 4) = Some (prec b p) \<and> headers m n cs"

fun lsize :: "nat \<Rightarrow> chunk list \<Rightarrow> nat" where
  "lsize p [] = p"
| "lsize p ((x, n, b) # cs) = lsize n cs"

lemma contig_append: "contig a (xs @ ys) e \<longleftrightarrow> (\<exists>z. contig a xs z \<and> contig z ys e)"
  by (induction a xs e rule: contig.induct) auto

lemma headers_append: "headers m p (xs @ ys) \<longleftrightarrow> headers m p xs \<and> headers m (lsize p xs) ys"
  by (induction m p xs rule: headers.induct) auto

lemma lsize_append [simp]: "lsize p (xs @ ys) = lsize (lsize p xs) ys"
  by (induction p xs rule: lsize.induct) auto

lemma contig_unique: "contig a cs e \<Longrightarrow> contig a cs e' \<Longrightarrow> e' = e"
  by (induction a cs e rule: contig.induct) auto

lemma contig_le: "contig a cs e \<Longrightarrow> a \<le> e"
  by (induction a cs e rule: contig.induct) auto

lemma contig_bounds: "contig a cs e \<Longrightarrow> (x, n, b) \<in> set cs \<Longrightarrow> a \<le> x \<and> 8 \<le> n \<and> x + n \<le> e"
  by (induction a cs e rule: contig.induct) (auto dest: contig_le)

lemma contig_apart:
  assumes "contig a cs e" "(x, n, b) \<in> set cs" "(y, k, c) \<in> set cs"
  shows "x + n \<le> y \<or> y + k \<le> x \<or> (x, n, b) = (y, k, c)"
  using assms by (induction a cs e rule: contig.induct) (auto dest: contig_bounds)

lemma contig_distinct: "contig a cs e \<Longrightarrow> distinct (map fst cs)"
proof (induction a cs e rule: contig.induct)
  case (2 a x n b cs e)
  then have "x \<notin> fst ` set cs" using contig_bounds by fastforce
  with 2 show ?case by simp
qed simp

lemma contig_lsize: "contig a cs e \<Longrightarrow> cs \<noteq> [] \<Longrightarrow> lsize p cs \<le> e - a"
proof (induction a cs e arbitrary: p rule: contig.induct)
  case (2 a x n b cs e)
  then show ?case by (cases cs) (force dest: contig_le)+
qed simp

lemma headers_cong:
  assumes "contig a cs e" "\<And>c. a \<le> c \<Longrightarrow> c < e \<Longrightarrow> m' c = m c"
  shows "headers m' p cs = headers m p cs"
  using assms
proof (induction a cs e arbitrary: p rule: contig.induct)
  case (2 a x n b cs e)
  then have "a + n \<le> e" using contig_le by auto
  with 2 show ?case by simp
qed simp

lemma headers_member: "headers m p cs \<Longrightarrow> (x, n, b) \<in> set cs \<Longrightarrow> m x = Some n"
  by (induction m p cs rule: headers.induct) auto

text \<open>The chunks \<open>M\<close> are replaced; the chunk \<open>y\<close> behind them has the size of the last of them.\<close>

lemma headers_replace:
  assumes h: "headers m 0 (P @ M @ (y, k, c) # S)" and t: "contig a (P @ M @ (y, k, c) # S) e" "contig a P x"
    and m: "\<And>c. c < x \<or> y + 8 \<le> c \<Longrightarrow> m' c = m c" "m' y = Some k" "m' (y + 4) = Some (prec c (lsize (lsize 0 P) M'))"
    and M: "headers m' (lsize 0 P) M'"
  shows "headers m' 0 (P @ M' @ (y, k, c) # S)"
proof -
  obtain z where z: "contig a P z" "contig z M y" "8 \<le> k" "contig (y + k) S e"
    using t(1) by (auto simp: contig_append)
  have "headers m' 0 P = headers m 0 P" by (rule headers_cong [OF t(2)]) (use m(1) in simp)
  moreover have "headers m' k S = headers m k S" by (rule headers_cong [OF z(4)]) (use m(1) z(3) in simp)
  ultimately show ?thesis using h m(2,3) M by (simp add: headers_append)
qed

section \<open>The state of the heap\<close>

definition guarded :: "'a hpstate_scheme \<Rightarrow> chunk list \<Rightarrow> chunk list" where
  "guarded s cs = (mm_heapstart (heap s), 8, True) # cs @ [(mm_heapend (heap s), 8, True)]"

definition chunk_rep :: "'a hpstate_scheme \<Rightarrow> chunk list \<Rightarrow> bool" where
  "chunk_rep s cs \<longleftrightarrow> arena_ok s \<and> contig (mm_heapstart (heap s)) (guarded s cs) (mm_heapend (heap s) + 8) \<and>
     (\<forall>(x, n, b) \<in> set cs. n mod 16 = 0 \<and> 16 \<le> n) \<and> headers (hmem s) 0 (guarded s cs) \<and>
     mm_heapsize (heap s) = mm_heapend (heap s) + 8 - mm_heapstart (heap s)"

definition free_of :: "chunk list \<Rightarrow> (addr \<times> nat) set" where
  "free_of cs = {(x, n). (x, n, False) \<in> set cs}"

definition alloc_of :: "chunk list \<Rightarrow> (addr \<times> nat) set" where
  "alloc_of cs = {(x, n). (x, n, True) \<in> set cs}"

text \<open>Two chunks next to each other are not both free.\<close>

definition coalesced :: "chunk list \<Rightarrow> bool" where
  "coalesced cs \<longleftrightarrow> successively (\<lambda>c d. snd (snd c) \<or> snd (snd d)) cs"

definition heap_rep :: "'a hpstate_scheme \<Rightarrow> chunk list \<Rightarrow> bool" where
  "heap_rep s cs \<longleftrightarrow> chunk_rep s cs \<and> coalesced cs \<and> (\<exists>B. free_rep s B (free_of cs))"

text \<open>The user data of allocated chunks.\<close>

definition same_data :: "(addr \<times> nat) set \<Rightarrow> hm \<Rightarrow> hm \<Rightarrow> bool" where
  "same_data K m m' \<longleftrightarrow> (\<forall>(x, n) \<in> K. \<forall>c. x + 8 \<le> c \<and> c < x + n \<longrightarrow> m' c = m c)"

lemma same_data_refl [simp]: "same_data K m m"
  by (simp add: same_data_def)

lemma same_data_trans: "same_data K m m' \<Longrightarrow> same_data K m' m'' \<Longrightarrow> same_data K m m''"
  by (fastforce simp: same_data_def)

lemma same_data_sub: "same_data K m m' \<Longrightarrow> K' \<subseteq> K \<Longrightarrow> same_data K' m m'"
  unfolding same_data_def by blast

lemma chunk_repD:
  assumes "chunk_rep s cs"
  shows "arena_ok s" "contig (mm_heapstart (heap s)) (guarded s cs) (mm_heapend (heap s) + 8)"
    "headers (hmem s) 0 (guarded s cs)" "contig (mm_heapstart (heap s) + 8) cs (mm_heapend (heap s))"
    "(x, n, b) \<in> set cs \<Longrightarrow> n mod 16 = 0 \<and> 16 \<le> n"
  using assms by (auto simp: chunk_rep_def guarded_def contig_append)

lemma arena_okD:
  assumes "arena_ok s"
  shows "0 < mm_heapstart (heap s)" "mm_heapstart (heap s) mod 16 = 0" "mm_heapend (heap s) mod 16 = 8"
    "mm_heapend (heap s) + 8 < 2 ^ 32" "mm_heapend (heap s) - mm_heapstart (heap s) < 2 ^ 31"
    "mm_heapstart (heap s) < mm_heapend (heap s)"
  using assms by (simp_all add: arena_ok_def Let_def)

lemma arena_ok_dom: "arena_ok s \<Longrightarrow> dom m = dom (hmem s) \<Longrightarrow> arena_ok (s\<lparr>hmem := m\<rparr>)"
  by (auto simp: arena_ok_def Let_def domIff set_eq_iff)

text \<open>Addresses of chunks are eight behind a multiple of sixteen.\<close>

lemma contig_mod16:
  assumes "contig a cs e" "a mod 16 = 8" "\<forall>(x, n, b) \<in> set cs. n mod 16 = 0" "(x, n, b) \<in> set cs"
  shows "x mod 16 = 8"
  using assms
proof (induction a cs e rule: contig.induct)
  case (2 a y k c cs e)
  have "(a + k) mod 16 = 8" using 2(3,4) mod_add_right_eq [of a k 16] by simp
  with 2 show ?case by auto
qed simp

lemma chunk_in_arena:
  assumes r: "chunk_rep s cs" and x: "(x, n, b) \<in> set cs"
  shows "in_arena s x" "hmem s x = Some n" "x + n \<le> mm_heapend (heap s)" "mm_heapstart (heap s) + 8 \<le> x" "n < 2 ^ 31"
proof -
  note c = chunk_repD [OF r] and a = arena_okD [OF chunk_repD(1) [OF r]]
  have b: "mm_heapstart (heap s) + 8 \<le> x" "8 \<le> n" "x + n \<le> mm_heapend (heap s)" using contig_bounds [OF c(4) x] by simp_all
  have "(mm_heapstart (heap s) + 8) mod 16 = 8" using a(2) mod_add_left_eq [of "mm_heapstart (heap s)" 16 8] by simp
  moreover have "\<forall>(x, n, b) \<in> set cs. n mod 16 = 0" using c(5) by auto
  ultimately have "x mod 16 = 8" using contig_mod16 [OF c(4)] x by blast
  then show "in_arena s x" using b by (simp add: in_arena_def)
  show "hmem s x = Some n" using headers_member [OF c(3), of x n b] x by (simp add: guarded_def)
  show "x + n \<le> mm_heapend (heap s)" "mm_heapstart (heap s) + 8 \<le> x" "n < 2 ^ 31" using b a(5) by simp_all
qed

section \<open>Changes of the lists\<close>

lemma headers_cells:
  assumes "\<forall>(x, n, b) \<in> set cs. m' x = m x \<and> m' (x + 4) = m (x + 4)"
  shows "headers m' p cs = headers m p cs"
  using assms by (induction m p cs rule: headers.induct) auto

lemma guarded_header_cell:
  assumes "chunk_rep s cs" "(x, n, b) \<in> set (guarded s cs)"
  shows "header_cell s x" "header_cell s (x + 4)"
proof -
  let ?st = "mm_heapstart (heap s)" and ?e = "mm_heapend (heap s)"
  note a = arena_okD [OF chunk_repD(1) [OF assms(1)]]
  have "x mod 16 = 8 \<and> ?st < x \<and> x \<le> ?e \<or> x = ?st"
    using assms(2) chunk_in_arena(1) [OF assms(1), of x n b] a by (auto simp: guarded_def in_arena_def)
  then show "header_cell s x" "header_cell s (x + 4)" unfolding header_cell_def by (metis add_0_right)+
qed

text \<open>What the changes of the free lists leave alone.\<close>

lemma links_chunk_rep:
  assumes r: "chunk_rep s cs" and f: "free_lists s B F" and m: "\<forall>c. c \<notin> link_cells s F \<longrightarrow> m c = hmem s c" "dom m = dom (hmem s)"
  shows "chunk_rep (s\<lparr>hmem := m\<rparr>) cs"
proof -
  have "m c = hmem s c" if "header_cell s c" for c
    using m(1) header_cell_not_link [OF chunk_repD(1) [OF r] f that] by blast
  then have "headers m 0 (guarded s cs) = headers (hmem s) 0 (guarded s cs)"
    using guarded_header_cell [OF r] by (intro headers_cells) blast
  then show ?thesis using r arena_ok_dom [OF chunk_repD(1) [OF r] m(2)] by (simp add: chunk_rep_def guarded_def)
qed

lemma links_same_data:
  assumes r: "chunk_rep s cs" and F: "F \<subseteq> free_of cs" and m: "\<forall>c. c \<notin> link_cells s F \<longrightarrow> m c = hmem s c"
  shows "same_data (alloc_of cs) (hmem s) m"
  unfolding same_data_def
proof (intro ballI, clarify)
  fix x n c assume x: "(x, n) \<in> alloc_of cs" and c: "x + 8 \<le> c" "c < x + n"
  have xa: "(x, n, True) \<in> set cs" using x by (simp add: alloc_of_def)
  note i = chunk_in_arena [OF r xa] and ct = chunk_repD(4) [OF r]
  have "c \<notin> link_cells s F"
  proof
    assume "c \<in> link_cells s F"
    then consider j k where "j < MM_NNODES" "c = nodelist s j + k" "k < 16" | y l k where "(y, l) \<in> F" "c = y + k" "k < 16"
      unfolding link_cells_def by fastforce
    then show False
    proof cases
      case 1
      then show False using nodelist_outside [OF chunk_repD(1) [OF r] 1(1), of c k] i(3,4) c by simp
    next
      case 2
      then have "(y, l, False) \<in> set cs" using F by (auto simp: free_of_def)
      then show False using contig_apart [OF ct xa, of y l False] chunk_repD(5) [OF r, of y l False] 2(2,3) c by auto
    qed
  qed
  then show "m c = hmem s c" using m by blast
qed

text \<open>Taking a free chunk out of its list, and adding a chunk to the lists.\<close>

lemma heap_unlink:
  assumes r: "chunk_rep s cs" and f: "free_rep s B F" "F \<subseteq> free_of cs" and x: "(x, n) \<in> F"
  obtains m B' where "mm_unlink x s = Some (s\<lparr>hmem := m\<rparr>)" "chunk_rep (s\<lparr>hmem := m\<rparr>) cs"
    "free_rep (s\<lparr>hmem := m\<rparr>) B' (F - {(x, n)})" "same_data (alloc_of cs) (hmem s) m"
proof -
  obtain m B' where m: "mm_unlink x s = Some (s\<lparr>hmem := m\<rparr>)" "free_rep (s\<lparr>hmem := m\<rparr>) B' (F - {(x, n)})"
     "\<forall>c. c \<notin> link_cells s (F - {(x, n)}) \<longrightarrow> m c = hmem s c" "dom m = dom (hmem s)"
    using mm_unlink_free [OF chunk_repD(1) [OF r] f(1) x] by blast
  have fl: "free_lists s B F" using f(1) by (simp add: free_rep_def)
  have "link_cells s (F - {(x, n)}) \<subseteq> link_cells s F" unfolding link_cells_def by blast
  then have m': "\<forall>c. c \<notin> link_cells s F \<longrightarrow> m c = hmem s c" using m(3) by blast
  show thesis using that [OF m(1) links_chunk_rep [OF r fl m' m(4)] m(2) links_same_data [OF r f(2) m']] .
qed

lemma heap_addfree:
  assumes r: "chunk_rep s cs" and f: "free_rep s B F" "F \<subseteq> free_of cs" and x: "(x, n, False) \<in> set cs" "\<And>k. (x, k) \<notin> F"
  obtains m B' where "mm_addfreechunk x s = Some (s\<lparr>hmem := m\<rparr>)" "chunk_rep (s\<lparr>hmem := m\<rparr>) cs"
    "free_rep (s\<lparr>hmem := m\<rparr>) B' (insert (x, n) F)" "same_data (alloc_of cs) (hmem s) m"
proof -
  have n: "0 < n" using chunk_repD(5) [OF r x(1)] by simp
  obtain m B' where m: "mm_addfreechunk x s = Some (s\<lparr>hmem := m\<rparr>)" "free_rep (s\<lparr>hmem := m\<rparr>) B' (insert (x, n) F)"
     "\<forall>c. c \<notin> link_cells s (insert (x, n) F) \<longrightarrow> m c = hmem s c" "dom m = dom (hmem s)"
    using mm_addfreechunk_free [OF chunk_repD(1) [OF r] f(1) chunk_in_arena(1,2) [OF r x(1)] n x(2)] by blast
  have fl: "free_lists s B F" using f(1) by (simp add: free_rep_def)
  obtain C where C: "free_lists s C (insert (x, n) F)"
    using free_lists_insert [OF fl chunk_in_arena(1,2) [OF r x(1)] n x(2)] by blast
  have F: "insert (x, n) F \<subseteq> free_of cs" using f(2) x(1) by (simp add: free_of_def)
  show thesis using that [OF m(1) links_chunk_rep [OF r C m(3,4)] m(2) links_same_data [OF r F m(3)]] .
qed

section \<open>Changes of the headers\<close>

text \<open>The header behind the chunks \<open>cs\<close>: that of the first of \<open>ys\<close>, or the guard.\<close>

definition next_chunk :: "'a hpstate_scheme \<Rightarrow> chunk list \<Rightarrow> chunk" where
  "next_chunk s ys = hd (ys @ [(mm_heapend (heap s), 8, True)])"

lemma next_chunkE:
  assumes r: "chunk_rep s (xs @ M @ ys)" and c: "contig x M y" "M \<noteq> []" "fst (hd M) = x"
  obtains k f S where "guarded s (xs @ M @ ys) = ((mm_heapstart (heap s), 8, True) # xs) @ M @ (y, k, f) # S"
    "ys @ [(mm_heapend (heap s), 8, True)] = (y, k, f) # S" "next_chunk s ys = (y, k, f)" "8 \<le> k"
    "contig (mm_heapstart (heap s)) ((mm_heapstart (heap s), 8, True) # xs) x" "contig (y + k) S (mm_heapend (heap s) + 8)"
proof -
  obtain y' k f S where S: "ys @ [(mm_heapend (heap s), 8, True)] = (y', k, f) # S" by (cases ys) auto
  have g: "guarded s (xs @ M @ ys) = ((mm_heapstart (heap s), 8, True) # xs) @ M @ (y', k, f) # S"
    using S by (simp add: guarded_def)
  from chunk_repD(2) [OF r] obtain u v where uv: "contig (mm_heapstart (heap s)) ((mm_heapstart (heap s), 8, True) # xs) u"
     "contig u M v" "y' = v" "8 \<le> k" "contig (v + k) S (mm_heapend (heap s) + 8)"
    unfolding g contig_append by auto
  have "u = x" using uv(2) c by (cases M) auto
  moreover have "v = y" using contig_unique uv(2) c(1) \<open>u = x\<close> by blast
  ultimately show thesis using that [of k f S] g S uv by (simp add: next_chunk_def)
qed

lemma chunk_replace:
  assumes r: "chunk_rep s (xs @ M @ ys)" and c: "contig x M y" "M \<noteq> []" "fst (hd M) = x" and nx: "next_chunk s ys = (y, k, f)"
    and M': "contig x M' y" "\<forall>(z, n, b) \<in> set M'. n mod 16 = 0 \<and> 16 \<le> n"
    and m: "\<And>c. c < x \<or> y + 8 \<le> c \<Longrightarrow> m c = hmem s c" "m y = hmem s y" "m (y + 4) = Some (prec f (lsize (lsize 8 xs) M'))"
      "headers m (lsize 8 xs) M'" "dom m = dom (hmem s)"
  shows "chunk_rep (s\<lparr>hmem := m\<rparr>) (xs @ M' @ ys)"
proof -
  obtain k' f' S where n: "guarded s (xs @ M @ ys) = ((mm_heapstart (heap s), 8, True) # xs) @ M @ (y, k', f') # S"
    "ys @ [(mm_heapend (heap s), 8, True)] = (y, k', f') # S" "next_chunk s ys = (y, k', f')" "8 \<le> k'"
    "contig (mm_heapstart (heap s)) ((mm_heapstart (heap s), 8, True) # xs) x" "contig (y + k') S (mm_heapend (heap s) + 8)"
    by (rule next_chunkE [OF r c])
  have kf: "k' = k" "f' = f" using n(3) nx by simp_all
  let ?P = "(mm_heapstart (heap s), 8, True) # xs" and ?e = "mm_heapend (heap s) + 8"
  have G': "guarded s (xs @ M' @ ys) = ?P @ M' @ (y, k, f) # S" using n(2) kf by (simp add: guarded_def)
  have h: "headers (hmem s) 0 (?P @ M @ (y, k, f) # S)" "contig (mm_heapstart (heap s)) (?P @ M @ (y, k, f) # S) ?e"
    using chunk_repD(2,3) [OF r] n(1) kf by simp_all
  have my: "m y = Some k" using h(1) m(2) by (simp add: headers_append)
  have "headers m 0 (?P @ M' @ (y, k, f) # S)"
    by (rule headers_replace [OF h n(5) m(1) my]) (use m(3,4) in simp_all)
  moreover have "contig (mm_heapstart (heap s)) (?P @ M' @ (y, k, f) # S) ?e"
    unfolding contig_append using n(4-6) M'(1) kf by auto
  moreover have "\<forall>(z, n, b) \<in> set (xs @ M' @ ys). n mod 16 = 0 \<and> 16 \<le> n"
    using chunk_repD(5) [OF r] M'(2) by auto
  ultimately show ?thesis
    using arena_ok_dom [OF chunk_repD(1) [OF r] m(5)] r G' unfolding chunk_rep_def by (simp add: guarded_def)
qed

lemma same_data_outside:
  assumes r: "chunk_rep s (xs @ M @ ys)" and c: "contig x M y" "M \<noteq> []" "fst (hd M) = x"
    and m: "\<And>c. c < x \<or> y + 8 \<le> c \<Longrightarrow> m c = hmem s c"
  shows "same_data (alloc_of (xs @ ys)) (hmem s) m"
proof -
  obtain k f S where n: "ys @ [(mm_heapend (heap s), 8, True)] = (y, k, f) # S"
    "contig (mm_heapstart (heap s)) ((mm_heapstart (heap s), 8, True) # xs) x" "contig (y + k) S (mm_heapend (heap s) + 8)" "8 \<le> k"
    by (rule next_chunkE [OF r c]) blast
  have "m c = hmem s c" if z: "(z, j, True) \<in> set (xs @ ys)" and cc: "z + 8 \<le> c" "c < z + j" for z j c
  proof (cases "(z, j, True) \<in> set xs")
    case True
    then show ?thesis using contig_bounds [OF n(2), of z j True] m cc by simp
  next
    case False
    then have "(z, j, True) \<in> set ((y, k, f) # S)" using z n(1) by (metis Un_iff set_append)
    then have "y \<le> z" using contig_bounds [OF n(3), of z j True] by auto
    then show ?thesis using m cc by simp
  qed
  then show ?thesis by (auto simp: same_data_def alloc_of_def)
qed

lemma free_rep_agree:
  assumes r: "free_rep s B F" and m: "\<And>c. c \<in> link_cells s F \<Longrightarrow> m c = hmem s c" "\<And>x n. (x, n) \<in> F \<Longrightarrow> m x = hmem s x"
    "\<And>i. i < MM_NNODES \<Longrightarrow> m (nodelist s i) = hmem s (nodelist s i)"
  shows "free_rep (s\<lparr>hmem := m\<rparr>) B F"
proof -
  have f: "free_lists s B F" using r by (simp add: free_rep_def)
  have "dll m 0 (flist (mm_nodelist (heap s)) B [0..<MM_NNODES]) 0 =
      dll (hmem s) 0 (flist (mm_nodelist (heap s)) B [0..<MM_NNODES]) 0"
    using lcells_flist [OF f] m(1) by (intro dll_cong) blast
  moreover have "m (nodelist s i) = Some 0" if "i < MM_NNODES" for i using r that m(3) by (simp add: free_rep_def)
  moreover have "free_lists (s\<lparr>hmem := m\<rparr>) B F" by (rule free_lists_cong [OF f]) (use m(2) in simp_all)
  ultimately show ?thesis using r by (simp add: free_rep_def nodelist_def)
qed

text \<open>Writing headers of chunks that are not in the lists.\<close>

lemma free_rep_stores:
  assumes a: "arena_ok s" and r: "free_rep s B F"
    and m: "\<And>c. m c \<noteq> hmem s c \<Longrightarrow> mm_heapstart (heap s) + 8 \<le> c \<and> c < mm_heapend (heap s) + 8 \<and>
      (c mod 16 = 8 \<and> c \<notin> fst ` F \<or> c mod 16 = 12)"
  shows "free_rep (s\<lparr>hmem := m\<rparr>) B F"
proof (rule free_rep_agree [OF r])
  have f: "free_lists s B F" using r by (simp add: free_rep_def)
  have hc: "header_cell s c" if n: "m c \<noteq> hmem s c" for c
  proof (cases "c mod 16 = 8")
    case True
    then show ?thesis unfolding header_cell_def using m [OF n] mod16_less [of "mm_heapend (heap s)" c] arena_okD(3) [OF a]
      by (intro exI [of _ c] exI [of _ 0]) force
  next
    case False
    then have c: "c mod 16 = 12" using m [OF n] by simp
    then have "c = 16 * (c div 16) + 12" by (metis mult_div_mod_eq)
    then obtain q where q: "c = 16 * q + 12" by blast
    then have "(c - 4) mod 16 = 8" "c - 4 \<le> mm_heapend (heap s)"
      using m [OF n] mod16_less [of "mm_heapend (heap s)" "c - 4"] arena_okD(3) [OF a] by force+
    then show ?thesis unfolding header_cell_def using m [OF n]
      by (intro exI [of _ "c - 4"] exI [of _ 4]) auto
  qed
  show "m c = hmem s c" if "c \<in> link_cells s F" for c
    by (rule ccontr) (use hc header_cell_not_link [OF a f] that in blast)
  show "m x = hmem s x" if x: "(x, n) \<in> F" for x n
  proof -
    have "x mod 16 = 8" using free_listsD(5) [OF f x] by (simp add: in_arena_def)
    then show ?thesis using m [of x] x by force
  qed
  show "m (nodelist s i) = hmem s (nodelist s i)" if "i < MM_NNODES" for i
    using m [of "nodelist s i"] nodelist_outside [OF a that, of "nodelist s i" 0] by fastforce
qed

text \<open>Writing the data of an allocated chunk.\<close>

lemma heap_payload:
  assumes r: "chunk_rep s cs" and f: "free_rep s B F" "F \<subseteq> free_of cs" and x: "(x, n, True) \<in> set cs"
    and m: "\<And>c. m c \<noteq> hmem s c \<Longrightarrow> x + 8 \<le> c \<and> c < x + n" "dom m = dom (hmem s)"
  shows "chunk_rep (s\<lparr>hmem := m\<rparr>) cs" "free_rep (s\<lparr>hmem := m\<rparr>) B F" "same_data (alloc_of cs - {(x, n)}) (hmem s) m"
proof -
  have out: "m c = hmem s c" if "c < x + 8 \<or> x + n \<le> c" for c by (rule ccontr) (use m(1) that in force)
  note ia = chunk_in_arena [OF r x]
  have xg: "(x, n, True) \<in> set (guarded s cs)" using x by (simp add: guarded_def)
  have far: "m (y + i) = hmem s (y + i)" if y: "(y, k, b) \<in> set (guarded s cs)" "(y, k, b) \<noteq> (x, n, True)" "i < k" for y k b i
    by (rule out) (use contig_apart [OF chunk_repD(2) [OF r] y(1) xg] y in auto)
  have hd: "m y = hmem s y \<and> m (y + 4) = hmem s (y + 4)" if y: "(y, k, b) \<in> set (guarded s cs)" for y k b
  proof (cases "(y, k, b) = (x, n, True)")
    case True
    then show ?thesis using out by simp
  next
    case False
    then show ?thesis using far [OF y False, of 0] far [OF y False, of 4] contig_bounds [OF chunk_repD(2) [OF r] y] by simp
  qed
  then have "headers m 0 (guarded s cs) = headers (hmem s) 0 (guarded s cs)" by (intro headers_cells) blast
  then show "chunk_rep (s\<lparr>hmem := m\<rparr>) cs"
    using r arena_ok_dom [OF chunk_repD(1) [OF r] m(2)] by (simp add: chunk_rep_def guarded_def)
  have nl: "m (nodelist s i + k) = hmem s (nodelist s i + k)" if "i < MM_NNODES" "k < 16" for i k
  proof (rule ccontr)
    assume "m (nodelist s i + k) \<noteq> hmem s (nodelist s i + k)"
    then show False using m(1) nodelist_outside [OF chunk_repD(1) [OF r] that(1) _ _ that(2), of "nodelist s i + k"] ia by fastforce
  qed
  have fr: "m (y + i) = hmem s (y + i)" if y: "(y, k) \<in> F" "i < 16" for y k i
  proof -
    have yc: "(y, k, False) \<in> set cs" using y(1) f(2) by (auto simp: free_of_def)
    have "i < k" using chunk_repD(5) [OF r yc] y(2) by simp
    then show ?thesis using far [of y k False i] yc by (simp add: guarded_def)
  qed
  show "free_rep (s\<lparr>hmem := m\<rparr>) B F"
  proof (rule free_rep_agree [OF f(1)])
    fix c assume "c \<in> link_cells s F"
    then consider i k where "i < MM_NNODES" "c = nodelist s i + k" "k < 16" | y k i where "(y, k) \<in> F" "c = y + i" "i < 16"
      unfolding link_cells_def by fastforce
    then show "m c = hmem s c" by cases (use nl fr in auto)
  next
    fix y k assume "(y, k) \<in> F"
    then show "m y = hmem s y" using fr [of y k 0] by simp
  next
    fix i :: nat assume "i < MM_NNODES"
    then show "m (nodelist s i) = hmem s (nodelist s i)" using nl [of i 0] by simp
  qed
  have "m c = hmem s c" if y: "(y, k, True) \<in> set cs" "(y, k) \<noteq> (x, n)" and c: "y + 8 \<le> c" "c < y + k" for y k c
    using far [of y k True "c - y"] y c by (simp add: guarded_def)
  then show "same_data (alloc_of cs - {(x, n)}) (hmem s) m" by (auto simp: same_data_def alloc_of_def)
qed

lemma mod16_add: "x mod 16 = 8 \<Longrightarrow> k mod 16 = 0 \<Longrightarrow> (x + k) mod 16 = 8" for x k :: nat
  by (metis add.right_neutral mod_add_right_eq)

lemma mod16_prec: "x mod 16 = 8 \<Longrightarrow> (x + 4) mod 16 = 12" for x :: nat
  by (erule mod16E) simp

text \<open>The header behind a chunk.\<close>

lemma next_header:
  assumes r: "chunk_rep s (xs @ M @ ys)" and c: "contig x M y" "M \<noteq> []" "fst (hd M) = x" and nx: "next_chunk s ys = (y, k, f)"
  shows "hmem s y = Some k" "hmem s (y + 4) = Some (prec f (lsize (lsize 8 xs) M))" "lsize (lsize 8 xs) M < 2 ^ 31"
    "y mod 16 = 8" "mm_heapstart (heap s) + 8 \<le> x" "x < y" "y \<le> mm_heapend (heap s)"
proof -
  obtain k' f' S where n: "guarded s (xs @ M @ ys) = ((mm_heapstart (heap s), 8, True) # xs) @ M @ (y, k', f') # S"
    "ys @ [(mm_heapend (heap s), 8, True)] = (y, k', f') # S" "next_chunk s ys = (y, k', f')" "8 \<le> k'"
    "contig (mm_heapstart (heap s)) ((mm_heapstart (heap s), 8, True) # xs) x" "contig (y + k') S (mm_heapend (heap s) + 8)"
    by (rule next_chunkE [OF r c])
  show "hmem s y = Some k" "hmem s (y + 4) = Some (prec f (lsize (lsize 8 xs) M))"
    using chunk_repD(3) [OF r] n(3) nx unfolding n(1) by (simp_all add: headers_append)
  show x: "mm_heapstart (heap s) + 8 \<le> x" using n(5) by (auto dest: contig_le)
  obtain q l b M' where M: "M = (q, l, b) # M'" using c(2) by (cases M) auto
  then show "x < y" using c(1) contig_le [of "x + l" M' y] by auto
  have le: "y + k' \<le> mm_heapend (heap s) + 8" using contig_le [OF n(6)] .
  then show ye: "y \<le> mm_heapend (heap s)" using n(4) by simp
  show "lsize (lsize 8 xs) M < 2 ^ 31"
    using contig_lsize [OF c(1,2), of "lsize 8 xs"] arena_okD(5) [OF chunk_repD(1) [OF r]] x ye by simp
  show "y mod 16 = 8"
  proof (cases ys)
    case Nil
    then show ?thesis using n(2) arena_okD(3) [OF chunk_repD(1) [OF r]] by simp
  next
    case (Cons z zs)
    then have "(y, k', f') \<in> set (xs @ M @ ys)" using n(2) by simp
    then show ?thesis using chunk_in_arena(1) [OF r] by (auto simp: in_arena_def)
  qed
qed

lemma fixpreceding_eq:
  assumes "hmem s (y + 4) = Some (prec f p)" "p < 2 ^ 31" "v < 2 ^ 31"
  shows "mm_fixpreceding y v s = Some (s\<lparr>hmem := (hmem s)(y + 4 \<mapsto> prec f v)\<rparr>)"
proof -
  have "prec f v < 2 ^ 32" using assms(3) by (simp add: prec_def)
  then show ?thesis using assms by (simp add: mm_fixpreceding_def heap_fields hstore_eq or_prec)
qed

text \<open>The header of a chunk.\<close>

lemma chunk_header:
  assumes r: "chunk_rep s (xs @ (x, n, b) # ys)"
  shows "hmem s x = Some n" "hmem s (x + 4) = Some (prec b (lsize 8 xs))" "lsize 8 xs < 2 ^ 31" "x mod 16 = 8"
proof -
  have "headers (hmem s) 8 (xs @ (x, n, b) # ys @ [(mm_heapend (heap s), 8, True)])"
    using chunk_repD(3) [OF r] by (simp add: guarded_def)
  then show "hmem s x = Some n" "hmem s (x + 4) = Some (prec b (lsize 8 xs))" by (simp_all add: headers_append)
  show "x mod 16 = 8" using chunk_in_arena(1) [OF r, of x n b] by (simp add: in_arena_def)
  obtain z where z: "contig (mm_heapstart (heap s) + 8) xs z" "z \<le> mm_heapend (heap s)"
    using chunk_repD(4) [OF r] by (auto simp: contig_append dest: contig_le)
  show "lsize 8 xs < 2 ^ 31"
    using contig_lsize [OF z(1), of 8] z(2) arena_okD(5) [OF chunk_repD(1) [OF r]] by (cases "xs = []") simp_all
qed

text \<open>
  The chunks \<open>M\<close>, none of which is in the lists, become the chunks \<open>M'\<close> when their headers and
  the field \<^verbatim>\<open>preceding\<close> behind them are written.
\<close>

lemma heap_rewrite:
  assumes r: "chunk_rep s (xs @ M @ ys)" and f: "free_rep s B F" "F \<subseteq> free_of (xs @ ys)"
    and c: "contig x M y" "M \<noteq> []" "fst (hd M) = x" and M': "contig x M' y" "\<forall>(z, n, b) \<in> set M'. n mod 16 = 0 \<and> 16 \<le> n"
    and m: "\<And>c. m c \<noteq> hmem s c \<Longrightarrow> x \<le> c \<and> c < y + 8 \<and> c \<noteq> y \<and> (c mod 16 = 8 \<or> c mod 16 = 12)"
      "m (y + 4) = Some (prec (snd (snd (next_chunk s ys))) (lsize (lsize 8 xs) M'))"
      "headers m (lsize 8 xs) M'" "dom m = dom (hmem s)"
  shows "chunk_rep (s\<lparr>hmem := m\<rparr>) (xs @ M' @ ys) \<and> free_rep (s\<lparr>hmem := m\<rparr>) B F \<and> same_data (alloc_of (xs @ ys)) (hmem s) m"
proof -
  obtain j g where nx: "next_chunk s ys = (y, j, g)" by (rule next_chunkE [OF r c]) blast
  note nh = next_header [OF r c nx]
  have out: "m c = hmem s c" if "c < x \<or> y + 8 \<le> c" for c by (rule ccontr) (use m(1) that in force)
  have y: "m y = hmem s y" by (rule ccontr) (use m(1) in blast)
  obtain u where u: "contig (mm_heapstart (heap s) + 8) xs u" "contig u (M @ ys) (mm_heapend (heap s))"
    using chunk_repD(4) [OF r] by (auto simp: contig_append)
  then have ux: "u = x" using c by (cases M) auto
  have yy: "contig y ys (mm_heapend (heap s))" using u(2) c(1) contig_unique unfolding ux contig_append by blast
  have nf: "z \<notin> fst ` F" if z: "x \<le> z" "z < y" for z
  proof
    assume "z \<in> fst ` F"
    then obtain l where "(z, l) \<in> F" by auto
    then have l: "(z, l, False) \<in> set xs \<or> (z, l, False) \<in> set ys" using f(2) unfolding free_of_def by auto
    then show False using contig_bounds [OF u(1) [unfolded ux], of z l False] contig_bounds [OF yy, of z l False] z by auto
  qed
  have "free_rep (s\<lparr>hmem := m\<rparr>) B F"
  proof (rule free_rep_stores [OF chunk_repD(1) [OF r] f(1)])
    fix c assume "m c \<noteq> hmem s c"
    note d = m(1) [OF this]
    have "c < y" if "c mod 16 = 8" using mod16_less [of c y] mod16_less [of y c] d nh(4) that by force
    then show "mm_heapstart (heap s) + 8 \<le> c \<and> c < mm_heapend (heap s) + 8 \<and> (c mod 16 = 8 \<and> c \<notin> fst ` F \<or> c mod 16 = 12)"
      using d nf [of c] nh(5,7) by auto
  qed
  moreover have "chunk_rep (s\<lparr>hmem := m\<rparr>) (xs @ M' @ ys)"
    using chunk_replace [OF r c nx M' out y _ m(3,4)] m(2) nx by simp
  ultimately show ?thesis using same_data_outside [OF r c out] by blast
qed

text \<open>
  Chunks that are not in the lists, of \<open>n\<close> bytes together, become one of \<open>k\<close> bytes and a free one
  with the rest.
\<close>

lemma heap_resplit:
  assumes r: "chunk_rep s (xs @ M @ ys)" and f: "free_rep s B F" "F \<subseteq> free_of (xs @ ys)"
    and M: "M = (x, j, b) # M0" "contig x M (x + n)" and k: "16 \<le> k" "k mod 16 = 0" "k + 16 \<le> n"
  defines "m \<equiv> (hmem s)(x + k \<mapsto> n - k, x + k + 4 \<mapsto> k, x \<mapsto> k, x + n + 4 \<mapsto> prec (snd (snd (next_chunk s ys))) (n - k))"
  shows "set_size (x + k) (n - k) s \<bind> set_preceding (x + k) k \<bind> set_size x k \<bind> mm_fixpreceding (x + n) (n - k) =
      Some (s\<lparr>hmem := m\<rparr>)"
    "chunk_rep (s\<lparr>hmem := m\<rparr>) (xs @ (x, k, b) # (x + k, n - k, False) # ys) \<and> free_rep (s\<lparr>hmem := m\<rparr>) B F \<and>
     same_data (alloc_of (xs @ ys)) (hmem s) m" "n < 2 ^ 31"
    "set_size (x + k) (n - k) s \<bind> set_preceding (x + k) k \<bind> set_size x k =
      Some (s\<lparr>hmem := (hmem s)(x + k \<mapsto> n - k, x + k + 4 \<mapsto> k, x \<mapsto> k)\<rparr>)"
    "set_size x k s \<bind> set_size (x + k) (n - k) \<bind> set_preceding (x + k) k =
      Some (s\<lparr>hmem := (hmem s)(x + k \<mapsto> n - k, x + k + 4 \<mapsto> k, x \<mapsto> k)\<rparr>)"
proof -
  let ?M' = "[(x, k, b), (x + k, n - k, False)]"
  have r1: "chunk_rep s (xs @ (x, j, b) # M0 @ ys)" using r M(1) by simp
  note h = chunk_header [OF r1]
  have c: "M \<noteq> []" "fst (hd M) = x" using M(1) by simp_all
  obtain i g where nx: "next_chunk s ys = (x + n, i, g)" by (rule next_chunkE [OF r M(2) c]) blast
  note nh = next_header [OF r M(2) c nx]
  have g: "snd (snd (next_chunk s ys)) = g" using nx by simp
  have m16: "(x + k) mod 16 = 8" "(x + k + 4) mod 16 = 12" "(x + n + 4) mod 16 = 12"
    using mod16_add [OF h(4) k(2)] mod16_prec nh(4) by simp_all
  have iak: "in_arena s (x + k)" using m16(1) nh(5,7) k by (auto simp: in_arena_def)
  note mk = arena_mem(3) [OF chunk_repD(1) [OF r] iak]
  have cells: "hmem s (x + k) \<noteq> None" "hmem s (x + k + 4) \<noteq> None" using mk [of 0] mk [of 4] by simp_all
  show n31: "n < 2 ^ 31" using nh(5,7) arena_okD(5) [OF chunk_repD(1) [OF r]] by simp
  then have b32: "k < 2 ^ 32" "n - k < 2 ^ 31" using k by simp_all
  show "set_size (x + k) (n - k) s \<bind> set_preceding (x + k) k \<bind> set_size x k =
      Some (s\<lparr>hmem := (hmem s)(x + k \<mapsto> n - k, x + k + 4 \<mapsto> k, x \<mapsto> k)\<rparr>)"
    using cells h(1) b32 k by (simp add: set_size_def set_preceding_def hstore_eq)
  have "(hmem s)(x \<mapsto> k, x + k \<mapsto> n - k, x + k + 4 \<mapsto> k) = (hmem s)(x + k \<mapsto> n - k, x + k + 4 \<mapsto> k, x \<mapsto> k)"
    using k(1) by (auto simp: fun_eq_iff)
  then show "set_size x k s \<bind> set_size (x + k) (n - k) \<bind> set_preceding (x + k) k =
      Some (s\<lparr>hmem := (hmem s)(x + k \<mapsto> n - k, x + k + 4 \<mapsto> k, x \<mapsto> k)\<rparr>)"
    using cells h(1) b32 k by (simp add: set_size_def set_preceding_def hstore_eq)
  show "set_size (x + k) (n - k) s \<bind> set_preceding (x + k) k \<bind> set_size x k \<bind> mm_fixpreceding (x + n) (n - k) =
      Some (s\<lparr>hmem := m\<rparr>)"
    using cells h(1) nh(2,3) b32 k
    by (simp add: set_size_def set_preceding_def hstore_eq fixpreceding_eq [where p = "lsize (lsize 8 xs) M" and f = g] m_def g)
  have "chunk_rep (s\<lparr>hmem := m\<rparr>) (xs @ ?M' @ ys) \<and> free_rep (s\<lparr>hmem := m\<rparr>) B F \<and> same_data (alloc_of (xs @ ys)) (hmem s) m"
  proof (rule heap_rewrite [OF r f M(2) c])
    have "n mod 16 = 0" by (rule mod16E [OF h(4)], rule mod16E [OF nh(4)]) presburger
    then have "(n - k) mod 16 = 0" using k by (metis mod_0_imp_dvd dvd_diff_nat dvd_imp_mod_0)
    then show "contig x ?M' (x + n)" "\<forall>(z, n, b) \<in> set ?M'. n mod 16 = 0 \<and> 16 \<le> n" using k by simp_all
    show "x \<le> c \<and> c < x + n + 8 \<and> c \<noteq> x + n \<and> (c mod 16 = 8 \<or> c mod 16 = 12)" if "m c \<noteq> hmem s c" for c
      using that m16 h(4) k by (auto simp: m_def split: if_splits)
    show "m (x + n + 4) = Some (prec (snd (snd (next_chunk s ys))) (lsize (lsize 8 xs) ?M'))"
      "headers m (lsize 8 xs) ?M'" using h(2) k by (simp_all add: m_def prec_def)
    show "dom m = dom (hmem s)" unfolding m_def using cells h(1) nh(2) by (simp add: insert_absorb domIff)
  qed
  then show "chunk_rep (s\<lparr>hmem := m\<rparr>) (xs @ (x, k, b) # (x + k, n - k, False) # ys) \<and> free_rep (s\<lparr>hmem := m\<rparr>) B F \<and>
     same_data (alloc_of (xs @ ys)) (hmem s) m" by simp
qed

text \<open>Splitting a chunk that is not in the lists.\<close>

lemma heap_split:
  assumes r: "chunk_rep s (xs @ (x, n, b) # ys)" and f: "free_rep s B F" "F \<subseteq> free_of (xs @ ys)"
    and k: "16 \<le> k" "k mod 16 = 0" "k + 16 \<le> n"
  defines "m \<equiv> (hmem s)(x + k \<mapsto> n - k, x + k + 4 \<mapsto> k, x \<mapsto> k, x + n + 4 \<mapsto> prec (snd (snd (next_chunk s ys))) (n - k))"
  shows "set_size (x + k) (n - k) s \<bind> set_preceding (x + k) k \<bind> set_size x k \<bind> mm_fixpreceding (x + n) (n - k) =
      Some (s\<lparr>hmem := m\<rparr>)"
    "chunk_rep (s\<lparr>hmem := m\<rparr>) (xs @ (x, k, b) # (x + k, n - k, False) # ys) \<and> free_rep (s\<lparr>hmem := m\<rparr>) B F \<and>
     same_data (alloc_of (xs @ ys)) (hmem s) m"
proof -
  have r': "chunk_rep s (xs @ [(x, n, b)] @ ys)" and c: "contig x [(x, n, b)] (x + n)" using r k by simp_all
  note sp = heap_resplit [OF r' f refl c k]
  show "set_size (x + k) (n - k) s \<bind> set_preceding (x + k) k \<bind> set_size x k \<bind> mm_fixpreceding (x + n) (n - k) =
      Some (s\<lparr>hmem := m\<rparr>)"
    "chunk_rep (s\<lparr>hmem := m\<rparr>) (xs @ (x, k, b) # (x + k, n - k, False) # ys) \<and> free_rep (s\<lparr>hmem := m\<rparr>) B F \<and>
     same_data (alloc_of (xs @ ys)) (hmem s) m" unfolding m_def by (rule sp(1,2))+
qed

text \<open>Merging a chunk with the one behind it; neither is in the lists.\<close>

lemma heap_merge:
  assumes r: "chunk_rep s (xs @ (x, n, b) # (x + n, k, b') # ys)" and f: "free_rep s B F" "F \<subseteq> free_of (xs @ ys)"
  defines "m \<equiv> (hmem s)(x \<mapsto> n + k, x + n + k + 4 \<mapsto> prec (snd (snd (next_chunk s ys))) (n + k))"
  shows "set_size x (n + k) s = Some (s\<lparr>hmem := (hmem s)(x \<mapsto> n + k)\<rparr>)" "set_size x (n + k) s \<bind> mm_fixpreceding (x + n + k) (n + k) = Some (s\<lparr>hmem := m\<rparr>)"
    "chunk_rep (s\<lparr>hmem := m\<rparr>) (xs @ (x, n + k, b) # ys) \<and> free_rep (s\<lparr>hmem := m\<rparr>) B F \<and>
     same_data (alloc_of (xs @ ys)) (hmem s) m" "n + k < 2 ^ 31"
proof -
  let ?M = "[(x, n, b), (x + n, k, b')]" and ?M' = "[(x, n + k, b)]"
  have r': "chunk_rep s (xs @ ?M @ ys)" using r by simp
  have xc: "(x, n, b) \<in> set (xs @ ?M @ ys)" "(x + n, k, b') \<in> set (xs @ ?M @ ys)" by simp_all
  note h = chunk_header [OF r] and sz = chunk_repD(5) [OF r' xc(1)] chunk_repD(5) [OF r' xc(2)]
  have c: "contig x ?M (x + n + k)" "?M \<noteq> []" "fst (hd ?M) = x" using sz by simp_all
  obtain j g where nx: "next_chunk s ys = (x + n + k, j, g)" by (rule next_chunkE [OF r' c]) blast
  note nh = next_header [OF r' c nx]
  have g: "snd (snd (next_chunk s ys)) = g" using nx by simp
  have m16: "(x + n + k + 4) mod 16 = 12" using mod16_prec nh(4) by simp
  show b31: "n + k < 2 ^ 31" using nh(5,7) arena_okD(5) [OF chunk_repD(1) [OF r]] by simp
  show e: "set_size x (n + k) s = Some (s\<lparr>hmem := (hmem s)(x \<mapsto> n + k)\<rparr>)" 
    using h(1) b31 by (simp add: set_size_def hstore_eq)
  show "set_size x (n + k) s \<bind> mm_fixpreceding (x + n + k) (n + k) = Some (s\<lparr>hmem := m\<rparr>)"
    unfolding e using nh(2,3) b31 sz by (simp add: fixpreceding_eq [where p = k and f = g] m_def g)
  have "chunk_rep (s\<lparr>hmem := m\<rparr>) (xs @ ?M' @ ys) \<and> free_rep (s\<lparr>hmem := m\<rparr>) B F \<and> same_data (alloc_of (xs @ ys)) (hmem s) m"
  proof (rule heap_rewrite [OF r' f c])
    show "contig x ?M' (x + n + k)" using sz by simp
    show "\<forall>(z, n, b) \<in> set ?M'. n mod 16 = 0 \<and> 16 \<le> n" using sz by (simp add: mod_add_eq [symmetric])
    show "x \<le> c \<and> c < x + n + k + 8 \<and> c \<noteq> x + n + k \<and> (c mod 16 = 8 \<or> c mod 16 = 12)" if "m c \<noteq> hmem s c" for c
      using that m16 h(4) sz by (auto simp: m_def split: if_splits)
    show "m (x + n + k + 4) = Some (prec (snd (snd (next_chunk s ys))) (lsize (lsize 8 xs) ?M'))"
      "headers m (lsize 8 xs) ?M'" using h(2) sz by (simp_all add: m_def)
    show "dom m = dom (hmem s)" unfolding m_def using h(1) nh(2) by (simp add: insert_absorb domIff)
  qed
  then show "chunk_rep (s\<lparr>hmem := m\<rparr>) (xs @ (x, n + k, b) # ys) \<and> free_rep (s\<lparr>hmem := m\<rparr>) B F \<and>
     same_data (alloc_of (xs @ ys)) (hmem s) m" by simp
qed

text \<open>Setting or clearing the bit that says a chunk is allocated.\<close>

lemma heap_flip:
  fixes b' :: bool
  assumes r: "chunk_rep s (xs @ (x, n, b) # ys)" and f: "free_rep s B F" "F \<subseteq> free_of (xs @ ys)"
  defines "m \<equiv> (hmem s)(x + 4 \<mapsto> prec b' (lsize 8 xs))"
  shows "set_preceding x (prec b' (lsize 8 xs)) s = Some (s\<lparr>hmem := m\<rparr>)"
    "chunk_rep (s\<lparr>hmem := m\<rparr>) (xs @ (x, n, b') # ys) \<and> free_rep (s\<lparr>hmem := m\<rparr>) B F \<and>
     same_data (alloc_of (xs @ ys)) (hmem s) m"
proof -
  let ?M = "[(x, n, b)]" and ?M' = "[(x, n, b')]"
  have r': "chunk_rep s (xs @ ?M @ ys)" using r by simp
  have xc: "(x, n, b) \<in> set (xs @ ?M @ ys)" by simp
  note h = chunk_header [OF r] and sz = chunk_repD(5) [OF r' xc]
  have c: "contig x ?M (x + n)" "?M \<noteq> []" "fst (hd ?M) = x" using sz by simp_all
  obtain j g where nx: "next_chunk s ys = (x + n, j, g)" by (rule next_chunkE [OF r' c]) blast
  note nh = next_header [OF r' c nx]
  have "prec b' (lsize 8 xs) < 2 ^ 32" using h(3) by (simp add: prec_def)
  then show "set_preceding x (prec b' (lsize 8 xs)) s = Some (s\<lparr>hmem := m\<rparr>)"
    using h(2) by (simp add: set_preceding_def hstore_eq m_def)
  have "chunk_rep (s\<lparr>hmem := m\<rparr>) (xs @ ?M' @ ys) \<and> free_rep (s\<lparr>hmem := m\<rparr>) B F \<and> same_data (alloc_of (xs @ ys)) (hmem s) m"
  proof (rule heap_rewrite [OF r' f c])
    show "contig x ?M' (x + n)" "\<forall>(z, n, b) \<in> set ?M'. n mod 16 = 0 \<and> 16 \<le> n" using sz by simp_all
    show "x \<le> c \<and> c < x + n + 8 \<and> c \<noteq> x + n \<and> (c mod 16 = 8 \<or> c mod 16 = 12)" if "m c \<noteq> hmem s c" for c
      using that mod16_prec [OF h(4)] sz by (auto simp: m_def split: if_splits)
    show "m (x + n + 4) = Some (prec (snd (snd (next_chunk s ys))) (lsize (lsize 8 xs) ?M'))"
      "headers m (lsize 8 xs) ?M'" using h(1) nh(2) sz nx by (simp_all add: m_def)
    show "dom m = dom (hmem s)" unfolding m_def using h(2) by (simp add: insert_absorb domIff)
  qed
  then show "chunk_rep (s\<lparr>hmem := m\<rparr>) (xs @ (x, n, b') # ys) \<and> free_rep (s\<lparr>hmem := m\<rparr>) B F \<and>
     same_data (alloc_of (xs @ ys)) (hmem s) m" by simp
qed

end
