(* ===== verification/MmOps.thy ===== *)
theory MmOps
  imports MmChunks
begin

text \<open>
  Allocation and release as operations on the list of chunks: the search for the best fit, the
  splitting of the chunk that is found, and the merging of neighbours.
\<close>

section \<open>The index of a size\<close>

lemma sub32_eq: "b \<le> a \<Longrightarrow> a < 2 ^ 32 \<Longrightarrow> sub32 a b = a - b"
proof -
  assume "b \<le> a" "a < 2 ^ 32"
  then have "a + (2 ^ 32 - u32 b) = (a - b) + 2 ^ 32" by (simp add: u32_def)
  then show "sub32 a b = a - b" using \<open>a < 2 ^ 32\<close> by (simp add: sub32_def u32_def)
qed

lemma mm_size2ndx_loop_eq: "0 < n \<Longrightarrow> \<exists>i. mm_size2ndx_loop n j = j + i \<and> 2 ^ i \<le> n \<and> n < 2 ^ Suc i"
proof (induction n j rule: mm_size2ndx_loop.induct)
  case (1 n j)
  show ?case
  proof (cases "n > 1")
    case True
    then obtain i where i: "mm_size2ndx_loop (n div 2) (j + 1) = j + 1 + i" "2 ^ i \<le> n div 2" "n div 2 < 2 ^ Suc i" using 1 by auto
    have "mm_size2ndx_loop n j = j + Suc i" using True i(1) by (subst mm_size2ndx_loop.simps) simp
    moreover have "2 ^ Suc i \<le> n" "n < 2 ^ Suc (Suc i)" using i(2,3) by simp_all
    ultimately show ?thesis by blast
  next
    case False
    then have "n = 1" using 1 by simp
    then show ?thesis by (intro exI [of _ 0]) (simp add: mm_size2ndx_loop.simps)
  qed
qed

lemma mm_size2ndx_range:
  assumes "16 \<le> n" "n < 2 ^ 22"
  shows "16 * 2 ^ mm_size2ndx n \<le> n" "n < 16 * 2 ^ Suc (mm_size2ndx n)"
proof -
  obtain i where i: "mm_size2ndx_loop (n div 16) 0 = 0 + i" "2 ^ i \<le> n div 16" "n div 16 < 2 ^ Suc i"
    using mm_size2ndx_loop_eq [of "n div 16" 0] assms by auto
  have e: "mm_size2ndx n = i" using i(1) assms by (simp add: mm_size2ndx_def)
  define p :: nat where "p = 2 ^ i"
  have "16 * p \<le> n" "n < 16 * (2 * p)" using i(2,3) by (simp_all add: p_def [symmetric])
  then show "16 * 2 ^ mm_size2ndx n \<le> n" "n < 16 * 2 ^ Suc (mm_size2ndx n)" by (simp_all add: p_def e)
qed

lemma mm_size2ndx_mono: "16 \<le> a \<Longrightarrow> a \<le> b \<Longrightarrow> mm_size2ndx a \<le> mm_size2ndx b"
proof (cases "b < 2 ^ 22")
  case True
  assume ab: "16 \<le> a" "a \<le> b"
  have "16 * 2 ^ mm_size2ndx a < (16 * 2 ^ Suc (mm_size2ndx b) :: nat)"
    using mm_size2ndx_range(1) [of a] mm_size2ndx_range(2) [of b] ab True by linarith
  then have "(2 :: nat) ^ mm_size2ndx a < 2 ^ Suc (mm_size2ndx b)" by linarith
  then show ?thesis using power_less_imp_less_exp [of "2 :: nat" "mm_size2ndx a" "Suc (mm_size2ndx b)"] by simp
next
  case False
  then have "mm_size2ndx b = 18" by (simp add: mm_size2ndx_def)
  then show ?thesis using mm_size2ndx_bound [of a] by simp
qed

section \<open>The search\<close>

lemma hd_dropWhile_filter: "hd (dropWhile P xs @ [a]) = hd (filter (\<lambda>x. \<not> P x) xs @ [a])"
  by (induction xs) auto

lemma filter_flist:
  assumes "\<And>i. i \<in> set is \<Longrightarrow> \<not> P (nl + 16 * i)"
  shows "filter P (flist nl B is) = filter P (concat (map B is))"
  using assms by (induction "is") auto

lemma sorted_buckets:
  assumes f: "free_lists s B F" and F: "\<forall>(x, n) \<in> F. 16 \<le> n" and j: "j \<le> MM_NNODES"
  shows "sorted (map (\<lambda>x. the (hmem s x)) (concat (map B [i..<j])))"
  using j
proof (induction "j - i" arbitrary: i)
  case 0
  then show ?case by simp
next
  case (Suc d)
  then have i: "[i..<j] = i # [Suc i..<j]" "i < MM_NNODES" using upt_conv_Cons [of i j] by simp_all
  have le: "the (hmem s x) \<le> the (hmem s y)" if x: "x \<in> set (B i)" and k: "k \<in> {Suc i..<j}" "y \<in> set (B k)" for x y k
  proof -
    obtain n where n: "(x, n) \<in> F" "mm_size2ndx n = i" using free_listsD(3) [OF f i(2) x] by blast
    obtain l where l: "(y, l) \<in> F" "mm_size2ndx l = k" using free_listsD(3) [OF f _ k(2)] k(1) Suc(3) by auto
    have "\<not> l \<le> n" using mm_size2ndx_mono [of l n] n(2) l k(1) F by auto
    then show ?thesis using free_listsD(6) [OF f n(1)] free_listsD(6) [OF f l(1)] by simp
  qed
  have "sorted (map (\<lambda>x. the (hmem s x)) (concat (map B [Suc i..<j])))" using Suc by simp
  then show ?case using le free_listsD(2) [OF f i(2)] unfolding i(1) by (auto simp: sorted_append)
qed

text \<open>The free chunk that an allocation of \<open>k\<close> bytes takes.\<close>

definition best_fit :: "(addr \<times> nat) set \<Rightarrow> nat \<Rightarrow> addr \<Rightarrow> nat \<Rightarrow> bool" where
  "best_fit F k x n \<longleftrightarrow> (x, n) \<in> F \<and> k \<le> n \<and> (\<forall>(y, j) \<in> F. k \<le> j \<longrightarrow> n \<le> j)"

lemma mm_malloc_search_best:
  assumes a: "arena_ok s" and r: "free_rep s B F" and F: "\<forall>(x, n) \<in> F. 16 \<le> n" and k: "16 \<le> k"
  shows "\<exists>f x. node_flink (nodelist s (mm_size2ndx k)) s = Some f \<and> mm_malloc_search s k f = Some x \<and>
    (if \<exists>(y, j) \<in> F. k \<le> j then x \<noteq> NULL \<and> (\<exists>n. best_fit F k x n) else x = NULL)"
proof -
  let ?i = "mm_size2ndx k" and ?nl = "mm_nodelist (heap s)" and ?f = "\<lambda>x. the (hmem s x)"
  let ?P = "flist ?nl B [0..<?i]" and ?L = "B ?i @ flist ?nl B [Suc ?i..<MM_NNODES]"
  note fl = r [unfolded free_rep_def, THEN conjunct1] and i = mm_size2ndx_bound [of k]
  have d: "dll (hmem s) 0 (?P @ (?nl + 16 * ?i) # ?L) 0" using r flist_split [OF i] by (simp add: free_rep_def)
  then have d': "dll (hmem s) (?nl + 16 * ?i) ?L 0" "hmem s (?nl + 16 * ?i + 8) = Some (hd (?L @ [0]))"
    by (simp_all add: dll_append)
  have nl: "hmem s (?nl + 16 * j) = Some 0" if "j < MM_NNODES" for j
    using r that unfolding free_rep_def nodelist_def by auto
  have L: "0 < x \<and> hmem s x = Some (?f x)" if x: "x \<in> set ?L" for x
  proof -
    have x': "x \<in> set (flist ?nl B [0..<MM_NNODES])" using x unfolding flist_split [OF i] by auto
    have "0 < x" using links_okD(2) [OF free_links_ok [OF a fl] x'] by simp
    moreover have "hmem s x \<noteq> None"
    proof (rule free_flist_cases [OF fl x'])
      fix j assume "j < MM_NNODES" "x = nodelist s j"
      then show ?thesis using nl [of j] by (simp add: nodelist_def)
    next
      fix n assume "(x, n) \<in> F"
      then show ?thesis using free_listsD(6) [OF fl] by simp
    qed
    ultimately show ?thesis by auto
  qed
  let ?K = "filter (\<lambda>x. k \<le> ?f x) (concat (map B [?i..<MM_NNODES]))"
  have "filter (\<lambda>x. k \<le> ?f x) ?L = ?K"
    using filter_flist [of "[Suc ?i..<MM_NNODES]" "\<lambda>x. k \<le> ?f x" ?nl B] nl k upt_conv_Cons [OF i] by simp
  then have sr: "mm_malloc_search s k (hd (?L @ [0])) = Some (hd (?K @ [0]))"
    using mm_malloc_search_eq [OF d'(1), of ?f k] L hd_dropWhile_filter [of "\<lambda>x. ?f x < k" ?L 0] by (simp add: not_less)
  have K1: "\<exists>n. (x, n) \<in> F \<and> ?f x = n" if "x \<in> set ?K" for x
    using that free_listsD(3,6) [OF fl] by fastforce
  have K2: "y \<in> set ?K" if "(y, j) \<in> F" "k \<le> j" for y j
    using that free_listsD(4) [OF fl that(1) mm_size2ndx_bound] free_listsD(6) [OF fl that(1)] mm_size2ndx_mono [OF k that(2)]
      mm_size2ndx_bound [of j] by force
  have "if \<exists>(y, j) \<in> F. k \<le> j then hd (?K @ [0]) \<noteq> NULL \<and> (\<exists>n. best_fit F k (hd (?K @ [0])) n) else hd (?K @ [0]) = NULL"
  proof (cases ?K)
    case Nil
    then show ?thesis using K2 by auto
  next
    case (Cons x K)
    then have x: "x \<in> set ?K" by simp
    obtain n where n: "(x, n) \<in> F" "?f x = n" using K1 [OF x] by blast
    have kn: "k \<le> n" using x n(2) by auto
    have "sorted (map ?f ?K)" using sorted_buckets [OF fl F order.refl, of ?i] by (simp add: sorted_filter)
    then have mn: "\<forall>y \<in> set ?K. n \<le> ?f y" unfolding Cons using n(2) by auto
    have "n \<le> j" if y: "(y, j) \<in> F" "k \<le> j" for y j
      using bspec [OF mn K2 [OF y]] free_listsD(6) [OF fl y(1)] by simp
    then have "best_fit F k x n" unfolding best_fit_def using n(1) kn by blast
    moreover have "x \<noteq> NULL" using free_listsD(5) [OF fl n(1)] by (auto simp: in_arena_def)
    moreover have "\<exists>(y, j) \<in> F. k \<le> j" using n(1) kn by blast
    ultimately show ?thesis unfolding Cons by auto
  qed
  moreover have "node_flink (nodelist s ?i) s = Some (hd (?L @ [0]))" using d'(2) by (simp add: heap_fields nodelist_def)
  ultimately show ?thesis using sr by (intro exI conjI) assumption+
qed

section \<open>Allocation\<close>

lemma coalesced_parts:
  assumes "coalesced (xs @ (x, n, False) # ys)"
  shows "coalesced (xs @ (x, k, True) # ys)" "coalesced (xs @ (x, k, True) # (z, j, False) # ys)" "coalesced (xs @ (z, j, False) # ys)"
  using assms by (auto simp: coalesced_def successively_append_iff successively_Cons)

lemma free_of_simps [simp]:
  "free_of (xs @ ys) = free_of xs \<union> free_of ys" "free_of ((x, n, False) # xs) = insert (x, n) (free_of xs)"
  "free_of ((x, n, True) # xs) = free_of xs" "free_of [] = {}"
  by (auto simp: free_of_def)

lemma alloc_of_simps [simp]:
  "alloc_of (xs @ ys) = alloc_of xs \<union> alloc_of ys" "alloc_of ((x, n, True) # xs) = insert (x, n) (alloc_of xs)"
  "alloc_of ((x, n, False) # xs) = alloc_of xs" "alloc_of [] = {}"
  by (auto simp: alloc_of_def)

lemma chunk_rep_notin:
  assumes "chunk_rep s (xs @ (x, n, b) # ys)"
  shows "(x, k) \<notin> free_of xs" "(x, k) \<notin> free_of ys" "(x, k) \<notin> alloc_of xs" "(x, k) \<notin> alloc_of ys"
  using contig_distinct [OF chunk_repD(4) [OF assms]] by (force simp: free_of_def alloc_of_def)+

text \<open>What becomes of the free chunk \<open>(x, n)\<close> when \<open>k\<close> bytes are taken from it.\<close>

definition carve :: "addr \<Rightarrow> nat \<Rightarrow> nat \<Rightarrow> chunk list" where
  "carve x n k = (if n - k < 16 then [(x, n, True)] else [(x, k, True), (x + k, n - k, False)])"

lemma mm_malloc_locked_none:
  assumes h: "heap_rep s cs" and k: "16 \<le> k" "\<forall>(y, j) \<in> free_of cs. j < k"
  shows "mm_malloc_locked k s = Some (NULL, s)"
proof -
  obtain B where B: "free_rep s B (free_of cs)" and r: "chunk_rep s cs" using h by (auto simp: heap_rep_def)
  have F: "\<forall>(x, n) \<in> free_of cs. 16 \<le> n" using chunk_repD(5) [OF r] by (auto simp: free_of_def)
  have "\<not> (\<exists>(y, j) \<in> free_of cs. k \<le> j)" using k(2) by fastforce
  moreover have "(if k \<ge> MM_MAX_CHUNK then MM_NNODES - 1 else mm_size2ndx k) = mm_size2ndx k" by (simp add: mm_size2ndx_def)
  ultimately show ?thesis
    using mm_malloc_search_best [OF chunk_repD(1) [OF r] B F k(1)] by (auto simp: mm_malloc_locked_def)
qed

lemma mm_malloc_locked_some:
  assumes h: "heap_rep s cs" and k: "16 \<le> k" "k mod 16 = 0" "\<exists>(y, j) \<in> free_of cs. k \<le> j"
  obtains xs x n ys m where "cs = xs @ (x, n, False) # ys" "best_fit (free_of cs) k x n"
    "mm_malloc_locked k s = Some (x + 8, s\<lparr>hmem := m\<rparr>)" "heap_rep (s\<lparr>hmem := m\<rparr>) (xs @ carve x n k @ ys)"
    "same_data (alloc_of cs) (hmem s) m"
proof -
  obtain B where B: "free_rep s B (free_of cs)" and r: "chunk_rep s cs" and co: "coalesced cs" using h by (auto simp: heap_rep_def)
  have F: "\<forall>(x, n) \<in> free_of cs. 16 \<le> n" using chunk_repD(5) [OF r] by (auto simp: free_of_def)
  have i: "(if k \<ge> MM_MAX_CHUNK then MM_NNODES - 1 else mm_size2ndx k) = mm_size2ndx k" by (simp add: mm_size2ndx_def)
  obtain f x n where f: "node_flink (nodelist s (mm_size2ndx k)) s = Some f" "mm_malloc_search s k f = Some x"
    and x: "x \<noteq> NULL" "best_fit (free_of cs) k x n"
    using mm_malloc_search_best [OF chunk_repD(1) [OF r] B F k(1)] k(3) by auto
  have xn: "(x, n) \<in> free_of cs" "k \<le> n" using x(2) by (simp_all add: best_fit_def)
  then obtain xs ys where cs: "cs = xs @ (x, n, False) # ys" by (auto simp: free_of_def dest: split_list)
  note r1 = r [unfolded cs]
  obtain m1 B1 where m1: "mm_unlink x s = Some (s\<lparr>hmem := m1\<rparr>)" "chunk_rep (s\<lparr>hmem := m1\<rparr>) cs"
    "free_rep (s\<lparr>hmem := m1\<rparr>) B1 (free_of cs - {(x, n)})" "same_data (alloc_of cs) (hmem s) m1"
    by (rule heap_unlink [OF r B subset_refl xn(1)])
  define s1 where "s1 = s\<lparr>hmem := m1\<rparr>"
  have r2: "chunk_rep s1 (xs @ (x, n, False) # ys)" using m1(2) by (simp add: s1_def cs)
  have F1: "free_of cs - {(x, n)} = free_of (xs @ ys)" using chunk_rep_notin [OF r1] by (auto simp: cs)
  have f1: "free_rep s1 B1 (free_of (xs @ ys))" using m1(3) F1 by (simp add: s1_def)
  have xc: "(x, n, False) \<in> set (xs @ (x, n, False) # ys)" by simp
  note sz = chunk_repD(5) [OF r1 xc] and ia = chunk_in_arena [OF r1 xc]
  have n1: "hmem s1 x = Some n" using chunk_in_arena(2) [OF r2 xc] .
  have rem: "sub32 n k = n - k" using xn(2) ia(5) by (simp add: sub32_eq)
  have sd: "same_data (alloc_of cs) (hmem s) m" if "same_data (alloc_of (xs @ ys)) (hmem s1) m" for m
    using same_data_trans [OF m1(4), of m] that by (simp add: s1_def cs)
  show thesis
  proof (cases "n - k < 16")
    case True
    note fl = heap_flip [OF r2 f1 subset_refl, of True] and hd = chunk_header [OF r2]
    let ?m = "(hmem s1)(x + 4 \<mapsto> prec True (lsize 8 xs))"
    have "mm_malloc_locked k s = Some (x + 8, s\<lparr>hmem := ?m\<rparr>)"
      unfolding mm_malloc_locked_def i using f x(1) m1(1) n1 True hd(2,3) fl(1)
      by (simp add: s1_def [symmetric] node_size_def node_preceding_def rem) (simp add: s1_def)
    moreover have "heap_rep (s\<lparr>hmem := ?m\<rparr>) (xs @ carve x n k @ ys)"
      using fl(2) coalesced_parts(1) [OF co [unfolded cs]] True by (auto simp: heap_rep_def carve_def s1_def)
    ultimately show thesis using that [OF cs x(2)] sd fl(2) by blast
  next
    case False
    then have k': "k + 16 \<le> n" by simp
    note sp = heap_split [OF r2 f1 subset_refl k(1,2) k']
    define m2 where "m2 = (hmem s1)(x + k \<mapsto> n - k, x + k + 4 \<mapsto> k, x \<mapsto> k, x + n + 4 \<mapsto> prec (snd (snd (next_chunk s1 ys))) (n - k))"
    define s2 where "s2 = s1\<lparr>hmem := m2\<rparr>"
    let ?cs = "xs @ (x, k, False) # (x + k, n - k, False) # ys"
    have r3: "chunk_rep s2 ?cs" "free_rep s2 B1 (free_of (xs @ ys))" "same_data (alloc_of (xs @ ys)) (hmem s1) m2"
      using sp(2) by (simp_all add: s2_def m2_def)
    have r3': "chunk_rep s2 ((xs @ [(x, k, False)]) @ (x + k, n - k, False) # ys)" using r3(1) by simp
    obtain m3 B3 where m3: "mm_addfreechunk (x + k) s2 = Some (s2\<lparr>hmem := m3\<rparr>)" "chunk_rep (s2\<lparr>hmem := m3\<rparr>) ?cs"
      "free_rep (s2\<lparr>hmem := m3\<rparr>) B3 (insert (x + k, n - k) (free_of (xs @ ys)))" "same_data (alloc_of ?cs) (hmem s2) m3"
      by (rule heap_addfree [OF r3(1,2), of "x + k" "n - k"]) (use chunk_rep_notin [OF r3'] in auto)
    define s3 where "s3 = s2\<lparr>hmem := m3\<rparr>"
    have r4: "chunk_rep s3 ?cs" "free_rep s3 B3 (insert (x + k, n - k) (free_of (xs @ ys)))"
      "insert (x + k, n - k) (free_of (xs @ ys)) \<subseteq> free_of (xs @ (x + k, n - k, False) # ys)"
      using m3 by (auto simp: s3_def)
    note fl = heap_flip [OF r4, of True] and hd = chunk_header [OF r4(1)]
    let ?m = "(hmem s3)(x + 4 \<mapsto> prec True (lsize 8 xs))"
    have st: "s3\<lparr>hmem := ?m\<rparr> = s\<lparr>hmem := ?m\<rparr>" by (simp add: s3_def s2_def s1_def)
    have "mm_malloc_locked k s = Some (x + 8, s3\<lparr>hmem := ?m\<rparr>)"
    proof -
      obtain t1 t2 t3 where t: "set_size (x + k) (n - k) s1 = Some t1" "set_preceding (x + k) k t1 = Some t2"
        "set_size x k t2 = Some t3" "mm_fixpreceding (x + n) (n - k) t3 = Some s2"
        using sp(1) by (auto simp: s2_def m2_def bind_eq_Some_conv)
      show ?thesis
        unfolding mm_malloc_locked_def i using f x(1) m1(1) n1 False hd(2,3) fl(1) t m3(1)
        by (simp add: s1_def [symmetric] s3_def [symmetric] node_size_def node_preceding_def rem)
    qed
    moreover have "heap_rep (s3\<lparr>hmem := ?m\<rparr>) (xs @ carve x n k @ ys)"
      using fl(2) coalesced_parts(2) [OF co [unfolded cs]] False by (auto simp: heap_rep_def carve_def)
    moreover have "same_data (alloc_of (xs @ ys)) (hmem s1) ?m"
      using same_data_trans [OF same_data_trans [OF r3(3), of m3]] fl(2) m3(4) by (simp add: s2_def s3_def)
    ultimately show thesis using that [OF cs x(2)] sd st by simp
  qed
qed

section \<open>Release\<close>

text \<open>A chunk of size \<open>n\<close> in front of \<open>ys\<close>, with the first of \<open>ys\<close> merged into it if it is free.\<close>

fun absorb :: "nat \<Rightarrow> chunk list \<Rightarrow> nat \<times> chunk list" where
  "absorb n ((y, k, False) # ys) = (n + k, ys)"
| "absorb n ys = (n, ys)"

text \<open>The chunk \<open>(x, n)\<close> between \<open>xs\<close> and \<open>ys\<close> is released.\<close>

definition release :: "chunk list \<Rightarrow> addr \<Rightarrow> nat \<Rightarrow> chunk list \<Rightarrow> chunk list" where
  "release xs x n ys = (let (n, ys) = absorb n ys in
     case rev xs of (w, k, False) # zs \<Rightarrow> rev zs @ (w, k + n, False) # ys | _ \<Rightarrow> xs @ (x, n, False) # ys)"

lemma absorb_cases:
  obtains y k zs where "ys = (y, k, False) # zs" "absorb n ys = (n + k, zs)"
  | "absorb n ys = (n, ys)" "ys = [] \<or> snd (snd (hd ys))"
  by (cases "(n, ys)" rule: absorb.cases) auto

lemma mm_free_next_spec:
  assumes r: "chunk_rep s (xs @ (x, n, False) # ys)" and f: "free_rep s B (free_of (xs @ ys))" and a: "absorb n ys = (n', ys')"
  obtains m B' where "mm_free_next x s = Some (x + n', s\<lparr>hmem := m\<rparr>)" "chunk_rep (s\<lparr>hmem := m\<rparr>) (xs @ (x, n', False) # ys')"
    "free_rep (s\<lparr>hmem := m\<rparr>) B' (free_of (xs @ ys'))" "same_data (alloc_of (xs @ ys)) (hmem s) m"
proof -
  have xc: "(x, n, False) \<in> set (xs @ (x, n, False) # ys)" by simp
  note h = chunk_header [OF r] and sz = chunk_repD(5) [OF r xc]
  have r': "chunk_rep s (xs @ [(x, n, False)] @ ys)" using r by simp
  have c: "contig x [(x, n, False)] (x + n)" "[(x, n, False)] \<noteq> []" "fst (hd [(x, n, False)]) = x" using sz by simp_all
  obtain j g where nx: "next_chunk s ys = (x + n, j, g)" by (rule next_chunkE [OF r' c]) blast
  note nh = next_header [OF r' c nx]
  show thesis
  proof (rule absorb_cases [of ys n])
    assume ab: "absorb n ys = (n, ys)" "ys = [] \<or> snd (snd (hd ys))"
    then have "g" using nx by (cases ys) (auto simp: next_chunk_def)
    then have "mm_free_next x s = Some (x + n, s\<lparr>hmem := hmem s\<rparr>)"
      using h nh by (simp add: mm_free_next_def node_size_def node_preceding_def)
    then show thesis using that [of "hmem s" B] r f ab(1) a by simp
  next
    fix y k zs assume ys: "ys = (y, k, False) # zs" and ab: "absorb n ys = (n + k, zs)"
    have g: "y = x + n" "j = k" "\<not> g" using nx ys by (simp_all add: next_chunk_def)
    note rr = r [unfolded ys g(1)]
    let ?cs = "xs @ (x, n, False) # (x + n, k, False) # zs"
    have "free_of (xs @ ys) \<subseteq> free_of ?cs" "(x + n, k) \<in> free_of (xs @ ys)" by (auto simp: ys g(1))
    then obtain m1 B1 where m1: "mm_unlink (x + n) s = Some (s\<lparr>hmem := m1\<rparr>)" "chunk_rep (s\<lparr>hmem := m1\<rparr>) ?cs"
      "free_rep (s\<lparr>hmem := m1\<rparr>) B1 (free_of (xs @ ys) - {(x + n, k)})" "same_data (alloc_of ?cs) (hmem s) m1"
      by (rule heap_unlink [OF rr f])
    define s1 where "s1 = s\<lparr>hmem := m1\<rparr>"
    have rr': "chunk_rep s ((xs @ [(x, n, False)]) @ (x + n, k, False) # zs)" using rr by simp
    have F1: "free_of (xs @ ys) - {(x + n, k)} = free_of (xs @ zs)" using chunk_rep_notin [OF rr'] by (auto simp: ys g(1))
    have r1: "chunk_rep s1 ?cs" "free_rep s1 B1 (free_of (xs @ zs))" using m1 F1 by (simp_all add: s1_def)
    have r1': "chunk_rep s1 ((xs @ [(x, n, False)]) @ (x + n, k, False) # zs)" using r1(1) by simp
    note h1 = chunk_header [OF r1(1)] and h2 = chunk_header [OF r1'] and mg = heap_merge [OF r1 subset_refl]
    define m2 where "m2 = (hmem s1)(x \<mapsto> n + k, x + n + k + 4 \<mapsto> prec (snd (snd (next_chunk s1 zs))) (n + k))"
    define s2 where "s2 = s1\<lparr>hmem := m2\<rparr>"
    define t where "t = s1\<lparr>hmem := (hmem s1)(x \<mapsto> n + k)\<rparr>"
    have t: "set_size x (n + k) s1 = Some t" "mm_fixpreceding (x + n + k) (n + k) t = Some s2" "hmem t x = Some (n + k)"
      using mg(1,2) by (simp_all add: t_def s2_def m2_def)
    have "mm_free_next x s = Some (x + (n + k), s2)"
      unfolding mm_free_next_def using h(1) nh(1,2,3) g m1(1) h1(1) h2(1) t
      by (simp add: node_size_def node_preceding_def s1_def [symmetric] add.assoc)
    moreover have "s2 = s\<lparr>hmem := m2\<rparr>" by (simp add: s2_def s1_def)
    moreover have "same_data (alloc_of (xs @ ys)) (hmem s) m2"
      using same_data_trans [OF m1(4), of m2] mg(3) by (simp add: m2_def s1_def ys)
    ultimately show thesis using that [of m2 B1] mg(3) a ab by (simp add: s2_def m2_def)
  qed
qed

lemma last_chunk_cases:
  fixes xs :: "chunk list"
  obtains "xs = []" | zs w k where "xs = zs @ [(w, k, True)]" | zs w k where "xs = zs @ [(w, k, False)]"
proof (cases xs rule: rev_cases)
  case (snoc zs c)
  obtain w k b where "c = (w, k, b)" by (cases c)
  with snoc show thesis using that by (cases b) auto
qed (use that in simp)

lemma prec_False: "prec False p = p"
  by (simp add: prec_def)

lemma alloc_bit_clear: "p < 2 ^ 31 \<Longrightarrow> and p MM_ALLOC_BIT = 0"
  using prec_simps(1) [of p False] by (simp add: prec_False)

lemma mm_free_prev_spec:
  assumes r: "chunk_rep s (xs @ (x, n, False) # ys)" and f: "free_rep s B (free_of (xs @ ys))"
  obtains m B' zs w k where "mm_free_prev x (x + n) s = Some (w, s\<lparr>hmem := m\<rparr>)" "chunk_rep (s\<lparr>hmem := m\<rparr>) (zs @ (w, k, False) # ys)"
    "free_rep (s\<lparr>hmem := m\<rparr>) B' (free_of (zs @ ys))" "same_data (alloc_of (xs @ ys)) (hmem s) m"
    "zs @ (w, k, False) # ys = (case rev xs of (w, k, False) # zs \<Rightarrow> rev zs @ (w, k + n, False) # ys | _ \<Rightarrow> xs @ (x, n, False) # ys)"
proof -
  have xc: "(x, n, False) \<in> set (xs @ (x, n, False) # ys)" by simp
  note h = chunk_header [OF r] and sz = chunk_repD(5) [OF r xc] and ia = chunk_in_arena [OF r xc] and ar = arena_okD [OF chunk_repD(1) [OF r]]
  have x32: "x < 2 ^ 32" using ia(3) ar(4) by simp
  obtain z where z: "contig (mm_heapstart (heap s) + 8) xs z" "z = x" using chunk_repD(4) [OF r] by (auto simp: contig_append)
  show thesis
  proof (rule last_chunk_cases [of xs])
    assume 1: "xs = []"
    have "x - 8 = mm_heapstart (heap s)" using z 1 by simp
    moreover have "hmem s (mm_heapstart (heap s) + 4) = Some (prec True 0)"
      using chunk_repD(3) [OF r] by (simp add: guarded_def)
    ultimately have "mm_free_prev x (x + n) s = Some (x, s\<lparr>hmem := hmem s\<rparr>)"
      using h 1 x32 z by (simp add: mm_free_prev_def node_preceding_def sub32_eq prec_False)
    then show thesis using that [of x "hmem s" xs n B] r f 1 by simp
  next
    fix zs w k assume 2: "xs = zs @ [(w, k, True)]"
    then have r2: "chunk_rep s (zs @ (w, k, True) # (x, n, False) # ys)" using r by simp
    have w: "x = w + k" using z 2 by (auto simp: contig_append)
    note h2 = chunk_header [OF r2]
    have "mm_free_prev x (x + n) s = Some (x, s\<lparr>hmem := hmem s\<rparr>)"
      using h 2 x32 w h2 by (simp add: mm_free_prev_def node_preceding_def sub32_eq prec_False)
    then show thesis using that [of x "hmem s" xs n B] r f 2 by simp
  next
    fix zs w k assume 3: "xs = zs @ [(w, k, False)]"
    have w: "x = w + k" using z 3 by (auto simp: contig_append)
    let ?cs = "zs @ (w, k, False) # (w + k, n, False) # ys"
    have r3: "chunk_rep s ?cs" using r 3 w by simp
    have "free_of (xs @ ys) \<subseteq> free_of ?cs" "(w, k) \<in> free_of (xs @ ys)" by (auto simp: 3)
    then obtain m1 B1 where m1: "mm_unlink w s = Some (s\<lparr>hmem := m1\<rparr>)" "chunk_rep (s\<lparr>hmem := m1\<rparr>) ?cs"
      "free_rep (s\<lparr>hmem := m1\<rparr>) B1 (free_of (xs @ ys) - {(w, k)})" "same_data (alloc_of ?cs) (hmem s) m1"
      by (rule heap_unlink [OF r3 f])
    define s1 where "s1 = s\<lparr>hmem := m1\<rparr>"
    have F1: "free_of (xs @ ys) - {(w, k)} = free_of (zs @ ys)" using chunk_rep_notin [OF r3] by (auto simp: 3)
    have r1: "chunk_rep s1 ?cs" "free_rep s1 B1 (free_of (zs @ ys))" using m1 F1 by (simp_all add: s1_def)
    have r1': "chunk_rep s1 ((zs @ [(w, k, False)]) @ (w + k, n, False) # ys)" using r1(1) by simp
    note h1 = chunk_header [OF r1(1)] and h2 = chunk_header [OF r1'] and mg = heap_merge [OF r1 subset_refl] and h3 = chunk_header [OF r3]
    define m2 where "m2 = (hmem s1)(w \<mapsto> k + n, w + k + n + 4 \<mapsto> prec (snd (snd (next_chunk s1 ys))) (k + n))"
    define s2 where "s2 = s1\<lparr>hmem := m2\<rparr>"
    define t where "t = s1\<lparr>hmem := (hmem s1)(w \<mapsto> k + n)\<rparr>"
    have t: "set_size w (k + n) s1 = Some t" "mm_fixpreceding (w + k + n) (k + n) t = Some s2" "hmem t w = Some (k + n)"
      using mg(1,2) by (simp_all add: t_def s2_def m2_def)
    have "mm_free_prev x (x + n) s = Some (w, s2)"
      unfolding mm_free_prev_def using h 3 w x32 h1 h2 h3 m1(1) t
      by (simp add: node_size_def node_preceding_def s1_def [symmetric] sub32_eq prec_False alloc_bit_clear)
    moreover have e: "s2 = s\<lparr>hmem := m2\<rparr>" by (simp add: s2_def s1_def)
    ultimately have op: "mm_free_prev x (x + n) s = Some (w, s\<lparr>hmem := m2\<rparr>)" by simp
    have m: "chunk_rep s2 (zs @ (w, k + n, False) # ys)" "free_rep s2 B1 (free_of (zs @ ys))" "same_data (alloc_of (zs @ ys)) m1 m2"
      using mg(3) unfolding s2_def m2_def by (simp_all add: s1_def)
    have sd: "same_data (alloc_of (xs @ ys)) (hmem s) m2"
      using same_data_trans [OF m1(4), of m2] m(3) by (simp add: 3)
    show thesis by (rule that [OF op m(1,2) [unfolded e] sd]) (simp add: 3)
  qed
qed

lemma coalesced_release:
  assumes "coalesced (xs @ (x, n, True) # ys)"
  shows "coalesced (release xs x n ys)"
proof -
  obtain n' ys' where a: "absorb n ys = (n', ys')" by (cases "absorb n ys") auto
  have c: "coalesced xs" "coalesced ys" "\<And>k. coalesced ((x, k, False) # ys')" 
    using assms a by (auto simp: coalesced_def successively_append_iff successively_Cons elim!: absorb.elims)
  show ?thesis
    by (rule last_chunk_cases [of xs]; use c a in \<open>auto simp: release_def coalesced_def successively_append_iff successively_Cons\<close>)
qed

lemma mm_free_locked_spec:
  assumes h: "heap_rep s (xs @ (x, n, True) # ys)"
  obtains m where "mm_free_locked (x + 8) s = Some (s\<lparr>hmem := m\<rparr>)" "heap_rep (s\<lparr>hmem := m\<rparr>) (release xs x n ys)"
    "same_data (alloc_of (xs @ ys)) (hmem s) m"
proof -
  let ?K = "alloc_of (xs @ ys)"
  obtain B where B: "free_rep s B (free_of (xs @ ys))" and r: "chunk_rep s (xs @ (x, n, True) # ys)"
    and co: "coalesced (xs @ (x, n, True) # ys)" using h by (auto simp: heap_rep_def)
  note hd = chunk_header [OF r] and fl = heap_flip [OF r B subset_refl, of False]
  have x32: "x + 8 < 2 ^ 32"
    using chunk_in_arena(3) [OF r, of x n True] chunk_repD(5) [OF r, of x n True] arena_okD(4) [OF chunk_repD(1) [OF r]] by simp
  define s1 where "s1 = s\<lparr>hmem := (hmem s)(x + 4 \<mapsto> prec False (lsize 8 xs))\<rparr>"
  have s1: "set_preceding x (lsize 8 xs) s = Some s1" "chunk_rep s1 (xs @ (x, n, False) # ys)" "free_rep s1 B (free_of (xs @ ys))"
    "same_data ?K (hmem s) (hmem s1)"
    using fl by (simp_all add: s1_def prec_False)
  obtain n' ys' where a: "absorb n ys = (n', ys')" by (cases "absorb n ys") auto
  have K: "alloc_of ys' = alloc_of ys" using a by (auto elim!: absorb.elims)
  obtain m2 B2 where m2: "mm_free_next x s1 = Some (x + n', s1\<lparr>hmem := m2\<rparr>)" "chunk_rep (s1\<lparr>hmem := m2\<rparr>) (xs @ (x, n', False) # ys')"
    "free_rep (s1\<lparr>hmem := m2\<rparr>) B2 (free_of (xs @ ys'))" "same_data ?K (hmem s1) m2"
    by (rule mm_free_next_spec [OF s1(2,3) a])
  define s2 where "s2 = s1\<lparr>hmem := m2\<rparr>"
  note m2' = m2 [folded s2_def]
  obtain m3 B3 zs w k where m3: "mm_free_prev x (x + n') s2 = Some (w, s2\<lparr>hmem := m3\<rparr>)" "chunk_rep (s2\<lparr>hmem := m3\<rparr>) (zs @ (w, k, False) # ys')"
    "free_rep (s2\<lparr>hmem := m3\<rparr>) B3 (free_of (zs @ ys'))" "same_data (alloc_of (xs @ ys')) (hmem s2) m3"
    and z: "zs @ (w, k, False) # ys' = (case rev xs of (w, k, False) # zs \<Rightarrow> rev zs @ (w, k + n', False) # ys' | _ \<Rightarrow> xs @ (x, n', False) # ys')"
    by (rule mm_free_prev_spec [OF m2'(2,3)])
  define s3 where "s3 = s2\<lparr>hmem := m3\<rparr>"
  note m3' = m3 [folded s3_def]
  have rl: "release xs x n ys = zs @ (w, k, False) # ys'" using z a by (simp add: release_def)
  have "alloc_of (zs @ (w, k, False) # ys') = ?K" unfolding z using K
    by (rule_tac last_chunk_cases [of xs]) auto
  moreover obtain m4 B4 where m4: "mm_addfreechunk w s3 = Some (s3\<lparr>hmem := m4\<rparr>)" "chunk_rep (s3\<lparr>hmem := m4\<rparr>) (zs @ (w, k, False) # ys')"
    "free_rep (s3\<lparr>hmem := m4\<rparr>) B4 (insert (w, k) (free_of (zs @ ys')))" "same_data (alloc_of (zs @ (w, k, False) # ys')) (hmem s3) m4"
    by (rule heap_addfree [OF m3'(2,3), of w k]) (use chunk_rep_notin [OF m3'(2)] in auto)
  ultimately have sd: "same_data ?K (hmem s) m4"
    using same_data_trans [OF s1(4) same_data_trans [OF m2(4) same_data_trans]] m3(4) K by (simp add: s2_def s3_def)
  have st: "s3\<lparr>hmem := m4\<rparr> = s\<lparr>hmem := m4\<rparr>" by (simp add: s3_def s2_def s1_def)
  have "mm_free_locked (x + 8) s = Some (s\<lparr>hmem := m4\<rparr>)"
    unfolding mm_free_locked_def using x32 hd(2,3) s1(1) m2'(1) m3'(1) m4(1) st by (simp add: node_preceding_def sub32_eq)
  moreover have "heap_rep (s\<lparr>hmem := m4\<rparr>) (release xs x n ys)"
    using m4 st rl coalesced_release [OF co] by (auto simp: heap_rep_def)
  ultimately show thesis using that sd by blast
qed

end
