(* ===== verification/MmLock.thy ===== *)
theory MmLock
  imports MmOps
begin

text \<open>
  The lock of the heap, and the operations that take it. When nobody holds the lock, taking it,
  changing the memory and giving it back leaves nothing but the change of the memory.
\<close>

section \<open>An idle lock\<close>

definition mm_unlocked :: "'a hpstate_scheme \<Rightarrow> bool" where
  "mm_unlocked s \<longleftrightarrow> kseminv s \<and> \<not> up_interrupt_context s \<and> sems s (mm_semaphore (heap s)) = Some \<lparr>semcount = 1\<rparr> \<and>
     mm_holder (heap s) = -1 \<and> mm_counts_held (heap s) = 0 \<and> getpid s \<noteq> Some (-1)"

definition mm_locked :: "'a hpstate_scheme \<Rightarrow> 'a hpstate_scheme" where
  "mm_locked s = s\<lparr>sems := (sems s)(mm_semaphore (heap s) \<mapsto> \<lparr>semcount = 0\<rparr>),
     heap := (heap s)\<lparr>mm_holder := the (getpid s), mm_counts_held := 1\<rparr>\<rparr>"

lemma kseminv_running:
  assumes "kseminv s"
  obtains r where "this_task s \<noteq> NULL" "tcbs s (this_task s) = Some r" "waitsem r = NULL" "getpid s = Some (pid r)"
proof -
  obtain a where a: "srefines s a (sems s)" "sem_inv a (sems s)" "refines s a" "a_core a" "this_task s = a_running a"
    using assms by (auto elim: ksemE)
  have lv: "a_live a (a_running a)" using a_core_running_live [OF a(4)] .
  have "a_running a \<notin> set (waitlist a)"
    using a_core_disjoint [OF a(4), of "a_running a" g_waitingforsemaphore g_readytorun] a_core_running [OF a(4)] by auto
  then have w: "waitsem (a_tcb a (a_running a)) = NULL" using sem_invD(6) [OF a(2) lv] by simp
  have t: "tcbs s (this_task s) = Some (a_tcb a (a_running a))" using refines_tcb [OF a(3) lv] a(5) by simp
  have n: "this_task s \<noteq> NULL" using lv a(5) by (auto simp: a_live_def)
  show thesis using that [OF n t w] n t by (simp add: getpid_def get_tcb_def)
qed

lemma mm_takesemaphore_unlocked:
  assumes "mm_unlocked s"
  shows "mm_takesemaphore s = Some (Returned (), mm_locked s)"
    "mm_givesemaphore ((mm_locked s)\<lparr>hmem := m\<rparr>) = Some (s\<lparr>hmem := m\<rparr>)"
proof -
  let ?p = "mm_semaphore (heap s)"
  note u = assms [unfolded mm_unlocked_def]
  obtain r where r: "this_task s \<noteq> NULL" "tcbs s (this_task s) = Some r" "waitsem r = NULL" "getpid s = Some (pid r)"
    using kseminv_running u by blast
  have p: "?p \<noteq> NULL" using u kseminvE sem_invD(5) by (metis option.distinct(1))
  have rr: "(tcbs s)(this_task s \<mapsto> r\<lparr>waitsem := NULL\<rparr>) = tcbs s" using r(2,3) by (simp add: fun_upd_idem)
  have w: "nxsem_wait ?p s = Some (Returned 0, s\<lparr>sems := (sems s)(?p \<mapsto> \<lparr>semcount = 0\<rparr>)\<rparr>)"
    using u p r(1,2) rr by (simp add: nxsem_wait_def get_sem_def set_semcount_def upd_tcb_def get_tcb_def debugassert_def s16_def)
  then have "mm_semwait_loop s = Some (Returned (), s\<lparr>sems := (sems s)(?p \<mapsto> \<lparr>semcount = 0\<rparr>)\<rparr>)"
    by (subst mm_semwait_loop.simps) simp
  then show "mm_takesemaphore s = Some (Returned (), mm_locked s)"
    using u r(4) by (simp add: mm_takesemaphore_def mm_claim_def mm_locked_def)
  have "getpid ((mm_locked s)\<lparr>hmem := m\<rparr>) = Some (pid r)"
    using r(1,2) by (simp add: getpid_def get_tcb_def this_task_def mm_locked_def)
  moreover have "sems s = (sems s)(?p \<mapsto> \<lparr>semcount = 1\<rparr>)" using u by (simp add: fun_upd_idem)
  moreover have "heap s = (heap s)\<lparr>mm_holder := -1, mm_counts_held := 0\<rparr>" using u by (cases "heap s") simp
  ultimately show "mm_givesemaphore ((mm_locked s)\<lparr>hmem := m\<rparr>) = Some (s\<lparr>hmem := m\<rparr>)"
    using p r(4)
    by (simp add: mm_givesemaphore_def mm_locked_def nxsem_post_def get_sem_def set_semcount_def debugassert_def s16_def SEM_VALUE_MAX_def)
qed

lemma kseminv_hmem [simp]: "kseminv (s\<lparr>hmem := m\<rparr>) = kseminv s"
  by (simp add: kseminv_def refines_def)

lemma getpid_hmem [simp]: "getpid (s\<lparr>hmem := m\<rparr>) = getpid s"
  by (simp add: getpid_def get_tcb_def this_task_def)

lemma mm_unlocked_hmem [simp]: "mm_unlocked (s\<lparr>hmem := m\<rparr>) = mm_unlocked s"
  by (simp add: mm_unlocked_def up_interrupt_context_def)

text \<open>A task that finds the lock held by another one waits for it.\<close>

lemma mm_takesemaphore_busy:
  assumes k: "kseminv s" "\<not> up_interrupt_context s" "this_task s \<noteq> idle_task s"
    and p: "sems s (mm_semaphore (heap s)) = Some x" "semcount x \<le> 0" "- (2 ^ 15) < semcount x"
    and o: "getpid s \<noteq> Some (mm_holder (heap s))"
  obtains v s' where "mm_takesemaphore s = Some (Switched v, s')" "kseminv s'" "hmem s' = hmem s" "heap s' = heap s"
    "waits_for s' (mm_semaphore (heap s)) (this_task s)"
proof -
  let ?p = "mm_semaphore (heap s)"
  obtain a where a: "srefines s a (sems s)" "sem_inv a (sems s)" "a_core a" "idle_task s = a_idle a" "this_task s = a_running a"
    using k(1) by (rule ksemE)
  have p': "sems s ?p \<noteq> None" "sem_count (sems s) ?p \<le> 0" "- (2 ^ 15) < sem_count (sems s) ?p" using p by (simp_all add: sem_count_def)
  have ni: "a_running a \<noteq> a_idle a" using k(3) a(4,5) by simp
  obtain s' where s': "nxsem_wait ?p s = Some (Switched (pterrno (a_tcb a (a_running a))), s')"
    "srefines s' (a_sem_block ?p a) (sem_upd (sems s) ?p (sem_count (sems s) ?p - 1))" "sframe s s'"
    using nxsem_wait_block_refines [OF a(1,2) p' k(2) ni] by blast
  note i' = sem_inv_block [OF a(2) ni p'] and ok = a_sem_block_ok [OF sem_invD(1) [OF a(2)] ni, where p = ?p]
  have "a_running a \<in> set (waiters (a_sem_block ?p a) ?p)"
    using ok(4) [OF a_core_running_live [OF a(3)]] by (simp add: waiters_def ok(2))
  then have w: "waits_for s' ?p (this_task s)" using waits_for_waiters [OF s'(2) i'] a(5) by simp
  have fr: "hmem s' = hmem s" "heap s' = heap s" using s'(3) by (cases s, cases s', simp add: sframe_def)+
  obtain v where r: "getpid s = Some v" using k(1) by (auto elim: kseminv_running)
  have "mm_semwait_loop s = Some (Switched (pterrno (a_tcb a (a_running a))), s')" using s'(1) by (subst mm_semwait_loop.simps) simp
  then have "mm_takesemaphore s = Some (Switched (pterrno (a_tcb a (a_running a))), s')" using r o by (simp add: mm_takesemaphore_def)
  then show thesis using that kseminvI [OF s'(2) i'] fr w by blast
qed

section \<open>What the representation depends on\<close>

lemma heap_rep_cong:
  assumes "hmem s' = hmem s" "mm_heapstart (heap s') = mm_heapstart (heap s)" "mm_heapend (heap s') = mm_heapend (heap s)"
    "mm_nodelist (heap s') = mm_nodelist (heap s)" "mm_heapsize (heap s') = mm_heapsize (heap s)"
  shows "heap_rep s' cs = heap_rep s cs"
proof -
  have a: "arena_ok s' = arena_ok s" "\<And>x. in_arena s' x = in_arena s x" "\<And>i. nodelist s' i = nodelist s i"
    using assms by (simp_all add: arena_ok_def in_arena_def nodelist_def)
  have "free_lists s' B F = free_lists s B F" for B F using assms(1) a(2) by (simp add: free_lists_def)
  then have "free_rep s' B F = free_rep s B F" for B F using assms a(3) by (simp add: free_rep_def)
  moreover have "chunk_rep s' cs = chunk_rep s cs" using assms a(1) by (simp add: chunk_rep_def guarded_def)
  ultimately show ?thesis by (simp add: heap_rep_def)
qed

lemma heap_rep_locked: "heap_rep (mm_locked s) cs = heap_rep s cs"
  by (rule heap_rep_cong) (simp_all add: mm_locked_def)

lemma heap_rep_locked_mem: "heap_rep ((mm_locked s)\<lparr>hmem := m\<rparr>) cs = heap_rep (s\<lparr>hmem := m\<rparr>) cs"
  by (rule heap_rep_cong) (simp_all add: mm_locked_def)

lemma hmem_locked [simp]: "hmem (mm_locked s) = hmem s"
  by (simp add: mm_locked_def)

section \<open>Allocation and release\<close>

text \<open>The size of the chunk for \<open>sz\<close> bytes of user data.\<close>

definition chunk_size :: "nat \<Rightarrow> nat" where
  "chunk_size sz = (sz + 23) div 16 * 16"

lemma chunk_size_bounds: "0 < sz \<Longrightarrow> 16 \<le> chunk_size sz" "chunk_size sz mod 16 = 0" "sz + 8 \<le> chunk_size sz" "chunk_size sz < sz + 24"
  by (simp_all add: chunk_size_def)

lemma align_chunk_size: "sz + 24 \<le> 2 ^ 32 \<Longrightarrow> MM_ALIGN_UP (u32 (sz + 8)) = chunk_size sz"
  by (simp add: MM_ALIGN_UP_eq u32_def chunk_size_def)

lemma mm_malloc_none:
  assumes u: "mm_unlocked s" and h: "heap_rep s cs" and sz: "0 < sz" "sz + 24 \<le> 2 ^ 32" and k: "\<forall>(y, j) \<in> free_of cs. j < chunk_size sz"
  shows "mm_malloc sz s = Some (Returned NULL, s)"
proof -
  have e: "(mm_locked s)\<lparr>hmem := hmem s\<rparr> = mm_locked s" by (simp add: mm_locked_def)
  have "mm_malloc_locked (chunk_size sz) (mm_locked s) = Some (NULL, (mm_locked s)\<lparr>hmem := hmem s\<rparr>)"
    using mm_malloc_locked_none [OF _ chunk_size_bounds(1) k, of "mm_locked s"] h sz(1) by (simp add: heap_rep_locked e)
  then show ?thesis
    using sz mm_takesemaphore_unlocked [OF u] align_chunk_size [OF sz(2)] chunk_size_bounds(3) [of sz]
    by (simp add: mm_malloc_def debugassert_def)
qed

lemma mm_malloc_some:
  assumes u: "mm_unlocked s" and h: "heap_rep s cs" and sz: "0 < sz" "sz + 24 \<le> 2 ^ 32" and k: "\<exists>(y, j) \<in> free_of cs. chunk_size sz \<le> j"
  obtains xs x n ys m where "cs = xs @ (x, n, False) # ys" "best_fit (free_of cs) (chunk_size sz) x n"
    "mm_malloc sz s = Some (Returned (x + 8), s\<lparr>hmem := m\<rparr>)" "heap_rep (s\<lparr>hmem := m\<rparr>) (xs @ carve x n (chunk_size sz) @ ys)"
    "same_data (alloc_of cs) (hmem s) m"
proof -
  have h': "heap_rep (mm_locked s) cs" using h by (simp add: heap_rep_locked)
  obtain xs x n ys m where m: "cs = xs @ (x, n, False) # ys" "best_fit (free_of cs) (chunk_size sz) x n"
    "mm_malloc_locked (chunk_size sz) (mm_locked s) = Some (x + 8, (mm_locked s)\<lparr>hmem := m\<rparr>)"
    "heap_rep ((mm_locked s)\<lparr>hmem := m\<rparr>) (xs @ carve x n (chunk_size sz) @ ys)" "same_data (alloc_of cs) (hmem (mm_locked s)) m"
    by (rule mm_malloc_locked_some [OF h' chunk_size_bounds(1) [OF sz(1)] chunk_size_bounds(2) k])
  have "mm_malloc sz s = Some (Returned (x + 8), s\<lparr>hmem := m\<rparr>)"
    using sz mm_takesemaphore_unlocked [OF u] align_chunk_size [OF sz(2)] chunk_size_bounds(3) [of sz] m(3)
    by (simp add: mm_malloc_def debugassert_def)
  then show thesis using that [OF m(1,2)] m(4,5) by (simp add: heap_rep_locked_mem)
qed

lemma mm_free_spec:
  assumes u: "mm_unlocked s" and h: "heap_rep s (xs @ (x, n, True) # ys)"
  obtains m where "mm_free (x + 8) s = Some (Returned (), s\<lparr>hmem := m\<rparr>)" "heap_rep (s\<lparr>hmem := m\<rparr>) (release xs x n ys)"
    "same_data (alloc_of (xs @ ys)) (hmem s) m"
proof -
  have h': "heap_rep (mm_locked s) (xs @ (x, n, True) # ys)" using h by (simp add: heap_rep_locked)
  obtain m where m: "mm_free_locked (x + 8) (mm_locked s) = Some ((mm_locked s)\<lparr>hmem := m\<rparr>)"
    "heap_rep ((mm_locked s)\<lparr>hmem := m\<rparr>) (release xs x n ys)" "same_data (alloc_of (xs @ ys)) (hmem (mm_locked s)) m"
    by (rule mm_free_locked_spec [OF h'])
  have "mm_free (x + 8) s = Some (Returned (), s\<lparr>hmem := m\<rparr>)"
    using mm_takesemaphore_unlocked [OF u] m(1) by (simp add: mm_free_def)
  then show thesis using that m(2,3) by (simp add: heap_rep_locked_mem)
qed

end
