(* ===== verification/MmInit.thy ===== *)
theory MmInit
  imports MmLock
begin

text \<open>
  The initialisation of the heap: after \<^verbatim>\<open>mm_initialize\<close> the region is one free chunk between the
  guard nodes, and nobody holds the lock.
\<close>

section \<open>The array of list heads\<close>

lemma mm_clear_nodes_spec:
  assumes "\<forall>i < 4 * n. hmem s (a + 4 * i) \<noteq> None"
  shows "\<exists>m. mm_clear_nodes n a s = Some (s\<lparr>hmem := m\<rparr>) \<and> dom m = dom (hmem s) \<and>
    (\<forall>i < 4 * n. m (a + 4 * i) = Some 0) \<and> (\<forall>c. c < a \<or> a + 16 * n \<le> c \<longrightarrow> m c = hmem s c)"
  using assms
proof (induction n arbitrary: a s)
  case 0
  then show ?case by (intro exI [of _ "hmem s"]) simp
next
  case (Suc n)
  have c: "hmem s a \<noteq> None" "hmem s (a + 4) \<noteq> None" "hmem s (a + 8) \<noteq> None" "hmem s (a + 12) \<noteq> None"
    using Suc.prems [rule_format, of 0] Suc.prems [rule_format, of 1] Suc.prems [rule_format, of 2] Suc.prems [rule_format, of 3] by simp_all
  define m1 where "m1 = (hmem s)(a \<mapsto> 0, a + 4 \<mapsto> 0, a + 8 \<mapsto> 0, a + 12 \<mapsto> 0)"
  define t where "t = s\<lparr>hmem := m1\<rparr>"
  have d: "dom m1 = dom (hmem s)" using c unfolding m1_def by (simp add: insert_absorb domIff)
  have "hmem s (a + 16 + 4 * i) \<noteq> None" if "i < 4 * n" for i
    using Suc.prems [rule_format, of "i + 4"] that by (simp add: algebra_simps)
  then have "\<forall>i < 4 * n. hmem t (a + 16 + 4 * i) \<noteq> None" using d by (auto simp: t_def domIff set_eq_iff)
  from Suc.IH [OF this] obtain m where m: "mm_clear_nodes n (a + 16) t = Some (t\<lparr>hmem := m\<rparr>)" "dom m = dom m1"
    "\<forall>i < 4 * n. m (a + 16 + 4 * i) = Some 0" "\<forall>c. c < a + 16 \<or> a + 16 + 16 * n \<le> c \<longrightarrow> m c = m1 c"
    unfolding t_def by auto
  have "mm_clear_nodes (Suc n) a s = mm_clear_nodes n (a + 16) t" using c by (simp add: hstore_eq t_def m1_def)
  then have "mm_clear_nodes (Suc n) a s = Some (s\<lparr>hmem := m\<rparr>)" using m(1) by (simp add: t_def)
  moreover have "dom m = dom (hmem s)" using m(2) d by simp
  moreover have "m (a + 4 * i) = Some 0" if "i < 4 * Suc n" for i
  proof (cases "i < 4")
    case True
    then have "m (a + 4 * i) = m1 (a + 4 * i)" using m(4) by simp
    moreover have "i = 0 \<or> i = 1 \<or> i = 2 \<or> i = 3" using True by linarith
    ultimately show ?thesis by (auto simp: m1_def)
  next
    case False
    then have "m (a + 16 + 4 * (i - 4)) = Some 0" using m(3) that by simp
    then show ?thesis using False by (simp add: algebra_simps)
  qed
  moreover have "m c = hmem s c" if "c < a \<or> a + 16 * Suc n \<le> c" for c using m(4) that by (auto simp: m1_def)
  ultimately show ?case by blast
qed

lemma mm_link_nodes_append: "mm_link_nodes (xs @ ys) s = mm_link_nodes xs s \<bind> mm_link_nodes ys"
  by (induction xs arbitrary: s) (auto split: bind_splits)

lemma nodes_links_ok:
  fixes nl j :: nat
  assumes "0 < nl" "nl + 16 * j < 2 ^ 32"
  shows "links_ok (map (\<lambda>i. nl + 16 * i) [0..<j])"
proof -
  have "nl + 16 * i + 4 \<noteq> nl + 16 * k" for i k :: nat by presburger
  then show ?thesis using assms by (auto simp: links_ok_def distinct_map inj_on_def)
qed

lemma mm_link_nodes_spec:
  fixes N :: nat
  defines "nd \<equiv> \<lambda>s :: 'a hpstate_scheme. \<lambda>i. mm_nodelist (heap s) + 16 * i"
  assumes nl: "0 < mm_nodelist (heap s)" "nd s N < 2 ^ 32"
    and z: "\<forall>i < N. hmem s (nd s i + 8) = Some 0 \<and> hmem s (nd s i + 12) = Some 0" and j: "0 < j" "j \<le> N"
  shows "\<exists>m. mm_link_nodes [1..<j] s = Some (s\<lparr>hmem := m\<rparr>) \<and> dom m = dom (hmem s) \<and>
    dll m 0 (map (nd s) [0..<j]) 0 \<and> (\<forall>i < N. j \<le> i \<longrightarrow> m (nd s i + 8) = Some 0 \<and> m (nd s i + 12) = Some 0) \<and>
    (\<forall>c. (\<forall>i < N. c \<noteq> nd s i + 8 \<and> c \<noteq> nd s i + 12) \<longrightarrow> m c = hmem s c)"
  using j
proof (induction j)
  case 0
  then have False by simp
  then show ?case ..
next
  case (Suc j)
  show ?case
  proof (cases "j = 0")
    case True
    then show ?thesis using z z [rule_format, of 0] Suc.prems by (intro exI [of _ "hmem s"]) (simp add: nd_def)
  next
    case False
    then obtain m where m: "mm_link_nodes [1..<j] s = Some (s\<lparr>hmem := m\<rparr>)" "dom m = dom (hmem s)" "dll m 0 (map (nd s) [0..<j]) 0"
      "\<forall>i < N. j \<le> i \<longrightarrow> m (nd s i + 8) = Some 0 \<and> m (nd s i + 12) = Some 0"
      "\<forall>c. (\<forall>i < N. c \<noteq> nd s i + 8 \<and> c \<noteq> nd s i + 12) \<longrightarrow> m c = hmem s c"
      using Suc.IH [OF _ Suc_leD [OF Suc.prems(2)]] by blast
    obtain k where k: "j = Suc k" using False by (cases j) auto
    let ?m = "m(nd s k + 8 \<mapsto> nd s j, nd s j + 12 \<mapsto> nd s k)"
    have lt: "nd s j < 2 ^ 32" "nd s k < 2 ^ 32" using nl(2) Suc.prems(2) k by (simp_all add: nd_def)
    have mj: "m (nd s j + 8) = Some 0" "m (nd s j + 12) = Some 0" using m(4) Suc.prems(2) by simp_all
    have up: "map (nd s) [0..<j] = map (nd s) [0..<k] @ [nd s k]" by (simp add: k)
    have ok: "links_ok (map (nd s) [0..<Suc j])"
      using nodes_links_ok [of "mm_nodelist (heap s)" "Suc j"] nl Suc.prems(2) by (simp add: nd_def)
    have okj: "links_ok (map (nd s) [0..<k] @ [nd s k])" by (rule links_ok_sub [OF ok]) (use links_okD(1) [OF ok] in \<open>auto simp: k\<close>)
    note d = dll_set_next(1) [OF m(3) [unfolded up] okj, of "nd s j"] dll_set_next(2) [OF m(3) [unfolded up] okj]
    have cj: "nd s j + 12 \<notin> lcells (map (nd s) [0..<k] @ [nd s k])" "nd s j + 8 \<noteq> nd s k + 8"
      using links_ok_cells(3) [of "map (nd s) [0..<j]" "nd s j" "[]"] ok unfolding up by (simp_all add: k nd_def)
    have st: "mm_link_nodes [j] (s\<lparr>hmem := m\<rparr>) = Some (s\<lparr>hmem := ?m\<rparr>)"
      using d(2) mj lt by (simp add: k set_flink_def set_blink_def hstore_eq nodelist_def nd_def)
    have "mm_link_nodes [1..<Suc j] s = Some (s\<lparr>hmem := ?m\<rparr>)"
      using m(1) st False mm_link_nodes_append [of "[1..<j]" "[j]" s] by simp
    moreover have "dom ?m = dom (hmem s)" using m(2) mj d(2) by (auto simp: domIff)
    moreover have "dll ?m 0 (map (nd s) [0..<Suc j]) 0"
    proof -
      have "dll ?m 0 (map (nd s) [0..<k] @ [nd s k]) (nd s j)" unfolding dll_upd [OF cj(1)] by (rule d(1))
      moreover have "dll ?m (nd s k) [nd s j] 0" using mj(1) cj(2) by simp
      ultimately have "dll ?m 0 ((map (nd s) [0..<k] @ [nd s k]) @ [nd s j]) 0" unfolding dll_append [of _ _ _ "[nd s j]"] by simp
      then show ?thesis unfolding up [symmetric] by simp
    qed
    moreover have "?m (nd s i + 8) = Some 0 \<and> ?m (nd s i + 12) = Some 0" if "i < N" "Suc j \<le> i" for i
      using m(4) that by (simp add: nd_def k)
    moreover have "?m c = hmem s c" if "\<forall>i < N. c \<noteq> nd s i + 8 \<and> c \<noteq> nd s i + 12" for c
      using m(5) that that [rule_format, of k] that [rule_format, of j] Suc.prems(2) k by simp
    ultimately show ?thesis by (intro exI [of _ ?m] conjI allI impI) (assumption | blast)+
  qed
qed

section \<open>The region\<close>

text \<open>
  The memory that \<^verbatim>\<open>mm_initialize\<close> needs: the region from \<open>base\<close> to \<open>e\<close>, after both ends are aligned, and
  the array of list heads, apart from each other and from the semaphore of the lock.
\<close>

definition region_ok :: "'a hpstate_scheme \<Rightarrow> addr \<Rightarrow> nat \<Rightarrow> bool" where
  "region_ok s heapstart heapsize \<longleftrightarrow>
     (let base = (heapstart + 15) div 16 * 16; e = (heapstart + heapsize) div 16 * 16; nl = mm_nodelist (heap s) in
      heapstart + heapsize < 2 ^ 32 \<and> 0 < base \<and> base + 32 \<le> e \<and> e - base \<le> 2 ^ 31 \<and>
      0 < nl \<and> nl mod 4 = 0 \<and> nl + 16 * MM_NNODES < 2 ^ 32 \<and> (nl + 16 * MM_NNODES \<le> base \<or> e \<le> nl) \<and>
      (\<forall>c. c mod 4 = 0 \<and> (base \<le> c \<and> c < e \<or> nl \<le> c \<and> c < nl + 16 * MM_NNODES) \<longrightarrow> hmem s c \<noteq> None))"

text \<open>The state with the heads of the lists initialised.\<close>

lemma mm_nodes_init:
  assumes nl: "0 < mm_nodelist (heap s)" "mm_nodelist (heap s) mod 4 = 0" "mm_nodelist (heap s) + 16 * MM_NNODES < 2 ^ 32"
    and c: "\<forall>c. c mod 4 = 0 \<and> mm_nodelist (heap s) \<le> c \<and> c < mm_nodelist (heap s) + 16 * MM_NNODES \<longrightarrow> hmem s c \<noteq> None"
  obtains m where "mm_clear_nodes MM_NNODES (mm_nodelist (heap s)) s \<bind> mm_link_nodes [1..<MM_NNODES] = Some (s\<lparr>hmem := m\<rparr>)"
    "dom m = dom (hmem s)" "dll m 0 (flist (mm_nodelist (heap s)) (\<lambda>_. []) [0..<MM_NNODES]) 0" "\<forall>i < MM_NNODES. m (nodelist s i) = Some 0"
proof -
  let ?nl = "mm_nodelist (heap s)"
  have "\<forall>i < 4 * MM_NNODES. hmem s (?nl + 4 * i) \<noteq> None"
    using c nl(2) by (auto simp: mod_add_left_eq [symmetric] simp del: MM_NNODES_def)
  from mm_clear_nodes_spec [OF this] obtain m1 where m1: "mm_clear_nodes MM_NNODES ?nl s = Some (s\<lparr>hmem := m1\<rparr>)" "dom m1 = dom (hmem s)"
    "\<forall>i < 4 * MM_NNODES. m1 (?nl + 4 * i) = Some 0" by blast
  define t where "t = s\<lparr>hmem := m1\<rparr>"
  have z: "m1 (?nl + 16 * i) = Some 0" "m1 (?nl + 16 * i + 8) = Some 0" "m1 (?nl + 16 * i + 12) = Some 0" if "i < MM_NNODES" for i
    using m1(3) [rule_format, of "4 * i"] m1(3) [rule_format, of "4 * i + 2"] m1(3) [rule_format, of "4 * i + 3"] that
    by (simp_all add: algebra_simps)
  have t: "mm_nodelist (heap t) = ?nl" "hmem t = m1" by (simp_all add: t_def)
  obtain m where m: "mm_link_nodes [1..<MM_NNODES] t = Some (t\<lparr>hmem := m\<rparr>)" "dom m = dom m1"
    "dll m 0 (map (\<lambda>i. ?nl + 16 * i) [0..<MM_NNODES]) 0"
    "\<forall>c. (\<forall>i < MM_NNODES. c \<noteq> ?nl + 16 * i + 8 \<and> c \<noteq> ?nl + 16 * i + 12) \<longrightarrow> m c = m1 c"
    using mm_link_nodes_spec [of t MM_NNODES MM_NNODES, unfolded t] nl(1,3) z by auto
  have "flist ?nl (\<lambda>_. []) is = map (\<lambda>i. ?nl + 16 * i) is" for "is" by (induction "is") auto
  moreover have "m (nodelist s i) = Some 0" if i: "i < MM_NNODES" for i
  proof -
    have "?nl + 16 * i \<noteq> ?nl + 16 * j + 8 \<and> ?nl + 16 * i \<noteq> ?nl + 16 * j + 12" for j by presburger
    then show ?thesis using m(4) z(1) [OF i] by (simp add: nodelist_def)
  qed
  moreover have "t\<lparr>hmem := m\<rparr> = s\<lparr>hmem := m\<rparr>" by (simp add: t_def)
  ultimately show thesis using that [of m] m m1(1,2) by (simp add: t_def)
qed

lemma align_down: "a < 2 ^ 32 \<Longrightarrow> MM_ALIGN_DOWN a = a div 16 * 16"
  using and_gran [of a] by (simp add: MM_ALIGN_DOWN_def)

lemma align_up: "a + 15 < 2 ^ 32 \<Longrightarrow> MM_ALIGN_UP a = (a + 15) div 16 * 16"
  by (simp add: MM_ALIGN_UP_eq u32_def)

text \<open>Adding the region to a heap with empty lists.\<close>

lemma mm_addregion_spec:
  fixes base e :: nat
  assumes b: "base = (heapstart + 15) div 16 * 16" "e = (heapstart + heapsize) div 16 * 16"
    and ok: "region_ok s heapstart heapsize" and z: "mm_heapsize (heap s) = 0"
    and nl: "dll (hmem s) 0 (flist (mm_nodelist (heap s)) (\<lambda>_. []) [0..<MM_NNODES]) 0" "\<forall>i < MM_NNODES. hmem s (nodelist s i) = Some 0"
  defines "h \<equiv> (heap s)\<lparr>mm_heapsize := e - base, mm_heapstart := base, mm_heapend := e - 8\<rparr>"
  obtains m where "mm_addregion heapstart heapsize s = Some (s\<lparr>heap := h, hmem := m\<rparr>)"
    "heap_rep (s\<lparr>heap := h, hmem := m\<rparr>) [(base + 8, e - base - 16, False)]"
proof -
  let ?nl = "mm_nodelist (heap s)" and ?n = "e - base - 16"
  have o: "heapstart + heapsize < 2 ^ 32" "0 < base" "base + 32 \<le> e" "e - base \<le> 2 ^ 31" "0 < ?nl" "?nl mod 4 = 0"
    "?nl + 16 * MM_NNODES < 2 ^ 32" "?nl + 16 * MM_NNODES \<le> base \<or> e \<le> ?nl"
    "\<And>c. c mod 4 = 0 \<Longrightarrow> base \<le> c \<and> c < e \<or> ?nl \<le> c \<and> c < ?nl + 16 * MM_NNODES \<Longrightarrow> hmem s c \<noteq> None"
    using ok unfolding region_ok_def b [symmetric] Let_def by simp_all
  have m16: "base mod 16 = 0" "e mod 16 = 0" using b by simp_all
  obtain p q where pq: "base = 16 * p" "e = 16 * q" using b by (metis mult.commute)
  have e32: "e < 2 ^ 32" "heapstart + 15 < 2 ^ 32" using b o(1,3) by linarith+
  have cells: "hmem s base \<noteq> None" "hmem s (base + 4) \<noteq> None" "hmem s (base + 8) \<noteq> None" "hmem s (base + 12) \<noteq> None"
    "hmem s (e - 8) \<noteq> None" "hmem s (e - 4) \<noteq> None"
    using o(3) by (intro o(9); simp add: pq; presburger)+
  define m where "m = (hmem s)(base \<mapsto> 8, base + 4 \<mapsto> 2 ^ 31, base + 8 \<mapsto> ?n, base + 12 \<mapsto> 8, e - 8 \<mapsto> 8, e - 4 \<mapsto> ?n + 2 ^ 31)"
  define t where "t = s\<lparr>heap := h, hmem := m\<rparr>"
  have n31: "?n < 2 ^ 31" using o(3,4) by simp
  have e8: "e - 8 + 4 = e - 4" "e - 4 \<noteq> base + 8" "e - 8 \<noteq> base + 8" using o(3) by simp_all
  have op: "mm_addregion heapstart heapsize s = mm_addfreechunk (base + 8) t"
  proof -
    define n where "n = ?n"
    have n: "n < 2 ^ 31" "e - base < 2 ^ 32" using n31 e32(1) by (simp_all add: n_def)
    have "sub32 e base = e - base" "sub32 (e - base) 16 = n" "sub32 e 8 = e - 8" using o(3) e32 by (simp_all add: sub32_eq n_def)
    moreover have "or n 2147483648 = n + 2 ^ 31" using or_alloc_bit [OF n(1)] by (simp add: MM_ALLOC_BIT_def)
    moreover have "MM_ALIGN_UP heapstart = base" "MM_ALIGN_DOWN (u32 (heapstart + heapsize)) = e"
      using align_up [OF e32(2)] align_down [OF o(1)] o(1) b by (simp_all add: u32_def)
    ultimately show ?thesis
      using cells n e8 z unfolding mm_addregion_def t_def m_def n_def [symmetric]
      by (simp add: Let_def heap_fields hstore_eq MM_ALLOC_BIT_def u32_def h_def add.commute [of 12 base])
  qed
  have dm: "dom m = dom (hmem s)" unfolding m_def using cells by (simp add: insert_absorb domIff)
  have ar: "arena_ok t"
  proof -
    have "hmem t c \<noteq> None" if "c mod 4 = 0" "base \<le> c \<and> c < e - 8 + 8 \<or> ?nl \<le> c \<and> c < ?nl + 16 * MM_NNODES" for c
    proof -
      have "hmem s c \<noteq> None" by (rule o(9) [OF that(1)]) (use that(2) o(3) in linarith)
      then have "c \<in> dom m" using dm by blast
      then show ?thesis by (simp add: t_def domIff)
    qed
    moreover have "(e - 8) mod 16 = 8"
    proof -
      obtain r where "q = Suc r" using o(3) pq by (cases q) auto
      then have "e - 8 = 16 * r + 8" using pq(2) by simp
      then show ?thesis by simp
    qed
    moreover have "base < e - 8" "e - 8 - base < 2 ^ 31" using o(3,4) by linarith+
    ultimately show ?thesis using o(2-8) m16(1) e32(1) unfolding arena_ok_def Let_def by (simp add: t_def h_def)
  qed
  have ch: "chunk_rep t [(base + 8, ?n, False)]"
  proof -
    have "?n = 16 * (q - p - 1)" using pq by simp
    then have "?n mod 16 = 0" by simp
    moreover have "headers m 0 [(base, 8, True), (base + 8, ?n, False), (e - 8, 8, True)]"
    proof -
      have "base + 12 \<noteq> e - 8" "base + 12 \<noteq> e - 4" "e - 8 \<noteq> e - 4" "base + 4 \<noteq> e - 8" "base + 4 \<noteq> e - 4" "base \<noteq> e - 8" "base \<noteq> e - 4"
        using o(3) by linarith+
      then show ?thesis using e8 by (simp add: m_def prec_def add.commute [of 12 base])
    qed
    moreover have "16 \<le> ?n" using o(3) by linarith
    ultimately show ?thesis using ar o(3) unfolding chunk_rep_def guarded_def by (simp add: t_def h_def)
  qed
  have fr: "free_rep t (\<lambda>_. []) {}"
  proof -
    have out: "m c = hmem s c" if "?nl \<le> c" "c < ?nl + 16 * MM_NNODES" for c
    proof -
      have "c < base \<or> e \<le> c" using that o(8) by linarith
      then have "c \<noteq> base" "c \<noteq> base + 4" "c \<noteq> base + 8" "c \<noteq> base + 12" "c \<noteq> e - 8" "c \<noteq> e - 4"
        using o(3) by linarith+
      then show ?thesis by (simp add: m_def)
    qed
    have "dll m 0 (flist ?nl (\<lambda>_. []) [0..<MM_NNODES]) 0 = dll (hmem s) 0 (flist ?nl (\<lambda>_. []) [0..<MM_NNODES]) 0"
    proof (rule dll_cong)
      fix c assume "c \<in> lcells (flist ?nl (\<lambda>_. []) [0..<MM_NNODES])"
      then show "m c = hmem s c" by (intro out) (auto simp: lcells_def set_flist)
    qed
    moreover have "m (nodelist s i) = Some 0" if "i < MM_NNODES" for i
      using nl(2) that out [of "nodelist s i"] by (simp add: nodelist_def)
    moreover have "free_lists t (\<lambda>_. []) {}" by (rule free_listsI) simp_all
    ultimately show ?thesis using nl(1) unfolding free_rep_def by (simp add: t_def h_def nodelist_def)
  qed
  obtain m' B' where m': "mm_addfreechunk (base + 8) t = Some (t\<lparr>hmem := m'\<rparr>)" "chunk_rep (t\<lparr>hmem := m'\<rparr>) [(base + 8, ?n, False)]"
    "free_rep (t\<lparr>hmem := m'\<rparr>) B' {(base + 8, ?n)}"
    by (rule heap_addfree [OF ch fr, of "base + 8" ?n]) auto
  then have "heap_rep (t\<lparr>hmem := m'\<rparr>) [(base + 8, ?n, False)]" by (auto simp: heap_rep_def coalesced_def)
  then show thesis using that [of m'] op m'(1) by (simp add: t_def)
qed

section \<open>Initialisation\<close>

lemma kseminv_set_count:
  assumes k: "kseminv s" and p: "sems s p = Some x" "0 \<le> semcount x" and n: "0 \<le> n" "n \<le> SEM_VALUE_MAX"
  shows "kseminv (s\<lparr>sems := (sems s)(p \<mapsto> x\<lparr>semcount := n\<rparr>), heap := h, hmem := m\<rparr>)"
proof -
  obtain a where a: "srefines s a (sems s)" "sem_inv a (sems s)" using k by (rule kseminvE)
  have "waiters a p = []" using sem_invD(4) [OF a(2), of p] p by (simp add: sem_ok_def sem_count_def)
  then have "sem_inv a ((sems s)(p \<mapsto> x\<lparr>semcount := n\<rparr>))"
    using a(2) p n sem_invD(5) [OF a(2), of p] unfolding sem_inv_def by (auto simp: sem_ok_def sem_count_def)
  moreover have "srefines (s\<lparr>sems := (sems s)(p \<mapsto> x\<lparr>semcount := n\<rparr>), heap := h, hmem := m\<rparr>) a ((sems s)(p \<mapsto> x\<lparr>semcount := n\<rparr>))"
    using a(1) by (simp add: srefines_def refines_def)
  ultimately show ?thesis by (rule kseminvI [rotated])
qed

lemma mm_initialize_spec:
  fixes base e :: nat
  assumes b: "base = (heapstart + 15) div 16 * 16" "e = (heapstart + heapsize) div 16 * 16"
    and ok: "region_ok s heapstart heapsize" and k: "kseminv s" "sems s (mm_semaphore (heap s)) = Some x" "0 \<le> semcount x"
    and irq: "\<not> up_interrupt_context s" "getpid s \<noteq> Some (-1)"
  obtains s' where "mm_initialize heapstart heapsize s = Some s'" "heap_rep s' [(base + 8, e - base - 16, False)]" "mm_unlocked s'"
    "mm_heapsize (heap s') = e - base" "mm_nodelist (heap s') = mm_nodelist (heap s)" "debug_assertions s' = debug_assertions s"
proof -
  let ?p = "mm_semaphore (heap s)" and ?nl = "mm_nodelist (heap s)"
  have p: "?p \<noteq> NULL" using k kseminvE sem_invD(5) by (metis option.distinct(1))
  define t where "t = s\<lparr>heap := (heap s)\<lparr>mm_heapsize := 0\<rparr>\<rparr>"
  have "0 < ?nl" "?nl mod 4 = 0" "?nl + 16 * MM_NNODES < 2 ^ 32"
    "\<forall>c. c mod 4 = 0 \<and> ?nl \<le> c \<and> c < ?nl + 16 * MM_NNODES \<longrightarrow> hmem s c \<noteq> None"
    using ok unfolding region_ok_def Let_def by simp_all
  then obtain m where m: "mm_clear_nodes MM_NNODES ?nl t \<bind> mm_link_nodes [1..<MM_NNODES] = Some (t\<lparr>hmem := m\<rparr>)"
    "dom m = dom (hmem s)" "dll m 0 (flist ?nl (\<lambda>_. []) [0..<MM_NNODES]) 0" "\<forall>i < MM_NNODES. m (nodelist t i) = Some 0"
    using mm_nodes_init [of t] by (auto simp: t_def)
  define h where "h = (heap s)\<lparr>mm_heapsize := 0, mm_holder := -1, mm_counts_held := 0\<rparr>"
  define u where "u = s\<lparr>sems := (sems s)(?p \<mapsto> x\<lparr>semcount := 1\<rparr>), heap := h, hmem := m\<rparr>"
  have si: "mm_seminitialize (t\<lparr>hmem := m\<rparr>) = Some u"
    using p k(2) by (simp add: mm_seminitialize_def nxsem_init_def set_semcount_def get_sem_def SEM_VALUE_MAX_def s16_def t_def u_def h_def)
  have u: "region_ok u heapstart heapsize" 
  proof -
    have "m c \<noteq> None \<longleftrightarrow> hmem s c \<noteq> None" for c using m(2) by (metis domIff)
    then show ?thesis using ok unfolding region_ok_def Let_def by (simp add: u_def h_def)
  qed
  obtain m' where m': "mm_addregion heapstart heapsize u =
      Some (u\<lparr>heap := (heap u)\<lparr>mm_heapsize := e - base, mm_heapstart := base, mm_heapend := e - 8\<rparr>, hmem := m'\<rparr>)"
    "heap_rep (u\<lparr>heap := (heap u)\<lparr>mm_heapsize := e - base, mm_heapstart := base, mm_heapend := e - 8\<rparr>, hmem := m'\<rparr>) [(base + 8, e - base - 16, False)]"
    by (rule mm_addregion_spec [OF b u]) (use m(3,4) in \<open>simp_all add: u_def h_def t_def nodelist_def del: MM_NNODES_def\<close>)
  have "mm_initialize heapstart heapsize s = mm_addregion heapstart heapsize u"
    using m(1) si by (simp add: mm_initialize_def t_def Let_def flip: bind_assoc del: MM_NNODES_def)
  moreover define v where "v = u\<lparr>heap := (heap u)\<lparr>mm_heapsize := e - base, mm_heapstart := base, mm_heapend := e - 8\<rparr>, hmem := m'\<rparr>"
  ultimately have op: "mm_initialize heapstart heapsize s = Some v" "heap_rep v [(base + 8, e - base - 16, False)]" using m' by simp_all
  have one: "x\<lparr>semcount := 1\<rparr> = \<lparr>semcount = 1\<rparr>" by (cases x) simp
  have "kseminv v" using kseminv_set_count [OF k, of 1] by (simp add: v_def u_def SEM_VALUE_MAX_def)
  moreover have "getpid v = getpid s" by (simp add: getpid_def this_task_def get_tcb_def v_def u_def)
  ultimately have "mm_unlocked v" using irq by (simp add: mm_unlocked_def up_interrupt_context_def v_def u_def h_def one)
  then show thesis using that [OF op] by (simp add: v_def u_def h_def)
qed

end
