(* ===== verification/MmThms.thy ===== *)
theory MmThms
  imports MmInit
begin

text \<open>
  The properties of the heap allocator: initialisation, best-fit allocation, release with
  merging, and what happens when the lock is taken or the size of a request overflows.
\<close>

section \<open>Helper lemmas\<close>

text \<open>Releasing what has just been carved out of a free chunk restores it.\<close>

lemma release_carve:
  assumes co: "coalesced (xs @ (x, n, False) # ys)" and k: "16 \<le> k" "k \<le> n"
  shows "\<exists>j zs. xs @ carve x n k @ ys = xs @ (x, j, True) # zs \<and> release xs x j zs = xs @ (x, n, False) # ys"
proof -
  have last: "xs = [] \<or> snd (snd (last xs))" "ys = [] \<or> snd (snd (hd ys))"
    using co by (auto simp: coalesced_def successively_append_iff successively_Cons)
  have rel: "release xs x j zs = xs @ (x, n, False) # ys" if "absorb j zs = (n, ys)" for j zs
    by (rule last_chunk_cases [of xs]; use last(1) that in \<open>auto simp: release_def\<close>)
  have "absorb n ys = (n, ys)" using last(2) by (cases "(n, ys)" rule: absorb.cases) auto
  then show ?thesis using rel [of n ys] rel [of k "(x + k, n - k, False) # ys"] k by (auto simp: carve_def)
qed

lemma heap_rep_coalesced: "heap_rep s cs \<Longrightarrow> coalesced cs"
  by (simp add: heap_rep_def)

lemma heap_rep_chunk:
  assumes "heap_rep s cs" "(x, n, b) \<in> set cs"
  shows "x mod 16 = 8" "n mod 16 = 0" "16 \<le> n"
  using assms chunk_in_arena(1) [of s cs x n b] chunk_repD(5) [of s cs x n b] by (auto simp: heap_rep_def in_arena_def)

text \<open>The first chunk that is carved out holds the data that was asked for.\<close>

lemma carve_holds: "k \<le> n \<Longrightarrow> sz + 8 \<le> k \<Longrightarrow> \<exists>j zs. carve x n k = (x, j, True) # zs \<and> x + 8 + sz \<le> x + j"
  by (auto simp: carve_def)

text \<open>What an allocation does if the size of the chunk has been computed as 0.\<close>

lemma mm_malloc_locked_zero:
  assumes h: "heap_rep s cs" and e: "\<forall>(y, j) \<in> free_of cs. 32 \<le> j"
  shows "\<exists>m. mm_malloc_locked 0 s = Some (nodelist s 1 + 8, s\<lparr>hmem := m\<rparr>)"
proof -
  let ?nl = "mm_nodelist (heap s)"
  obtain B where B: "free_rep s B (free_of cs)" and r: "chunk_rep s cs" using h by (auto simp: heap_rep_def)
  note a = chunk_repD(1) [OF r]
  have f: "free_lists s B (free_of cs)" and d: "dll (hmem s) 0 (flist ?nl B [0..<MM_NNODES]) 0"
    and z: "hmem s (?nl + 16) = Some 0"
    using B [unfolded free_rep_def] B [unfolded free_rep_def, THEN conjunct2, THEN conjunct2, rule_format, of 1]
    by (simp_all add: nodelist_def del: upt.simps)
  have "mm_size2ndx 32 = 1" by (simp add: mm_size2ndx_def mm_size2ndx_loop.simps)
  then have n0: "mm_size2ndx j \<noteq> 0" if "(y, j) \<in> free_of cs" for y j using mm_size2ndx_mono [of 32 j] e that by fastforce
  have "x \<notin> set (B 0)" for x using free_listsD(3) [OF f, of 0 x] n0 by auto
  then have "B 0 = []" by (metis last_in_set)
  then obtain ys where L: "flist ?nl B [0..<MM_NNODES] = [] @ ?nl # (?nl + 16) # ys"
    using flist_split [of 0 MM_NNODES ?nl B] upt_conv_Cons [of 1 MM_NNODES] by simp
  obtain m where m: "mm_unlink (?nl + 16) s = Some (s\<lparr>hmem := m\<rparr>)"
     "\<forall>c. c \<notin> lcells ([] @ ?nl # ys) \<longrightarrow> m c = hmem s c" "dom m = dom (hmem s)"
    using mm_unlink_dll [OF d [unfolded L] free_links_ok [OF a f, unfolded L]] by blast
  have "?nl + 16 \<notin> lcells (flist ?nl B [0..<MM_NNODES])"
    using header_cell_not_link [OF a f header_cellI(3) [of 1 s]] lcells_flist [OF f] by (auto simp: nodelist_def)
  then have "m (?nl + 16) = Some 0" using m(2) z unfolding L by simp
  moreover obtain v where "m (?nl + 20) = Some v"
  proof -
    have "hmem s (?nl + 20) \<noteq> None" using a unfolding arena_ok_def Let_def by (auto simp: mod_add_left_eq [symmetric])
    then show ?thesis using m(3) that by blast
  qed
  moreover have "hmem s (?nl + 8) = Some (?nl + 16)" using d unfolding L by simp
  moreover have "mm_malloc_search s 0 (?nl + 16) = Some (?nl + 16)"
    using z by (subst mm_malloc_search.simps) (simp add: node_size_def)
  moreover have "mm_size2ndx 0 = 0" by (simp add: mm_size2ndx_def mm_size2ndx_loop.simps)
  ultimately show ?thesis
    using m(1) by (simp add: mm_malloc_locked_def nodelist_def heap_fields hstore_def sub32_def u32_def add.commute [of 20 ?nl]) blast
qed

section \<open>A concrete state\<close>

definition demo_heap :: hpstate where
  "demo_heap = \<lparr>dqm = dqm demo_wd, tcbs = tcbs demo_wd, tasklists = tasklists demo_wd,
     current_regs = False, cpu_regs = 42, debug_assertions = False, sems = sems demo_wd,
     g_pidhash = g_pidhash demo_wd, g_irqerrno = 0, wdogs = wdogs demo_wd, wdnext = wdnext demo_wd,
     g_wdfreelist = g_wdfreelist demo_wd, g_wdactivelist = g_wdactivelist demo_wd, g_wdnfree = 3, g_system_timer = 1000,
     hmem = (\<lambda>c. if c mod 4 = 0 \<and> 4096 \<le> c \<and> c < 8192 then Some 0 else None),
     heap = \<lparr>mm_semaphore = 102, mm_holder = 0, mm_counts_held = 0, mm_heapsize = 0, mm_heapstart = 0, mm_heapend = 0,
       mm_nodelist = 4096\<rparr>\<rparr>"

lemma demo_heap_ok:
  "kseminv demo_heap" "region_ok demo_heap 4410 1030" "sems demo_heap (mm_semaphore (heap demo_heap)) = Some \<lparr>semcount = 1\<rparr>"
  "\<not> up_interrupt_context demo_heap" "getpid demo_heap = Some 2" "this_task demo_heap = 2" "idle_task demo_heap = 1"
proof -
  have "srefines demo_heap demo_sem_a (sems demo_sem)"
    using demo_sem_refines by (simp add: srefines_def refines_def demo_heap_def demo_wd_def demo_sem_def)
  then show "kseminv demo_heap" using kseminvI [OF _ demo_sem_inv] by blast
  show "region_ok demo_heap 4410 1030" by (auto simp: region_ok_def demo_heap_def)
  show "sems demo_heap (mm_semaphore (heap demo_heap)) = Some \<lparr>semcount = 1\<rparr>" "\<not> up_interrupt_context demo_heap"
    by (simp_all add: demo_heap_def demo_wd_def demo_sem_def up_interrupt_context_def)
  show "this_task demo_heap = 2" "idle_task demo_heap = 1"
    by (simp_all add: this_task_def idle_task_def demo_heap_def demo_wd_def demo_sem_def demo_def)
  then show "getpid demo_heap = Some 2"
    by (simp add: getpid_def get_tcb_def demo_heap_def demo_wd_def demo_sem_def demo_def demo_tcb_def)
qed

lemma demo_heap_init:
  obtains s where "mm_initialize 4410 1030 demo_heap = Some s" "heap_rep s [(4424, 1008, False)]" "mm_unlocked s"
    "mm_nodelist (heap s) = 4096" "\<not> debug_assertions s"
  by (rule mm_initialize_spec [of 4416 4410 5440 1030 demo_heap "\<lparr>semcount = 1\<rparr>"]) (use demo_heap_ok in \<open>auto simp: demo_heap_def\<close>)

section \<open>Properties\<close>

text \<open>
  C27. \<^verbatim>\<open>mm_initialize\<close> makes the region one free chunk between two guard nodes: the heap is
  well-formed, its size is that of the region after both ends have been aligned, and nobody
  holds the lock.
\<close>

theorem mm_initialize_correct:
  assumes "region_ok s heapstart heapsize" "kseminv s" "sems s (mm_semaphore (heap s)) = Some x" "0 \<le> semcount x"
    "\<not> up_interrupt_context s" "getpid s \<noteq> Some (-1)"
  shows "\<exists>s' base e. mm_initialize heapstart heapsize s = Some s' \<and>
    base = (heapstart + 15) div 16 * 16 \<and> e = (heapstart + heapsize) div 16 * 16 \<and>
    heap_rep s' [(base + 8, e - base - 16, False)] \<and> mm_heapsize (heap s') = e - base \<and> mm_unlocked s'"
  by (rule mm_initialize_spec [OF refl refl assms]) blast

theorem mm_initialize_correct_witness:
  "\<exists>s'. mm_initialize 4410 1030 demo_heap = Some s' \<and> heap_rep s' [(4424, 1008, False)] \<and> mm_unlocked s'"
  using mm_initialize_correct [OF demo_heap_ok(2,1,3) _ demo_heap_ok(4)] demo_heap_ok(5) by auto

text \<open>
  C24. \<^verbatim>\<open>mm_malloc\<close> takes the smallest free chunk that is large enough, splits it if the rest is
  large enough to be a chunk, and returns an address that is a multiple of 16 with room for the
  data; the heap stays well-formed and the data of all other allocated chunks is kept. If no
  free chunk is large enough it returns \<^verbatim>\<open>NULL\<close> and changes nothing.
\<close>

theorem mm_malloc_correct:
  assumes u: "mm_unlocked s" and h: "heap_rep s cs" and sz: "0 < sz" "sz + 24 \<le> 2 ^ 32"
  shows "if \<exists>(y, j) \<in> free_of cs. chunk_size sz \<le> j
    then \<exists>xs x n ys j zs m. cs = xs @ (x, n, False) # ys \<and> best_fit (free_of cs) (chunk_size sz) x n \<and>
      mm_malloc sz s = Some (Returned (x + 8), s\<lparr>hmem := m\<rparr>) \<and> heap_rep (s\<lparr>hmem := m\<rparr>) (xs @ carve x n (chunk_size sz) @ ys) \<and>
      carve x n (chunk_size sz) = (x, j, True) # zs \<and> (x + 8) mod 16 = 0 \<and> x + 8 + sz \<le> x + j \<and>
      same_data (alloc_of cs) (hmem s) m
    else mm_malloc sz s = Some (Returned NULL, s)"
proof (cases "\<exists>(y, j) \<in> free_of cs. chunk_size sz \<le> j")
  case True
  obtain xs x n ys m where m: "cs = xs @ (x, n, False) # ys" "best_fit (free_of cs) (chunk_size sz) x n"
    "mm_malloc sz s = Some (Returned (x + 8), s\<lparr>hmem := m\<rparr>)" "heap_rep (s\<lparr>hmem := m\<rparr>) (xs @ carve x n (chunk_size sz) @ ys)"
    "same_data (alloc_of cs) (hmem s) m"
    by (rule mm_malloc_some [OF u h sz True])
  obtain j zs where j: "carve x n (chunk_size sz) = (x, j, True) # zs" "x + 8 + sz \<le> x + j"
    using carve_holds [of "chunk_size sz" n sz x] m(2) chunk_size_bounds(3) [of sz] by (auto simp: best_fit_def)
  have "x mod 16 = 8" using heap_rep_chunk(1) [OF h, of x n False] m(1) by simp
  then have "(x + 8) mod 16 = 0" by (rule mod16E) simp
  with m j have "\<exists>xs x n ys j zs m. cs = xs @ (x, n, False) # ys \<and> best_fit (free_of cs) (chunk_size sz) x n \<and>
      mm_malloc sz s = Some (Returned (x + 8), s\<lparr>hmem := m\<rparr>) \<and> heap_rep (s\<lparr>hmem := m\<rparr>) (xs @ carve x n (chunk_size sz) @ ys) \<and>
      carve x n (chunk_size sz) = (x, j, True) # zs \<and> (x + 8) mod 16 = 0 \<and> x + 8 + sz \<le> x + j \<and>
      same_data (alloc_of cs) (hmem s) m" by (intro exI conjI) assumption+
  then show ?thesis using True by simp
next
  case False
  then show ?thesis using mm_malloc_none [OF u h sz] by (simp add: not_le case_prod_beta)
qed

theorem mm_malloc_correct_witness:
  "\<exists>(s :: hpstate) m. heap_rep s [(4424, 1008, False)] \<and> mm_malloc 20 s = Some (Returned 4432, s\<lparr>hmem := m\<rparr>) \<and>
     heap_rep (s\<lparr>hmem := m\<rparr>) [(4424, 32, True), (4456, 976, False)]"
proof -
  obtain s :: hpstate where s: "heap_rep s [(4424, 1008, False)]" "mm_unlocked s" by (rule demo_heap_init)
  then show ?thesis
    using mm_malloc_correct [OF s(2,1), of 20] by (auto simp: chunk_size_def carve_def Cons_eq_append_conv)
qed

text \<open>
  C25. \<^verbatim>\<open>mm_free\<close> of an allocated chunk merges it with its neighbours, as far as they are free, into
  one free chunk; the heap stays well-formed, so that no two free chunks are next to each other,
  and the data of all other allocated chunks is kept.
\<close>

theorem mm_free_correct:
  assumes "mm_unlocked s" "heap_rep s (xs @ (x, n, True) # ys)"
  shows "\<exists>m. mm_free (x + 8) s = Some (Returned (), s\<lparr>hmem := m\<rparr>) \<and> heap_rep (s\<lparr>hmem := m\<rparr>) (release xs x n ys) \<and>
    coalesced (release xs x n ys) \<and> same_data (alloc_of (xs @ ys)) (hmem s) m"
proof (rule mm_free_spec [OF assms])
  fix m assume m: "mm_free (x + 8) s = Some (Returned (), s\<lparr>hmem := m\<rparr>)" "heap_rep (s\<lparr>hmem := m\<rparr>) (release xs x n ys)"
    "same_data (alloc_of (xs @ ys)) (hmem s) m"
  then show ?thesis using heap_rep_coalesced [OF m(2)] by blast
qed

theorem mm_free_correct_witness:
  "\<exists>(s :: hpstate) m. heap_rep s [(4424, 32, True), (4456, 976, False)] \<and> mm_free 4432 s = Some (Returned (), s\<lparr>hmem := m\<rparr>) \<and>
     heap_rep (s\<lparr>hmem := m\<rparr>) [(4424, 1008, False)]"
proof -
  obtain s :: hpstate where s: "heap_rep s [(4424, 1008, False)]" "mm_unlocked s" by (rule demo_heap_init)
  have F: "\<exists>(y, j) \<in> free_of [(4424, 1008, False)]. chunk_size 20 \<le> j" by (simp add: chunk_size_def)
  obtain m where m: "heap_rep (s\<lparr>hmem := m\<rparr>) [(4424, 32, True), (4456, 976, False)]"
    by (rule mm_malloc_some [OF s(2,1) _ _ F]) (auto simp: chunk_size_def carve_def Cons_eq_append_conv)
  moreover define t where "t = s\<lparr>hmem := m\<rparr>"
  ultimately have t: "heap_rep t [(4424, 32, True), (4456, 976, False)]" "mm_unlocked t" using s(2) by simp_all
  then show ?thesis
    using mm_free_correct [of t "[]" 4424 32 "[(4456, 976, False)]"] by (intro exI [of _ t]) (auto simp: release_def)
qed

text \<open>
  C26. Allocating memory and releasing it again restores the chunks of the heap; nothing but the
  memory has changed, and the data of all allocated chunks is as before.
\<close>

theorem mm_malloc_free:
  assumes u: "mm_unlocked s" and h: "heap_rep s cs" and sz: "0 < sz" "sz + 24 \<le> 2 ^ 32"
    and a: "mm_malloc sz s = Some (Returned p, s1)" "p \<noteq> NULL"
  shows "\<exists>m. mm_free p s1 = Some (Returned (), s\<lparr>hmem := m\<rparr>) \<and> heap_rep (s\<lparr>hmem := m\<rparr>) cs \<and> same_data (alloc_of cs) (hmem s) m"
proof -
  have "\<exists>(y, j) \<in> free_of cs. chunk_size sz \<le> j"
    using mm_malloc_none [OF u h sz] a by (force simp: not_le)
  then obtain xs x n ys m where m: "cs = xs @ (x, n, False) # ys" "best_fit (free_of cs) (chunk_size sz) x n"
    "mm_malloc sz s = Some (Returned (x + 8), s\<lparr>hmem := m\<rparr>)" "heap_rep (s\<lparr>hmem := m\<rparr>) (xs @ carve x n (chunk_size sz) @ ys)"
    "same_data (alloc_of cs) (hmem s) m"
    by (rule mm_malloc_some [OF u h sz])
  have "chunk_size sz \<le> n" using m(2) by (simp add: best_fit_def)
  then obtain j zs where j: "xs @ carve x n (chunk_size sz) @ ys = xs @ (x, j, True) # zs" "release xs x j zs = cs"
    using release_carve [OF heap_rep_coalesced [OF h, unfolded m(1)] chunk_size_bounds(1) [OF sz(1)]] m(1) by auto
  have z: "alloc_of (xs @ zs) = alloc_of cs" using j(1) by (auto simp: carve_def m(1) split: if_splits)
  have h1: "heap_rep (s\<lparr>hmem := m\<rparr>) (xs @ (x, j, True) # zs)" "mm_unlocked (s\<lparr>hmem := m\<rparr>)" using m(4) j(1) u by simp_all
  have m': "\<exists>m'. mm_free (x + 8) (s\<lparr>hmem := m\<rparr>) = Some (Returned (), s\<lparr>hmem := m'\<rparr>) \<and> heap_rep (s\<lparr>hmem := m'\<rparr>) cs \<and>
      same_data (alloc_of cs) m m'"
    by (rule mm_free_spec [OF h1(2,1)]) (auto simp: j(2) z [symmetric])
  then show ?thesis using a m(3) same_data_trans [OF m(5)] by auto
qed

theorem mm_malloc_free_witness:
  "\<exists>(s :: hpstate) s1 m. heap_rep s [(4424, 1008, False)] \<and> mm_malloc 1000 s = Some (Returned 4432, s1) \<and>
     mm_free 4432 s1 = Some (Returned (), s\<lparr>hmem := m\<rparr>) \<and> heap_rep (s\<lparr>hmem := m\<rparr>) [(4424, 1008, False)]"
proof -
  obtain s :: hpstate where s: "heap_rep s [(4424, 1008, False)]" "mm_unlocked s" by (rule demo_heap_init)
  have F: "\<exists>(y, j) \<in> free_of [(4424, 1008, False)]. chunk_size 1000 \<le> j" by (simp add: chunk_size_def)
  obtain s1 where s1: "mm_malloc 1000 s = Some (Returned 4432, s1)"
    by (rule mm_malloc_some [OF s(2,1) _ _ F]) (auto simp: Cons_eq_append_conv)
  then show ?thesis using mm_malloc_free [OF s(2,1) _ _ s1] s(1) by auto
qed

text \<open>
  C29. The size of a request is not protected against overflow, except by an assertion. If the
  size is between \<open>2 ^ 32 - 23\<close> and \<open>2 ^ 32 - 8\<close>, the size of the chunk is computed as 0; if the
  debug assertions are not compiled in and no chunk of the smallest class is free,
  \<^verbatim>\<open>mm_malloc\<close> then returns the address of the links of
  \<^verbatim>\<open>mm_nodelist[1]\<close>, which is in the allocator's own data and outside the heap.
\<close>

theorem mm_malloc_overflow:
  assumes u: "mm_unlocked s" and h: "heap_rep s cs" and d: "\<not> debug_assertions s"
    and sz: "2 ^ 32 - 23 \<le> sz" "sz \<le> 2 ^ 32 - 8" and e: "\<forall>(y, j) \<in> free_of cs. 32 \<le> j"
  shows "\<exists>m. mm_malloc sz s = Some (Returned (nodelist s 1 + 8), s\<lparr>hmem := m\<rparr>) \<and> \<not> in_arena s (nodelist s 1)"
proof -
  have "MM_ALIGN_UP (u32 (sz + 8)) = 0"
  proof (cases "sz = 2 ^ 32 - 8")
    case False
    then obtain k where k: "sz = 2 ^ 32 - 23 + k" "k < 15" using sz le_Suc_ex by force
    then have "u32 (u32 (sz + 8) + 15) = k" by (simp add: u32_def)
    then show ?thesis using k by (simp add: MM_ALIGN_UP_eq)
  qed (simp add: MM_ALIGN_UP_eq u32_def)
  moreover have "nodelist (mm_locked s) 1 = nodelist s 1" by (simp add: nodelist_def mm_locked_def)
  moreover obtain m where "mm_malloc_locked 0 (mm_locked s) = Some (nodelist (mm_locked s) 1 + 8, (mm_locked s)\<lparr>hmem := m\<rparr>)"
    using mm_malloc_locked_zero [OF _ e, of "mm_locked s"] h by (auto simp: heap_rep_locked)
  ultimately have "mm_malloc sz s = Some (Returned (nodelist s 1 + 8), s\<lparr>hmem := m\<rparr>)"
    using sz d mm_takesemaphore_unlocked [OF u] by (simp add: mm_malloc_def debugassert_def)
  moreover have "\<not> in_arena s (nodelist s 1)"
  proof -
    have "arena_ok s" using h by (auto simp: heap_rep_def dest: chunk_repD(1))
    then show ?thesis using nodelist_outside [of s 1 "nodelist s 1" 0] by (auto simp: in_arena_def)
  qed
  ultimately show ?thesis by blast
qed

theorem mm_malloc_overflow_witness:
  "\<exists>(s :: hpstate) m. heap_rep s [(4424, 1008, False)] \<and> mm_nodelist (heap s) = 4096 \<and> mm_malloc (2 ^ 32 - 8) s = Some (Returned 4120, s\<lparr>hmem := m\<rparr>)"
proof -
  obtain s :: hpstate where s: "heap_rep s [(4424, 1008, False)]" "mm_unlocked s" "mm_nodelist (heap s) = 4096" "\<not> debug_assertions s"
    by (rule demo_heap_init)
  then show ?thesis using mm_malloc_overflow [OF s(2,1,4), of "2 ^ 32 - 8"] by (auto simp: nodelist_def)
qed

text \<open>
  C28. While another task holds the lock of the heap, a task that allocates or releases memory
  waits for the lock and does not touch the heap.
\<close>

theorem mm_lock_excludes:
  assumes k: "kseminv s" "\<not> up_interrupt_context s" "this_task s \<noteq> idle_task s"
    and p: "sems s (mm_semaphore (heap s)) = Some x" "semcount x \<le> 0" "- (2 ^ 15) < semcount x"
    and o: "getpid s \<noteq> Some (mm_holder (heap s))" and a: "0 < sz" "sz + 24 \<le> 2 ^ 32" "mem \<noteq> NULL"
  shows "\<exists>saved s'. mm_malloc sz s = Some (Switched saved, s') \<and> mm_free mem s = Some (Switched saved, s') \<and> kseminv s' \<and>
    waits_for s' (mm_semaphore (heap s)) (this_task s) \<and> hmem s' = hmem s \<and> heap s' = heap s"
proof (rule mm_takesemaphore_busy [OF k p o])
  fix v s' assume s': "mm_takesemaphore s = Some (Switched v, s')" "kseminv s'" "hmem s' = hmem s" "heap s' = heap s"
    "waits_for s' (mm_semaphore (heap s)) (this_task s)"
  have "mm_malloc sz s = Some (Switched v, s')" "mm_free mem s = Some (Switched v, s')"
    using s'(1) a align_chunk_size [OF a(2)] chunk_size_bounds(3) [of sz] by (simp_all add: mm_malloc_def mm_free_def debugassert_def)
  then show ?thesis using s'(2-5) by blast
qed

theorem mm_lock_excludes_witness:
  "\<exists>saved s'. mm_malloc 20 (demo_heap\<lparr>heap := (heap demo_heap)\<lparr>mm_semaphore := 101, mm_holder := 3, mm_counts_held := 1\<rparr>\<rparr>) = Some (Switched saved, s') \<and>
     hmem s' = hmem demo_heap \<and> waits_for s' 101 2"
proof -
  define h where "h = (heap demo_heap)\<lparr>mm_semaphore := 101, mm_holder := 3, mm_counts_held := 1\<rparr>"
  define s where "s = demo_heap\<lparr>heap := h\<rparr>"
  have s: "kseminv s" "\<not> up_interrupt_context s" "this_task s = 2" "idle_task s = 1" "getpid s = Some 2" "heap s = h" "hmem s = hmem demo_heap"
    using demo_heap_ok by (simp_all add: s_def kseminv_def refines_def up_interrupt_context_def this_task_def idle_task_def getpid_def get_tcb_def)
  have "sems s (mm_semaphore (heap s)) = Some \<lparr>semcount = 0\<rparr>" "mm_semaphore h = 101" "mm_holder h = 3"
    by (simp_all add: s_def h_def demo_heap_def demo_wd_def demo_sem_def)
  then show ?thesis using mm_lock_excludes [OF s(1,2), of "\<lparr>semcount = 0\<rparr>" 20 4432] s unfolding s_def [symmetric] h_def [symmetric] by auto
qed

end
