(* ===== verification/MmMem.thy ===== *)
theory MmMem
  imports MmInit
begin

text \<open>
  The rest of the heap allocator: shrinking and reallocating chunks, aligned and cleared
  allocations, extending the heap, and the statistics; and the user heap of
  \<^verbatim>\<open>mm/umm_heap\<close>, which in the flat build is the only heap.

  A result \<open>None\<close> of an operation that returns an address means that the caller has been switched out
  while it waits for the lock.
\<close>

section \<open>Bytes\<close>

text \<open>A cell holds four bytes, the least significant one first.\<close>

definition getbyte :: "addr \<Rightarrow> 'a hpstate_scheme \<Rightarrow> nat option" where
  "getbyte a s = do { v \<leftarrow> hmem s (a - a mod 4); Some (v div 2 ^ (8 * (a mod 4)) mod 256) }"

definition setbyte :: "addr \<Rightarrow> nat \<Rightarrow> 'a hproc" where
  "setbyte a b s = do {
     v \<leftarrow> hmem s (a - a mod 4);
     let k = 8 * (a mod 4);
     hstore (a - a mod 4) (v div 2 ^ (k + 8) * 2 ^ (k + 8) + b mod 256 * 2 ^ k + v mod 2 ^ k) s
   }"

fun memset :: "addr \<Rightarrow> nat \<Rightarrow> nat \<Rightarrow> 'a hproc" where
  "memset p c 0 s = Some s"
| "memset p c (Suc n) s = do { s \<leftarrow> setbyte p c s; memset (p + 1) c n s }"

fun memcpy :: "addr \<Rightarrow> addr \<Rightarrow> nat \<Rightarrow> 'a hproc" where
  "memcpy pout pin 0 s = Some s"
| "memcpy pout pin (Suc n) s = do { b \<leftarrow> getbyte pin s; s \<leftarrow> setbyte pout b s; memcpy (pout + 1) (pin + 1) n s }"

section \<open>Shrinking a chunk\<close>

definition mm_shrinkchunk :: "addr \<Rightarrow> nat \<Rightarrow> 'a hproc" where
  "mm_shrinkchunk node sz s = do {
     debugassert s (and sz MM_GRAN_MASK = 0);
     n \<leftarrow> node_size node s;
     let next = node + n;
     np \<leftarrow> node_preceding next s;
     if and np MM_ALLOC_BIT = 0 then do {
       nn \<leftarrow> node_size next s;
       let andbeyond = next + nn;
       s \<leftarrow> mm_unlink next s;
       let newnode = node + sz;
       nn \<leftarrow> node_size next s;
       n \<leftarrow> node_size node s;
       s \<leftarrow> set_size newnode (sub32 (nn + n) sz) s;
       s \<leftarrow> set_preceding newnode sz s;
       s \<leftarrow> set_size node sz s;
       k \<leftarrow> node_size newnode s;
       s \<leftarrow> mm_fixpreceding andbeyond k s;
       mm_addfreechunk newnode s
     }
     else if n \<ge> u32 (sz + SIZEOF_MM_FREENODE) then do {
       let newnode = node + sz;
       s \<leftarrow> set_size newnode (sub32 n sz) s;
       s \<leftarrow> set_preceding newnode sz s;
       s \<leftarrow> set_size node sz s;
       k \<leftarrow> node_size newnode s;
       s \<leftarrow> set_preceding next (or k MM_ALLOC_BIT) s;
       mm_addfreechunk newnode s
     }
     else Some s
   }"

section \<open>Reallocation\<close>

text \<open>How much to take from the chunk in front and from the chunk behind.\<close>

definition mm_realloc_take :: "nat \<Rightarrow> nat \<Rightarrow> nat \<Rightarrow> nat \<times> nat" where
  "mm_realloc_take nextsize prevsize needed =
     (if prevsize > 0 \<and> (nextsize \<ge> prevsize \<or> nextsize < 1) then
        (if needed > prevsize then (prevsize, needed - prevsize) else (needed, 0))
      else if nextsize > 0 \<and> needed \<noteq> 0 then
        (if needed > nextsize then (needed - nextsize, nextsize) else (0, needed))
      else (0, 0))"

text \<open>Extending the chunk into the one in front of it.\<close>

definition mm_realloc_prev_head :: "addr \<Rightarrow> addr \<Rightarrow> addr \<Rightarrow> nat \<Rightarrow> nat \<Rightarrow> nat \<Rightarrow> 'a hproc" where
  "mm_realloc_prev_head prev newnode next oldsize prevsize takeprev s = do {
     s \<leftarrow> mm_unlink prev s;
     if takeprev < prevsize then do {
       n \<leftarrow> node_size prev s;
       s \<leftarrow> set_size prev (sub32 n takeprev) s;
       s \<leftarrow> set_size newnode (oldsize + takeprev) s;
       n \<leftarrow> node_size prev s;
       s \<leftarrow> set_preceding newnode (or n MM_ALLOC_BIT) s;
       n \<leftarrow> node_size newnode s;
       s \<leftarrow> mm_fixpreceding next n s;
       mm_addfreechunk prev s
     }
     else do {
       n \<leftarrow> node_size newnode s;
       s \<leftarrow> set_size newnode (n + oldsize) s;
       p \<leftarrow> node_preceding newnode s;
       s \<leftarrow> set_preceding newnode (or p MM_ALLOC_BIT) s;
       n \<leftarrow> node_size newnode s;
       mm_fixpreceding next n s
     }
   }"

text \<open>Then the data is moved; returns the new node, its size and the address of the data.\<close>

definition mm_realloc_prev ::
  "addr \<Rightarrow> addr \<Rightarrow> addr \<Rightarrow> nat \<Rightarrow> nat \<Rightarrow> nat \<Rightarrow> ('a, addr \<times> nat \<times> addr) hop" where
  "mm_realloc_prev prev oldnode next oldsize prevsize takeprev s = do {
     let newnode = sub32 oldnode takeprev;
     s \<leftarrow> mm_realloc_prev_head prev newnode next oldsize prevsize takeprev s;
     n \<leftarrow> node_size newnode s;
     let newmem = newnode + SIZEOF_MM_ALLOCNODE;
     s \<leftarrow> memcpy newmem (oldnode + SIZEOF_MM_ALLOCNODE) (sub32 n SIZEOF_MM_ALLOCNODE) s;
     Some ((newnode, n, newmem), s)
   }"

text \<open>Extending into the chunk behind.\<close>

definition mm_realloc_next :: "addr \<Rightarrow> addr \<Rightarrow> nat \<Rightarrow> nat \<Rightarrow> nat \<Rightarrow> 'a hproc" where
  "mm_realloc_next oldnode next oldsize nextsize takenext s = do {
     let andbeyond = next + nextsize;
     s \<leftarrow> mm_unlink next s;
     s \<leftarrow> set_size oldnode (oldsize + takenext) s;
     n \<leftarrow> node_size oldnode s;
     let newnode = oldnode + n;
     if takenext < nextsize then do {
       s \<leftarrow> set_size newnode (sub32 nextsize takenext) s;
       n \<leftarrow> node_size oldnode s;
       s \<leftarrow> set_preceding newnode n s;
       k \<leftarrow> node_size newnode s;
       s \<leftarrow> mm_fixpreceding andbeyond k s;
       mm_addfreechunk newnode s
     }
     else do { n \<leftarrow> node_size oldnode s; mm_fixpreceding andbeyond n s }
   }"

text \<open>
  What \<^verbatim>\<open>mm_realloc\<close> does while it holds the lock: the address of the data, or \<open>None\<close> if the chunk cannot
  be extended, and the old size of the chunk.
\<close>

definition mm_realloc_locked :: "addr \<Rightarrow> nat \<Rightarrow> ('a, addr option \<times> nat) hop" where
  "mm_realloc_locked oldmem newsize s = do {
     let oldnode = sub32 oldmem SIZEOF_MM_ALLOCNODE;
     oldsize \<leftarrow> node_size oldnode s;
     if newsize \<le> oldsize then do {
       s \<leftarrow> (if newsize < oldsize then mm_shrinkchunk oldnode newsize s else Some s);
       Some ((Some oldmem, oldsize), s)
     }
     else do {
       let next = oldnode + oldsize;
       np \<leftarrow> node_preceding next s;
       nextsize \<leftarrow> (if and np MM_ALLOC_BIT = 0 then node_size next s else Some 0);
       p \<leftarrow> node_preceding oldnode s;
       let prev = sub32 oldnode (and p (not32 MM_ALLOC_BIT));
       pp \<leftarrow> node_preceding prev s;
       prevsize \<leftarrow> (if and pp MM_ALLOC_BIT = 0 then node_size prev s else Some 0);
       if u32 (nextsize + prevsize + oldsize) \<ge> newsize then do {
         let (takeprev, takenext) = mm_realloc_take nextsize prevsize (newsize - oldsize);
         ((node, n, newmem), s) \<leftarrow>
           (if takeprev \<noteq> 0 then mm_realloc_prev prev oldnode next oldsize prevsize takeprev s
            else Some ((oldnode, oldsize, oldmem), s));
         s \<leftarrow> (if takenext \<noteq> 0 then mm_realloc_next node next n nextsize takenext s else Some s);
         Some ((Some newmem, oldsize), s)
       }
       else Some ((None, oldsize), s)
     }
   }"

text \<open>A new block for a chunk that cannot be extended.\<close>

definition mm_realloc_move :: "addr \<Rightarrow> nat \<Rightarrow> nat \<Rightarrow> ('a, addr outcome) hop" where
  "mm_realloc_move oldmem oldsize sz s = do {
     (r, s) \<leftarrow> mm_malloc sz s;
     case r of
       Switched saved_errno \<Rightarrow> Some (Switched saved_errno, s)
     | Returned newmem \<Rightarrow>
         if newmem \<noteq> NULL then do {
           s \<leftarrow> memcpy newmem oldmem oldsize s;
           (freed, s) \<leftarrow> mm_free oldmem s;
           Some (map_outcome (\<lambda>_. newmem) freed, s)
         }
         else Some (Returned NULL, s)
   }"

definition mm_realloc :: "addr \<Rightarrow> nat \<Rightarrow> ('a, addr outcome) hop" where
  "mm_realloc oldmem sz s =
     (if oldmem = NULL then mm_malloc sz s
      else if sz < 1 then do {
        (freed, s) \<leftarrow> mm_free oldmem s;
        Some (map_outcome (\<lambda>_. NULL) freed, s)
      }
      else do {
        let newsize = MM_ALIGN_UP (u32 (sz + SIZEOF_MM_ALLOCNODE));
        (got, s) \<leftarrow> mm_takesemaphore s;
        case got of
          Switched saved_errno \<Rightarrow> Some (Switched saved_errno, s)
        | Returned _ \<Rightarrow> do {
            ((r, oldsize), s) \<leftarrow> mm_realloc_locked oldmem newsize s;
            s \<leftarrow> mm_givesemaphore s;
            case r of Some newmem \<Rightarrow> Some (Returned newmem, s) | None \<Rightarrow> mm_realloc_move oldmem oldsize sz s
          }
      })"

section \<open>Aligned allocation\<close>

text \<open>Returning the space in front of the aligned address.\<close>

definition mm_memalign_head :: "nat \<Rightarrow> addr \<Rightarrow> addr \<Rightarrow> addr \<Rightarrow> ('a, addr \<times> addr \<times> nat) hop" where
  "mm_memalign_head alignment rawchunk node alignedchunk s = do {
     n \<leftarrow> node_size node s;
     let next = node + n;
     debugassert s (alignedchunk \<ge> u32 (rawchunk + 8));
     let newnode = sub32 alignedchunk SIZEOF_MM_ALLOCNODE;
     let precedingsize = sub32 newnode node;
     let second = precedingsize < SIZEOF_MM_FREENODE;
     let alignedchunk = (if second then u32 (alignedchunk + alignment) else alignedchunk);
     let newnode = (if second then sub32 alignedchunk SIZEOF_MM_ALLOCNODE else newnode);
     let precedingsize = (if second then sub32 newnode node else precedingsize);
     s \<leftarrow> set_size newnode (sub32 next newnode) s;
     s \<leftarrow> set_preceding newnode (or precedingsize MM_ALLOC_BIT) s;
     s \<leftarrow> set_size node precedingsize s;
     p \<leftarrow> node_preceding node s;
     s \<leftarrow> set_preceding node (and p (not32 MM_ALLOC_BIT)) s;
     k \<leftarrow> node_size newnode s;
     s \<leftarrow> mm_fixpreceding next k s;
     k \<leftarrow> node_size newnode s;
     let allocsize = sub32 k SIZEOF_MM_ALLOCNODE;
     s \<leftarrow> mm_addfreechunk node s;
     Some ((newnode, alignedchunk, allocsize), s)
   }"

definition mm_memalign_locked :: "nat \<Rightarrow> nat \<Rightarrow> nat \<Rightarrow> addr \<Rightarrow> ('a, addr) hop" where
  "mm_memalign_locked alignment sz allocsize rawchunk s = do {
     let mask = sub32 alignment 1;
     let node = sub32 rawchunk SIZEOF_MM_ALLOCNODE;
     let alignedchunk = and (u32 (rawchunk + mask)) (not32 mask);
     ((node, alignedchunk, allocsize), s) \<leftarrow>
       (if alignedchunk \<noteq> rawchunk then mm_memalign_head alignment rawchunk node alignedchunk s
        else Some ((node, alignedchunk, allocsize), s));
     let sz = MM_ALIGN_UP (u32 (sz + SIZEOF_MM_ALLOCNODE));
     s \<leftarrow> (if allocsize > sz then mm_shrinkchunk node sz s else Some s);
     Some (alignedchunk, s)
   }"

definition mm_memalign :: "nat \<Rightarrow> nat \<Rightarrow> ('a, addr outcome) hop" where
  "mm_memalign alignment sz s =
     (if alignment \<le> MM_MIN_CHUNK then mm_malloc sz s
      else do {
        let sz = MM_ALIGN_UP sz;
        let allocsize = u32 (sz + 2 * alignment);
        (r, s) \<leftarrow> mm_malloc allocsize s;
        case r of
          Switched saved_errno \<Rightarrow> Some (Switched saved_errno, s)
        | Returned rawchunk \<Rightarrow>
            if rawchunk = 0 then Some (Returned NULL, s)
            else do {
              (got, s) \<leftarrow> mm_takesemaphore s;
              case got of
                Switched saved_errno \<Rightarrow> Some (Switched saved_errno, s)
              | Returned _ \<Rightarrow> do {
                  (p, s) \<leftarrow> mm_memalign_locked alignment sz allocsize rawchunk s;
                  s \<leftarrow> mm_givesemaphore s;
                  Some (Returned p, s)
                }
            }
      })"

section \<open>Cleared allocation\<close>

definition mm_zalloc :: "nat \<Rightarrow> ('a, addr outcome) hop" where
  "mm_zalloc sz s = do {
     (r, s) \<leftarrow> mm_malloc sz s;
     case r of
       Switched saved_errno \<Rightarrow> Some (Switched saved_errno, s)
     | Returned alloc \<Rightarrow> if alloc \<noteq> NULL then do { s \<leftarrow> memset alloc 0 sz s; Some (Returned alloc, s) } else Some (Returned NULL, s)
   }"

definition mm_calloc :: "nat \<Rightarrow> nat \<Rightarrow> ('a, addr outcome) hop" where
  "mm_calloc n elem_size s =
     (if n > 0 \<and> elem_size > 0 then mm_zalloc (u32 (n * elem_size)) s else Some (Returned NULL, s))"

section \<open>The extent of the heap\<close>

definition MIN_EXTEND :: nat where "MIN_EXTEND = 2 * SIZEOF_MM_ALLOCNODE"

text \<open>The caller may be switched out.\<close>

definition mm_extend :: "addr \<Rightarrow> nat \<Rightarrow> int \<Rightarrow> ('a, unit outcome) hop" where
  "mm_extend mem sz region s = do {
     debugassert s (mem \<noteq> NULL);
     debugassert s (sz \<ge> MIN_EXTEND \<and> region = 0);
     let blockstart = mem;
     let blockend = u32 (blockstart + sz);
     debugassert s (MM_ALIGN_UP blockstart = blockstart);
     debugassert s (MM_ALIGN_DOWN blockend = blockend);
     (got, s) \<leftarrow> mm_takesemaphore s;
     case got of
       Switched saved_errno \<Rightarrow> Some (Switched saved_errno, s)
     | Returned _ \<Rightarrow> do {
         let oldnode = mm_heapend (heap s);
         debugassert s (oldnode + SIZEOF_MM_ALLOCNODE = mem);
         s \<leftarrow> set_size oldnode sz s;
         p \<leftarrow> node_preceding oldnode s;
         debugassert s (and p MM_ALLOC_BIT \<noteq> 0);
         let newnode = sub32 blockend SIZEOF_MM_ALLOCNODE;
         s \<leftarrow> set_size newnode SIZEOF_MM_ALLOCNODE s;
         n \<leftarrow> node_size oldnode s;
         s \<leftarrow> set_preceding newnode (or n MM_ALLOC_BIT) s;
         let s = s\<lparr>heap := (heap s)\<lparr>mm_heapend := newnode\<rparr>\<rparr>;
         s \<leftarrow> mm_givesemaphore s;
         mm_free mem s
       }
   }"

definition mm_heapmember :: "addr \<Rightarrow> 'a hpstate_scheme \<Rightarrow> bool" where
  "mm_heapmember mem s \<longleftrightarrow> mem > mm_heapstart (heap s) \<and> mem < mm_heapend (heap s)"

definition mm_brkaddr :: "int \<Rightarrow> 'a hpstate_scheme \<Rightarrow> addr option" where
  "mm_brkaddr region s = do {
     debugassert s (region = 0);
     let brkaddr = mm_heapend (heap s);
     Some (if brkaddr \<noteq> 0 then brkaddr + SIZEOF_MM_ALLOCNODE else 0)
   }"

section \<open>Statistics\<close>

record mallinfo =
  arena :: int
  ordblks :: int
  mxordblk :: int
  uordblks :: int
  fordblks :: int

text \<open>The local variables \<^verbatim>\<open>ordblks\<close>, \<^verbatim>\<open>mxordblk\<close>, \<^verbatim>\<open>uordblks\<close> and \<^verbatim>\<open>fordblks\<close> of the loop.\<close>

type_synonym mallcount = "nat \<times> nat \<times> nat \<times> nat"

definition mm_mallinfo_count :: "nat \<Rightarrow> nat \<Rightarrow> mallcount \<Rightarrow> mallcount" where
  "mm_mallinfo_count n p i = (case i of (ord, mx, u, f) \<Rightarrow>
     if and p MM_ALLOC_BIT \<noteq> 0 then (ord, mx, u32 (u + n), f)
     else (ord + 1, if n > mx then n else mx, u, u32 (f + n)))"

partial_function (option) mm_mallinfo_loop :: "'a hpstate_scheme \<Rightarrow> addr \<Rightarrow> mallcount \<Rightarrow> (addr \<times> mallcount) option" where
  "mm_mallinfo_loop s node i =
     (if node < mm_heapend (heap s) then
        Option.bind (node_size node s) (\<lambda>n. Option.bind (node_preceding node s) (\<lambda>p.
          mm_mallinfo_loop s (node + n) (mm_mallinfo_count n p i)))
      else Some (node, i))"

definition mm_mallinfo :: "('a, mallinfo outcome) hop" where
  "mm_mallinfo s = do {
     (got, s) \<leftarrow> mm_takesemaphore s;
     case got of
       Switched saved_errno \<Rightarrow> Some (Switched saved_errno, s)
     | Returned _ \<Rightarrow> do {
         (node, ord, mx, u, f) \<leftarrow> mm_mallinfo_loop s (mm_heapstart (heap s)) (0, 0, 0, 0);
         debugassert s (node = mm_heapend (heap s));
         s \<leftarrow> mm_givesemaphore s;
         let u = u32 (u + SIZEOF_MM_ALLOCNODE);
         debugassert s (u32 (u + f) = mm_heapsize (heap s));
         Some (Returned \<lparr>arena = s32 (int (mm_heapsize (heap s))), ordblks = int ord, mxordblk = s32 (int mx),
           uordblks = s32 (int u), fordblks = s32 (int f)\<rparr>, s)
       }
   }"

section \<open>The user heap\<close>

text \<open>In the flat build these are the functions of the C library, and those of the kernel are the same.\<close>

definition malloc :: "nat \<Rightarrow> ('a, addr outcome) hop" where "malloc = mm_malloc"

definition free :: "addr \<Rightarrow> ('a, unit outcome) hop" where "free = mm_free"

definition realloc :: "addr \<Rightarrow> nat \<Rightarrow> ('a, addr outcome) hop" where "realloc = mm_realloc"

definition memalign :: "nat \<Rightarrow> nat \<Rightarrow> ('a, addr outcome) hop" where "memalign = mm_memalign"

definition zalloc :: "nat \<Rightarrow> ('a, addr outcome) hop" where "zalloc = mm_zalloc"

definition calloc :: "nat \<Rightarrow> nat \<Rightarrow> ('a, addr outcome) hop" where "calloc = mm_calloc"

definition umm_initialize :: "addr \<Rightarrow> nat \<Rightarrow> 'a hproc" where "umm_initialize = mm_initialize"

definition umm_addregion :: "addr \<Rightarrow> nat \<Rightarrow> 'a hproc" where "umm_addregion = mm_addregion"

definition umm_extend :: "addr \<Rightarrow> nat \<Rightarrow> int \<Rightarrow> ('a, unit outcome) hop" where "umm_extend = mm_extend"

definition umm_heapmember :: "addr \<Rightarrow> 'a hpstate_scheme \<Rightarrow> bool" where "umm_heapmember = mm_heapmember"

definition umm_brkaddr :: "int \<Rightarrow> 'a hpstate_scheme \<Rightarrow> addr option" where "umm_brkaddr = mm_brkaddr"

definition umm_mallinfo :: "('a, mallinfo outcome) hop" where "umm_mallinfo = mm_mallinfo"

definition umm_trysemaphore :: "('a, int) hop" where "umm_trysemaphore = mm_trysemaphore"

definition umm_givesemaphore :: "'a hproc" where "umm_givesemaphore = mm_givesemaphore"

end
