(* ===== verification/MmCopy.thy ===== *)
theory MmCopy
  imports MmMem
begin

text \<open>
  The byte loops \<^verbatim>\<open>memcpy\<close> and \<^verbatim>\<open>memset\<close> on the cells of the memory: copying whole cells forwards, also to
  an overlapping destination below the source, and clearing.
\<close>

definition mem32 :: "'a hpstate_scheme \<Rightarrow> bool" where
  "mem32 s \<longleftrightarrow> (\<forall>c v. hmem s c = Some v \<longrightarrow> v < 2 ^ 32)"

lemma mem32D: "mem32 s \<Longrightarrow> hmem s c = Some v \<Longrightarrow> v < 2 ^ 32"
  by (auto simp: mem32_def)

text \<open>Only the memory differs from \<open>s0\<close>; it has the same cells, and they hold 32-bit values.\<close>

definition cells_ok :: "'a hpstate_scheme \<Rightarrow> 'a hpstate_scheme \<Rightarrow> bool" where
  "cells_ok s0 s \<longleftrightarrow> mem32 s \<and> dom (hmem s) = dom (hmem s0) \<and> s = s0\<lparr>hmem := hmem s\<rparr>"

lemma cells_ok_refl: "mem32 s \<Longrightarrow> cells_ok s s"
  by (simp add: cells_ok_def)

lemma cells_okD: "cells_ok s0 s \<Longrightarrow> mem32 s" "cells_ok s0 s \<Longrightarrow> dom (hmem s) = dom (hmem s0)"
  by (simp_all add: cells_ok_def)

lemma cells_ok_upd: "cells_ok s0 s \<Longrightarrow> s\<lparr>hmem := m\<rparr> = s0\<lparr>hmem := m\<rparr>"
  by (drule cells_ok_def [THEN iffD1, THEN conjunct2, THEN conjunct2, THEN arg_cong, of _ _ "hmem_update (\<lambda>_. m)"]) simp

lemma cells_ok_write: "cells_ok s0 s \<Longrightarrow> mem32 (s\<lparr>hmem := m\<rparr>) \<Longrightarrow> dom m = dom (hmem s) \<Longrightarrow> cells_ok s0 (s\<lparr>hmem := m\<rparr>)"
  using cells_ok_upd [of s0 s m] cells_okD(2) [of s0 s] by (simp add: cells_ok_def)

text \<open>Replacing the byte at bit \<open>k\<close>.\<close>

definition put_byte :: "nat \<Rightarrow> nat \<Rightarrow> nat \<Rightarrow> nat" where
  "put_byte k b u = u div 2 ^ (k + 8) * 2 ^ (k + 8) + b mod 256 * 2 ^ k + u mod 2 ^ k"

lemma put_byte_rest: "b mod 256 * 2 ^ k + u mod 2 ^ k < (2 ^ (k + 8) :: nat)"
proof -
  have "b mod 256 * 2 ^ k \<le> 255 * 2 ^ k" by (intro mult_le_mono1) (simp add: less_Suc_eq_le [symmetric])
  moreover have "u mod 2 ^ k < 2 ^ k" by simp
  moreover have "(2 :: nat) ^ (k + 8) = 256 * 2 ^ k" by (simp add: power_add)
  ultimately show ?thesis by linarith
qed

lemma put_byte_low: "put_byte k b u mod 2 ^ (k + 8) = b mod 256 * 2 ^ k + u mod 2 ^ k"
  unfolding put_byte_def add.assoc using put_byte_rest [of b k u] by (metis mod_less mod_mult_self3)

lemma put_byte_32:
  assumes "u < 2 ^ 32" "k \<le> 24"
  shows "put_byte k b u < 2 ^ 32"
proof -
  have e: "2 ^ 32 = 2 ^ (24 - k) * (2 ^ (k + 8) :: nat)" using assms(2) by (simp flip: power_add)
  then have "u div 2 ^ (k + 8) < 2 ^ (24 - k)" using assms(1) by (metis less_mult_imp_div_less)
  then have "(u div 2 ^ (k + 8) + 1) * 2 ^ (k + 8) \<le> 2 ^ (24 - k) * 2 ^ (k + 8)" by (intro mult_le_mono1) simp
  moreover have "put_byte k b u < (u div 2 ^ (k + 8) + 1) * 2 ^ (k + 8)"
    using put_byte_rest [of b k u] by (simp add: put_byte_def algebra_simps)
  ultimately show ?thesis using e by linarith
qed

lemma put_byte_copy:
  assumes "u mod 2 ^ k = v mod 2 ^ k"
  shows "put_byte k (v div 2 ^ k mod 256) u mod 2 ^ (k + 8) = v mod 2 ^ (k + 8)"
proof -
  have "v mod 2 ^ (k + 8) = v div 2 ^ k mod 256 * 2 ^ k + v mod 2 ^ k"
    using mod_mult2_eq [of v "2 ^ k" 256] by (simp add: power_add mult.commute)
  then show ?thesis using assms put_byte_low [of k "v div 2 ^ k mod 256" u] by simp
qed

section \<open>Copying\<close>

lemma memcpy_add: "memcpy d a (n + k) s = memcpy d a n s \<bind> memcpy (d + n) (a + n) k"
  by (induction n arbitrary: d a s) (auto split: bind_splits)

lemma memcpy_cell_part:
  assumes al: "d mod 4 = 0" "a mod 4 = 0" and c: "hmem s a = Some v" "hmem s d = Some w" "d \<noteq> a" and b: "w < 2 ^ 32" and i: "i \<le> 4"
  shows "\<exists>u. memcpy d a i s = Some (s\<lparr>hmem := (hmem s)(d \<mapsto> u)\<rparr>) \<and> u < 2 ^ 32 \<and> u mod 2 ^ (8 * i) = v mod 2 ^ (8 * i)"
  using i
proof (induction i)
  case 0
  have "(hmem s)(d \<mapsto> w) = hmem s" using c(2) by auto
  then show ?case using b by (intro exI [of _ w]) simp
next
  case (Suc i)
  then obtain u where u: "memcpy d a i s = Some (s\<lparr>hmem := (hmem s)(d \<mapsto> u)\<rparr>)" "u < 2 ^ 32" "u mod 2 ^ (8 * i) = v mod 2 ^ (8 * i)"
    using Suc_leD by blast
  have m: "(d + i) mod 4 = i" "(a + i) mod 4 = i"
    using al Suc.prems mod_add_left_eq [of d 4 i] mod_add_left_eq [of a 4 i] by simp_all
  let ?u = "put_byte (8 * i) (v div 2 ^ (8 * i) mod 256) u"
  have p: "?u < 2 ^ 32" "?u mod 2 ^ (8 * i + 8) = v mod 2 ^ (8 * i + 8)"
    using put_byte_32 [OF u(2)] put_byte_copy [OF u(3)] Suc.prems by simp_all
  have "memcpy d a (i + 1) s = Some (s\<lparr>hmem := (hmem s)(d \<mapsto> ?u)\<rparr>)"
    using u(1) c m p(1) unfolding memcpy_add
    by (simp add: getbyte_def setbyte_def hstore_eq [where v = ?u] put_byte_def [symmetric])
  moreover have "?u mod 2 ^ (8 * Suc i) = v mod 2 ^ (8 * Suc i)" using p(2) by (simp only: mult_Suc_right add.commute)
  ultimately show ?case unfolding Suc_eq_plus1 [symmetric] using p(1) by blast
qed

lemma memcpy_cell:
  assumes "d mod 4 = 0" "a mod 4 = 0" "hmem s a = Some v" "hmem s d = Some w" "d \<noteq> a" "w < 2 ^ 32" "v < 2 ^ 32"
  shows "memcpy d a 4 s = Some (s\<lparr>hmem := (hmem s)(d \<mapsto> v)\<rparr>)"
  using memcpy_cell_part [OF assms(1-6), of 4] assms(7) by auto

lemma memcpy_cells:
  fixes n :: nat
  assumes al: "d mod 4 = 0" "a mod 4 = 0" and m32: "mem32 s"
    and c: "\<forall>i < n. hmem s (a + 4 * i) \<noteq> None \<and> hmem s (d + 4 * i) \<noteq> None" and o: "\<forall>i j. i \<le> j \<and> j < n \<longrightarrow> d + 4 * i \<noteq> a + 4 * j"
  shows "\<exists>m. memcpy d a (4 * n) s = Some (s\<lparr>hmem := m\<rparr>) \<and> dom m = dom (hmem s) \<and> mem32 (s\<lparr>hmem := m\<rparr>) \<and>
    (\<forall>i < n. m (d + 4 * i) = hmem s (a + 4 * i)) \<and> (\<forall>c. (\<forall>i < n. c \<noteq> d + 4 * i) \<longrightarrow> m c = hmem s c)"
  using c o
proof (induction n)
  case 0
  then show ?case using m32 by (intro exI [of _ "hmem s"]) simp
next
  case (Suc n)
  have "\<forall>i < n. hmem s (a + 4 * i) \<noteq> None \<and> hmem s (d + 4 * i) \<noteq> None" "\<forall>i j. i \<le> j \<and> j < n \<longrightarrow> d + 4 * i \<noteq> a + 4 * j"
    using Suc.prems by simp_all
  from Suc.IH [OF this] obtain m where m: "memcpy d a (4 * n) s = Some (s\<lparr>hmem := m\<rparr>)" "dom m = dom (hmem s)" "mem32 (s\<lparr>hmem := m\<rparr>)"
    "\<forall>i < n. m (d + 4 * i) = hmem s (a + 4 * i)" "\<forall>c. (\<forall>i < n. c \<noteq> d + 4 * i) \<longrightarrow> m c = hmem s c" by blast
  obtain v where v: "hmem s (a + 4 * n) = Some v" using Suc.prems(1) by blast
  have mv: "m (a + 4 * n) = Some v" using m(5) v Suc.prems(2) by (metis lessI less_imp_le)
  obtain w where w: "m (d + 4 * n) = Some w" using Suc.prems(1) m(2) by (metis domD domIff lessI)
  have ne: "d + 4 * n \<noteq> a + 4 * n" using Suc.prems(2) by blast
  have "memcpy (d + 4 * n) (a + 4 * n) 4 (s\<lparr>hmem := m\<rparr>) = Some (s\<lparr>hmem := m(d + 4 * n \<mapsto> v)\<rparr>)"
    using memcpy_cell [of "d + 4 * n" "a + 4 * n" "s\<lparr>hmem := m\<rparr>" v w] al mv w ne mem32D [OF m(3)] by simp
  then have "memcpy d a (4 * Suc n) s = Some (s\<lparr>hmem := m(d + 4 * n \<mapsto> v)\<rparr>)"
    using m(1) memcpy_add [of d a "4 * n" 4 s] by (simp add: algebra_simps)
  moreover have "dom (m(d + 4 * n \<mapsto> v)) = dom (hmem s)" using w unfolding m(2) [symmetric] by (simp add: insert_absorb domI)
  moreover have "mem32 (s\<lparr>hmem := m(d + 4 * n \<mapsto> v)\<rparr>)" using m(3) mem32D [OF m32 v] by (auto simp: mem32_def)
  moreover have "(m(d + 4 * n \<mapsto> v)) (d + 4 * i) = hmem s (a + 4 * i)" if "i < Suc n" for i using that m(4) v by (auto simp: less_Suc_eq)
  moreover have "(m(d + 4 * n \<mapsto> v)) c = hmem s c" if "\<forall>i < Suc n. c \<noteq> d + 4 * i" for c using that m(5) by simp
  ultimately show ?case by blast
qed

end
