(* ===== verification/MmResize.thy ===== *)
theory MmResize
  imports MmCopy
begin

text \<open>
  Shrinking and extending chunks as operations on the list of chunks.
\<close>

section \<open>Replacing the front of a run of chunks\<close>

lemma coalesced_absorb:
  assumes "coalesced (xs @ (x, n, True) # ys)" "absorb n ys = (n', ys')"
  shows "coalesced (xs @ (x, k, True) # (z, i, False) # ys')" "coalesced (xs @ (x, i, True) # ys')"
    "alloc_of ys' = alloc_of ys" "ys' = [] \<or> snd (snd (hd ys'))"
  using assms by (auto simp: coalesced_def successively_append_iff successively_Cons elim!: absorb.elims)

lemma fixpreceding_alloc:
  assumes "hmem s (y + 4) = Some (prec True p)" "p < 2 ^ 31" "v < 2 ^ 31"
  shows "set_preceding y (or v MM_ALLOC_BIT) s = mm_fixpreceding y v s"
  using assms by (simp add: mm_fixpreceding_def heap_fields or_prec or_alloc_bit [OF assms(3)] prec_def [of True v])

lemma and_gran_mask: "and k MM_GRAN_MASK = k mod 16"
  using take_bit_eq_mask [of 4 k] by (simp add: take_bit_eq_mod mask_eq_exp_minus_1)

text \<open>
  The run \<open>M\<close> of chunks, none of which is in the lists, becomes an allocated chunk of \<open>k\<close> bytes and a free
  one, which is entered into the lists.
\<close>

lemma heap_resplit_add:
  assumes r: "chunk_rep s (xs @ M @ ys)" and f: "free_rep s B (free_of (xs @ ys))"
    and M: "M = (x, j, True) # M0" "contig x M (x + n)" and k: "16 \<le> k" "k mod 16 = 0" "k + 16 \<le> n"
  defines "t \<equiv> s\<lparr>hmem := (hmem s)(x + k \<mapsto> n - k, x + k + 4 \<mapsto> k, x \<mapsto> k)\<rparr>"
  obtains s2 m B' where "mm_fixpreceding (x + n) (n - k) t = Some s2" "mm_addfreechunk (x + k) s2 = Some (s\<lparr>hmem := m\<rparr>)"
    "chunk_rep (s\<lparr>hmem := m\<rparr>) (xs @ (x, k, True) # (x + k, n - k, False) # ys)"
    "free_rep (s\<lparr>hmem := m\<rparr>) B' (free_of (xs @ (x, k, True) # (x + k, n - k, False) # ys))"
    "same_data (insert (x, k) (alloc_of (xs @ ys))) (hmem s) m" "n < 2 ^ 31"
proof -
  let ?cs = "xs @ (x, k, True) # (x + k, n - k, False) # ys"
  note sp = heap_resplit [OF r f subset_refl M k]
  define m2 where "m2 = (hmem s)(x + k \<mapsto> n - k, x + k + 4 \<mapsto> k, x \<mapsto> k, x + n + 4 \<mapsto> prec (snd (snd (next_chunk s ys))) (n - k))"
  define s2 where "s2 = s\<lparr>hmem := m2\<rparr>"
  have s2: "mm_fixpreceding (x + n) (n - k) t = Some s2" using sp(1) unfolding sp(4) by (simp add: t_def s2_def m2_def)
  have r2: "chunk_rep s2 ?cs" "free_rep s2 B (free_of (xs @ ys))" "same_data (alloc_of (xs @ ys)) (hmem s) m2"
    using sp(2) by (simp_all add: s2_def m2_def)
  have r2': "chunk_rep s2 ((xs @ [(x, k, True)]) @ (x + k, n - k, False) # ys)" using r2(1) by simp
  obtain m B' where m: "mm_addfreechunk (x + k) s2 = Some (s2\<lparr>hmem := m\<rparr>)" "chunk_rep (s2\<lparr>hmem := m\<rparr>) ?cs"
    "free_rep (s2\<lparr>hmem := m\<rparr>) B' (insert (x + k, n - k) (free_of (xs @ ys)))" "same_data (alloc_of ?cs) (hmem s2) m"
    by (rule heap_addfree [OF r2(1,2), of "x + k" "n - k"]) (use chunk_rep_notin [OF r2'] in auto)
  have "same_data {(x, k)} (hmem s) m2" using k by (auto simp: same_data_def m2_def)
  then have "same_data (insert (x, k) (alloc_of (xs @ ys))) (hmem s) m2" using r2(3) by (auto simp: same_data_def)
  moreover have "same_data (insert (x, k) (alloc_of (xs @ ys))) m2 m" using m(4) by (simp add: s2_def insert_commute)
  ultimately have "same_data (insert (x, k) (alloc_of (xs @ ys))) (hmem s) m" by (rule same_data_trans)
  then show thesis using that [OF s2, of m B'] m(1-3) sp(3) by (simp add: s2_def insert_commute)
qed

text \<open>Taking the chunk behind \<open>(x, n)\<close> out of its list, if it is free.\<close>

lemma heap_unlink_next:
  assumes r: "chunk_rep s (xs @ (x, n, True) # (y, j, False) # ys)" and f: "free_rep s B (free_of (xs @ (y, j, False) # ys))"
  obtains m B' where "mm_unlink (x + n) s = Some (s\<lparr>hmem := m\<rparr>)" "chunk_rep (s\<lparr>hmem := m\<rparr>) (xs @ [(x, n, True), (y, j, False)] @ ys)"
    "free_rep (s\<lparr>hmem := m\<rparr>) B' (free_of (xs @ ys))" "same_data (insert (x, n) (alloc_of (xs @ ys))) (hmem s) m" "y = x + n"
    "hmem s (x + n) = Some j" "hmem s (x + n + 4) = Some (prec False n)" "hmem s x = Some n" "m (x + n) = Some j" "m x = Some n" "n < 2 ^ 31"
proof -
  let ?cs = "xs @ (x, n, True) # (y, j, False) # ys"
  have y: "y = x + n" using chunk_repD(4) [OF r] by (auto simp: contig_append)
  obtain m B' where m: "mm_unlink y s = Some (s\<lparr>hmem := m\<rparr>)" "chunk_rep (s\<lparr>hmem := m\<rparr>) ?cs"
    "free_rep (s\<lparr>hmem := m\<rparr>) B' (free_of (xs @ (y, j, False) # ys) - {(y, j)})" "same_data (alloc_of ?cs) (hmem s) m"
    by (rule heap_unlink [OF r f, of y j]) auto
  have r': "chunk_rep s ((xs @ [(x, n, True)]) @ (y, j, False) # ys)" using r by simp
  have F: "free_of (xs @ (y, j, False) # ys) - {(y, j)} = free_of (xs @ ys)" using chunk_rep_notin [OF r'] by auto
  have m2: "chunk_rep (s\<lparr>hmem := m\<rparr>) ((xs @ [(x, n, True)]) @ (y, j, False) # ys)" using m(2) by simp
  show thesis
    using that [of m B'] m F y chunk_header [OF r] chunk_header [OF r'] chunk_header [OF m(2)] chunk_header [OF m2]
      chunk_in_arena(5) [OF r, of x n True] by (simp add: insert_commute)
qed

section \<open>Shrinking\<close>

lemma mm_shrinkchunk_spec:
  assumes h: "heap_rep s (xs @ (x, n, True) # ys)" and k: "16 \<le> k" "k mod 16 = 0" "k < n" and a: "absorb n ys = (n', ys')"
  obtains m where "mm_shrinkchunk x k s = Some (s\<lparr>hmem := m\<rparr>)"
    "heap_rep (s\<lparr>hmem := m\<rparr>) (xs @ (x, k, True) # (x + k, n' - k, False) # ys')"
    "same_data (insert (x, k) (alloc_of (xs @ ys))) (hmem s) m"
proof -
  obtain B where B: "free_rep s B (free_of (xs @ ys))" and r: "chunk_rep s (xs @ (x, n, True) # ys)"
    and co: "coalesced (xs @ (x, n, True) # ys)" using h by (auto simp: heap_rep_def)
  note cc = coalesced_absorb [OF co a]
  have xc: "(x, n, True) \<in> set (xs @ (x, n, True) # ys)" by simp
  note hd = chunk_header [OF r] and sz = chunk_repD(5) [OF r xc] and ia = chunk_in_arena [OF r xc]
  have kn: "k + 16 \<le> n" using k sz by presburger
  have as: "debugassert s (and k MM_GRAN_MASK = 0) = Some ()" unfolding and_gran_mask using k(2) by (simp add: debugassert_def)
  show thesis
  proof (rule absorb_cases [of ys n])
    assume ab: "absorb n ys = (n, ys)" "ys = [] \<or> snd (snd (hd ys))"
    have e: "n' = n" "ys' = ys" using ab(1) a by simp_all
    have r1: "chunk_rep s (xs @ [(x, n, True)] @ ys)" and c: "contig x [(x, n, True)] (x + n)" using r sz by simp_all
    obtain i g where nx: "next_chunk s ys = (x + n, i, g)" by (rule next_chunkE [OF r1 c]) auto
    then have "g" using ab(2) by (cases ys) (auto simp: next_chunk_def)
    note nh = next_header [OF r1 c _ _ nx, simplified]
    define t where "t = s\<lparr>hmem := (hmem s)(x + k \<mapsto> n - k, x + k + 4 \<mapsto> k, x \<mapsto> k)\<rparr>"
    obtain s2 m B' where m: "mm_fixpreceding (x + n) (n - k) t = Some s2" "mm_addfreechunk (x + k) s2 = Some (s\<lparr>hmem := m\<rparr>)"
      "chunk_rep (s\<lparr>hmem := m\<rparr>) (xs @ (x, k, True) # (x + k, n - k, False) # ys)"
      "free_rep (s\<lparr>hmem := m\<rparr>) B' (free_of (xs @ (x, k, True) # (x + k, n - k, False) # ys))"
      "same_data (insert (x, k) (alloc_of (xs @ ys))) (hmem s) m"
      unfolding t_def by (rule heap_resplit_add [OF r1 B refl c k(1,2) kn])
    have "hmem t (x + n + 4) = Some (prec True n)" using nh(2) \<open>g\<close> k kn by (simp add: t_def)
    then have "set_preceding (x + n) (or (n - k) MM_ALLOC_BIT) t = Some s2"
      using fixpreceding_alloc [of t "x + n" n "n - k"] m(1) ia(5) by simp
    moreover obtain t1 t2 where "set_size (x + k) (n - k) s = Some t1" "set_preceding (x + k) k t1 = Some t2" "set_size x k t2 = Some t"
      using heap_resplit(4) [OF r1 B subset_refl refl c k(1,2) kn] by (auto simp: t_def bind_eq_Some_conv)
    moreover have "hmem t (x + k) = Some (n - k)" using k by (simp add: t_def)
    ultimately have "mm_shrinkchunk x k s = Some (s\<lparr>hmem := m\<rparr>)"
      unfolding mm_shrinkchunk_def as using hd(1) nh(2) \<open>g\<close> ia(5) m(2) kn k
      by (simp add: node_size_def node_preceding_def u32_def sub32_eq)
    then show thesis using that m(3-5) cc(1) e by (auto simp: heap_rep_def)
  next
    fix y j zs assume ys: "ys = (y, j, False) # zs" and ab: "absorb n ys = (n + j, zs)"
    have e: "n' = n + j" "ys' = zs" using ab a by simp_all
    obtain m1 B1 where m1: "mm_unlink (x + n) s = Some (s\<lparr>hmem := m1\<rparr>)" "chunk_rep (s\<lparr>hmem := m1\<rparr>) (xs @ [(x, n, True), (y, j, False)] @ zs)"
      "free_rep (s\<lparr>hmem := m1\<rparr>) B1 (free_of (xs @ zs))" "same_data (insert (x, n) (alloc_of (xs @ zs))) (hmem s) m1" "y = x + n"
      "hmem s (x + n) = Some j" "hmem s (x + n + 4) = Some (prec False n)" "hmem s x = Some n" "m1 (x + n) = Some j" "m1 x = Some n" "n < 2 ^ 31"
      by (rule heap_unlink_next [OF r [unfolded ys] B [unfolded ys]])
    define s1 where "s1 = s\<lparr>hmem := m1\<rparr>"
    note m1' = m1 [folded s1_def]
    have c: "contig x [(x, n, True), (y, j, False)] (x + (n + j))" using chunk_repD(4) [OF r] by (auto simp: ys contig_append)
    have kj: "k + 16 \<le> n + j" using kn by simp
    define t where "t = s1\<lparr>hmem := (hmem s1)(x + k \<mapsto> (n + j) - k, x + k + 4 \<mapsto> k, x \<mapsto> k)\<rparr>"
    obtain s2 m B' where m: "mm_fixpreceding (x + (n + j)) (n + j - k) t = Some s2" "mm_addfreechunk (x + k) s2 = Some (s1\<lparr>hmem := m\<rparr>)"
      "chunk_rep (s1\<lparr>hmem := m\<rparr>) (xs @ (x, k, True) # (x + k, n + j - k, False) # zs)"
      "free_rep (s1\<lparr>hmem := m\<rparr>) B' (free_of (xs @ (x, k, True) # (x + k, n + j - k, False) # zs))"
      "same_data (insert (x, k) (alloc_of (xs @ zs))) (hmem s1) m" "n + j < 2 ^ 31"
      unfolding t_def by (rule heap_resplit_add [OF m1'(2,3) refl c k(1,2) kj])
    obtain t1 t2 where "set_size (x + k) (n + j - k) s1 = Some t1" "set_preceding (x + k) k t1 = Some t2" "set_size x k t2 = Some t"
      using heap_resplit(4) [OF m1'(2,3) subset_refl refl c k(1,2) kj] by (auto simp: t_def bind_eq_Some_conv)
    moreover have "hmem t (x + k) = Some (n + j - k)" using k by (simp add: t_def)
    moreover have "hmem s1 (x + n) = Some j" "hmem s1 x = Some n" using m1(9,10) by (simp_all add: s1_def)
    moreover have "sub32 (j + n) k = n + j - k" using m(6) kj by (simp add: sub32_eq add.commute)
    ultimately have "mm_shrinkchunk x k s = Some (s1\<lparr>hmem := m\<rparr>)"
      unfolding mm_shrinkchunk_def as using m1'(1,6-11) m(1,2) kn k
      by (simp add: node_size_def node_preceding_def s1_def [symmetric] add.assoc Let_def)
    moreover have "same_data (insert (x, k) (alloc_of (xs @ ys))) (hmem s) m1"
      using m1(4) k(3) by (fastforce simp: same_data_def ys)
    then have "same_data (insert (x, k) (alloc_of (xs @ ys))) (hmem s) m"
      by (rule same_data_trans) (use m(5) in \<open>simp add: s1_def ys\<close>)
    moreover have "s1\<lparr>hmem := m\<rparr> = s\<lparr>hmem := m\<rparr>" by (simp add: s1_def)
    ultimately show thesis using that m(3,4) cc(1) e by (auto simp: heap_rep_def)
  qed
qed

section \<open>Extending into the next chunk\<close>

lemma store_read: "hstore a v s = Some t \<Longrightarrow> v < 2 ^ 32 \<Longrightarrow> hmem t = (hmem s)(a \<mapsto> v)"
  by (auto simp: hstore_def u32_def split: if_splits)

lemma mm_realloc_next_spec:
  assumes h: "heap_rep s (xs @ (x, n, True) # (y, j, False) # ys)" and t: "0 < t" "t \<le> j" "t mod 16 = 0"
  obtains m where "mm_realloc_next x (x + n) n j t s = Some (s\<lparr>hmem := m\<rparr>)"
    "heap_rep (s\<lparr>hmem := m\<rparr>) (xs @ (x, n + t, True) # (if t < j then (x + n + t, j - t, False) # ys else ys))"
    "same_data (insert (x, n) (alloc_of (xs @ ys))) (hmem s) m"
proof -
  let ?K = "insert (x, n) (alloc_of (xs @ ys))"
  obtain B where B: "free_rep s B (free_of (xs @ (y, j, False) # ys))" and r: "chunk_rep s (xs @ (x, n, True) # (y, j, False) # ys)"
    and co: "coalesced (xs @ (x, n, True) # (y, j, False) # ys)" using h by (auto simp: heap_rep_def)
  note cc = coalesced_absorb [OF co absorb.simps(1)]
  have xc: "(x, n, True) \<in> set (xs @ (x, n, True) # (y, j, False) # ys)" "(y, j, False) \<in> set (xs @ (x, n, True) # (y, j, False) # ys)" by simp_all
  note sz = chunk_repD(5) [OF r xc(1)] chunk_repD(5) [OF r xc(2)]
  obtain m1 B1 where m1: "mm_unlink (x + n) s = Some (s\<lparr>hmem := m1\<rparr>)" "chunk_rep (s\<lparr>hmem := m1\<rparr>) (xs @ [(x, n, True), (y, j, False)] @ ys)"
    "free_rep (s\<lparr>hmem := m1\<rparr>) B1 (free_of (xs @ ys))" "same_data ?K (hmem s) m1" "y = x + n" "hmem s x = Some n" "m1 x = Some n"
    by (rule heap_unlink_next [OF r B])
  define s1 where "s1 = s\<lparr>hmem := m1\<rparr>"
  note m1' = m1 [folded s1_def]
  have c: "contig x [(x, n, True), (y, j, False)] (x + (n + j))" using chunk_repD(4) [OF r] by (auto simp: contig_append)
  have un: "mm_unlink (x + n) s = Some s1" using m1(1) by (simp add: s1_def)
  show thesis
  proof (cases "t < j")
    case True
    let ?k = "n + t" and ?N = "n + j"
    have k: "16 \<le> ?k" "?k mod 16 = 0" using sz t by (simp_all add: mod_add_eq [symmetric])
    have kN: "?k + 16 \<le> ?N"
    proof -
      have "t div 16 < j div 16" using True t(3) sz(2) by (metis div_mult_mod_eq add_0_right less_mult_imp_div_less mult.commute)
      then have "t div 16 * 16 + 16 \<le> j div 16 * 16" by linarith
      then show ?thesis using t(3) sz(2) by (simp add: minus_mod_eq_div_mult [symmetric])
    qed
    define u where "u = s1\<lparr>hmem := (hmem s1)(x + ?k \<mapsto> ?N - ?k, x + ?k + 4 \<mapsto> ?k, x \<mapsto> ?k)\<rparr>"
    obtain s2 m B' where m: "mm_fixpreceding (x + ?N) (?N - ?k) u = Some s2" "mm_addfreechunk (x + ?k) s2 = Some (s1\<lparr>hmem := m\<rparr>)"
      "chunk_rep (s1\<lparr>hmem := m\<rparr>) (xs @ (x, ?k, True) # (x + ?k, ?N - ?k, False) # ys)"
      "free_rep (s1\<lparr>hmem := m\<rparr>) B' (free_of (xs @ (x, ?k, True) # (x + ?k, ?N - ?k, False) # ys))"
      "same_data (insert (x, ?k) (alloc_of (xs @ ys))) (hmem s1) m" "?N < 2 ^ 31"
      unfolding u_def by (rule heap_resplit_add [OF m1'(2,3) refl c k kN])
    obtain t1 t2 where t12: "set_size x ?k s1 = Some t1" "set_size (x + ?k) (?N - ?k) t1 = Some t2" "set_preceding (x + ?k) ?k t2 = Some u"
      using heap_resplit(5) [OF m1'(2,3) subset_refl refl c k kN] by (auto simp: u_def bind_eq_Some_conv)
    have rd: "hmem t1 x = Some ?k" "hmem t2 x = Some ?k" "hmem u (x + ?k) = Some (?N - ?k)"
      using store_read [of x ?k s1 t1] store_read [of "x + ?k" "?N - ?k" t1 t2] t12 m(6) kN k(1) by (simp_all add: set_size_def u_def)
    have "sub32 j t = ?N - ?k" using t(2) m(6) by (simp add: sub32_eq)
    then have "mm_realloc_next x (x + n) n j t s = Some (s1\<lparr>hmem := m\<rparr>)"
      unfolding mm_realloc_next_def using un t12 rd m(1,2) True by (simp add: node_size_def Let_def add.assoc)
    moreover have "same_data ?K (hmem s1) m" using m(5) by (fastforce simp: same_data_def)
    then have "same_data ?K (hmem s) m" using same_data_trans [OF m1(4)] by (simp add: s1_def)
    moreover have "s1\<lparr>hmem := m\<rparr> = s\<lparr>hmem := m\<rparr>" by (simp add: s1_def)
    ultimately show thesis using that [of m] m(3,4) cc(1) True by (auto simp: heap_rep_def add.assoc)
  next
    case False
    then have tj: "t = j" using t(2) by simp
    have r2: "chunk_rep s1 (xs @ (x, n, True) # (x + n, j, False) # ys)" using m1'(2,5) by simp
    note mg = heap_merge [OF r2 m1'(3) subset_refl]
    define m where "m = (hmem s1)(x \<mapsto> n + j, x + n + j + 4 \<mapsto> prec (snd (snd (next_chunk s1 ys))) (n + j))"
    define u where "u = s1\<lparr>hmem := (hmem s1)(x \<mapsto> n + j)\<rparr>"
    have op: "set_size x (n + j) s1 = Some u" "mm_fixpreceding (x + n + j) (n + j) u = Some (s1\<lparr>hmem := m\<rparr>)" "hmem u x = Some (n + j)"
      using mg(1,2) by (simp_all add: u_def m_def)
    have "mm_realloc_next x (x + n) n j t s = Some (s1\<lparr>hmem := m\<rparr>)"
      unfolding mm_realloc_next_def using un op tj by (simp add: node_size_def Let_def)
    moreover have "same_data ?K (hmem s1) m"
    proof -
      have "same_data {(x, n)} (hmem s1) m" by (auto simp: same_data_def m_def)
      then show ?thesis using mg(3) by (auto simp: same_data_def m_def)
    qed
    then have "same_data ?K (hmem s) m" using same_data_trans [OF m1(4)] by (simp add: s1_def)
    moreover have "s1\<lparr>hmem := m\<rparr> = s\<lparr>hmem := m\<rparr>" by (simp add: s1_def)
    ultimately show thesis using that [of m] mg(3) cc(2) tj by (auto simp: heap_rep_def m_def)
  qed
qed

section \<open>Extending into the previous chunk\<close>

text \<open>Cells stay 32-bit values, and no cell is added or removed.\<close>

lemma cells_hstore: "hstore a v s = Some t \<Longrightarrow> cells_ok s0 s \<Longrightarrow> cells_ok s0 t"
proof -
  assume h: "hstore a v s = Some t" and c: "cells_ok s0 s"
  have a: "hmem s a \<noteq> None" and t: "t = s\<lparr>hmem := (hmem s)(a \<mapsto> u32 v)\<rparr>" using h by (auto simp: hstore_def split: if_splits)
  have "mem32 t" using c unfolding t cells_ok_def mem32_def by (simp add: u32_def)
  moreover have "dom (hmem t) = dom (hmem s)" unfolding t using a by (simp add: insert_absorb domIff)
  ultimately show "cells_ok s0 t" using cells_ok_write [OF c] by (simp add: t)
qed

lemma cells_fields:
  "set_size a v s = Some t \<Longrightarrow> cells_ok s0 s \<Longrightarrow> cells_ok s0 t" "set_preceding a v s = Some t \<Longrightarrow> cells_ok s0 s \<Longrightarrow> cells_ok s0 t"
  "set_flink a v s = Some t \<Longrightarrow> cells_ok s0 s \<Longrightarrow> cells_ok s0 t" "set_blink a v s = Some t \<Longrightarrow> cells_ok s0 s \<Longrightarrow> cells_ok s0 t"
  by (auto simp: heap_fields intro: cells_hstore)

lemma cells_unlink: "mm_unlink a s = Some t \<Longrightarrow> cells_ok s0 s \<Longrightarrow> cells_ok s0 t"
  unfolding mm_unlink_def by (auto simp: bind_eq_Some_conv dest: cells_fields split: if_splits)

lemma cells_fixpreceding: "mm_fixpreceding a v s = Some t \<Longrightarrow> cells_ok s0 s \<Longrightarrow> cells_ok s0 t"
  unfolding mm_fixpreceding_def by (auto simp: bind_eq_Some_conv dest: cells_fields)

lemma cells_addfreechunk: "mm_addfreechunk a s = Some t \<Longrightarrow> cells_ok s0 s \<Longrightarrow> cells_ok s0 t"
  unfolding mm_addfreechunk_def by (auto simp: bind_eq_Some_conv Let_def dest: cells_fields split: if_splits)

lemmas cells_steps = cells_fields cells_unlink cells_fixpreceding cells_addfreechunk

lemma cells_prev_head: "mm_realloc_prev_head w y z n p t s = Some s' \<Longrightarrow> cells_ok s0 s \<Longrightarrow> cells_ok s0 s'"
  unfolding mm_realloc_prev_head_def by (auto simp: bind_eq_Some_conv split: if_splits) (meson cells_steps)+

lemma cells_realloc_next: "mm_realloc_next x y n j t s = Some s' \<Longrightarrow> cells_ok s0 s \<Longrightarrow> cells_ok s0 s'"
  unfolding mm_realloc_next_def by (auto simp: bind_eq_Some_conv Let_def split: if_splits) (meson cells_steps)+

lemma cells_shrinkchunk: "mm_shrinkchunk x k s = Some s' \<Longrightarrow> cells_ok s0 s \<Longrightarrow> cells_ok s0 s'"
  unfolding mm_shrinkchunk_def by (auto simp: bind_eq_Some_conv Let_def debugassert_def split: if_splits) (meson cells_steps)+

lemma cells_malloc_locked: "mm_malloc_locked k s = Some (r, s') \<Longrightarrow> cells_ok s0 s \<Longrightarrow> cells_ok s0 s'"
  unfolding mm_malloc_locked_def by (auto simp: bind_eq_Some_conv Let_def split: if_splits) (meson cells_steps)+

lemma cells_free_next: "mm_free_next x s = Some (r, s') \<Longrightarrow> cells_ok s0 s \<Longrightarrow> cells_ok s0 s'"
  unfolding mm_free_next_def by (auto simp: bind_eq_Some_conv Let_def split: if_splits) (meson cells_steps)+

lemma cells_free_prev: "mm_free_prev x y s = Some (r, s') \<Longrightarrow> cells_ok s0 s \<Longrightarrow> cells_ok s0 s'"
  unfolding mm_free_prev_def by (auto simp: bind_eq_Some_conv Let_def split: if_splits) (meson cells_steps)+

lemma cells_free_locked: "mm_free_locked a s = Some s' \<Longrightarrow> cells_ok s0 s \<Longrightarrow> cells_ok s0 s'"
  unfolding mm_free_locked_def by (auto simp: bind_eq_Some_conv Let_def split: if_splits) (meson cells_steps cells_free_next cells_free_prev)+

lemma heap_take_part:
  assumes r: "chunk_rep s (zs @ [(w, q + t, False), (w + q + t, n, True)] @ ys)" and f: "free_rep s B (free_of (zs @ ys))"
    and t: "16 \<le> q" "q mod 16 = 0" "0 < t" "t mod 16 = 0"
  defines "m \<equiv> (hmem s)(w \<mapsto> q, w + q \<mapsto> n + t, w + q + 4 \<mapsto> prec True q,
    w + q + t + n + 4 \<mapsto> prec (snd (snd (next_chunk s ys))) (n + t))"
  shows "do { k \<leftarrow> node_size w s; s \<leftarrow> set_size w (sub32 k t) s; s \<leftarrow> set_size (w + q) (n + t) s; k \<leftarrow> node_size w s;
      s \<leftarrow> set_preceding (w + q) (or k MM_ALLOC_BIT) s; k \<leftarrow> node_size (w + q) s; mm_fixpreceding (w + q + t + n) k s } =
      Some (s\<lparr>hmem := m\<rparr>)"
    "chunk_rep (s\<lparr>hmem := m\<rparr>) (zs @ [(w, q, False), (w + q, n + t, True)] @ ys) \<and> free_rep (s\<lparr>hmem := m\<rparr>) B (free_of (zs @ ys)) \<and>
     same_data (alloc_of (zs @ ys)) (hmem s) m"
proof -
  let ?M = "[(w, q + t, False), (w + q + t, n, True)]" and ?M' = "[(w, q, False), (w + q, n + t, True)]" and ?e = "w + q + t + n"
  have "(w + q + t, n, True) \<in> set (zs @ ?M @ ys)" by simp
  note sz = chunk_repD(5) [OF r this]
  have c: "contig w ?M ?e" "?M \<noteq> []" "fst (hd ?M) = w" using sz t by simp_all
  obtain j g where nx: "next_chunk s ys = (?e, j, g)" by (rule next_chunkE [OF r c]) blast
  note nh = next_header [OF r c nx]
  have r': "chunk_rep s (zs @ (w, q + t, False) # (w + q + t, n, True) # ys)" using r by simp
  note hw = chunk_header [OF r']
  have N: "q + t + n < 2 ^ 31" using nh(5,7) arena_okD(5) [OF chunk_repD(1) [OF r]] by simp
  have g: "snd (snd (next_chunk s ys)) = g" using nx by simp
  have m16: "(w + q) mod 16 = 8" "(w + q + 4) mod 16 = 12" "(?e + 4) mod 16 = 12" "w mod 16 = 8"
    using mod16_add [OF hw(4) t(2)] mod16_prec nh(4) hw(4) by simp_all
  have "in_arena s (w + q)" using m16(1) nh(5,7) t sz by (auto simp: in_arena_def)
  note mk = arena_mem(3) [OF chunk_repD(1) [OF r] this]
  have cells: "hmem s (w + q) \<noteq> None" "hmem s (w + q + 4) \<noteq> None" using mk [of 0] mk [of 4] by simp_all
  have ar: "sub32 (q + t) t = q" "or q MM_ALLOC_BIT = prec True q" "prec True q < 2 ^ 32"
    using N or_alloc_bit [of q] by (simp_all add: sub32_eq prec_def)
  have dm: "dom m = dom (hmem s)" unfolding m_def using cells hw(1) nh(2) by (simp add: insert_absorb domIff)
  have "hmem s (?e + 4) = Some (prec g n)" using nh(2) by simp
  then show "do { k \<leftarrow> node_size w s; s \<leftarrow> set_size w (sub32 k t) s; s \<leftarrow> set_size (w + q) (n + t) s; k \<leftarrow> node_size w s;
      s \<leftarrow> set_preceding (w + q) (or k MM_ALLOC_BIT) s; k \<leftarrow> node_size (w + q) s; mm_fixpreceding ?e k s } = Some (s\<lparr>hmem := m\<rparr>)"
    using cells hw(1) N t sz ar
    by (simp add: set_size_def set_preceding_def node_size_def hstore_eq fixpreceding_eq [where p = n and f = g] m_def g)
  show "chunk_rep (s\<lparr>hmem := m\<rparr>) (zs @ ?M' @ ys) \<and> free_rep (s\<lparr>hmem := m\<rparr>) B (free_of (zs @ ys)) \<and>
     same_data (alloc_of (zs @ ys)) (hmem s) m"
  proof (rule heap_rewrite [OF r f subset_refl c _ _ _ _ _ dm])
    have "(n + t) mod 16 = 0" using sz t by (simp add: mod_add_eq [symmetric])
    then show "contig w ?M' ?e" "\<forall>(z, n, b) \<in> set ?M'. n mod 16 = 0 \<and> 16 \<le> n" using t sz by simp_all
    show "w \<le> c \<and> c < ?e + 8 \<and> c \<noteq> ?e \<and> (c mod 16 = 8 \<or> c mod 16 = 12)" if "m c \<noteq> hmem s c" for c
    proof -
      have "c = w \<or> c = w + q \<or> c = w + q + 4 \<or> c = ?e + 4" using that by (auto simp: m_def split: if_splits)
      then show ?thesis by (elim disjE) (use m16 t(1) sz(1) in simp_all)
    qed
    show "m (?e + 4) = Some (prec (snd (snd (next_chunk s ys))) (lsize (lsize 8 zs) ?M'))"
      "headers m (lsize 8 zs) ?M'" using hw(2) t sz by (simp_all add: m_def)
  qed
qed

lemma heap_take_all:
  assumes r: "chunk_rep s (zs @ [(w, p, False), (w + p, n, True)] @ ys)" and f: "free_rep s B (free_of (zs @ ys))"
  defines "m \<equiv> (hmem s)(w \<mapsto> p + n, w + 4 \<mapsto> prec True (lsize 8 zs), w + p + n + 4 \<mapsto> prec (snd (snd (next_chunk s ys))) (p + n))"
  shows "do { k \<leftarrow> node_size w s; s \<leftarrow> set_size w (k + n) s; k \<leftarrow> node_preceding w s; s \<leftarrow> set_preceding w (or k MM_ALLOC_BIT) s;
      k \<leftarrow> node_size w s; mm_fixpreceding (w + p + n) k s } = Some (s\<lparr>hmem := m\<rparr>)"
    "chunk_rep (s\<lparr>hmem := m\<rparr>) (zs @ [(w, p + n, True)] @ ys) \<and> free_rep (s\<lparr>hmem := m\<rparr>) B (free_of (zs @ ys)) \<and>
     same_data (alloc_of (zs @ ys)) (hmem s) m"
proof -
  let ?M = "[(w, p, False), (w + p, n, True)]" and ?M' = "[(w, p + n, True)]" and ?e = "w + p + n"
  have "(w + p, n, True) \<in> set (zs @ ?M @ ys)" "(w, p, False) \<in> set (zs @ ?M @ ys)" by simp_all
  note sz = chunk_repD(5) [OF r this(1)] chunk_repD(5) [OF r this(2)]
  have c: "contig w ?M ?e" "?M \<noteq> []" "fst (hd ?M) = w" using sz by simp_all
  obtain j g where nx: "next_chunk s ys = (?e, j, g)" by (rule next_chunkE [OF r c]) blast
  note nh = next_header [OF r c nx]
  have r': "chunk_rep s (zs @ (w, p, False) # (w + p, n, True) # ys)" using r by simp
  note hw = chunk_header [OF r']
  have N: "p + n < 2 ^ 31" using nh(5,7) arena_okD(5) [OF chunk_repD(1) [OF r]] by simp
  have g: "snd (snd (next_chunk s ys)) = g" using nx by simp
  have m16: "(w + 4) mod 16 = 12" "(?e + 4) mod 16 = 12" "w mod 16 = 8" using mod16_prec nh(4) hw(4) by simp_all
  have ar: "or (lsize 8 zs) MM_ALLOC_BIT = prec True (lsize 8 zs)" "prec True (lsize 8 zs) < 2 ^ 32"
    using or_alloc_bit [OF hw(3)] hw(3) by (simp_all add: prec_def)
  have dm: "dom m = dom (hmem s)" unfolding m_def using hw(1,2) nh(2) by (simp add: insert_absorb domIff)
  have "hmem s (?e + 4) = Some (prec g n)" using nh(2) by simp
  then show "do { k \<leftarrow> node_size w s; s \<leftarrow> set_size w (k + n) s; k \<leftarrow> node_preceding w s; s \<leftarrow> set_preceding w (or k MM_ALLOC_BIT) s;
      k \<leftarrow> node_size w s; mm_fixpreceding ?e k s } = Some (s\<lparr>hmem := m\<rparr>)"
    using hw(1,2) N sz ar
    by (simp add: set_size_def set_preceding_def node_size_def node_preceding_def hstore_eq prec_False fixpreceding_eq [where p = n and f = g] m_def g)
  show "chunk_rep (s\<lparr>hmem := m\<rparr>) (zs @ ?M' @ ys) \<and> free_rep (s\<lparr>hmem := m\<rparr>) B (free_of (zs @ ys)) \<and>
     same_data (alloc_of (zs @ ys)) (hmem s) m"
  proof (rule heap_rewrite [OF r f subset_refl c _ _ _ _ _ dm])
    have "(p + n) mod 16 = 0" using sz by (simp add: mod_add_eq [symmetric])
    then show "contig w ?M' ?e" "\<forall>(z, n, b) \<in> set ?M'. n mod 16 = 0 \<and> 16 \<le> n" using sz by simp_all
    show "w \<le> c \<and> c < ?e + 8 \<and> c \<noteq> ?e \<and> (c mod 16 = 8 \<or> c mod 16 = 12)" if "m c \<noteq> hmem s c" for c
    proof -
      have "c = w \<or> c = w + 4 \<or> c = ?e + 4" using that by (auto simp: m_def split: if_splits)
      then show ?thesis by (elim disjE) (use m16 sz in simp_all)
    qed
    show "m (?e + 4) = Some (prec (snd (snd (next_chunk s ys))) (lsize (lsize 8 zs) ?M'))"
      "headers m (lsize 8 zs) ?M'" using sz by (simp_all add: m_def)
  qed
qed

lemma mm_realloc_prev_head_spec:
  assumes h: "heap_rep s (zs @ (w, p, False) # (x, n, True) # ys)" and t: "0 < t" "t \<le> p" "t mod 16 = 0"
  obtains m where "mm_realloc_prev_head w (x - t) (x + n) n p t s = Some (s\<lparr>hmem := m\<rparr>)"
    "heap_rep (s\<lparr>hmem := m\<rparr>) (zs @ (if t < p then [(w, p - t, False)] else []) @ (x - t, n + t, True) # ys)"
    "same_data (insert (x, n) (alloc_of (zs @ ys))) (hmem s) m" "x = w + p"
proof -
  let ?K = "insert (x, n) (alloc_of (zs @ ys))" and ?cs = "zs @ (w, p, False) # (x, n, True) # ys"
  obtain B where B: "free_rep s B (free_of ?cs)" and r: "chunk_rep s ?cs" and co: "coalesced ?cs" using h by (auto simp: heap_rep_def)
  have x: "x = w + p" using chunk_repD(4) [OF r] by (auto simp: contig_append)
  have sz: "p mod 16 = 0" "16 \<le> n" using chunk_repD(5) [OF r, of w p False] chunk_repD(5) [OF r, of x n True] by simp_all
  obtain m1 B1 where m1: "mm_unlink w s = Some (s\<lparr>hmem := m1\<rparr>)" "chunk_rep (s\<lparr>hmem := m1\<rparr>) ?cs"
    "free_rep (s\<lparr>hmem := m1\<rparr>) B1 (free_of ?cs - {(w, p)})" "same_data (alloc_of ?cs) (hmem s) m1"
    by (rule heap_unlink [OF r B subset_refl, of w p]) auto
  define s1 where "s1 = s\<lparr>hmem := m1\<rparr>"
  have F: "free_of ?cs - {(w, p)} = free_of (zs @ ys)" using chunk_rep_notin [OF r] by auto
  have un: "mm_unlink w s = Some s1" "free_rep s1 B1 (free_of (zs @ ys))" "same_data ?K (hmem s) (hmem s1)"
    using m1 F by (simp_all add: s1_def)
  have sd: "same_data ?K (hmem s) m" if "same_data ?K (hmem s1) m" for m using same_data_trans un(3) that by blast
  show thesis
  proof (cases "t < p")
    case True
    define q where "q = p - t"
    have q: "p = q + t" "16 \<le> q" "q mod 16 = 0"
    proof -
      show "p = q + t" using True by (simp add: q_def)
      show "q mod 16 = 0" unfolding q_def using sz(1) t(3) by (metis mod_0_imp_dvd dvd_diff_nat dvd_imp_mod_0)
      then show "16 \<le> q" using True by (intro dvd_imp_le) (simp_all add: q_def mod_eq_0_iff_dvd)
    qed
    have r1: "chunk_rep s1 (zs @ [(w, q + t, False), (w + q + t, n, True)] @ ys)" using m1(2) x q(1) by (simp add: s1_def add.assoc)
    note tp = heap_take_part [OF r1 un(2) q(2,3) t(1,3)]
    define m2 where "m2 = (hmem s1)(w \<mapsto> q, w + q \<mapsto> n + t, w + q + 4 \<mapsto> prec True q, w + q + t + n + 4 \<mapsto> prec (snd (snd (next_chunk s1 ys))) (n + t))"
    define s2 where "s2 = s1\<lparr>hmem := m2\<rparr>"
    let ?c2 = "zs @ (w, q, False) # (w + q, n + t, True) # ys"
    have r2: "chunk_rep s2 ?c2" "free_rep s2 B1 (free_of (zs @ ys))" "same_data (alloc_of (zs @ ys)) (hmem s1) m2"
      using tp(2) by (simp_all add: s2_def m2_def)
    obtain m B' where m: "mm_addfreechunk w s2 = Some (s2\<lparr>hmem := m\<rparr>)" "chunk_rep (s2\<lparr>hmem := m\<rparr>) ?c2"
      "free_rep (s2\<lparr>hmem := m\<rparr>) B' (insert (w, q) (free_of (zs @ ys)))" "same_data (alloc_of ?c2) (hmem s2) m"
      by (rule heap_addfree [OF r2(1,2), of w q]) (use chunk_rep_notin [OF r2(1)] in auto)
    have "do { k \<leftarrow> node_size w s1; s \<leftarrow> set_size w (sub32 k t) s1; s \<leftarrow> set_size (w + q) (n + t) s; k \<leftarrow> node_size w s;
      s \<leftarrow> set_preceding (w + q) (or k MM_ALLOC_BIT) s; k \<leftarrow> node_size (w + q) s; mm_fixpreceding (w + q + t + n) k s } = Some s2"
      using tp(1) by (simp add: s2_def m2_def)
    then have "mm_realloc_prev_head w (x - t) (x + n) n p t s = Some (s2\<lparr>hmem := m\<rparr>)"
      unfolding mm_realloc_prev_head_def using un(1) m(1) True x q(1) by (auto simp: bind_eq_Some_conv add.assoc)
    moreover have "s2\<lparr>hmem := m\<rparr> = s\<lparr>hmem := m\<rparr>" by (simp add: s2_def s1_def)
    moreover have "same_data ?K (hmem s1) m"
    proof (rule same_data_trans)
      have "same_data {(x, n)} (hmem s1) m2" using x q t by (auto simp: same_data_def m2_def)
      then show "same_data ?K (hmem s1) m2" using r2(3) by (auto simp: same_data_def)
      show "same_data ?K m2 m" using m(4) x q(1) by (fastforce simp: same_data_def s2_def)
    qed
    moreover have "coalesced ?c2" using co by (auto simp: coalesced_def successively_append_iff successively_Cons)
    ultimately show thesis using that [of m] m(2,3) sd True x q(1) by (auto simp: heap_rep_def)
  next
    case False
    then have tp: "t = p" using t(2) by simp
    have r1: "chunk_rep s1 (zs @ [(w, p, False), (w + p, n, True)] @ ys)" using m1(2) x by (simp add: s1_def)
    note ta = heap_take_all [OF r1 un(2)]
    define m where "m = (hmem s1)(w \<mapsto> p + n, w + 4 \<mapsto> prec True (lsize 8 zs), w + p + n + 4 \<mapsto> prec (snd (snd (next_chunk s1 ys))) (p + n))"
    have "do { k \<leftarrow> node_size w s1; s \<leftarrow> set_size w (k + n) s1; k \<leftarrow> node_preceding w s; s \<leftarrow> set_preceding w (or k MM_ALLOC_BIT) s;
      k \<leftarrow> node_size w s; mm_fixpreceding (w + p + n) k s } = Some (s1\<lparr>hmem := m\<rparr>)" using ta(1) by (simp add: m_def)
    then have "mm_realloc_prev_head w (x - t) (x + n) n p t s = Some (s1\<lparr>hmem := m\<rparr>)"
      unfolding mm_realloc_prev_head_def using un(1) tp x by simp
    moreover have "s1\<lparr>hmem := m\<rparr> = s\<lparr>hmem := m\<rparr>" by (simp add: s1_def)
    moreover have "same_data ?K (hmem s1) m"
    proof -
      have "same_data {(x, n)} (hmem s1) m" using x t tp by (auto simp: same_data_def m_def)
      then show ?thesis using ta(2) by (auto simp: same_data_def m_def)
    qed
    moreover have "coalesced (zs @ (w, p + n, True) # ys)" using co by (auto simp: coalesced_def successively_append_iff successively_Cons)
    ultimately show thesis using that [of m] ta(2) sd tp x by (auto simp: heap_rep_def m_def add.commute)
  qed
qed

end
