(* ===== verification/MmRealloc.thy ===== *)
theory MmRealloc
  imports MmResize
begin

text \<open>
  The specification of \<^verbatim>\<open>mm_realloc\<close>: the block is shrunk or extended in place, extended into the
  chunk in front of it with its data moved down, or moved to a new chunk.
\<close>

section \<open>Extending into the previous chunk\<close>

text \<open>The data of the chunk at \<open>x\<close>, up to the offset \<open>k\<close>, is now in the chunk at \<open>y\<close>.\<close>

definition moved_data :: "addr \<Rightarrow> addr \<Rightarrow> nat \<Rightarrow> hm \<Rightarrow> hm \<Rightarrow> bool" where
  "moved_data x y k m m' \<longleftrightarrow> (\<forall>i. 8 \<le> i \<and> i < k \<and> i mod 4 = 0 \<longrightarrow> m' (y + i) = m (x + i))"

lemma moved_dataI:
  assumes "\<forall>i < n. m' (y + 8 + 4 * i) = m (x + 8 + 4 * i)" "k \<le> 8 + 4 * n"
  shows "moved_data x y k m m'"
  unfolding moved_data_def
proof (intro allI impI)
  fix i :: nat assume i: "8 \<le> i \<and> i < k \<and> i mod 4 = 0"
  define j where "j = i div 4 - 2"
  have "i = 8 + 4 * j" unfolding j_def using i by presburger
  moreover have "j < n" using i assms(2) calculation by linarith
  ultimately show "m' (y + i) = m (x + i)" using assms(1) by (simp add: add.assoc [symmetric])
qed

lemma heap_write:
  assumes h: "heap_rep s cs" and x: "(x, n, True) \<in> set cs"
    and m: "\<And>c. m c \<noteq> hmem s c \<Longrightarrow> x + 8 \<le> c \<and> c < x + n" "dom m = dom (hmem s)"
  shows "heap_rep (s\<lparr>hmem := m\<rparr>) cs" "same_data (alloc_of cs - {(x, n)}) (hmem s) m"
proof -
  obtain B where B: "free_rep s B (free_of cs)" and r: "chunk_rep s cs" using h by (auto simp: heap_rep_def)
  note p = heap_payload [OF r B subset_refl x m]
  show "heap_rep (s\<lparr>hmem := m\<rparr>) cs" using p(1,2) h by (auto simp: heap_rep_def)
  show "same_data (alloc_of cs - {(x, n)}) (hmem s) m" by (rule p(3))
qed

text \<open>Copying whole cells to an allocated chunk.\<close>

lemma heap_copy:
  assumes h: "heap_rep s cs" and y: "(y, j, True) \<in> set cs" and c: "cells_ok s0 s" and k: "k mod 4 = 0" "k + 8 \<le> j"
    and a: "a mod 4 = 0" "\<forall>c. a \<le> c \<and> c < a + k \<and> c mod 4 = 0 \<longrightarrow> hmem s0 c \<noteq> None" "\<And>i l. i \<le> l \<Longrightarrow> l < k div 4 \<Longrightarrow> y + 8 + 4 * i \<noteq> a + 4 * l"
  obtains m where "memcpy (y + 8) a k s = Some (s\<lparr>hmem := m\<rparr>)" "heap_rep (s\<lparr>hmem := m\<rparr>) cs" "cells_ok s0 (s\<lparr>hmem := m\<rparr>)"
    "\<forall>i < k div 4. m (y + 8 + 4 * i) = hmem s (a + 4 * i)" "same_data (alloc_of cs - {(y, j)}) (hmem s) m"
proof -
  let ?n = "k div 4"
  have k4: "k = 4 * ?n" using k(1) by presburger
  have r: "chunk_rep s cs" using h by (simp add: heap_rep_def)
  note ia = chunk_in_arena [OF r y]
  have y8: "y mod 16 = 8" using ia(1) by (simp add: in_arena_def)
  then have y4: "(y + 8) mod 4 = 0" by (rule mod16E) simp
  have al: "(b + 4 * i) mod 4 = 0" if "b mod 4 = 0" for b i :: nat using that by (metis mod_mult_self2)
  have M: "hmem s (y + 8 + 4 * i) \<noteq> None" if "i < ?n" for i
  proof -
    have "y + 8 + 4 * i < mm_heapend (heap s) + 8" "mm_heapstart (heap s) \<le> y + 8 + 4 * i" using ia(3,4) k(2) k4 that by linarith+
    then show ?thesis using chunk_repD(1) [OF r] al [OF y4] unfolding arena_ok_def Let_def by blast
  qed
  have A: "hmem s (a + 4 * i) \<noteq> None" if "i < ?n" for i
  proof -
    have "a + 4 * i < a + k" using that k4 by linarith
    then have "hmem s0 (a + 4 * i) \<noteq> None" using al [OF a(1), of i] by (intro a(2) [rule_format] conjI le_add1)
    then show ?thesis using c by (auto simp: cells_ok_def)
  qed
  have m32: "mem32 s" using c by (simp add: cells_ok_def)
  have "\<forall>i < ?n. hmem s (a + 4 * i) \<noteq> None \<and> hmem s (y + 8 + 4 * i) \<noteq> None" using A M by blast
  moreover have "\<forall>i l. i \<le> l \<and> l < ?n \<longrightarrow> y + 8 + 4 * i \<noteq> a + 4 * l" using a(3) by blast
  ultimately obtain m where m: "memcpy (y + 8) a (4 * ?n) s = Some (s\<lparr>hmem := m\<rparr>)" "dom m = dom (hmem s)" "mem32 (s\<lparr>hmem := m\<rparr>)"
    "\<forall>i < ?n. m (y + 8 + 4 * i) = hmem s (a + 4 * i)" "\<forall>c. (\<forall>i < ?n. c \<noteq> y + 8 + 4 * i) \<longrightarrow> m c = hmem s c"
    using memcpy_cells [OF y4 a(1) m32] by blast
  have ch: "y + 8 \<le> c \<and> c < y + j" if "m c \<noteq> hmem s c" for c
  proof -
    have "\<not> (\<forall>i < ?n. c \<noteq> y + 8 + 4 * i)" using m(5) [THEN spec, of c] that by blast
    then obtain i where "i < ?n" "c = y + 8 + 4 * i" by blast
    then show ?thesis using k(2) k4 by linarith
  qed
  note w = heap_write [OF h y ch m(2)]
  show thesis by (rule that [of m]) (use m(1,4) w cells_ok_write [OF c m(3,2)] k4 [symmetric] in simp_all)
qed

lemma mod16_payload: "k mod 16 = 0 \<Longrightarrow> 16 \<le> k \<Longrightarrow> (k - 8) mod 4 = 0 \<and> 8 + 4 * ((k - 8) div 4) = k" for k :: nat
proof -
  assume k: "k mod 16 = 0" "16 \<le> k"
  have "4 dvd (8 :: nat)" "4 dvd k" using dvd_trans [of 4 16 k] k(1) by (simp_all add: mod_eq_0_iff_dvd)
  then have "4 dvd k - 8" by (rule dvd_diff_nat [rotated])
  then show ?thesis using k(2) by (simp add: dvd_mult_div_cancel)
qed

lemma mm_realloc_prev_spec:
  assumes h: "heap_rep s (zs @ (w, p, False) # (x, n, True) # ys)" and t: "0 < t" "t \<le> p" "t mod 16 = 0"
    and c: "cells_ok s0 s" "\<forall>c. x \<le> c \<and> c < x + n + t \<and> c mod 4 = 0 \<longrightarrow> hmem s0 c \<noteq> None"
  obtains m where "mm_realloc_prev w x (x + n) n p t s = Some ((x - t, n + t, x - t + 8), s\<lparr>hmem := m\<rparr>)"
    "heap_rep (s\<lparr>hmem := m\<rparr>) (zs @ (if t < p then [(w, p - t, False)] else []) @ (x - t, n + t, True) # ys)"
    "same_data (alloc_of (zs @ ys)) (hmem s) m" "moved_data x (x - t) n (hmem s) m" "cells_ok s0 (s\<lparr>hmem := m\<rparr>)"
proof -
  let ?cs = "zs @ (if t < p then [(w, p - t, False)] else []) @ (x - t, n + t, True) # ys"
  obtain m1 where m1: "mm_realloc_prev_head w (x - t) (x + n) n p t s = Some (s\<lparr>hmem := m1\<rparr>)"
    "heap_rep (s\<lparr>hmem := m1\<rparr>) ?cs" "same_data (insert (x, n) (alloc_of (zs @ ys))) (hmem s) m1" "x = w + p"
    by (rule mm_realloc_prev_head_spec [OF h t])
  define s1 where "s1 = s\<lparr>hmem := m1\<rparr>"
  have h1: "heap_rep s1 ?cs" and c1: "cells_ok s0 s1" using m1(2) cells_prev_head [OF m1(1) c(1)] by (simp_all add: s1_def)
  have r: "chunk_rep s (zs @ (w, p, False) # (x, n, True) # ys)" using h by (simp add: heap_rep_def)
  have r1: "chunk_rep s1 ((zs @ (if t < p then [(w, p - t, False)] else [])) @ (x - t, n + t, True) # ys)" using h1 by (simp add: heap_rep_def)
  note ia = chunk_in_arena [OF r, of x n True] chunk_in_arena [OF r1, of "x - t" "n + t" True]
  have n: "n mod 16 = 0" "16 \<le> n" using chunk_repD(5) [OF r, of x n True] by simp_all
  have x: "x mod 16 = 8" "x < 2 ^ 32" "t \<le> x" using ia arena_okD(4) [OF chunk_repD(1) [OF r]] m1(4) t by (auto simp: in_arena_def)
  then have x4: "(x + 8) mod 4 = 0" by (auto elim: mod16E)
  have nt: "(n + t) mod 16 = 0" using n(1) t(3) by (simp add: mod_eq_0_iff_dvd)
  note k = mod16_payload [OF nt]
  have k4: "(n + t - 8) mod 4 = 0" "n + t - 8 + 8 \<le> n + t" using k n by simp_all
  have ne: "x - t + 8 + 4 * i \<noteq> x + 8 + 4 * l" if "i \<le> l" for i l using that t(1) x(3) by linarith
  have D: "\<forall>c. x + 8 \<le> c \<and> c < x + 8 + (n + t - 8) \<and> c mod 4 = 0 \<longrightarrow> hmem s0 c \<noteq> None"
    by (intro allI impI c(2) [rule_format]) (use n in auto)
  obtain m where m: "memcpy (x - t + 8) (x + 8) (n + t - 8) s1 = Some (s1\<lparr>hmem := m\<rparr>)" "heap_rep (s1\<lparr>hmem := m\<rparr>) ?cs" "cells_ok s0 (s1\<lparr>hmem := m\<rparr>)"
    "\<forall>i < (n + t - 8) div 4. m (x - t + 8 + 4 * i) = hmem s1 (x + 8 + 4 * i)" "same_data (alloc_of ?cs - {(x - t, n + t)}) (hmem s1) m"
    by (rule heap_copy [OF h1 _ c1 k4 x4 D ne]) simp_all
  have sz: "node_size (x - t) s1 = Some (n + t)" "n + t < 2 ^ 32"
    using chunk_header(1) [OF r1] ia(10) by (simp_all add: node_size_def)
  have ev: "mm_realloc_prev w x (x + n) n p t s = Some ((x - t, n + t, x - t + 8), s1\<lparr>hmem := m\<rparr>)"
    unfolding mm_realloc_prev_def using m1(1) m(1) sz x n sub32_eq [of t x] sub32_eq [of 8 "n + t"] by (simp add: s1_def [symmetric])
  have al: "alloc_of ?cs - {(x - t, n + t)} = alloc_of (zs @ ys)" using chunk_rep_notin [OF r1] by auto
  have "n \<le> 8 + 4 * ((n + t - 8) div 4)" using k n(2) by linarith
  then have mv: "moved_data x (x - t) n m1 m" using moved_dataI [OF m(4), of n] by (simp add: s1_def)
  have d1: "same_data (alloc_of (zs @ ys)) (hmem s) m1" "same_data {(x, n)} (hmem s) m1"
    using same_data_sub [OF m1(3)] by auto
  have "moved_data x (x - t) n (hmem s) m" using mv d1(2) by (auto simp: moved_data_def same_data_def)
  moreover have "same_data (alloc_of (zs @ ys)) (hmem s) m" using same_data_trans [OF d1(1)] m(5) al by (simp add: s1_def)
  ultimately show thesis using that [of m] ev m(2,3) by (simp add: s1_def)
qed

section \<open>Growing in place\<close>

text \<open>The sizes of the free chunks behind and in front.\<close>

fun next_free :: "chunk list \<Rightarrow> nat" where
  "next_free ((y, j, False) # ys) = j"
| "next_free ys = 0"

definition prev_free :: "chunk list \<Rightarrow> nat" where
  "prev_free xs = next_free (rev xs)"

lemma next_free_cases:
  obtains y j zs where "ys = (y, j, False) # zs" "next_free ys = j" | "next_free ys = 0" "ys = [] \<or> snd (snd (hd ys))"
  by (cases ys rule: next_free.cases) auto

lemma prev_free_cases:
  obtains zs w p where "xs = zs @ [(w, p, False)]" "prev_free xs = p" | "prev_free xs = 0" "xs = [] \<or> snd (snd (last xs))"
  by (rule last_chunk_cases [of xs]) (auto simp: prev_free_def)

lemma mm_realloc_take_eq:
  assumes "0 < needed" "needed \<le> nextsize + prevsize" "mm_realloc_take nextsize prevsize needed = (tp, tn)"
  shows "tp + tn = needed" "tp \<le> prevsize" "tn \<le> nextsize"
  using assms by (auto simp: mm_realloc_take_def split: if_splits)

lemma mm_realloc_take_mod:
  assumes "nextsize mod 16 = 0" "prevsize mod 16 = 0" "needed mod 16 = 0" "mm_realloc_take nextsize prevsize needed = (tp, tn)"
  shows "tp mod 16 = 0" "tn mod 16 = 0"
  using assms unfolding mod_eq_0_iff_dvd mm_realloc_take_def by (auto intro: dvd_diff_nat split: if_splits)

lemma realloc_nextsize:
  assumes r: "chunk_rep s (xs @ (x, n, True) # ys)"
  shows "do { np \<leftarrow> node_preceding (x + n) s; if and np MM_ALLOC_BIT = 0 then node_size (x + n) s else Some 0 } = Some (next_free ys)"
    "next_free ys mod 16 = 0" "x + n + next_free ys \<le> mm_heapend (heap s)"
proof -
  have sz: "16 \<le> n" "x + n \<le> mm_heapend (heap s)" using chunk_repD(5) [OF r, of x n True] chunk_in_arena(3) [OF r, of x n True] by simp_all
  have r': "chunk_rep s (xs @ [(x, n, True)] @ ys)" using r by simp
  have c: "contig x [(x, n, True)] (x + n)" "[(x, n, True)] \<noteq> []" "fst (hd [(x, n, True)]) = x" using sz by simp_all
  obtain j g where nx: "next_chunk s ys = (x + n, j, g)" by (rule next_chunkE [OF r' c]) blast
  note nh = next_header [OF r' c nx]
  have nf: "next_free ys = (if g then 0 else j)" using nx by (cases ys rule: next_free.cases) (auto simp: next_chunk_def)
  then show "do { np \<leftarrow> node_preceding (x + n) s; if and np MM_ALLOC_BIT = 0 then node_size (x + n) s else Some 0 } = Some (next_free ys)"
    using nh(1-3) by (auto simp: node_size_def node_preceding_def)
  show "next_free ys mod 16 = 0" "x + n + next_free ys \<le> mm_heapend (heap s)"
  proof (atomize (full), rule next_free_cases [of ys])
    fix y k zs assume ys: "ys = (y, k, False) # zs" "next_free ys = k"
    then have "y = x + n" using nx by (simp add: next_chunk_def)
    then show "next_free ys mod 16 = 0 \<and> x + n + next_free ys \<le> mm_heapend (heap s)"
      using ys chunk_repD(5) [OF r, of y k False] chunk_in_arena(3) [OF r, of y k False] by simp
  qed (use sz in simp)
qed

lemma realloc_prevsize:
  assumes r: "chunk_rep s (xs @ (x, n, True) # ys)"
  shows "do { pp \<leftarrow> node_preceding (x - lsize 8 xs) s; if and pp MM_ALLOC_BIT = 0 then node_size (x - lsize 8 xs) s else Some 0 } = Some (prev_free xs)"
    "lsize 8 xs \<le> x" "prev_free xs mod 16 = 0" "mm_heapstart (heap s) + 8 + prev_free xs \<le> x"
proof -
  have z: "contig (mm_heapstart (heap s) + 8) xs x" using chunk_repD(4) [OF r] by (auto simp: contig_append)
  have "do { pp \<leftarrow> node_preceding (x - lsize 8 xs) s; if and pp MM_ALLOC_BIT = 0 then node_size (x - lsize 8 xs) s else Some 0 } = Some (prev_free xs) \<and>
    lsize 8 xs \<le> x \<and> prev_free xs mod 16 = 0 \<and> mm_heapstart (heap s) + 8 + prev_free xs \<le> x" (is "?P xs")
  proof (cases xs rule: rev_cases)
    case Nil
    have "hmem s (mm_heapstart (heap s) + 4) = Some (prec True 0)" using chunk_repD(3) [OF r] by (simp add: guarded_def)
    moreover have "x - 8 = mm_heapstart (heap s)" "8 \<le> x" "x = mm_heapstart (heap s) + 8" using z Nil by auto
    ultimately show ?thesis by (simp add: Nil node_preceding_def prev_free_def)
  next
    case (snoc zs c)
    obtain w k b where c: "c = (w, k, b)" using prod_cases3 by blast
    have r2: "chunk_rep s (zs @ (w, k, b) # (x, n, True) # ys)" using r snoc c by simp
    have w: "x = w + k" using z snoc c by (auto simp: contig_append)
    have "k mod 16 = 0" "mm_heapstart (heap s) + 8 \<le> w"
      using chunk_repD(5) [OF r2, of w k b] chunk_in_arena(4) [OF r2, of w k b] by simp_all
    then show ?thesis using chunk_header [OF r2] w snoc c by (cases b) (simp_all add: node_preceding_def node_size_def prev_free_def)
  qed
  then show "do { pp \<leftarrow> node_preceding (x - lsize 8 xs) s; if and pp MM_ALLOC_BIT = 0 then node_size (x - lsize 8 xs) s else Some 0 } = Some (prev_free xs)"
    "lsize 8 xs \<le> x" "prev_free xs mod 16 = 0" "mm_heapstart (heap s) + 8 + prev_free xs \<le> x" by simp_all
qed

lemma mm_realloc_locked_grow:
  assumes r: "chunk_rep s (xs @ (x, n, True) # ys)" and k: "n < k"
  shows "mm_realloc_locked (x + 8) k s =
    (if k \<le> next_free ys + prev_free xs + n then do {
       let (tp, tn) = mm_realloc_take (next_free ys) (prev_free xs) (k - n);
       ((node, m, newmem), s) \<leftarrow>
         (if tp \<noteq> 0 then mm_realloc_prev (x - lsize 8 xs) x (x + n) n (prev_free xs) tp s else Some ((x, n, x + 8), s));
       s \<leftarrow> (if tn \<noteq> 0 then mm_realloc_next node (x + n) m (next_free ys) tn s else Some s);
       Some ((Some newmem, n), s)
     }
     else Some ((None, n), s))"
proof -
  note h = chunk_header [OF r] and nx = realloc_nextsize [OF r] and pv = realloc_prevsize [OF r] and ar = arena_okD [OF chunk_repD(1) [OF r]]
  have x: "x < 2 ^ 32" using nx(3) ar(4) by simp
  have u: "u32 (next_free ys + prev_free xs + n) = next_free ys + prev_free xs + n"
    using nx(3) pv(4) ar(4) by (simp add: u32_def)
  have sub: "sub32 (x + 8) 8 = x" "sub32 x (lsize 8 xs) = x - lsize 8 xs"
    using pv(2) x nx(3) ar(4) sub32_eq [of 8 "x + 8"] sub32_eq [of "lsize 8 xs" x] by simp_all
  obtain np where np: "node_preceding (x + n) s = Some np" "(if and np MM_ALLOC_BIT = 0 then node_size (x + n) s else Some 0) = Some (next_free ys)"
    using nx(1) by (auto simp: bind_eq_Some_conv)
  obtain pp where pp: "node_preceding (x - lsize 8 xs) s = Some pp"
    "(if and pp MM_ALLOC_BIT = 0 then node_size (x - lsize 8 xs) s else Some 0) = Some (prev_free xs)"
    using pv(1) by (auto simp: bind_eq_Some_conv)
  have hd: "node_size x s = Some n" "node_preceding x s = Some (prec True (lsize 8 xs))" using h by (simp_all add: node_size_def node_preceding_def)
  have nle: "\<not> k \<le> n" using k by simp
  show ?thesis
    unfolding mm_realloc_locked_def Let_def SIZEOF_MM_ALLOCNODE_def
    by (simp only: nle sub hd np pp u prec_simps(3) [OF h(3)] bind.bind_lunit if_False)
qed

text \<open>The two steps of growing a chunk; each may take nothing.\<close>

lemma realloc_take_prev:
  assumes h: "heap_rep s (xs @ (x, n, True) # ys)" and t: "t \<le> prev_free xs" "t mod 16 = 0"
    and c: "cells_ok s0 s" "\<forall>c. x \<le> c \<and> c < x + n + t \<and> c mod 4 = 0 \<longrightarrow> hmem s0 c \<noteq> None"
  obtains xs1 m where "(if t \<noteq> 0 then mm_realloc_prev (x - lsize 8 xs) x (x + n) n (prev_free xs) t s else Some ((x, n, x + 8), s)) =
      Some ((x - t, n + t, x - t + 8), s\<lparr>hmem := m\<rparr>)"
    "heap_rep (s\<lparr>hmem := m\<rparr>) (xs1 @ (x - t, n + t, True) # ys)" "alloc_of xs1 = alloc_of xs"
    "same_data (alloc_of (xs @ ys)) (hmem s) m" "moved_data x (x - t) n (hmem s) m" "cells_ok s0 (s\<lparr>hmem := m\<rparr>)" "t \<le> x"
proof (cases "t = 0")
  case True
  then show thesis using that [of "hmem s" xs] h c by (simp add: moved_data_def)
next
  case False
  then obtain zs w p where xs: "xs = zs @ [(w, p, False)]" "prev_free xs = p"
    using t(1) by (cases xs rule: prev_free_cases) auto
  have h': "heap_rep s (zs @ (w, p, False) # (x, n, True) # ys)" using h xs by simp
  then have w: "x = w + p" by (auto simp: heap_rep_def contig_append dest: chunk_repD(4))
  have t': "0 < t" "t \<le> p" using False t xs by simp_all
  let ?xs = "zs @ (if t < p then [(w, p - t, False)] else [])"
  obtain m where m: "mm_realloc_prev w x (x + n) n p t s = Some ((x - t, n + t, x - t + 8), s\<lparr>hmem := m\<rparr>)"
    "heap_rep (s\<lparr>hmem := m\<rparr>) (zs @ (if t < p then [(w, p - t, False)] else []) @ (x - t, n + t, True) # ys)"
    "same_data (alloc_of (zs @ ys)) (hmem s) m" "moved_data x (x - t) n (hmem s) m" "cells_ok s0 (s\<lparr>hmem := m\<rparr>)"
    by (rule mm_realloc_prev_spec [OF h' t' t(2) c])
  show thesis by (rule that [of m ?xs]) (use m False xs w t' in simp_all)
qed

lemma realloc_take_next:
  assumes h: "heap_rep s (xs @ (x, n, True) # ys)" and t: "t \<le> next_free ys" "t mod 16 = 0" and c: "cells_ok s0 s"
  obtains ys1 m where "(if t \<noteq> 0 then mm_realloc_next x (x + n) n (next_free ys) t s else Some s) = Some (s\<lparr>hmem := m\<rparr>)"
    "heap_rep (s\<lparr>hmem := m\<rparr>) (xs @ (x, n + t, True) # ys1)" "alloc_of ys1 = alloc_of ys"
    "same_data (insert (x, n) (alloc_of (xs @ ys))) (hmem s) m" "cells_ok s0 (s\<lparr>hmem := m\<rparr>)"
proof (cases "t = 0")
  case True
  then show thesis using that [of "hmem s" ys] h c by simp
next
  case False
  then obtain y j zs where ys: "ys = (y, j, False) # zs" "next_free ys = j"
    using t(1) by (cases ys rule: next_free_cases) auto
  have t': "0 < t" "t \<le> j" using False t ys by simp_all
  obtain m where m: "mm_realloc_next x (x + n) n j t s = Some (s\<lparr>hmem := m\<rparr>)"
    "heap_rep (s\<lparr>hmem := m\<rparr>) (xs @ (x, n + t, True) # (if t < j then (x + n + t, j - t, False) # zs else zs))"
    "same_data (insert (x, n) (alloc_of (xs @ zs))) (hmem s) m"
    by (rule mm_realloc_next_spec [OF h [unfolded ys(1)] t' t(2)])
  show thesis
    by (rule that [of m "if t < j then (x + n + t, j - t, False) # zs else zs"])
      (use m False ys cells_realloc_next [OF m(1) c] in \<open>simp_all split: if_splits\<close>)
qed

section \<open>The operation\<close>

text \<open>
  The chunk \<open>(x, n)\<close> has been replaced by one of at least \<open>k\<close> bytes whose data is at \<open>q\<close>, and which is
  none of the other chunks: the beginning of its data is the same, and so is the data of all
  other chunks.
\<close>

definition resized :: "chunk list \<Rightarrow> addr \<Rightarrow> nat \<Rightarrow> nat \<Rightarrow> 'a hpstate_scheme \<Rightarrow> addr \<Rightarrow> 'a hpstate_scheme \<Rightarrow> bool" where
  "resized cs x n k s q s' \<longleftrightarrow> (\<exists>cs' y j. q = y + 8 \<and> k \<le> j \<and> heap_rep s' cs' \<and> alloc_of cs' = insert (y, j) (alloc_of cs - {(x, n)}) \<and>
     (y, j) \<notin> alloc_of cs - {(x, n)} \<and> same_data (alloc_of cs - {(x, n)}) (hmem s) (hmem s') \<and> moved_data x y (min n j) (hmem s) (hmem s') \<and> cells_ok s s')"

lemma alloc_of_rest: "chunk_rep s (xs @ (x, n, True) # ys) \<Longrightarrow> alloc_of (xs @ (x, n, True) # ys) - {(x, n)} = alloc_of (xs @ ys)"
  using chunk_rep_notin [of s xs x n True ys] by auto

lemma mm_realloc_locked_extend:
  assumes h: "heap_rep s (xs @ (x, n, True) # ys)" and m32: "mem32 s" and k: "k mod 16 = 0" "n < k" "k \<le> next_free ys + prev_free xs + n"
    and c: "\<forall>c. x \<le> c \<and> c < x + k \<and> c mod 4 = 0 \<longrightarrow> hmem s c \<noteq> None"
  shows "\<exists>q m. mm_realloc_locked (x + 8) k s = Some ((Some q, n), s\<lparr>hmem := m\<rparr>) \<and> resized (xs @ (x, n, True) # ys) x n k s q (s\<lparr>hmem := m\<rparr>)"
proof -
  have r: "chunk_rep s (xs @ (x, n, True) # ys)" using h by (simp add: heap_rep_def)
  have n: "n mod 16 = 0" using chunk_repD(5) [OF r, of x n True] by simp
  note al = alloc_of_rest [OF r] and c0 = cells_ok_refl [OF m32]
  obtain tp tn where t: "mm_realloc_take (next_free ys) (prev_free xs) (k - n) = (tp, tn)" by fastforce
  have kn: "(k - n) mod 16 = 0" "0 < k - n" "k - n \<le> next_free ys + prev_free xs"
    using k(2,3) mod_0_imp_dvd [OF k(1)] mod_0_imp_dvd [OF n(1)] by simp_all
  note t1 = mm_realloc_take_eq [OF kn(2,3) t] and t2 = mm_realloc_take_mod [OF realloc_nextsize(2) [OF r] realloc_prevsize(3) [OF r] kn(1) t]
  have c': "\<forall>c. x \<le> c \<and> c < x + n + tp \<and> c mod 4 = 0 \<longrightarrow> hmem s c \<noteq> None" 
    by (intro allI impI c [rule_format]) (use t1(1) k in auto)
  obtain xs1 m1 where m1: "(if tp \<noteq> 0 then mm_realloc_prev (x - lsize 8 xs) x (x + n) n (prev_free xs) tp s else Some ((x, n, x + 8), s)) =
      Some ((x - tp, n + tp, x - tp + 8), s\<lparr>hmem := m1\<rparr>)"
    "heap_rep (s\<lparr>hmem := m1\<rparr>) (xs1 @ (x - tp, n + tp, True) # ys)" "alloc_of xs1 = alloc_of xs"
    "same_data (alloc_of (xs @ ys)) (hmem s) m1" "moved_data x (x - tp) n (hmem s) m1" "cells_ok s (s\<lparr>hmem := m1\<rparr>)" "tp \<le> x"
    by (rule realloc_take_prev [OF h t1(2) t2(1) c0 c'])
  obtain ys1 m where m: "(if tn \<noteq> 0 then mm_realloc_next (x - tp) (x - tp + (n + tp)) (n + tp) (next_free ys) tn (s\<lparr>hmem := m1\<rparr>) else Some (s\<lparr>hmem := m1\<rparr>)) =
      Some (s\<lparr>hmem := m1\<rparr>\<lparr>hmem := m\<rparr>)"
    "heap_rep (s\<lparr>hmem := m1\<rparr>\<lparr>hmem := m\<rparr>) (xs1 @ (x - tp, n + tp + tn, True) # ys1)" "alloc_of ys1 = alloc_of ys"
    "same_data (insert (x - tp, n + tp) (alloc_of (xs1 @ ys))) (hmem (s\<lparr>hmem := m1\<rparr>)) m" "cells_ok s (s\<lparr>hmem := m1\<rparr>\<lparr>hmem := m\<rparr>)"
    by (rule realloc_take_next [OF m1(2) t1(3) t2(2) m1(6)])
  have e: "x - tp + (n + tp) = x + n" "n + tp + tn = k" using m1(7) t1(1) k(2) by simp_all
  have "mm_realloc_locked (x + 8) k s = Some ((Some (x - tp + 8), n), s\<lparr>hmem := m\<rparr>)"
    using mm_realloc_locked_grow [OF r k(2)] k(3) t m1(1) m(1) unfolding e by simp
  moreover have "moved_data x (x - tp) n (hmem s) m"
    using m1(5) m(4) by (auto simp: moved_data_def same_data_def)
  moreover have "same_data (alloc_of (xs @ ys)) (hmem s) m"
    by (rule same_data_trans [OF m1(4)], rule same_data_sub [OF m(4) [simplified]]) (use m1(3) in auto)
  moreover have "(x - tp, k) \<notin> alloc_of (xs @ ys)"
    using chunk_rep_notin [of "s\<lparr>hmem := m1\<rparr>\<lparr>hmem := m\<rparr>" xs1 "x - tp" k True ys1] m(2,3) m1(3) e(2) by (simp add: heap_rep_def)
  ultimately show ?thesis
    unfolding resized_def al using m(2,3,5) m1(3) e(2) k(2)
    by (intro exI [of _ "x - tp + 8"] exI [of _ m] conjI exI [of _ "xs1 @ (x - tp, k, True) # ys1"] exI [of _ "x - tp"] exI [of _ k]) simp_all
qed

lemma mm_realloc_locked_spec:
  assumes h: "heap_rep s (xs @ (x, n, True) # ys)" and m32: "mem32 s" and k: "16 \<le> k" "k mod 16 = 0"
    and c: "\<forall>c. x \<le> c \<and> c < x + k \<and> c mod 4 = 0 \<longrightarrow> hmem s c \<noteq> None"
  shows "(\<exists>q m. mm_realloc_locked (x + 8) k s = Some ((Some q, n), s\<lparr>hmem := m\<rparr>) \<and> resized (xs @ (x, n, True) # ys) x n k s q (s\<lparr>hmem := m\<rparr>)) \<or>
    n < k \<and> mm_realloc_locked (x + 8) k s = Some ((None, n), s)"
proof -
  let ?cs = "xs @ (x, n, True) # ys"
  have r: "chunk_rep s ?cs" using h by (simp add: heap_rep_def)
  have n: "n mod 16 = 0" "16 \<le> n" using chunk_repD(5) [OF r, of x n True] by simp_all
  have x: "x + 8 < 2 ^ 32" using chunk_in_arena(3) [OF r, of x n True] arena_okD(4) [OF chunk_repD(1) [OF r]] by simp
  note al = alloc_of_rest [OF r] and c0 = cells_ok_refl [OF m32]
  have ns: "node_size x s = Some n" using chunk_header(1) [OF r] by (simp add: node_size_def)
  have sub: "sub32 (x + 8) 8 = x" using x sub32_eq [of 8 "x + 8"] by simp
  consider "k = n" | "k < n" | "n < k" "k \<le> next_free ys + prev_free xs + n" | "n < k" "\<not> k \<le> next_free ys + prev_free xs + n" by linarith
  then show ?thesis
  proof cases
    case 1
    then have "mm_realloc_locked (x + 8) k s = Some ((Some (x + 8), n), s\<lparr>hmem := hmem s\<rparr>)"
      using ns sub by (simp add: mm_realloc_locked_def)
    moreover have "resized ?cs x n k s (x + 8) (s\<lparr>hmem := hmem s\<rparr>)"
      unfolding resized_def al using h c0 1 chunk_rep_notin [OF r] by (intro exI [of _ ?cs] exI [of _ x] exI [of _ n]) (simp add: moved_data_def)
    ultimately show ?thesis by blast
  next
    case 2
    obtain n' ys' where ab: "absorb n ys = (n', ys')" by fastforce
    obtain m where m: "mm_shrinkchunk x k s = Some (s\<lparr>hmem := m\<rparr>)"
      "heap_rep (s\<lparr>hmem := m\<rparr>) (xs @ (x, k, True) # (x + k, n' - k, False) # ys')"
      "same_data (insert (x, k) (alloc_of (xs @ ys))) (hmem s) m"
      by (rule mm_shrinkchunk_spec [OF h k 2 ab])
    have ev: "mm_realloc_locked (x + 8) k s = Some ((Some (x + 8), n), s\<lparr>hmem := m\<rparr>)"
      using ns sub m(1) 2 by (simp add: mm_realloc_locked_def)
    have "alloc_of ys' = alloc_of ys" using coalesced_absorb(3) [OF _ ab] h by (auto simp: heap_rep_def)
    moreover have "same_data (alloc_of (xs @ ys)) (hmem s) m" by (rule same_data_sub [OF m(3)]) blast
    moreover have "moved_data x x k (hmem s) m" using m(3) by (simp add: moved_data_def same_data_def)
    ultimately have "resized ?cs x n k s (x + 8) (s\<lparr>hmem := m\<rparr>)"
      unfolding resized_def al using m(2) 2 cells_shrinkchunk [OF m(1) c0] chunk_rep_notin [OF r]
      by (intro exI [of _ "xs @ (x, k, True) # (x + k, n' - k, False) # ys'"] exI [of _ x] exI [of _ k]) simp
    then show ?thesis using ev by blast
  next
    case 3
    show ?thesis by (rule disjI1 [OF mm_realloc_locked_extend [OF h m32 k(2) 3 c]])
  next
    case 4
    show ?thesis by (intro disjI2 conjI 4(1)) (simp only: mm_realloc_locked_grow [OF r 4(1)] 4(2) if_False)
  qed
qed

text \<open>Releasing the lock after the memory has been changed.\<close>

lemma mm_locked_bracket:
  assumes u: "mm_unlocked s" and c: "cells_ok (mm_locked s) t"
  shows "mm_givesemaphore t = Some (s\<lparr>hmem := hmem t\<rparr>)" "cells_ok s (s\<lparr>hmem := hmem t\<rparr>)"
proof -
  have t: "t = (mm_locked s)\<lparr>hmem := hmem t\<rparr>" using c by (simp add: cells_ok_def)
  then show "mm_givesemaphore t = Some (s\<lparr>hmem := hmem t\<rparr>)" using mm_takesemaphore_unlocked(2) [OF u] by metis
  show "cells_ok s (s\<lparr>hmem := hmem t\<rparr>)" using c by (simp add: cells_ok_def mem32_def)
qed

lemma mem32_locked: "mem32 (mm_locked s) = mem32 s"
  by (simp add: mem32_def)

lemma cells_malloc:
  assumes u: "mm_unlocked s" and m32: "mem32 s" and e: "mm_malloc sz s = Some (r, s')"
  shows "cells_ok s s'"
proof (cases "sz < 1")
  case True
  then show ?thesis using e cells_ok_refl [OF m32] by (simp add: mm_malloc_def)
next
  case False
  then obtain k p t where l: "mm_malloc_locked k (mm_locked s) = Some (p, t)" "mm_givesemaphore t = Some s'"
    using e mm_takesemaphore_unlocked(1) [OF u] by (auto simp: mm_malloc_def Let_def bind_eq_Some_conv debugassert_def split: if_splits)
  have c: "cells_ok (mm_locked s) t" by (rule cells_malloc_locked [OF l(1) cells_ok_refl]) (simp add: mem32_locked m32)
  show ?thesis using mm_locked_bracket [OF u c] l(2) by simp
qed

lemma cells_free:
  assumes u: "mm_unlocked s" and m32: "mem32 s" and e: "mm_free p s = Some (r, s')"
  shows "cells_ok s s'"
proof (cases "p = NULL")
  case True
  then show ?thesis using e cells_ok_refl [OF m32] by (simp add: mm_free_def)
next
  case False
  then obtain t where l: "mm_free_locked p (mm_locked s) = Some t" "mm_givesemaphore t = Some s'"
    using e mm_takesemaphore_unlocked(1) [OF u] by (auto simp: mm_free_def bind_eq_Some_conv split: if_splits)
  have c: "cells_ok (mm_locked s) t" by (rule cells_free_locked [OF l(1) cells_ok_refl]) (simp add: mem32_locked m32)
  show ?thesis using mm_locked_bracket [OF u c] l(2) by simp
qed

lemma cells_ok_trans: "cells_ok s0 s \<Longrightarrow> cells_ok s t \<Longrightarrow> cells_ok s0 t"
  using cells_ok_upd [of s0 s "hmem t"] by (simp add: cells_ok_def)

lemma alloc_of_release: "alloc_of (release xs x n ys) = alloc_of (xs @ ys)"
  by (rule absorb_cases [of ys n]; rule last_chunk_cases [of xs]) (simp_all add: release_def)

text \<open>An allocation that finds a chunk.\<close>

lemma mm_malloc_gets:
  assumes u: "mm_unlocked s" and h: "heap_rep s cs" and m32: "mem32 s" and sz: "0 < sz" "sz + 24 \<le> 2 ^ 32" and k: "\<exists>(y, j) \<in> free_of cs. chunk_size sz \<le> j"
  obtains cs' y j m where "mm_malloc sz s = Some (Returned (y + 8), s\<lparr>hmem := m\<rparr>)" "heap_rep (s\<lparr>hmem := m\<rparr>) cs'"
    "alloc_of cs' = insert (y, j) (alloc_of cs)" "chunk_size sz \<le> j" "same_data (alloc_of cs) (hmem s) m" "cells_ok s (s\<lparr>hmem := m\<rparr>)" "(y, j) \<notin> alloc_of cs"
proof -
  obtain xs y n ys m where m: "cs = xs @ (y, n, False) # ys" "best_fit (free_of cs) (chunk_size sz) y n"
    "mm_malloc sz s = Some (Returned (y + 8), s\<lparr>hmem := m\<rparr>)" "heap_rep (s\<lparr>hmem := m\<rparr>) (xs @ carve y n (chunk_size sz) @ ys)"
    "same_data (alloc_of cs) (hmem s) m"
    by (rule mm_malloc_some [OF u h sz k])
  have r: "chunk_rep s (xs @ (y, n, False) # ys)" using h m(1) by (simp add: heap_rep_def)
  have "chunk_size sz \<le> n" using m(2) by (simp add: best_fit_def)
  then obtain j where "alloc_of (xs @ carve y n (chunk_size sz) @ ys) = insert (y, j) (alloc_of cs)" "chunk_size sz \<le> j"
    by (cases "n - chunk_size sz < 16") (auto simp: carve_def m(1))
  moreover have "(y, j) \<notin> alloc_of cs" using chunk_rep_notin [OF r] by (simp add: m(1))
  ultimately show thesis using that [OF m(3,4)] m(5) cells_malloc [OF u m32 m(3)] by blast
qed

lemma heap_copy_chunk:
  assumes h: "heap_rep s cs" and x: "(x, n, True) \<in> set cs" and y: "(y, j, True) \<in> set cs" and ne: "(x, n) \<noteq> (y, j)"
    and c: "cells_ok s0 s" and n: "n + 8 \<le> j"
  obtains m where "memcpy (y + 8) (x + 8) n s = Some (s\<lparr>hmem := m\<rparr>)" "heap_rep (s\<lparr>hmem := m\<rparr>) cs" "cells_ok s0 (s\<lparr>hmem := m\<rparr>)"
    "moved_data x y n (hmem s) m" "same_data (alloc_of cs - {(y, j)}) (hmem s) m"
proof -
  have r: "chunk_rep s cs" using h by (simp add: heap_rep_def)
  note ia = chunk_in_arena [OF r x]
  have ap: "x + n \<le> y \<or> y + j \<le> x" using contig_apart [OF chunk_repD(4) [OF r] x y] ne by auto
  have x4: "(x + 8) mod 4 = 0" using ia(1) by (auto simp: in_arena_def elim: mod16E)
  have "\<forall>c. x + 8 \<le> c \<and> c < x + 8 + n \<and> c mod 4 = 0 \<longrightarrow> hmem s c \<noteq> None"
    using chunk_repD(1) [OF r] ia(3,4) unfolding arena_ok_def Let_def by auto
  then have map: "\<forall>c. x + 8 \<le> c \<and> c < x + 8 + n \<and> c mod 4 = 0 \<longrightarrow> hmem s0 c \<noteq> None"
    using cells_okD(2) [OF c] by (metis domIff)
  have n4: "n mod 4 = 0" "4 * (n div 4) = n" using chunk_repD(5) [OF r x] dvd_trans [of 4 16 n] by (simp_all add: mod_eq_0_iff_dvd)
  have ov: "y + 8 + 4 * i \<noteq> x + 8 + 4 * l" if "i \<le> l" "l < n div 4" for i l using ap that n4(2) n by linarith
  obtain m where m: "memcpy (y + 8) (x + 8) n s = Some (s\<lparr>hmem := m\<rparr>)" "heap_rep (s\<lparr>hmem := m\<rparr>) cs" "cells_ok s0 (s\<lparr>hmem := m\<rparr>)"
    "\<forall>i < n div 4. m (y + 8 + 4 * i) = hmem s (x + 8 + 4 * i)" "same_data (alloc_of cs - {(y, j)}) (hmem s) m"
    by (rule heap_copy [OF h y c n4(1) n x4 map ov])
  show thesis using that [OF m(1-3) moved_dataI [OF m(4)] m(5)] n4(2) by simp
qed

lemma mm_realloc_move_spec:
  assumes u: "mm_unlocked s" and h: "heap_rep s cs" and x: "(x, n, True) \<in> set cs" and m32: "mem32 s" and sz: "0 < sz" "sz + 24 \<le> 2 ^ 32"
    and n: "n < chunk_size sz"
  shows "(\<exists>q m. mm_realloc_move (x + 8) n sz s = Some (Returned q, s\<lparr>hmem := m\<rparr>) \<and> resized cs x n (chunk_size sz) s q (s\<lparr>hmem := m\<rparr>)) \<or>
    mm_realloc_move (x + 8) n sz s = Some (Returned NULL, s) \<and> (\<forall>(y, j) \<in> free_of cs. j < chunk_size sz)"
proof (cases "\<exists>(y, j) \<in> free_of cs. chunk_size sz \<le> j")
  case False
  then have f: "\<forall>(y, j) \<in> free_of cs. j < chunk_size sz" by (simp add: not_le case_prod_beta)
  then have "mm_realloc_move (x + 8) n sz s = Some (Returned NULL, s)" using mm_malloc_none [OF u h sz] by (simp add: mm_realloc_move_def)
  then show ?thesis using f by blast
next
  case True
  obtain cs1 y j m1 where m1: "mm_malloc sz s = Some (Returned (y + 8), s\<lparr>hmem := m1\<rparr>)" "heap_rep (s\<lparr>hmem := m1\<rparr>) cs1"
    "alloc_of cs1 = insert (y, j) (alloc_of cs)" "chunk_size sz \<le> j" "same_data (alloc_of cs) (hmem s) m1" "cells_ok s (s\<lparr>hmem := m1\<rparr>)" "(y, j) \<notin> alloc_of cs"
    by (rule mm_malloc_gets [OF u h m32 sz True])
  define s1 where "s1 = s\<lparr>hmem := m1\<rparr>"
  have h1: "heap_rep s1 cs1" and c1: "cells_ok s s1" and u1: "mm_unlocked s1" using m1(2,6) u by (simp_all add: s1_def)
  have r: "chunk_rep s cs" and r1: "chunk_rep s1 cs1" using h h1 by (simp_all add: heap_rep_def)
  have xa: "(x, n) \<in> alloc_of cs" using x by (simp add: alloc_of_def)
  have in1: "(y, j, True) \<in> set cs1" "(x, n, True) \<in> set cs1" using m1(3) xa by (auto simp: alloc_of_def set_eq_iff)
  have sz16: "n mod 16 = 0" "16 \<le> n" "chunk_size sz mod 16 = 0" using chunk_repD(5) [OF r x] chunk_size_bounds(2) by simp_all
  have nj: "n + 16 \<le> j"
  proof -
    have "16 dvd chunk_size sz - n" using sz16 by (simp add: mod_eq_0_iff_dvd dvd_diff_nat)
    then show ?thesis using n m1(4) dvd_imp_le [of 16 "chunk_size sz - n"] by simp
  qed
  obtain m2 where m2: "memcpy (y + 8) (x + 8) n s1 = Some (s1\<lparr>hmem := m2\<rparr>)" "heap_rep (s1\<lparr>hmem := m2\<rparr>) cs1" "cells_ok s (s1\<lparr>hmem := m2\<rparr>)"
    "moved_data x y n (hmem s1) m2" "same_data (alloc_of cs1 - {(y, j)}) (hmem s1) m2"
    by (rule heap_copy_chunk [OF h1 in1(2,1) _ c1]) (use nj m1(7) xa in auto)
  define s2 where "s2 = s1\<lparr>hmem := m2\<rparr>"
  have h2: "heap_rep s2 cs1" and u2: "mm_unlocked s2" and c2: "cells_ok s s2" using m2(2,3) u1 by (simp_all add: s2_def)
  obtain xs ys where cs1: "cs1 = xs @ (x, n, True) # ys" using split_list [OF in1(2)] by blast
  obtain m where m: "mm_free (x + 8) s2 = Some (Returned (), s2\<lparr>hmem := m\<rparr>)" "heap_rep (s2\<lparr>hmem := m\<rparr>) (release xs x n ys)"
    "same_data (alloc_of (xs @ ys)) (hmem s2) m"
    by (rule mm_free_spec [OF u2 h2 [unfolded cs1]])
  have e: "s2\<lparr>hmem := m\<rparr> = s\<lparr>hmem := m\<rparr>" by (simp add: s2_def s1_def)
  have "alloc_of (xs @ ys) = alloc_of cs1 - {(x, n)}" using alloc_of_rest [OF r1 [unfolded cs1]] by (simp add: cs1)
  also have "\<dots> = insert (y, j) (alloc_of cs - {(x, n)})" using m1(3,7) xa by blast
  finally have al: "alloc_of (xs @ ys) = insert (y, j) (alloc_of cs - {(x, n)})" .
  have ev: "mm_realloc_move (x + 8) n sz s = Some (Returned (y + 8), s\<lparr>hmem := m\<rparr>)"
    using m1(1) m2(1) m(1) e by (simp add: mm_realloc_move_def s1_def [symmetric] s2_def [symmetric])
  have cells: "cells_ok s (s\<lparr>hmem := m\<rparr>)" using cells_ok_trans [OF c2 cells_free [OF u2 cells_okD(1) [OF c2] m(1)]] e by simp
  have "alloc_of cs - {(x, n)} \<subseteq> alloc_of cs1 - {(y, j)}" using m1(3,7) by blast
  then have "same_data (alloc_of cs - {(x, n)}) (hmem s) m1" "same_data (alloc_of cs - {(x, n)}) m1 m2" "same_data (alloc_of cs - {(x, n)}) m2 m"
    using same_data_sub [OF m1(5)] same_data_sub [OF m2(5)] same_data_sub [OF m(3)] al by (auto simp: s1_def s2_def)
  then have d: "same_data (alloc_of cs - {(x, n)}) (hmem s) m" by (blast intro: same_data_trans)
  have mv: "moved_data x y n (hmem s) m"
    using m2(4) m1(5) m(3) xa nj unfolding al by (auto simp: moved_data_def same_data_def s1_def s2_def)
  have "resized cs x n (chunk_size sz) s (y + 8) (s\<lparr>hmem := m\<rparr>)"
    unfolding resized_def using m(2) m1(4,7) al d mv nj cells e
    by (intro exI [of _ "release xs x n ys"] exI [of _ y] exI [of _ j]) (simp add: alloc_of_release)
  then show ?thesis using ev by blast
qed

lemma resized_locked:
  assumes "resized cs x n k (mm_locked s) q ((mm_locked s)\<lparr>hmem := m\<rparr>)"
  shows "resized cs x n k s q (s\<lparr>hmem := m\<rparr>)"
  using assms unfolding resized_def by (simp add: heap_rep_locked_mem cells_ok_def mem32_def)

lemma mm_realloc_spec:
  assumes u: "mm_unlocked s" and h: "heap_rep s cs" and x: "(x, n, True) \<in> set cs" and m32: "mem32 s" and sz: "0 < sz" "sz + 24 \<le> 2 ^ 32"
    and c: "\<forall>c. x \<le> c \<and> c < x + chunk_size sz \<and> c mod 4 = 0 \<longrightarrow> hmem s c \<noteq> None"
  shows "(\<exists>q m. mm_realloc (x + 8) sz s = Some (Returned q, s\<lparr>hmem := m\<rparr>) \<and> resized cs x n (chunk_size sz) s q (s\<lparr>hmem := m\<rparr>)) \<or>
    mm_realloc (x + 8) sz s = Some (Returned NULL, s) \<and> n < chunk_size sz \<and> (\<forall>(y, j) \<in> free_of cs. j < chunk_size sz)"
proof -
  obtain xs ys where cs: "cs = xs @ (x, n, True) # ys" using split_list [OF x] by blast
  let ?s = "mm_locked s"
  have h': "heap_rep ?s (xs @ (x, n, True) # ys)" "mem32 ?s" using h m32 by (simp_all add: heap_rep_locked cs mem32_locked)
  have c': "\<forall>c. x \<le> c \<and> c < x + chunk_size sz \<and> c mod 4 = 0 \<longrightarrow> hmem ?s c \<noteq> None" using c by simp
  note al = align_chunk_size [OF sz(2)] and tk = mm_takesemaphore_unlocked [OF u]
  from mm_realloc_locked_spec [OF h' chunk_size_bounds(1) [OF sz(1)] chunk_size_bounds(2) c'] show ?thesis
  proof (elim disjE exE conjE)
    fix q m assume m: "mm_realloc_locked (x + 8) (chunk_size sz) ?s = Some ((Some q, n), ?s\<lparr>hmem := m\<rparr>)"
      "resized (xs @ (x, n, True) # ys) x n (chunk_size sz) ?s q (?s\<lparr>hmem := m\<rparr>)"
    have "mm_realloc (x + 8) sz s = Some (Returned q, s\<lparr>hmem := m\<rparr>)"
      unfolding mm_realloc_def using sz al tk m(1) by simp
    then show ?thesis using resized_locked [OF m(2)] cs by blast
  next
    assume n: "n < chunk_size sz" and m: "mm_realloc_locked (x + 8) (chunk_size sz) ?s = Some ((None, n), ?s)"
    have "mm_givesemaphore ?s = Some s" using mm_locked_bracket(1) [OF u cells_ok_refl [OF h'(2)]] by simp
    then have "mm_realloc (x + 8) sz s = mm_realloc_move (x + 8) n sz s"
      unfolding mm_realloc_def using sz al tk(1) m by simp
    then show ?thesis using mm_realloc_move_spec [OF u h x m32 sz n] n by metis
  qed
qed

section \<open>Reading beyond the chunk\<close>

lemma memcpy_fault: "hmem s a = None \<Longrightarrow> a mod 4 = 0 \<Longrightarrow> 0 < n \<Longrightarrow> memcpy d a n s = None"
  by (cases n) (simp_all add: getbyte_def)

text \<open>
  The data that is moved down is as long as the extended chunk, so that the copy reads behind the
  old one; it faults if the memory ends there.
\<close>

lemma mm_realloc_prev_fault:
  assumes h: "heap_rep s (zs @ [(w, p, False), (x, n, True)])" and t: "0 < t" "t \<le> p" "t mod 16 = 0"
    and c: "mem32 s" "hmem s (mm_heapend (heap s) + 8) = None"
  shows "mm_realloc_prev w x (x + n) n p t s = None"
proof -
  let ?cs = "zs @ (if t < p then [(w, p - t, False)] else []) @ [(x - t, n + t, True)]"
  obtain m1 where m1: "mm_realloc_prev_head w (x - t) (x + n) n p t s = Some (s\<lparr>hmem := m1\<rparr>)"
    "heap_rep (s\<lparr>hmem := m1\<rparr>) ?cs" "x = w + p"
    by (rule mm_realloc_prev_head_spec [OF h t])
  define s1 where "s1 = s\<lparr>hmem := m1\<rparr>"
  have h1: "heap_rep s1 ?cs" and c1: "cells_ok s s1" using m1(2) cells_prev_head [OF m1(1) cells_ok_refl [OF c(1)]] by (simp_all add: s1_def)
  have r: "chunk_rep s (zs @ [(w, p, False), (x, n, True)])" using h by (simp add: heap_rep_def)
  have r1: "chunk_rep s1 ((zs @ (if t < p then [(w, p - t, False)] else [])) @ [(x - t, n + t, True)])" using h1 by (simp add: heap_rep_def)
  note ia = chunk_in_arena [OF r, of x n True] chunk_in_arena [OF r1, of "x - t" "n + t" True]
  have n: "n mod 16 = 0" "16 \<le> n" using chunk_repD(5) [OF r, of x n True] by simp_all
  have e: "x + n = mm_heapend (heap s)" using chunk_repD(4) [OF r] by (auto simp: contig_append)
  have x: "x mod 16 = 8" "x < 2 ^ 32" "t \<le> x" using ia arena_okD(4) [OF chunk_repD(1) [OF r]] m1(3) t by (auto simp: in_arena_def)
  then have x4: "(x + 8) mod 4 = 0" by (auto elim: mod16E)
  have n4: "n mod 4 = 0" "4 * (n div 4) = n" using n dvd_trans [of 4 16 n] by (simp_all add: mod_eq_0_iff_dvd)
  have t16: "16 \<le> t" using t dvd_imp_le [of 16 t] by (simp add: mod_eq_0_iff_dvd)
  have mp: "\<forall>c. x + 8 \<le> c \<and> c < x + 8 + n \<and> c mod 4 = 0 \<longrightarrow> hmem s c \<noteq> None"
    using chunk_repD(1) [OF r] ia(3,4) unfolding arena_ok_def Let_def by auto
  have ov: "x - t + 8 + 4 * i \<noteq> x + 8 + 4 * l" if "i \<le> l" for i l using that t(1) x(3) by linarith
  have in1: "(x - t, n + t, True) \<in> set ?cs" "n + 8 \<le> n + t" using t16 by simp_all
  obtain m where m: "memcpy (x - t + 8) (x + 8) n s1 = Some (s1\<lparr>hmem := m\<rparr>)" "cells_ok s (s1\<lparr>hmem := m\<rparr>)"
    by (rule heap_copy [OF h1 in1(1) c1 n4(1) in1(2) x4 mp ov])
  have "hmem (s1\<lparr>hmem := m\<rparr>) (x + 8 + n) = None"
    using cells_okD(2) [OF m(2)] c(2) e by (metis domIff add.commute add.left_commute)
  moreover have "(x + 8 + n) mod 4 = 0" using x4 n4(1) by (simp add: mod_eq_0_iff_dvd)
  ultimately have "memcpy (x - t + 8 + n) (x + 8 + n) (t - 8) (s1\<lparr>hmem := m\<rparr>) = None" using t16 by (intro memcpy_fault) simp_all
  then have "memcpy (x - t + 8) (x + 8) (n + (t - 8)) s1 = None" unfolding memcpy_add using m(1) by simp
  moreover have "n + (t - 8) = n + t - 8" using t16 by simp
  moreover have "node_size (x - t) s1 = Some (n + t)" "n + t < 2 ^ 32" using chunk_header(1) [OF r1] ia(10) by (simp_all add: node_size_def)
  ultimately show ?thesis
    unfolding mm_realloc_prev_def using m1(1) x n sub32_eq [of t x] sub32_eq [of 8 "n + t"] by (simp add: s1_def [symmetric])
qed

lemma mm_realloc_fault:
  assumes u: "mm_unlocked s" and h: "heap_rep s (zs @ [(w, p, False), (x, n, True)])" and sz: "0 < sz" "sz + 24 \<le> 2 ^ 32"
    and k: "n < chunk_size sz" "chunk_size sz \<le> p + n" and c: "mem32 s" "hmem s (mm_heapend (heap s) + 8) = None"
  shows "mm_realloc (x + 8) sz s = None"
proof -
  let ?s = "mm_locked s" and ?k = "chunk_size sz"
  have h': "heap_rep ?s (zs @ [(w, p, False), (x, n, True)])" "mem32 ?s" "hmem ?s (mm_heapend (heap ?s) + 8) = None"
    using h c by (simp_all add: heap_rep_locked mem32_locked) (simp add: mm_locked_def)
  have r: "chunk_rep ?s ((zs @ [(w, p, False)]) @ (x, n, True) # [])" using h'(1) by (simp add: heap_rep_def)
  have x: "x = w + p" using chunk_repD(4) [OF r] by (auto simp: contig_append)
  have "n mod 16 = 0" using chunk_repD(5) [OF r, of x n True] by simp
  then have t: "0 < ?k - n" "?k - n \<le> p" "(?k - n) mod 16 = 0" using k chunk_size_bounds(2) [of sz] by (simp_all add: mod_eq_0_iff_dvd dvd_diff_nat)
  have "mm_realloc_locked (x + 8) ?k ?s = None"
    unfolding mm_realloc_locked_grow [OF r k(1)] using k t mm_realloc_prev_fault [OF h'(1) t h'(2,3)] x
    by (simp add: prev_free_def mm_realloc_take_def Let_def)
  then show ?thesis unfolding mm_realloc_def using sz align_chunk_size [OF sz(2)] mm_takesemaphore_unlocked(1) [OF u] by simp
qed

end
