(* ===== verification/MmAlign.thy ===== *)
theory MmAlign
  imports MmRealloc
begin

text \<open>
  The specifications of \<^verbatim>\<open>mm_memalign\<close>, of the operations that clear what they allocate, of
  \<^verbatim>\<open>mm_extend\<close> and of \<^verbatim>\<open>mm_mallinfo\<close>.
\<close>

section \<open>Aligned allocation\<close>

lemma and_not_mask:
  assumes x: "x < 2 ^ 32" and i: "i \<le> 32"
  shows "and x (not32 (2 ^ i - 1)) = x div 2 ^ i * 2 ^ i"
proof -
  have "not32 (2 ^ i - 1) = push_bit i (mask (32 - i))"
  proof -
    have "(2 :: nat) ^ 32 = 2 ^ i * 2 ^ (32 - i)" using i by (simp flip: power_add)
    then show ?thesis by (simp add: not32_def push_bit_eq_mult mask_eq_exp_minus_1 diff_mult_distrib mult.commute [of "2 ^ i"])
  qed
  moreover have "drop_bit i x < 2 ^ (32 - i)"
    using x i by (simp add: drop_bit_eq_div less_mult_imp_div_less flip: power_add)
  then have "and (drop_bit i x) (mask (32 - i)) = drop_bit i x" by (simp add: take_bit_nat_eq_self flip: take_bit_eq_mask)
  ultimately have "and x (not32 (2 ^ i - 1)) = push_bit i (drop_bit i x)" by (simp only: and_push_bit_nat)
  then show ?thesis by (simp add: push_bit_eq_mult drop_bit_eq_div)
qed

text \<open>The head of an allocated chunk becomes a chunk of its own that is not allocated.\<close>

lemma heap_cut:
  assumes r: "chunk_rep s (xs @ [(x, p + n, True)] @ ys)" and f: "free_rep s B (free_of (xs @ ys))"
    and t: "16 \<le> p" "p mod 16 = 0" "16 \<le> n"
  defines "m \<equiv> (hmem s)(x + p \<mapsto> n, x + p + 4 \<mapsto> prec True p, x \<mapsto> p, x + 4 \<mapsto> prec False (lsize 8 xs),
    x + p + n + 4 \<mapsto> prec (snd (snd (next_chunk s ys))) n)"
  shows "do { s \<leftarrow> set_size (x + p) n s; s \<leftarrow> set_preceding (x + p) (or p MM_ALLOC_BIT) s; s \<leftarrow> set_size x p s;
      q \<leftarrow> node_preceding x s; s \<leftarrow> set_preceding x (and q (not32 MM_ALLOC_BIT)) s; k \<leftarrow> node_size (x + p) s;
      mm_fixpreceding (x + p + n) k s } = Some (s\<lparr>hmem := m\<rparr>)"
    "chunk_rep (s\<lparr>hmem := m\<rparr>) (xs @ [(x, p, False), (x + p, n, True)] @ ys) \<and> free_rep (s\<lparr>hmem := m\<rparr>) B (free_of (xs @ ys)) \<and>
     same_data (alloc_of (xs @ ys)) (hmem s) m"
proof -
  let ?M = "[(x, p + n, True)]" and ?M' = "[(x, p, False), (x + p, n, True)]" and ?e = "x + p + n"
  have "(x, p + n, True) \<in> set (xs @ ?M @ ys)" by simp
  note sz = chunk_repD(5) [OF r this]
  have n16: "n mod 16 = 0" using sz t(2) by (metis mod_0_imp_dvd dvd_add_right_iff dvd_imp_mod_0)
  have c: "contig x ?M ?e" "?M \<noteq> []" "fst (hd ?M) = x" using sz t by simp_all
  obtain j g where nx: "next_chunk s ys = (?e, j, g)" by (rule next_chunkE [OF r c]) blast
  note nh = next_header [OF r c nx]
  have r': "chunk_rep s (xs @ (x, p + n, True) # ys)" using r by simp
  note hx = chunk_header [OF r']
  have N: "p + n < 2 ^ 31" using nh(5,7) arena_okD(5) [OF chunk_repD(1) [OF r]] by simp
  have g: "snd (snd (next_chunk s ys)) = g" using nx by simp
  have m16: "(x + p) mod 16 = 8" "(x + p + 4) mod 16 = 12" "(x + 4) mod 16 = 12" "(?e + 4) mod 16 = 12" "x mod 16 = 8"
    using mod16_add [OF hx(4) t(2)] mod16_prec nh(4) hx(4) by simp_all
  have "in_arena s (x + p)" using m16(1) nh(5,7) t by (auto simp: in_arena_def)
  note mk = arena_mem(3) [OF chunk_repD(1) [OF r] this]
  have cells: "hmem s (x + p) \<noteq> None" "hmem s (x + p + 4) \<noteq> None" using mk [of 0] mk [of 4] by simp_all
  have ar: "or p MM_ALLOC_BIT = prec True p" "prec True p < 2 ^ 32" "prec False (lsize 8 xs) = lsize 8 xs" "lsize 8 xs < 2 ^ 32"
    using N or_alloc_bit [of p] hx(3) by (simp_all add: prec_def)
  have dm: "dom m = dom (hmem s)" unfolding m_def using cells hx(1,2) nh(2) by (simp add: insert_absorb domIff)
  have "hmem s (?e + 4) = Some (prec g (p + n))" using nh(2) by simp
  then show "do { s \<leftarrow> set_size (x + p) n s; s \<leftarrow> set_preceding (x + p) (or p MM_ALLOC_BIT) s; s \<leftarrow> set_size x p s;
      q \<leftarrow> node_preceding x s; s \<leftarrow> set_preceding x (and q (not32 MM_ALLOC_BIT)) s; k \<leftarrow> node_size (x + p) s;
      mm_fixpreceding ?e k s } = Some (s\<lparr>hmem := m\<rparr>)"
    using cells hx(1-3) N t ar
    by (simp add: set_size_def set_preceding_def node_size_def node_preceding_def hstore_eq fixpreceding_eq [where p = "p + n" and f = g] m_def g)
  show "chunk_rep (s\<lparr>hmem := m\<rparr>) (xs @ ?M' @ ys) \<and> free_rep (s\<lparr>hmem := m\<rparr>) B (free_of (xs @ ys)) \<and>
     same_data (alloc_of (xs @ ys)) (hmem s) m"
  proof (rule heap_rewrite [OF r f subset_refl c _ _ _ _ _ dm])
    show "contig x ?M' ?e" "\<forall>(z, n, b) \<in> set ?M'. n mod 16 = 0 \<and> 16 \<le> n" using t n16 by simp_all
    show "x \<le> c \<and> c < ?e + 8 \<and> c \<noteq> ?e \<and> (c mod 16 = 8 \<or> c mod 16 = 12)" if "m c \<noteq> hmem s c" for c
    proof -
      have "c = x \<or> c = x + 4 \<or> c = x + p \<or> c = x + p + 4 \<or> c = ?e + 4" using that by (auto simp: m_def split: if_splits)
      then show ?thesis by (elim disjE) (use m16 t in simp_all)
    qed
    show "m (?e + 4) = Some (prec (snd (snd (next_chunk s ys))) (lsize (lsize 8 xs) ?M'))"
      "headers m (lsize 8 xs) ?M'" using t by (simp_all add: m_def)
  qed
qed

lemma mm_memalign_head_spec:
  assumes h: "heap_rep s (xs @ (x, p + n, True) # ys)" and t: "16 \<le> p" "p mod 16 = 0" "16 \<le> n" and l: "xs = [] \<or> snd (snd (last xs))"
  obtains m where "mm_memalign_head alignment (x + 8) x (x + p + 8) s = Some ((x + p, x + p + 8, n - 8), s\<lparr>hmem := m\<rparr>)"
    "heap_rep (s\<lparr>hmem := m\<rparr>) (xs @ (x, p, False) # (x + p, n, True) # ys)" "same_data (alloc_of (xs @ ys)) (hmem s) m"
proof -
  obtain B where B: "free_rep s B (free_of (xs @ ys))" and r: "chunk_rep s (xs @ (x, p + n, True) # ys)" and co: "coalesced (xs @ (x, p + n, True) # ys)"
    using h by (auto simp: heap_rep_def)
  have r': "chunk_rep s (xs @ [(x, p + n, True)] @ ys)" using r by simp
  note hx = chunk_header [OF r] and ct = heap_cut [OF r' B t]
  have x: "x + p + n + 8 < 2 ^ 32" using chunk_in_arena(3) [OF r, of x "p + n" True] arena_okD(4) [OF chunk_repD(1) [OF r]] by simp
  define m1 where "m1 = (hmem s)(x + p \<mapsto> n, x + p + 4 \<mapsto> prec True p, x \<mapsto> p, x + 4 \<mapsto> prec False (lsize 8 xs),
    x + p + n + 4 \<mapsto> prec (snd (snd (next_chunk s ys))) n)"
  define s1 where "s1 = s\<lparr>hmem := m1\<rparr>"
  let ?cs = "xs @ (x, p, False) # (x + p, n, True) # ys"
  have r1: "chunk_rep s1 ?cs" "free_rep s1 B (free_of (xs @ ys))" "same_data (alloc_of (xs @ ys)) (hmem s) m1"
    using ct(2) by (simp_all add: s1_def m1_def)
  obtain m B' where m: "mm_addfreechunk x s1 = Some (s1\<lparr>hmem := m\<rparr>)" "chunk_rep (s1\<lparr>hmem := m\<rparr>) ?cs"
    "free_rep (s1\<lparr>hmem := m\<rparr>) B' (insert (x, p) (free_of (xs @ ys)))" "same_data (alloc_of ?cs) (hmem s1) m"
    by (rule heap_addfree [OF r1(1,2), of x p]) (use chunk_rep_notin [OF r1(1)] in auto)
  have n1: "node_size (x + p) s1 = Some n" using chunk_header(1) [of s1 "xs @ [(x, p, False)]" "x + p" n True ys] r1(1) by (simp add: node_size_def)
  have cv: "do { s \<leftarrow> set_size (x + p) n s; s \<leftarrow> set_preceding (x + p) (or p MM_ALLOC_BIT) s; s \<leftarrow> set_size x p s;
      q \<leftarrow> node_preceding x s; s \<leftarrow> set_preceding x (and q (not32 MM_ALLOC_BIT)) s; k \<leftarrow> node_size (x + p) s;
      mm_fixpreceding (x + p + n) k s } = Some s1"
    using ct(1) by (simp add: s1_def m1_def)
  have ar: "sub32 (x + p + 8) 8 = x + p" "sub32 (x + p) x = p" "sub32 (x + (p + n)) (x + p) = n" "sub32 n 8 = n - 8" "u32 (x + 8 + 8) = x + 8 + 8"
    using x t sub32_eq [of 8 "x + p + 8"] sub32_eq [of x "x + p"] sub32_eq [of "x + p" "x + (p + n)"] sub32_eq [of 8 n] by (simp_all add: u32_def)
  have ns: "node_size x s = Some (p + n)" using hx(1) by (simp add: node_size_def)
  have "mm_memalign_head alignment (x + 8) x (x + p + 8) s = Some ((x + p, x + p + 8, n - 8), s1\<lparr>hmem := m\<rparr>)"
    unfolding mm_memalign_head_def using cv n1 m(1) ns t ar x
    by (auto simp: Let_def debugassert_def bind_eq_Some_conv add.assoc [symmetric])
  moreover have "coalesced ?cs" using co l by (auto simp: coalesced_def successively_append_iff successively_Cons)
  moreover have "same_data (alloc_of (xs @ ys)) (hmem s) m"
    by (rule same_data_trans [OF r1(3)], rule same_data_sub [OF m(4) [unfolded s1_def, simplified]]) auto
  ultimately show thesis using that [of m] m(2,3) by (auto simp: heap_rep_def s1_def)
qed

text \<open>The distance from an address to the next multiple of a power of two.\<close>

lemma align_dist:
  fixes a d :: nat
  assumes a: "a mod 16 = 0" and d: "d mod 16 = 0" "0 < d"
  obtains p where "(a + (d - 1)) div d * d = a + p" "p < d" "p mod 16 = 0" "(a + p) mod d = 0"
proof -
  define b where "b = (a + (d - 1)) div d * d"
  have "b + (a + (d - 1)) mod d = a + (d - 1)" by (simp add: b_def)
  moreover have "(a + (d - 1)) mod d < d" using d(2) by simp
  ultimately have ab: "a \<le> b" "b < a + d" by linarith+
  have "16 dvd b" using d(1) by (simp add: b_def mod_eq_0_iff_dvd)
  then have "(b - a) mod 16 = 0" using a by (simp add: mod_eq_0_iff_dvd dvd_diff_nat)
  moreover have "b mod d = 0" by (simp add: b_def)
  ultimately show thesis using that [of "b - a"] ab unfolding b_def [symmetric] by simp
qed

lemma pow2_16:
  assumes "al = 2 ^ i" "16 < (al :: nat)"
  shows "32 \<le> al" "al mod 16 = 0"
proof -
  have "\<not> i \<le> 4" using assms power_increasing [of i 4 "2 :: nat"] by auto
  then have "(2 :: nat) ^ 5 dvd al" unfolding assms(1) by (intro le_imp_power_dvd) simp
  then obtain b where "al = 32 * b" by (auto elim: dvdE)
  then show "32 \<le> al" "al mod 16 = 0" using assms(2) by (cases b, simp_all)
qed

lemma chunk_size_16: "k mod 16 = 0 \<Longrightarrow> chunk_size k = k + 16"
  by (auto simp: chunk_size_def mod_eq_0_iff_dvd elim!: dvdE)

lemma mm_memalign_locked_spec:
  assumes h: "heap_rep s (xs @ (x, j, True) # ys)" and l: "xs = [] \<or> snd (snd (last xs))"
    and al: "al = 2 ^ i" "16 < al" and k: "k mod 16 = 0" "k + 2 * al + 16 \<le> j"
  obtains p m zs where "mm_memalign_locked al k (k + 2 * al) (x + 8) s = Some (x + p + 8, s\<lparr>hmem := m\<rparr>)" "(x + p + 8) mod al = 0"
    "heap_rep (s\<lparr>hmem := m\<rparr>) zs" "alloc_of zs = insert (x + p, k + 16) (alloc_of (xs @ ys))" "same_data (alloc_of (xs @ ys)) (hmem s) m" "p < al"
proof -
  have r: "chunk_rep s (xs @ (x, j, True) # ys)" using h by (simp add: heap_rep_def)
  note hx = chunk_header [OF r] and ia = chunk_in_arena [OF r, of x j True]
  have xj: "x + j + 8 < 2 ^ 32" using ia(3) arena_okD(4) [OF chunk_repD(1) [OF r]] by simp
  have "al < 2 ^ 32" using k(2) xj by linarith
  then have i: "i \<le> 32" unfolding al(1) by (intro less_imp_le) (rule power_less_imp_less_exp [of 2], simp_all)
  note al16 = pow2_16 [OF al]
  have x16: "(x + 8) mod 16 = 0" using hx(4) by (auto elim: mod16E)
  obtain p where p: "(x + 8 + (al - 1)) div al * al = x + 8 + p" "p < al" "p mod 16 = 0" "(x + 8 + p) mod al = 0"
    by (rule align_dist [OF x16 al16(2)]) (use al(2) in simp)
  have ar: "sub32 al 1 = al - 1" "sub32 (x + 8) 8 = x" "u32 (x + 8 + (al - 1)) = x + 8 + (al - 1)"
    using al k xj sub32_eq [of 1 al] sub32_eq [of 8 "x + 8"] by (simp_all add: u32_def)
  have A: "and (u32 (x + 8 + (al - 1))) (not32 (al - 1)) = x + p + 8"
    using and_not_mask [of "x + 8 + (al - 1)" i] i al k xj p(1) ar(3) by (simp add: add.commute add.left_commute)
  have up: "MM_ALIGN_UP (u32 (k + 8)) = k + 16"
  proof -
    have "k + 24 \<le> 2 ^ 32" using k(2) xj al(2) by simp
    then show ?thesis using align_chunk_size [of k] chunk_size_16 [OF k(1)] by simp
  qed
  have "\<exists>n m1 zs. j = p + n \<and> (if x + p + 8 \<noteq> x + 8 then mm_memalign_head al (x + 8) x (x + p + 8) s else Some ((x, x + p + 8, k + 2 * al), s)) =
      Some ((x + p, x + p + 8, if p = 0 then k + 2 * al else n - 8), s\<lparr>hmem := m1\<rparr>) \<and>
      heap_rep (s\<lparr>hmem := m1\<rparr>) (zs @ (x + p, n, True) # ys) \<and> alloc_of zs = alloc_of xs \<and> same_data (alloc_of (xs @ ys)) (hmem s) m1"
  proof (cases "p = 0")
    case True
    then show ?thesis using h by (intro exI [of _ j] exI [of _ "hmem s"] exI [of _ xs]) simp
  next
    case False
    define n where "n = j - p"
    have p16: "16 \<le> p" "j = p + n" "16 \<le> n" using False p(2,3) k al dvd_imp_le [of 16 p] by (auto simp: mod_eq_0_iff_dvd n_def)
    obtain m where "mm_memalign_head al (x + 8) x (x + p + 8) s = Some ((x + p, x + p + 8, n - 8), s\<lparr>hmem := m\<rparr>)"
      "heap_rep (s\<lparr>hmem := m\<rparr>) (xs @ (x, p, False) # (x + p, n, True) # ys)" "same_data (alloc_of (xs @ ys)) (hmem s) m"
      by (rule mm_memalign_head_spec [OF h [unfolded p16(2)] p16(1) p(3) p16(3) l])
    then show ?thesis using False p16 by (intro exI [of _ n] exI [of _ m] exI [of _ "xs @ [(x, p, False)]"]) simp
  qed
  then obtain n m1 zs where m1: "j = p + n" "(if x + p + 8 \<noteq> x + 8 then mm_memalign_head al (x + 8) x (x + p + 8) s else Some ((x, x + p + 8, k + 2 * al), s)) =
      Some ((x + p, x + p + 8, if p = 0 then k + 2 * al else n - 8), s\<lparr>hmem := m1\<rparr>)"
    "heap_rep (s\<lparr>hmem := m1\<rparr>) (zs @ (x + p, n, True) # ys)" "alloc_of zs = alloc_of xs" "same_data (alloc_of (xs @ ys)) (hmem s) m1"
    by blast
  obtain n' ys' where ab: "absorb n ys = (n', ys')" by fastforce
  have k16: "16 \<le> k + 16" "(k + 16) mod 16 = 0" "k + 16 < n" "k + 16 < (if p = 0 then k + 2 * al else n - 8)"
    using k m1(1) p(2) al16(1) by (auto simp: mod_eq_0_iff_dvd)
  obtain m where m: "mm_shrinkchunk (x + p) (k + 16) (s\<lparr>hmem := m1\<rparr>) = Some (s\<lparr>hmem := m1\<rparr>\<lparr>hmem := m\<rparr>)"
    "heap_rep (s\<lparr>hmem := m1\<rparr>\<lparr>hmem := m\<rparr>) (zs @ (x + p, k + 16, True) # (x + p + (k + 16), n' - (k + 16), False) # ys')"
    "same_data (insert (x + p, k + 16) (alloc_of (zs @ ys))) (hmem (s\<lparr>hmem := m1\<rparr>)) m"
    by (rule mm_shrinkchunk_spec [OF m1(3) k16(1-3) ab])
  have "mm_memalign_locked al k (k + 2 * al) (x + 8) s = Some (x + p + 8, s\<lparr>hmem := m\<rparr>)"
    unfolding mm_memalign_locked_def Let_def SIZEOF_MM_ALLOCNODE_def ar(1,2) A up m1(2) using k16(4) m(1) by simp
  moreover have "alloc_of ys' = alloc_of ys" using coalesced_absorb(3) [OF _ ab] m1(3) by (auto simp: heap_rep_def)
  moreover have "same_data (alloc_of (xs @ ys)) (hmem s) m"
    by (rule same_data_trans [OF m1(5)], rule same_data_sub [OF m(3) [simplified]]) (use m1(4) in auto)
  moreover have "(x + p + 8) mod al = 0" using p(4) by (simp add: ac_simps)
  ultimately show thesis using that [OF _ _ m(2) [simplified]] m1(4) p(2) by simp
qed

lemma cells_memalign_head: "mm_memalign_head al c x a s = Some (r, s') \<Longrightarrow> cells_ok s0 s \<Longrightarrow> cells_ok s0 s'"
  unfolding mm_memalign_head_def by (auto simp: bind_eq_Some_conv Let_def debugassert_def split: if_splits) (meson cells_steps)+

lemma cells_memalign_locked: "mm_memalign_locked al k n c s = Some (r, s') \<Longrightarrow> cells_ok s0 s \<Longrightarrow> cells_ok s0 s'"
  unfolding mm_memalign_locked_def
  by (auto simp: bind_eq_Some_conv Let_def split: if_splits dest: cells_memalign_head cells_shrinkchunk)

lemma chunk_no_overlap:
  assumes "heap_rep s cs" "(x, n, b) \<in> set cs" "(y, k, c) \<in> set cs" "y \<le> x" "x < y + k"
  shows "(x, n, b) = (y, k, c)"
proof -
  have r: "chunk_rep s cs" using assms(1) by (simp add: heap_rep_def)
  have "16 \<le> n" using chunk_repD(5) [OF r assms(2)] by simp
  then show ?thesis using contig_apart [OF chunk_repD(4) [OF r] assms(2,3)] assms(4,5) by auto
qed

lemma mm_memalign_spec:
  assumes u: "mm_unlocked s" and h: "heap_rep s cs" and m32: "mem32 s" and al: "al = 2 ^ i" "16 < al" and sz: "sz + 2 * al + 39 \<le> 2 ^ 32"
  defines "k \<equiv> (sz + 15) div 16 * 16"
  shows "(\<exists>p m zs. mm_memalign al sz s = Some (Returned p, s\<lparr>hmem := m\<rparr>) \<and> p mod al = 0 \<and> p \<noteq> NULL \<and> heap_rep (s\<lparr>hmem := m\<rparr>) zs \<and>
      8 \<le> p \<and> alloc_of zs = insert (p - 8, k + 16) (alloc_of cs) \<and> (p - 8, k + 16) \<notin> alloc_of cs \<and>
      same_data (alloc_of cs) (hmem s) m \<and> cells_ok s (s\<lparr>hmem := m\<rparr>)) \<or>
    mm_memalign al sz s = Some (Returned NULL, s) \<and> (\<forall>(y, j) \<in> free_of cs. j < k + 2 * al + 16)"
proof -
  note al32 = pow2_16 [OF al]
  have k16: "k mod 16 = 0" "sz \<le> k" "k < sz + 16" by (simp_all add: k_def)
  have K: "MM_ALIGN_UP sz = k" "u32 (k + 2 * al) = k + 2 * al"
    using sz k16 by (simp_all add: MM_ALIGN_UP_eq u32_def k_def)
  have "(k + 2 * al) mod 16 = 0" using k16(1) al32 by (simp add: mod_eq_0_iff_dvd)
  then have cs16: "chunk_size (k + 2 * al) = k + 2 * al + 16" by (rule chunk_size_16)
  have sz': "0 < k + 2 * al" "k + 2 * al + 24 \<le> 2 ^ 32" using al k16 sz by simp_all
  have ev: "mm_memalign al sz s = do { (r, s) \<leftarrow> mm_malloc (k + 2 * al) s;
    case r of Switched saved_errno \<Rightarrow> Some (Switched saved_errno, s) | Returned rawchunk \<Rightarrow> if rawchunk = 0 then Some (Returned NULL, s)
      else do { (got, s) \<leftarrow> mm_takesemaphore s;
        case got of Switched saved_errno \<Rightarrow> Some (Switched saved_errno, s)
        | Returned _ \<Rightarrow> do { (p, s) \<leftarrow> mm_memalign_locked al k (k + 2 * al) rawchunk s; s \<leftarrow> mm_givesemaphore s; Some (Returned p, s) } } }"
    unfolding mm_memalign_def Let_def K using al(2) by simp
  show ?thesis
  proof (cases "\<exists>(y, j) \<in> free_of cs. chunk_size (k + 2 * al) \<le> j")
    case False
    then have f: "\<forall>(y, j) \<in> free_of cs. j < chunk_size (k + 2 * al)" by (simp add: not_le case_prod_beta)
    then have "mm_memalign al sz s = Some (Returned NULL, s)" unfolding ev using mm_malloc_none [OF u h sz'] by simp
    then show ?thesis using f cs16 by auto
  next
    case True
    obtain xs y n ys m1 where m1: "cs = xs @ (y, n, False) # ys" "best_fit (free_of cs) (chunk_size (k + 2 * al)) y n"
      "mm_malloc (k + 2 * al) s = Some (Returned (y + 8), s\<lparr>hmem := m1\<rparr>)"
      "heap_rep (s\<lparr>hmem := m1\<rparr>) (xs @ carve y n (chunk_size (k + 2 * al)) @ ys)" "same_data (alloc_of cs) (hmem s) m1"
      by (rule mm_malloc_some [OF u h sz' True])
    define s1 where "s1 = s\<lparr>hmem := m1\<rparr>"
    have u1: "mm_unlocked s1" "mem32 s1" using u cells_okD(1) [OF cells_malloc [OF u m32 m1(3)]] by (simp_all add: s1_def)
    have "k + 2 * al + 16 \<le> n" using m1(2) cs16 by (simp add: best_fit_def)
    then obtain j zs where j: "xs @ carve y n (chunk_size (k + 2 * al)) @ ys = xs @ (y, j, True) # zs" "k + 2 * al + 16 \<le> j" "alloc_of (xs @ zs) = alloc_of cs"
      by (cases "n - chunk_size (k + 2 * al) < 16") (auto simp: carve_def m1(1) cs16)
    have l: "xs = [] \<or> snd (snd (last xs))"
      using h by (auto simp: m1(1) heap_rep_def coalesced_def successively_append_iff successively_Cons)
    have h1: "heap_rep (mm_locked s1) (xs @ (y, j, True) # zs)" using m1(4) j(1) by (simp add: s1_def heap_rep_locked)
    obtain p m ws where m: "mm_memalign_locked al k (k + 2 * al) (y + 8) (mm_locked s1) = Some (y + p + 8, (mm_locked s1)\<lparr>hmem := m\<rparr>)"
      "(y + p + 8) mod al = 0" "heap_rep ((mm_locked s1)\<lparr>hmem := m\<rparr>) ws" "alloc_of ws = insert (y + p, k + 16) (alloc_of (xs @ zs))"
      "same_data (alloc_of (xs @ zs)) (hmem (mm_locked s1)) m" "p < al"
      by (rule mm_memalign_locked_spec [OF h1 l al k16(1) j(2)])
    have "mm_memalign al sz s = Some (Returned (y + p + 8), s\<lparr>hmem := m\<rparr>)"
      unfolding ev using m1(3) m(1) mm_takesemaphore_unlocked [OF u1(1)] by (simp add: s1_def)
    moreover have "heap_rep (s\<lparr>hmem := m\<rparr>) ws" using m(3) by (simp add: heap_rep_locked_mem s1_def)
    moreover have "same_data (alloc_of cs) (hmem s) m" using same_data_trans [OF m1(5)] m(5) j(3) by (simp add: s1_def)
    moreover have "(y + p, k + 16) \<notin> alloc_of cs"
    proof
      assume "(y + p, k + 16) \<in> alloc_of cs"
      then have "(y + p, k + 16, True) \<in> set cs" by (simp add: alloc_of_def)
      then show False using chunk_no_overlap [OF h, of "y + p" "k + 16" True y n False] m(6) \<open>k + 2 * al + 16 \<le> n\<close> by (simp add: m1(1))
    qed
    moreover have "cells_ok s (s\<lparr>hmem := m\<rparr>)"
    proof -
      have "cells_ok s1 (s1\<lparr>hmem := m\<rparr>)"
        using mm_locked_bracket(2) [OF u1(1) cells_memalign_locked [OF m(1) cells_ok_refl]] u1(2) by (simp add: mem32_locked)
      then show ?thesis using cells_ok_trans [of s s1] cells_malloc [OF u m32 m1(3)] by (simp add: s1_def)
    qed
    ultimately show ?thesis using m(2,4) j(3) by (intro disjI1 exI [of _ "y + p + 8"] exI [of _ m] exI [of _ ws]) simp
  qed
qed

end
