(* ===== verification/Spec2Isabelle.thy ===== *)
theory Spec2Isabelle
  imports MmThms MmAlign
begin

text \<open>
  A verification of parts of the real-time operating system BaseNx (NuttX), as configured
  in \<^verbatim>\<open>src/nuttx/configs/stm32f103rc/nsh/defconfig\<close>.
\<close>

end
